(* ===== verification/Prelude.thy ===== *)
theory Prelude
  imports Main "HOL-Library.Char_ord" "HOL-Library.List_Lexorder"
begin

text \<open>
  Shared vocabulary of the development: the errors the C++ code can raise, the
  state-and-exception shape its member functions have, bytes and little-endian
  fixed-width integers, reads and writes of a byte buffer, and generic facts on lists.

  A C++ \<open>std::string\<close> or \<open>char\<close> buffer is a \<^typ>\<open>string\<close>, that is a list of
  8-bit characters. The host is little-endian, as the comment in
  \<open>recovery/wal.cpp\<close> says of the encoding it produces.
\<close>

section \<open>Errors and stateful computations\<close>

text \<open>
  \<open>RuntimeError\<close> is a thrown \<open>std::runtime_error\<close>, \<open>OutOfRange\<close> the
  \<open>std::out_of_range\<close> of the standard library, and \<open>MemFault\<close> an access outside a
  buffer or vector, which C++ leaves undefined.
\<close>

datatype db_error = RuntimeError string | OutOfRange | MemFault

type_synonym ('s, 'a) stm = "'s \<Rightarrow> (db_error + 'a) \<times> 's"

definition retS :: "'a \<Rightarrow> ('s, 'a) stm" where
  "retS x = (\<lambda>s. (Inr x, s))"

definition failS :: "db_error \<Rightarrow> ('s, 'a) stm" where
  "failS e = (\<lambda>s. (Inl e, s))"

text \<open>Sequencing: an exception skips the rest and keeps the state reached so far.\<close>

definition bindS :: "('s, 'a) stm \<Rightarrow> ('a \<Rightarrow> ('s, 'b) stm) \<Rightarrow> ('s, 'b) stm" where
  "bindS m f = (\<lambda>s. case m s of (Inl e, s') \<Rightarrow> (Inl e, s') | (Inr x, s') \<Rightarrow> f x s')"

definition bindE :: "('e + 'a) \<Rightarrow> ('a \<Rightarrow> 'e + 'b) \<Rightarrow> 'e + 'b" where
  "bindE r f = (case r of Inl e \<Rightarrow> Inl e | Inr x \<Rightarrow> f x)"

definition liftS :: "(db_error + 'a) \<Rightarrow> ('s, 'a) stm" where
  "liftS r = (\<lambda>s. (r, s))"

lemma bindE_simps [simp]:
  "bindE (Inl e) f = Inl e"
  "bindE (Inr x) f = f x"
  by (simp_all add: bindE_def)

lemma bindE_Inr_iff: "bindE r f = Inr y \<longleftrightarrow> (\<exists>x. r = Inr x \<and> f x = Inr y)"
  by (cases r) auto

lemma bindE_cong [fundef_cong]:
  "r = r' \<Longrightarrow> (\<And>x. r' = Inr x \<Longrightarrow> f x = g x) \<Longrightarrow> bindE r f = bindE r' g"
  by (cases r') auto

lemma bindE_Inl_iff: "bindE r f = Inl e \<longleftrightarrow> r = Inl e \<or> (\<exists>x. r = Inr x \<and> f x = Inl e)"
  by (cases r) auto

lemma retS_app [simp]: "retS x s = (Inr x, s)"
  by (simp add: retS_def)

lemma failS_app [simp]: "failS e s = (Inl e, s)"
  by (simp add: failS_def)

lemma liftS_app [simp]: "liftS r s = (r, s)"
  by (simp add: liftS_def)

lemma bindS_Inr: "m s = (Inr x, s') \<Longrightarrow> bindS m f s = f x s'"
  by (simp add: bindS_def)

lemma bindS_Inl: "m s = (Inl e, s') \<Longrightarrow> bindS m f s = (Inl e, s')"
  by (simp add: bindS_def)

lemma bindS_ret [simp]: "bindS (retS x) f = f x"
  by (rule ext) (simp add: bindS_def)

lemma bindS_fail [simp]: "bindS (failS e) f = failS e"
  by (rule ext) (simp add: bindS_def)

lemma bindS_lift_Inr [simp]: "bindS (liftS (Inr x)) f = f x"
  by (rule ext) (simp add: bindS_def)

lemma bindS_lift_Inl [simp]: "bindS (liftS (Inl e)) f = failS e"
  by (rule ext) (simp add: bindS_def)

text \<open>A loop over a list whose body may throw.\<close>

fun mapE :: "('a \<Rightarrow> 'e + 'b) \<Rightarrow> 'a list \<Rightarrow> 'e + 'b list" where
  "mapE f [] = Inr []"
| "mapE f (x # xs) = bindE (f x) (\<lambda>y. bindE (mapE f xs) (\<lambda>ys. Inr (y # ys)))"

lemma mapE_append: "mapE f (xs @ ys) = bindE (mapE f xs) (\<lambda>us. bindE (mapE f ys) (\<lambda>vs. Inr (us @ vs)))"
  by (induction xs) (auto simp: bindE_def split: sum.splits)

lemma mapE_Inr: "(\<And>x. x \<in> set xs \<Longrightarrow> f x = Inr (g x)) \<Longrightarrow> mapE f xs = Inr (map g xs)"
  by (induction xs) auto

section \<open>Little-endian integers\<close>

text \<open>\<open>le_bytes k n\<close>: the low \<open>k\<close> bytes of \<open>n\<close>, least significant first.\<close>

fun le_bytes :: "nat \<Rightarrow> nat \<Rightarrow> string" where
  "le_bytes 0 n = []"
| "le_bytes (Suc k) n = char_of (n mod 256) # le_bytes k (n div 256)"

fun le_val :: "string \<Rightarrow> nat" where
  "le_val [] = 0"
| "le_val (c # cs) = of_char c + 256 * le_val cs"

lemma length_le_bytes [simp]: "length (le_bytes k n) = k"
  by (induction k arbitrary: n) auto

lemma le_val_le_bytes [simp]: "le_val (le_bytes k n) = n mod 256 ^ k"
proof (induction k arbitrary: n)
  case 0
  show ?case by simp
next
  case (Suc k)
  have "le_val (le_bytes (Suc k) n) = n mod 256 + 256 * (n div 256 mod 256 ^ k)"
    by (simp add: Suc.IH)
  also have "\<dots> = n mod (256 * 256 ^ k)"
    by (simp add: mod_mult2_eq)
  finally show ?case by simp
qed

lemma le_val_bound: "le_val cs < 256 ^ length cs"
proof (induction cs)
  case Nil
  show ?case by simp
next
  case (Cons c cs)
  define P :: nat where "P = 256 ^ length cs"
  have "of_char c < (256::nat)" by simp
  moreover have "le_val cs + 1 \<le> P" using Cons.IH by (simp add: P_def)
  ultimately have "of_char c + 256 * le_val cs < 256 * P" by linarith
  then show ?case by (simp add: P_def)
qed

lemma le_bytes_le_val: "le_bytes (length cs) (le_val cs) = cs"
  by (induction cs) (auto simp: div_add1_eq)

text \<open>Two's-complement reading of an \<open>n\<close>-bit pattern, and its range.\<close>

definition to_signed :: "nat \<Rightarrow> nat \<Rightarrow> int" where
  "to_signed w n = (if n < 2 ^ (w - 1) then int n else int n - 2 ^ w)"

definition of_signed :: "nat \<Rightarrow> int \<Rightarrow> nat" where
  "of_signed w i = nat (i mod 2 ^ w)"

definition in_int64 :: "int \<Rightarrow> bool" where
  "in_int64 i \<longleftrightarrow> - (2 ^ 63) \<le> i \<and> i < 2 ^ 63"

lemma of_signed_64_bound: "of_signed 64 i < 2 ^ 64"
  by (simp add: of_signed_def nat_less_iff)

lemma to_of_signed_64: "in_int64 i \<Longrightarrow> to_signed 64 (of_signed 64 i) = i"
proof (cases "0 \<le> i")
  case True
  assume "in_int64 i"
  with True show ?thesis
    by (simp add: in_int64_def to_signed_def of_signed_def)
next
  case False
  assume r: "in_int64 i"
  have "i mod 2 ^ 64 = (i + 2 ^ 64) mod 2 ^ 64" by simp
  also have "\<dots> = i + 2 ^ 64"
    using False r by (intro mod_pos_pos_trivial) (auto simp: in_int64_def)
  finally show ?thesis using False r
    by (simp add: in_int64_def to_signed_def of_signed_def)
qed

section \<open>Byte buffers\<close>

definition slice :: "nat \<Rightarrow> nat \<Rightarrow> 'a list \<Rightarrow> 'a list" where
  "slice off n xs = take n (drop off xs)"

definition blit :: "nat \<Rightarrow> 'a list \<Rightarrow> 'a list \<Rightarrow> 'a list" where
  "blit off src dst = take off dst @ src @ drop (off + length src) dst"

lemma length_slice [simp]: "length (slice off n xs) = min n (length xs - off)"
  by (simp add: slice_def)

lemma length_blit [simp]:
  "off + length src \<le> length dst \<Longrightarrow> length (blit off src dst) = length dst"
  by (simp add: blit_def)

lemma blit_nth:
  assumes "off + length src \<le> length dst" "i < length dst"
  shows "blit off src dst ! i =
    (if off \<le> i \<and> i < off + length src then src ! (i - off) else dst ! i)"
  using assms by (auto simp: blit_def nth_append min_def)

lemma slice_blit_same:
  "off + length src \<le> length dst \<Longrightarrow> n = length src \<Longrightarrow> slice off n (blit off src dst) = src"
  by (simp add: slice_def blit_def)

lemma slice_blit_other:
  assumes "off + length src \<le> length dst" "o' + n \<le> off \<or> off + length src \<le> o'"
  shows "slice o' n (blit off src dst) = slice o' n dst"
proof (rule nth_equalityI)
  show "length (slice o' n (blit off src dst)) = length (slice o' n dst)"
    using assms by simp
next
  fix i
  assume "i < length (slice o' n (blit off src dst))"
  then have "i < n" "o' + i < length dst" using assms by auto
  then show "slice o' n (blit off src dst) ! i = slice o' n dst ! i"
    using assms by (auto simp: slice_def blit_nth)
qed

lemma slice_append_left: "off + n \<le> length xs \<Longrightarrow> slice off n (xs @ ys) = slice off n xs"
  by (simp add: slice_def)

lemma slice_zero [simp]: "slice off 0 xs = []"
  by (simp add: slice_def)

text \<open>Checked access, for the places where nothing in the code rules out a bad offset.\<close>

definition mem_read :: "nat \<Rightarrow> nat \<Rightarrow> string \<Rightarrow> db_error + string" where
  "mem_read off n m = (if off + n \<le> length m then Inr (slice off n m) else Inl MemFault)"

definition mem_write :: "nat \<Rightarrow> string \<Rightarrow> string \<Rightarrow> db_error + string" where
  "mem_write off src m = (if off + length src \<le> length m then Inr (blit off src m) else Inl MemFault)"

section \<open>Generic list facts\<close>

lemma takeWhile_less_sorted:
  fixes k :: "'a::linorder"
  assumes "sorted_wrt (<) ks"
  shows "takeWhile (\<lambda>x. x < k) ks = filter (\<lambda>x. x < k) ks"
  using assms by (induction ks) (auto intro!: sym [OF filter_False] dest: less_trans)

lemma nth_list_update_map: "i < length xs \<Longrightarrow> map f (xs[i := y]) = (map f xs)[i := f y]"
  by (simp add: map_update)

lemma map_of_NoneI: "(\<And>v. (k, v) \<notin> set xs) \<Longrightarrow> map_of xs k = None"
  by (auto simp: map_of_eq_None_iff)

end
