(* ===== verification/SlottedPage.thy ===== *)
theory SlottedPage
  imports Prelude
begin

text \<open>
  The slotted page of \<open>storage/page.hpp\<close>: a view over a buffer of \<open>PAGE_SIZE\<close> bytes.
  Bytes 0 and 1 hold \<open>num_slots\<close>, bytes 2 and 3 \<open>free_ptr\<close>; the slot directory grows up
  from byte 4, tuple bytes grow down from the end. The 16-bit arithmetic of
  \<open>freeSpace\<close> is written out modulo \<open>2 ^ 16\<close>. Accesses whose offset the code does not
  bound by the type of the buffer go through \<^const>\<open>mem_read\<close> and \<^const>\<open>mem_write\<close>.

  The abstraction \<open>page_tuples\<close> is the list of slots, \<open>None\<close> for a tombstone; each
  operation refines one list operation on it.
\<close>

definition PAGE_SIZE :: nat where "PAGE_SIZE = 4096"
definition HEADER_SIZE :: nat where "HEADER_SIZE = 4"
definition SLOT_SIZE :: nat where "SLOT_SIZE = 4"

definition u16 :: "nat \<Rightarrow> nat" where "u16 n = n mod 65536"

subsection \<open>Header\<close>

definition num_slots :: "string \<Rightarrow> nat" where
  "num_slots p = le_val (slice 0 2 p)"

definition free_ptr :: "string \<Rightarrow> nat" where
  "free_ptr p = le_val (slice 2 2 p)"

definition set_num_slots :: "nat \<Rightarrow> string \<Rightarrow> string" where
  "set_num_slots n p = blit 0 (le_bytes 2 n) p"

definition set_free_ptr :: "nat \<Rightarrow> string \<Rightarrow> string" where
  "set_free_ptr n p = blit 2 (le_bytes 2 n) p"

definition page_init :: "string \<Rightarrow> string" where
  "page_init p = set_free_ptr (u16 PAGE_SIZE) (set_num_slots 0 p)"

definition initialized :: "string \<Rightarrow> bool" where
  "initialized p \<longleftrightarrow> free_ptr p \<noteq> 0"

definition freeSpace :: "string \<Rightarrow> nat" where
  "freeSpace p =
     (let slot_dir_end = u16 (HEADER_SIZE + num_slots p * SLOT_SIZE)
      in if free_ptr p < slot_dir_end then 0 else u16 (free_ptr p - slot_dir_end))"

subsection \<open>Slots and tuples\<close>

definition slotPtr :: "nat \<Rightarrow> nat" where
  "slotPtr slot = HEADER_SIZE + slot * SLOT_SIZE"

definition setSlot :: "nat \<Rightarrow> nat \<Rightarrow> nat \<Rightarrow> string \<Rightarrow> db_error + string" where
  "setSlot slot off len p =
     bindE (mem_write (slotPtr slot) (le_bytes 2 off) p)
       (mem_write (slotPtr slot + 2) (le_bytes 2 len))"

definition readSlot :: "nat \<Rightarrow> string \<Rightarrow> db_error + (nat \<times> nat)" where
  "readSlot slot p =
     bindE (mem_read (slotPtr slot) 2 p) (\<lambda>off.
     bindE (mem_read (slotPtr slot + 2) 2 p) (\<lambda>len. Inr (le_val off, le_val len)))"

text \<open>
  \<open>insertTuple(src, len)\<close> copies the first \<open>len\<close> bytes of \<open>src\<close>; the result is the slot
  index or -1, and the page.
\<close>

definition insertTuple :: "string \<Rightarrow> nat \<Rightarrow> string \<Rightarrow> db_error + (int \<times> string)" where
  "insertTuple src len p =
     (if freeSpace p < len + SLOT_SIZE then Inr (-1, p)
      else if free_ptr p < len then Inr (-1, p)
      else let new_off = u16 (free_ptr p - len)
      in bindE (mem_read 0 len src) (\<lambda>bytes.
         bindE (mem_write new_off bytes p) (\<lambda>p1.
         let p2 = set_free_ptr new_off p1;
             slot = num_slots p2
         in bindE (setSlot slot new_off len p2) (\<lambda>p3.
            Inr (int slot, set_num_slots (u16 (num_slots p3 + 1)) p3)))))"

text \<open>\<open>getTuple\<close> answers with the place of the tuple, the \<open>out\<close> pointer and \<open>len\<close>.\<close>

definition getTuple :: "int \<Rightarrow> string \<Rightarrow> db_error + (nat \<times> nat) option" where
  "getTuple slot p =
     (if slot < 0 \<or> slot \<ge> int (num_slots p) then Inr None
      else bindE (readSlot (nat slot) p) (\<lambda>(off, l).
             if l = 0 then Inr None else Inr (Some (off, l))))"

definition eraseTuple :: "int \<Rightarrow> string \<Rightarrow> db_error + string" where
  "eraseTuple slot p =
     (if slot < 0 \<or> slot \<ge> int (num_slots p) then Inr p
      else bindE (readSlot (nat slot) p) (\<lambda>(off, l). setSlot (nat slot) off 0 p))"

text \<open>The bytes a caller then reads through the pointer \<open>getTuple\<close> gave it.\<close>

definition tupleBytes :: "int \<Rightarrow> string \<Rightarrow> db_error + string option" where
  "tupleBytes slot p =
     bindE (getTuple slot p) (\<lambda>r. case r of
       None \<Rightarrow> Inr None
     | Some (off, l) \<Rightarrow> bindE (mem_read off l p) (\<lambda>b. Inr (Some b)))"

section \<open>Abstraction and well-formedness\<close>

definition slot_off :: "string \<Rightarrow> nat \<Rightarrow> nat" where
  "slot_off p i = le_val (slice (slotPtr i) 2 p)"

definition slot_len :: "string \<Rightarrow> nat \<Rightarrow> nat" where
  "slot_len p i = le_val (slice (slotPtr i + 2) 2 p)"

definition slot_val :: "string \<Rightarrow> nat \<Rightarrow> string option" where
  "slot_val p i = (if slot_len p i = 0 then None else Some (slice (slot_off p i) (slot_len p i) p))"

definition page_tuples :: "string \<Rightarrow> string option list" where
  "page_tuples p = map (slot_val p) [0..<num_slots p]"

text \<open>
  A page the engine wrote: the directory ends at or below the tuple region, and each slot
  points into the tuple region.
\<close>

definition wf_page :: "string \<Rightarrow> bool" where
  "wf_page p \<longleftrightarrow> length p = PAGE_SIZE
     \<and> HEADER_SIZE + num_slots p * SLOT_SIZE \<le> free_ptr p \<and> free_ptr p \<le> PAGE_SIZE
     \<and> (\<forall>i < num_slots p. free_ptr p \<le> slot_off p i \<and> slot_off p i + slot_len p i \<le> PAGE_SIZE)"

lemmas page_consts = PAGE_SIZE_def HEADER_SIZE_def SLOT_SIZE_def u16_def slotPtr_def

lemma le_val_slice_bound: "le_val (slice off n p) < 256 ^ n"
proof -
  have "le_val (slice off n p) < 256 ^ length (slice off n p)" by (rule le_val_bound)
  also have "\<dots> \<le> (256::nat) ^ n" by (rule power_increasing) auto
  finally show ?thesis .
qed

lemma le_val_slice2: "le_val (slice off 2 p) < 65536"
  using le_val_slice_bound [of off 2 p] by simp

lemma header_bounds: "num_slots p < 65536" "free_ptr p < 65536" "slot_off p i < 65536" "slot_len p i < 65536"
  by (simp_all add: num_slots_def free_ptr_def slot_off_def slot_len_def le_val_slice2)

lemma wf_page_bounds:
  assumes "wf_page p"
  shows "length p = 4096" "4 + num_slots p * 4 \<le> free_ptr p" "free_ptr p \<le> 4096" "num_slots p \<le> 1023"
  using assms by (auto simp: wf_page_def page_consts)

text \<open>What a header write leaves of the other fields.\<close>

lemma set_free_ptr_fields:
  assumes "length p = 4096"
  shows "length (set_free_ptr n p) = 4096"
    "num_slots (set_free_ptr n p) = num_slots p"
    "free_ptr (set_free_ptr n p) = n mod 65536"
    "4 \<le> off \<Longrightarrow> slice off k (set_free_ptr n p) = slice off k p"
  using assms
  by (simp_all add: set_free_ptr_def num_slots_def free_ptr_def slice_blit_other slice_blit_same)

lemma set_num_slots_fields:
  assumes "length p = 4096"
  shows "length (set_num_slots n p) = 4096"
    "num_slots (set_num_slots n p) = n mod 65536"
    "free_ptr (set_num_slots n p) = free_ptr p"
    "4 \<le> off \<Longrightarrow> slice off k (set_num_slots n p) = slice off k p"
  using assms
  by (simp_all add: set_num_slots_def num_slots_def free_ptr_def slice_blit_other slice_blit_same)

lemma blit_fields:
  assumes "length p = 4096" "4 \<le> off" "off + length src \<le> 4096"
  shows "length (blit off src p) = 4096"
    "num_slots (blit off src p) = num_slots p"
    "free_ptr (blit off src p) = free_ptr p"
  using assms by (simp_all add: num_slots_def free_ptr_def slice_blit_other)

lemma page_init_fields:
  assumes "length p = 4096"
  shows "length (page_init p) = 4096" "num_slots (page_init p) = 0" "free_ptr (page_init p) = 4096"
  using assms
  by (simp_all add: page_init_def page_consts set_free_ptr_fields set_num_slots_fields)

lemma wf_page_init: "length p = PAGE_SIZE \<Longrightarrow> wf_page (page_init p)"
  by (simp add: wf_page_def page_consts page_init_fields)

lemma page_tuples_init: "length p = PAGE_SIZE \<Longrightarrow> page_tuples (page_init p) = []"
  by (simp add: page_tuples_def page_init_fields page_consts)

lemma initialized_init: "length p = PAGE_SIZE \<Longrightarrow> initialized (page_init p)"
  by (simp add: initialized_def page_init_fields page_consts)

lemma wf_page_initialized: "wf_page p \<Longrightarrow> initialized p"
  using wf_page_bounds [of p] by (simp add: initialized_def)

lemma freeSpace_wf:
  assumes "wf_page p"
  shows "freeSpace p = free_ptr p - (4 + num_slots p * 4)"
  using wf_page_bounds [OF assms] by (simp add: freeSpace_def page_consts Let_def)

subsection \<open>Slot accesses on a well-formed page\<close>

lemma readSlot_ok:
  assumes "length p = 4096" "i < 1023"
  shows "readSlot i p = Inr (slot_off p i, slot_len p i)"
  using assms by (simp add: readSlot_def mem_read_def slot_off_def slot_len_def page_consts)

lemma setSlot_ok:
  assumes "length p = 4096" "i < 1023"
  obtains q where "setSlot i off len p = Inr q" "length q = 4096"
    "num_slots q = num_slots p" "free_ptr q = free_ptr p"
    "slot_off q i = off mod 65536" "slot_len q i = len mod 65536"
    "\<And>j. j \<noteq> i \<Longrightarrow> slot_off q j = slot_off p j \<and> slot_len q j = slot_len p j"
    "\<And>o' k. 4 + i * 4 + 4 \<le> o' \<Longrightarrow> slice o' k q = slice o' k p"
proof -
  define q1 where "q1 = blit (4 + i * 4) (le_bytes 2 off) p"
  define q where "q = blit (4 + i * 4 + 2) (le_bytes 2 len) q1"
  have b1: "length q1 = 4096" "num_slots q1 = num_slots p" "free_ptr q1 = free_ptr p"
    using assms by (simp_all add: q1_def blit_fields)
  have b2: "length q = 4096" "num_slots q = num_slots p" "free_ptr q = free_ptr p"
    using assms b1 by (simp_all add: q_def blit_fields)
  have "setSlot i off len p = Inr q"
    using assms b1 by (simp add: setSlot_def mem_write_def page_consts q1_def q_def)
  moreover have "slot_off q i = off mod 65536" "slot_len q i = len mod 65536"
    using assms b1
    by (simp_all add: slot_off_def slot_len_def q_def q1_def page_consts slice_blit_other slice_blit_same)
  moreover have "slot_off q j = slot_off p j \<and> slot_len q j = slot_len p j" if "j \<noteq> i" for j
  proof -
    have "j * 4 + 4 \<le> i * 4 \<or> i * 4 + 4 \<le> j * 4" using that by arith
    then show ?thesis using assms b1
      by (auto simp: slot_off_def slot_len_def q_def q1_def page_consts slice_blit_other)
  qed
  moreover have "slice o' k q = slice o' k p" if "4 + i * 4 + 4 \<le> o'" for o' k
    using assms b1 that by (simp add: q_def q1_def slice_blit_other)
  ultimately show thesis using b2 that by blast
qed

text \<open>
  The tuples of a page depend only on its slots and on the bytes they point to.
\<close>

lemma slot_val_cong:
  assumes "slot_off q i = slot_off p i" "slot_len q i = slot_len p i"
    and "slot_len p i \<noteq> 0 \<Longrightarrow> slice (slot_off p i) (slot_len p i) q = slice (slot_off p i) (slot_len p i) p"
  shows "slot_val q i = slot_val p i"
  using assms by (simp add: slot_val_def)

lemma slot_val_at:
  "slot_off q i = off \<Longrightarrow> slot_len q i = length d \<Longrightarrow> slice off (length d) q = d \<Longrightarrow>
   slot_val q i = (if d = [] then None else Some d)"
  by (auto simp: slot_val_def)

text \<open>What an insertion writes: a slot behind the others, the tuple below the free space pointer.\<close>

text \<open>The page after the copy of the tuple and the move of the free-space pointer.\<close>

lemma place_tuple:
  assumes wf: "wf_page p" and len: "len \<le> length src" and off: "off + len = free_ptr p" "4 + num_slots p * 4 + 4 \<le> off"
  defines "p2 \<equiv> set_free_ptr off (blit off (take len src) p)"
  shows "length p2 = 4096" "num_slots p2 = num_slots p" "free_ptr p2 = off"
    "j < num_slots p \<Longrightarrow> slot_off p2 j = slot_off p j \<and> slot_len p2 j = slot_len p j"
    "free_ptr p \<le> o' \<Longrightarrow> slice o' k p2 = slice o' k p" "slice off len p2 = take len src"
proof -
  note b = wf_page_bounds [OF wf]
  define p1 where "p1 = blit off (take len src) p"
  have p1: "length p1 = 4096" "num_slots p1 = num_slots p"
    using b off len by (simp_all add: p1_def blit_fields)
  have o: "off \<le> 4096" using off b by simp
  show "length p2 = 4096" "num_slots p2 = num_slots p" "free_ptr p2 = off"
    using p1 off o by (simp_all add: p2_def p1_def [symmetric] set_free_ptr_fields)
  show "slot_off p2 j = slot_off p j \<and> slot_len p2 j = slot_len p j" if "j < num_slots p"
    using that off o p1 b len
    by (auto simp: slot_off_def slot_len_def p2_def p1_def set_free_ptr_fields slice_blit_other page_consts)
  have data: "slice o' k p2 = slice o' k p1" if "off \<le> o'" for o' k
    using that off p1 by (simp add: p2_def p1_def [symmetric] set_free_ptr_fields)
  show "slice o' k p2 = slice o' k p" if "free_ptr p \<le> o'"
    using data [of o' k] that off b len by (simp add: p1_def slice_blit_other)
  show "slice off len p2 = take len src"
    using data [of off len] off b len by (simp add: p1_def slice_blit_same)
qed

lemma insertTuple_layout:
  assumes wf: "wf_page p" and len: "len \<le> length src" and fit: "len + SLOT_SIZE \<le> freeSpace p"
  obtains q where "insertTuple src len p = Inr (int (num_slots p), q)" "length q = 4096"
    "num_slots q = Suc (num_slots p)" "free_ptr q = free_ptr p - len"
    "4 + num_slots p * 4 + 4 + len \<le> free_ptr p"
    "slot_off q (num_slots p) = free_ptr p - len" "slot_len q (num_slots p) = len"
    "\<And>j. j < num_slots p \<Longrightarrow> slot_off q j = slot_off p j \<and> slot_len q j = slot_len p j"
    "\<And>o' k. free_ptr p \<le> o' \<Longrightarrow> slice o' k q = slice o' k p" "slice (free_ptr p - len) len q = take len src"
proof -
  note b = wf_page_bounds [OF wf]
  define n where "n = num_slots p"
  define off where "off = free_ptr p - len"
  define p1 where "p1 = blit off (take len src) p"
  define p2 where "p2 = set_free_ptr off p1"
  have f: "4 + n * 4 + 4 + len \<le> free_ptr p"
    using fit b freeSpace_wf [OF wf] by (simp add: page_consts n_def)
  then have off: "4 + n * 4 + 4 \<le> off" "off + len = free_ptr p" "off \<le> 4096" "len \<le> free_ptr p"
    using b by (auto simp: off_def)
  have n: "n < 1023" using off by arith
  have "off + len = free_ptr p" "4 + num_slots p * 4 + 4 \<le> off" using off by (simp_all add: n_def)
  note pl = place_tuple [OF wf len this, folded p1_def p2_def]
  have p2: "length p2 = 4096" "num_slots p2 = n" "free_ptr p2 = off" using pl by (simp_all add: n_def)
  have p1: "num_slots p1 = n" "free_ptr p1 = free_ptr p"
    using b off len by (simp_all add: p1_def n_def blit_fields)
  obtain p3 where p3: "setSlot n off len p2 = Inr p3" "length p3 = 4096"
      "num_slots p3 = n" "free_ptr p3 = off" "slot_off p3 n = off mod 65536" "slot_len p3 n = len mod 65536"
      "\<And>j. j \<noteq> n \<Longrightarrow> slot_off p3 j = slot_off p2 j \<and> slot_len p3 j = slot_len p2 j"
      "\<And>o' k. 4 + n * 4 + 4 \<le> o' \<Longrightarrow> slice o' k p3 = slice o' k p2"
    using setSlot_ok [OF p2(1) n, of off len] p2 by metis
  define q where "q = set_num_slots (Suc n) p3"
  have q: "length q = 4096" "num_slots q = Suc n" "free_ptr q = off"
    using p3 n by (simp_all add: q_def set_num_slots_fields)
  have qs: "slice o' k q = slice o' k p3" if "4 \<le> o'" for o' k
    using p3 that by (simp add: q_def set_num_slots_fields)
  have new: "slot_off q n = off" "slot_len q n = len"
    using p3 off b qs by (simp_all add: slot_off_def slot_len_def page_consts)
  have old: "slot_off q j = slot_off p j" "slot_len q j = slot_len p j" if "j < n" for j
  proof -
    have "slot_off q j = slot_off p3 j" "slot_len q j = slot_len p3 j"
      using qs by (simp_all add: slot_off_def slot_len_def page_consts)
    moreover have "slot_off p3 j = slot_off p2 j" "slot_len p3 j = slot_len p2 j"
      using p3 that by auto
    moreover have "slot_off p2 j = slot_off p j" "slot_len p2 j = slot_len p j"
      using pl(4) that by (simp_all add: n_def)
    ultimately show "slot_off q j = slot_off p j" "slot_len q j = slot_len p j" by simp_all
  qed
  have data: "slice o' k q = slice o' k p2" if "off \<le> o'" for o' k
    using qs [of o' k] p3(8) [of o' k] that off by simp
  have olddata: "slice o' k q = slice o' k p" if "free_ptr p \<le> o'" for o' k
    using data [of o' k] pl(5) that off by simp
  have newdata: "slice off len q = take len src" using data pl(6) by simp
  have res: "insertTuple src len p = Inr (int (num_slots p), q)"
    using fit off b len p2 p3 n
    by (simp add: insertTuple_def Let_def mem_read_def mem_write_def slice_def
        u16_def p1_def [symmetric] p2_def [symmetric] off_def [symmetric] q_def n_def [symmetric])
  show thesis
    by (rule that [of q]) (use res q new old olddata newdata f in \<open>simp_all add: off_def n_def\<close>)
qed

lemma insertTuple_fits:
  assumes wf: "wf_page p" and len: "len \<le> length src" and fit: "len + SLOT_SIZE \<le> freeSpace p"
  obtains q where "insertTuple src len p = Inr (int (num_slots p), q)" "wf_page q"
    "page_tuples q = page_tuples p @ [if len = 0 then None else Some (take len src)]"
    "free_ptr q = free_ptr p - len" "num_slots q = Suc (num_slots p)"
proof -
  note b = wf_page_bounds [OF wf]
  let ?n = "num_slots p"
  obtain q where res: "insertTuple src len p = Inr (int ?n, q)"
    and q: "length q = 4096" "num_slots q = Suc ?n" "free_ptr q = free_ptr p - len"
    and f: "4 + ?n * 4 + 4 + len \<le> free_ptr p"
    and new: "slot_off q ?n = free_ptr p - len" "slot_len q ?n = len"
    and old: "\<And>j. j < ?n \<Longrightarrow> slot_off q j = slot_off p j \<and> slot_len q j = slot_len p j"
    and data: "\<And>o' k. free_ptr p \<le> o' \<Longrightarrow> slice o' k q = slice o' k p" "slice (free_ptr p - len) len q = take len src"
    by (rule insertTuple_layout [OF wf len fit]) (rule that)
  have wfslots: "free_ptr p \<le> slot_off p j \<and> slot_off p j + slot_len p j \<le> 4096" if "j < ?n" for j
    using wf that by (auto simp: wf_page_def PAGE_SIZE_def)
  have wfq: "wf_page q"
    unfolding wf_page_def
  proof (intro conjI allI impI)
    fix i assume "i < num_slots q"
    then have "i = ?n \<or> i < ?n" using q by auto
    then show "free_ptr q \<le> slot_off q i" "slot_off q i + slot_len q i \<le> PAGE_SIZE"
      using new old [of i] wfslots [of i] f b q by (auto simp: PAGE_SIZE_def)
  qed (use q f b in \<open>auto simp: page_consts\<close>)
  have "map (slot_val q) [0..<?n] = map (slot_val p) [0..<?n]"
    using old wfslots data(1) by (auto intro!: slot_val_cong)
  moreover have "slot_val q ?n = (if len = 0 then None else Some (take len src))"
    using slot_val_at [of q ?n "free_ptr p - len" "take len src"] new data(2) len by auto
  ultimately have "page_tuples q = page_tuples p @ [if len = 0 then None else Some (take len src)]"
    using q by (simp add: page_tuples_def)
  with res wfq q show thesis using that by simp
qed

lemma insertTuple_full:
  "freeSpace p < len + SLOT_SIZE \<Longrightarrow> insertTuple src len p = Inr (-1, p)"
  by (simp add: insertTuple_def)

lemma eraseTuple_refines:
  assumes wf: "wf_page p"
  obtains q where "eraseTuple slot p = Inr q" "wf_page q"
    "num_slots q = num_slots p" "free_ptr q = free_ptr p"
    "page_tuples q = (if 0 \<le> slot \<and> slot < int (num_slots p)
       then (page_tuples p)[nat slot := None] else page_tuples p)"
proof (cases "0 \<le> slot \<and> slot < int (num_slots p)")
  case False
  then have "eraseTuple slot p = Inr p" by (auto simp: eraseTuple_def)
  with False wf that show thesis by (metis (full_types))
next
  case True
  note b = wf_page_bounds [OF wf]
  define i where "i = nat slot"
  have i: "i < num_slots p" "i < 1023" using True b by (auto simp: i_def)
  obtain q where q: "setSlot i (slot_off p i) 0 p = Inr q" "length q = 4096"
      "num_slots q = num_slots p" "free_ptr q = free_ptr p"
      "slot_off q i = slot_off p i mod 65536" "slot_len q i = 0 mod 65536"
      "\<And>j. j \<noteq> i \<Longrightarrow> slot_off q j = slot_off p j \<and> slot_len q j = slot_len p j"
      "\<And>o' k. 4 + i * 4 + 4 \<le> o' \<Longrightarrow> slice o' k q = slice o' k p"
    using setSlot_ok [OF b(1) i(2), of "slot_off p i" 0] by metis
  have res: "eraseTuple slot p = Inr q"
    using True q i b by (simp add: eraseTuple_def readSlot_ok i_def [symmetric])
  have slots: "free_ptr p \<le> slot_off p j \<and> slot_off p j + slot_len p j \<le> PAGE_SIZE" if "j < num_slots p" for j
    using wf that by (simp add: wf_page_def)
  have offq: "slot_off q j = slot_off p j" for j
    using q(5,7) header_bounds(3) [of p j] by (cases "j = i") auto
  have "wf_page q"
    unfolding wf_page_def
  proof (intro conjI allI impI)
    fix j assume "j < num_slots q"
    then show "free_ptr q \<le> slot_off q j" "slot_off q j + slot_len q j \<le> PAGE_SIZE"
      using slots [of j] q offq by (cases "j = i"; auto)+
  qed (use q b in \<open>auto simp: page_consts\<close>)
  moreover have "page_tuples q = (page_tuples p)[i := None]"
  proof (rule nth_equalityI)
    show "length (page_tuples q) = length ((page_tuples p)[i := None])"
      using q by (simp add: page_tuples_def)
  next
    fix j assume "j < length (page_tuples q)"
    then have j: "j < num_slots p" using q by (simp add: page_tuples_def)
    show "page_tuples q ! j = (page_tuples p)[i := None] ! j"
    proof (cases "j = i")
      case True
      with j q show ?thesis by (simp add: page_tuples_def slot_val_def)
    next
      case False
      have "4 + i * 4 + 4 \<le> slot_off p j" using slots [OF j] b i by simp
      then have "slot_val q j = slot_val p j"
        using False q by (intro slot_val_cong) auto
      with j False q show ?thesis by (simp add: page_tuples_def)
    qed
  qed
  ultimately show thesis using that res q True by (simp add: i_def)
qed

lemma tupleBytes_refines:
  assumes wf: "wf_page p"
  shows "tupleBytes slot p = Inr (if 0 \<le> slot \<and> slot < int (num_slots p)
    then page_tuples p ! nat slot else None)"
proof (cases "0 \<le> slot \<and> slot < int (num_slots p)")
  case False
  then show ?thesis by (auto simp: tupleBytes_def getTuple_def)
next
  case True
  note b = wf_page_bounds [OF wf]
  have i: "nat slot < num_slots p" "nat slot < 1023" using True b by auto
  with wf have "slot_off p (nat slot) + slot_len p (nat slot) \<le> 4096"
    by (simp add: wf_page_def PAGE_SIZE_def)
  with True i b show ?thesis
    by (simp add: tupleBytes_def getTuple_def readSlot_ok mem_read_def page_tuples_def slot_val_def)
qed

lemma freeSpace_init: "length p = PAGE_SIZE \<Longrightarrow> freeSpace (page_init p) = 4092"
  using freeSpace_wf [OF wf_page_init] by (simp add: page_init_fields PAGE_SIZE_def)

section \<open>Properties\<close>

text \<open>
  On a well-formed page \<open>insertTuple\<close> behaves exactly as appending to the list of
  slots when tuple and slot fit into the free space, and returns -1 with the page unchanged
  when they do not; the page stays well-formed and loses exactly the tuple and one slot of
  free space. In particular no byte of an older tuple is overwritten.
\<close>

theorem insertTuple_refines_append:
  assumes "wf_page p" "len \<le> length src"
  shows "if len + SLOT_SIZE \<le> freeSpace p
    then \<exists>q. insertTuple src len p = Inr (int (num_slots p), q) \<and> wf_page q
      \<and> page_tuples q = page_tuples p @ [if len = 0 then None else Some (take len src)]
      \<and> freeSpace q = freeSpace p - (len + SLOT_SIZE)
    else insertTuple src len p = Inr (-1, p)"
proof (cases "len + SLOT_SIZE \<le> freeSpace p")
  case True
  from insertTuple_fits [OF assms True] obtain q where
    q: "insertTuple src len p = Inr (int (num_slots p), q)" "wf_page q"
      "page_tuples q = page_tuples p @ [if len = 0 then None else Some (take len src)]"
      "free_ptr q = free_ptr p - len" "num_slots q = Suc (num_slots p)" by blast
  then have "freeSpace q = freeSpace p - (len + SLOT_SIZE)"
    using assms(1) by (simp add: freeSpace_wf page_consts)
  with q True show ?thesis by auto
next
  case False
  then show ?thesis by (simp add: insertTuple_full)
qed

theorem insertTuple_refines_append_witness:
  "\<exists>q. insertTuple ''abc'' 3 (page_init (replicate PAGE_SIZE CHR 0x00)) = Inr (0, q)
     \<and> page_tuples q = [Some ''abc'']"
proof -
  define p where "p = page_init (replicate PAGE_SIZE CHR 0x00)"
  have wf: "wf_page p" by (simp add: p_def wf_page_init)
  moreover have "num_slots p = 0" "page_tuples p = []"
    by (simp_all add: p_def page_init_fields page_tuples_init PAGE_SIZE_def)
  moreover have "freeSpace p = 4092"
    using wf by (simp add: freeSpace_wf p_def page_init_fields PAGE_SIZE_def)
  ultimately show ?thesis
    using insertTuple_refines_append [of p 3 "''abc''"] by (auto simp: p_def SLOT_SIZE_def)
qed

text \<open>
  \<open>eraseTuple\<close> tombstones exactly one slot (and does nothing for an index outside the
  directory), so every other row id keeps naming the same bytes; reading a slot gives the
  bytes the abstraction holds there, never an access outside the page.
\<close>

theorem eraseTuple_getTuple_refine:
  assumes "wf_page p"
  shows "\<exists>q. eraseTuple slot p = Inr q \<and> wf_page q
      \<and> page_tuples q = (if 0 \<le> slot \<and> slot < int (num_slots p)
          then (page_tuples p)[nat slot := None] else page_tuples p)
      \<and> tupleBytes i q = Inr (if 0 \<le> i \<and> i < int (num_slots p) \<and> i \<noteq> slot
          then page_tuples p ! nat i else None)"
proof -
  from eraseTuple_refines [OF assms, of slot] obtain q where
    q: "eraseTuple slot p = Inr q" "wf_page q" "num_slots q = num_slots p"
      "page_tuples q = (if 0 \<le> slot \<and> slot < int (num_slots p)
       then (page_tuples p)[nat slot := None] else page_tuples p)" by blast
  have "length (page_tuples p) = num_slots p" by (simp add: page_tuples_def)
  then have "tupleBytes i q = Inr (if 0 \<le> i \<and> i < int (num_slots p) \<and> i \<noteq> slot
          then page_tuples p ! nat i else None)"
    using q by (auto simp: tupleBytes_refines nth_list_update nat_eq_iff)
  with q show ?thesis by auto
qed

theorem eraseTuple_getTuple_refine_witness:
  "\<exists>q. eraseTuple 0 (page_init (replicate PAGE_SIZE CHR 0x00)) = Inr q \<and> page_tuples q = []"
  using eraseTuple_getTuple_refine
    [OF wf_page_init [of "replicate PAGE_SIZE CHR 0x00"], of 0 0]
  by (auto simp: page_tuples_init page_init_fields PAGE_SIZE_def)

text \<open>
  The 16-bit sum in \<open>freeSpace\<close> wraps on a corrupt header: with 16383 slots the
  directory end becomes 0, the page claims room for the tuple, and the directory entry is
  written outside the page.
\<close>

theorem insertTuple_corrupt_header_faults:
  assumes "length p = PAGE_SIZE" "num_slots p = 16383"
    and "len \<le> length src" "len + SLOT_SIZE \<le> free_ptr p" "free_ptr p \<le> PAGE_SIZE" "4 \<le> free_ptr p - len"
  shows "freeSpace p = free_ptr p \<and> insertTuple src len p = Inl MemFault"
proof -
  have fs: "freeSpace p = free_ptr p"
    using assms by (simp add: freeSpace_def page_consts)
  define off where "off = free_ptr p - len"
  have "num_slots (set_free_ptr off (blit off (take len src) p)) = 16383"
    and "length (set_free_ptr off (blit off (take len src) p)) = 4096"
    using assms by (simp_all add: set_free_ptr_fields blit_fields off_def page_consts)
  then show ?thesis
    using assms fs
    by (simp add: insertTuple_def Let_def mem_read_def mem_write_def setSlot_def slice_def
        page_consts off_def [symmetric])
       (simp add: off_def)
qed

theorem insertTuple_corrupt_header_faults_witness:
  "insertTuple ''abc'' 3 (set_num_slots 16383 (page_init (replicate PAGE_SIZE CHR 0x00))) = Inl MemFault"
  using insertTuple_corrupt_header_faults
    [of "set_num_slots 16383 (page_init (replicate PAGE_SIZE CHR 0x00))" 3 "''abc''"]
  by (simp add: page_init_fields set_num_slots_fields PAGE_SIZE_def SLOT_SIZE_def)

end
