(* ===== verification/Common.thy ===== *)
theory Common
  imports Prelude
begin

text \<open>
  \<open>common/types.hpp\<close> and \<open>common/value.hpp\<close>: page, row and transaction identifiers, and the
  two-typed \<open>Value\<close>. \<open>Value\<close> keeps all three fields of the struct, since \<open>Schema::serialize\<close>
  reads \<open>i\<close> or \<open>s\<close> by the column's type and not by the value's. 64-bit integers are \<^typ>\<open>int\<close>;
  their range \<^const>\<open>in_int64\<close> is stated where it matters.
\<close>

definition INVALID_PAGE :: int where "INVALID_PAGE = -1"
definition INVALID_TXN :: int where "INVALID_TXN = 0"

record rowid =
  rpage :: int
  rslot :: int

definition rid_valid :: "rowid \<Rightarrow> bool" where
  "rid_valid r \<longleftrightarrow> rpage r \<noteq> INVALID_PAGE \<and> rslot r \<ge> 0"

text \<open>The default-constructed \<open>RowId\<close>.\<close>

definition rid_none :: rowid where
  "rid_none = \<lparr>rpage = INVALID_PAGE, rslot = -1\<rparr>"

text \<open>\<open>static_cast<int16_t>\<close> of a slot number.\<close>

definition int16 :: "nat \<Rightarrow> int" where
  "int16 n = to_signed 16 (n mod 65536)"

lemma int16_small: "n < 32768 \<Longrightarrow> int16 n = int n"
  by (simp add: int16_def to_signed_def)

section \<open>Decimal numbers\<close>

fun dec_of_nat :: "nat \<Rightarrow> string" where
  "dec_of_nat n = (if n < 10 then [char_of (48 + n)]
     else dec_of_nat (n div 10) @ [char_of (48 + n mod 10)])"

declare dec_of_nat.simps [simp del]

definition dec_of_int :: "int \<Rightarrow> string" where
  "dec_of_int i = (if i < 0 then CHR ''-'' # dec_of_nat (nat (- i)) else dec_of_nat (nat i))"

definition nat_of_dec :: "string \<Rightarrow> nat" where
  "nat_of_dec cs = foldl (\<lambda>n c. n * 10 + (of_char c - 48)) 0 cs"

definition is_digit :: "char \<Rightarrow> bool" where
  "is_digit c \<longleftrightarrow> 48 \<le> (of_char c :: nat) \<and> (of_char c :: nat) \<le> 57"

text \<open>\<open>std::isspace\<close> and \<open>std::isalpha\<close> of the "C" locale.\<close>

definition is_space :: "char \<Rightarrow> bool" where
  "is_space c \<longleftrightarrow> (of_char c :: nat) = 32 \<or> (9 \<le> (of_char c :: nat) \<and> (of_char c :: nat) \<le> 13)"

definition is_alpha :: "char \<Rightarrow> bool" where
  "is_alpha c \<longleftrightarrow> (65 \<le> (of_char c :: nat) \<and> (of_char c :: nat) \<le> 90) \<or> (97 \<le> (of_char c :: nat) \<and> (of_char c :: nat) \<le> 122)"

lemma nat_of_dec_of_nat: "nat_of_dec (dec_of_nat n) = n"
proof (induction n rule: dec_of_nat.induct)
  case (1 n)
  show ?case
  proof (cases "n < 10")
    case True
    then show ?thesis by (simp add: dec_of_nat.simps [of n] nat_of_dec_def)
  next
    case False
    with 1 have "nat_of_dec (dec_of_nat (n div 10)) = n div 10" by simp
    with False show ?thesis
      by (simp add: dec_of_nat.simps [of n] nat_of_dec_def)
  qed
qed

lemma is_digit_char_of: "(n::nat) < 10 \<Longrightarrow> is_digit (char_of (48 + n))"
  by (simp add: is_digit_def)

lemma dec_of_nat_digits: "list_all is_digit (dec_of_nat n) \<and> dec_of_nat n \<noteq> []"
proof (induction n rule: dec_of_nat.induct)
  case (1 n)
  show ?case
  proof (cases "n < 10")
    case True
    then show ?thesis by (simp add: dec_of_nat.simps [of n] is_digit_char_of)
  next
    case False
    with 1 have "list_all is_digit (dec_of_nat (n div 10))" by simp
    moreover have "n mod 10 \<le> 9" using mod_less_divisor [of 10 n] by simp
    ultimately show ?thesis using False by (simp add: dec_of_nat.simps [of n] is_digit_char_of)
  qed
qed

section \<open>Values\<close>

datatype ctype = T_INT | T_TEXT

definition typeName :: "ctype \<Rightarrow> string" where
  "typeName t = (if t = T_INT then ''INT'' else ''TEXT'')"

record val =
  v_type :: ctype
  v_i :: int
  v_s :: string

definition makeInt :: "int \<Rightarrow> val" where
  "makeInt v = \<lparr>v_type = T_INT, v_i = v, v_s = []\<rparr>"

definition makeText :: "string \<Rightarrow> val" where
  "makeText v = \<lparr>v_type = T_TEXT, v_i = 0, v_s = v\<rparr>"

definition val_toString :: "val \<Rightarrow> string" where
  "val_toString v = (if v_type v = T_INT then dec_of_int (v_i v) else v_s v)"

text \<open>\<open>std::string::compare\<close> orders strings as sequences of unsigned characters.\<close>

definition val_compare :: "val \<Rightarrow> val \<Rightarrow> db_error + int" where
  "val_compare a b =
     (if v_type a \<noteq> v_type b then Inl (RuntimeError ''type mismatch in comparison'')
      else if v_type a = T_INT then Inr (if v_i a < v_i b then -1 else if v_i a > v_i b then 1 else 0)
      else Inr (if v_s a < v_s b then -1 else if v_s a > v_s b then 1 else 0))"

text \<open>A value as \<open>makeInt\<close> or \<open>makeText\<close> builds it: the field of the other type is empty.\<close>

definition val_ok :: "val \<Rightarrow> bool" where
  "val_ok v \<longleftrightarrow> (if v_type v = T_INT then v_s v = [] else v_i v = 0)"

lemma val_ok_make [simp]: "val_ok (makeInt i)" "val_ok (makeText s)"
  by (simp_all add: val_ok_def makeInt_def makeText_def)

lemma val_ok_cases: "val_ok v \<Longrightarrow> v = makeInt (v_i v) \<and> v_type v = T_INT \<or> v = makeText (v_s v) \<and> v_type v = T_TEXT"
  by (cases v; cases "v_type v") (auto simp: val_ok_def makeInt_def makeText_def)

section \<open>The meaning of values\<close>

text \<open>
  What a \<open>Value\<close> stands for: a number or a text. These are linearly ordered, and on values of one
  type it is this order that \<open>Value::compare\<close> decides.
\<close>

datatype sqlval = Num int | Txt string

definition sem :: "val \<Rightarrow> sqlval" where
  "sem v = (if v_type v = T_INT then Num (v_i v) else Txt (v_s v))"

instantiation sqlval :: linorder
begin

fun less_sqlval :: "sqlval \<Rightarrow> sqlval \<Rightarrow> bool" where
  "less_sqlval (Num a) (Num b) = (a < b)"
| "less_sqlval (Num a) (Txt t) = True"
| "less_sqlval (Txt s) (Num b) = False"
| "less_sqlval (Txt s) (Txt t) = (s < t)"

definition less_eq_sqlval :: "sqlval \<Rightarrow> sqlval \<Rightarrow> bool" where
  "less_eq_sqlval a b \<longleftrightarrow> a < b \<or> a = b"

instance
proof
  fix a b c :: sqlval
  show "a < b \<longleftrightarrow> a \<le> b \<and> \<not> b \<le> a" "a \<le> a" "a \<le> b \<or> b \<le> a"
    by (cases a; cases b; auto simp: less_eq_sqlval_def)+
  show "a \<le> b \<Longrightarrow> b \<le> c \<Longrightarrow> a \<le> c" "a \<le> b \<Longrightarrow> b \<le> a \<Longrightarrow> a = b"
    by (cases a; cases b; cases c; auto simp: less_eq_sqlval_def)+
qed

end

lemma val_compare_sem:
  "v_type a = v_type b \<Longrightarrow> val_compare a b = Inr (if sem a < sem b then -1 else if sem b < sem a then 1 else 0)"
  by (simp add: val_compare_def sem_def)

end
