(* ===== verification/DiskManager.thy ===== *)
theory DiskManager
  imports SlottedPage Common
begin

text \<open>
  \<open>storage/disk_manager.cpp\<close>: whole pages in one data file. The file is its byte contents;
  a write past its end extends it, and the gap a seek leaves reads as zeros. Failures of the
  stream itself (a full disk) are outside the model, as the code does not test for them.
\<close>

record disk =
  dfile :: string
  num_pages :: int

definition file_write :: "nat \<Rightarrow> string \<Rightarrow> string \<Rightarrow> string" where
  "file_write off src f = blit off src (f @ replicate (off + length src - length f) CHR 0x00)"

definition disk_open :: "string \<Rightarrow> disk" where
  "disk_open f = \<lparr>dfile = f, num_pages = int (length f div PAGE_SIZE)\<rparr>"

definition page_off :: "int \<Rightarrow> nat" where
  "page_off pid = nat pid * PAGE_SIZE"

text \<open>The \<open>PAGE_SIZE\<close> bytes at a page's offset, a short read padded with zeros.\<close>

definition padded_read :: "int \<Rightarrow> string \<Rightarrow> string" where
  "padded_read pid f =
     (let got = slice (page_off pid) PAGE_SIZE f
      in got @ replicate (PAGE_SIZE - length got) CHR 0x00)"

definition readPage :: "int \<Rightarrow> disk \<Rightarrow> db_error + string" where
  "readPage pid d =
     (if pid < 0 \<or> pid \<ge> num_pages d then Inl (RuntimeError ''readPage: bad page id'')
      else Inr (padded_read pid (dfile d)))"

definition writePage :: "int \<Rightarrow> string \<Rightarrow> disk \<Rightarrow> db_error + disk" where
  "writePage pid src d =
     (if pid < 0 \<or> pid \<ge> num_pages d then Inl (RuntimeError ''writePage: bad page id'')
      else Inr (d\<lparr>dfile := file_write (page_off pid) src (dfile d)\<rparr>))"

definition allocatePage :: "disk \<Rightarrow> int \<times> disk" where
  "allocatePage d =
     (let pid = num_pages d
      in (pid, d\<lparr>dfile := file_write (page_off pid) (replicate PAGE_SIZE CHR 0x00) (dfile d),
                num_pages := num_pages d + 1\<rparr>))"

section \<open>The file as an array of pages\<close>

definition disk_inv :: "disk \<Rightarrow> bool" where
  "disk_inv d \<longleftrightarrow> 0 \<le> num_pages d \<and> nat (num_pages d) * PAGE_SIZE \<le> length (dfile d)"

abbreviation disk_page :: "disk \<Rightarrow> int \<Rightarrow> string" where
  "disk_page d pid \<equiv> padded_read pid (dfile d)"

abbreviation on_disk :: "disk \<Rightarrow> int \<Rightarrow> bool" where
  "on_disk d pid \<equiv> 0 \<le> pid \<and> pid < num_pages d"

lemma length_padded_read [simp]: "length (padded_read pid f) = PAGE_SIZE"
  by (simp add: padded_read_def Let_def)

lemma length_file_write:
  "length (file_write off src f) = max (length f) (off + length src)"
  by (simp add: file_write_def)

text \<open>Pages do not overlap.\<close>

lemma page_off_disjoint:
  assumes "0 \<le> p" "0 \<le> q" "p \<noteq> q"
  shows "page_off p + PAGE_SIZE \<le> page_off q \<or> page_off q + PAGE_SIZE \<le> page_off p"
proof -
  from assms have "nat p < nat q \<or> nat q < nat p" by linarith
  then have "Suc (nat p) \<le> nat q \<or> Suc (nat q) \<le> nat p" by auto
  then have "Suc (nat p) * PAGE_SIZE \<le> nat q * PAGE_SIZE \<or> Suc (nat q) * PAGE_SIZE \<le> nat p * PAGE_SIZE"
    by (meson mult_le_mono1)
  then show ?thesis by (auto simp: page_off_def)
qed

lemma padded_read_write_same:
  "length src = PAGE_SIZE \<Longrightarrow> padded_read pid (file_write (page_off pid) src f) = src"
  by (simp add: padded_read_def file_write_def Let_def slice_blit_same)

text \<open>Zero padding makes the read insensitive to zeros appended to the file.\<close>

lemma padded_read_nth:
  assumes "i < PAGE_SIZE"
  shows "padded_read pid f ! i =
    (if page_off pid + i < length f then f ! (page_off pid + i) else CHR 0x00)"
proof (cases "page_off pid + i < length f")
  case True
  then have "i < length (slice (page_off pid) PAGE_SIZE f)" using assms by simp
  with True show ?thesis by (simp add: padded_read_def Let_def nth_append) (simp add: slice_def)
next
  case False
  then have n: "\<not> i < length (slice (page_off pid) PAGE_SIZE f)" by (simp add: not_less) linarith
  moreover have "i - length (slice (page_off pid) PAGE_SIZE f)
      < PAGE_SIZE - length (slice (page_off pid) PAGE_SIZE f)"
    using n assms by linarith
  ultimately show ?thesis using False
    by (simp only: padded_read_def Let_def nth_append if_False nth_replicate)
qed

lemma padded_read_zeros: "padded_read pid (f @ replicate k CHR 0x00) = padded_read pid f"
proof (rule nth_equalityI)
  fix i
  assume "i < length (padded_read pid (f @ replicate k CHR 0x00))"
  then show "padded_read pid (f @ replicate k CHR 0x00) ! i = padded_read pid f ! i"
    by (simp add: padded_read_nth nth_append)
qed simp

lemma padded_read_write_other:
  assumes "length src = PAGE_SIZE" "0 \<le> p" "0 \<le> q" "p \<noteq> q"
  shows "padded_read q (file_write (page_off p) src f) = padded_read q f"
proof -
  define g where "g = f @ replicate (page_off p + PAGE_SIZE - length f) CHR 0x00"
  have "slice (page_off q) PAGE_SIZE (blit (page_off p) src g) = slice (page_off q) PAGE_SIZE g"
    using page_off_disjoint [OF assms(2-4)] assms(1) by (intro slice_blit_other) (auto simp: g_def)
  then have "padded_read q (blit (page_off p) src g) = padded_read q g"
    by (simp add: padded_read_def)
  also have "\<dots> = padded_read q f" by (simp add: g_def padded_read_zeros)
  finally show ?thesis using assms(1) by (simp add: file_write_def g_def)
qed

lemma disk_inv_open: "disk_inv (disk_open f)"
  by (simp add: disk_inv_def disk_open_def PAGE_SIZE_def)

lemma writePage_ok:
  assumes "disk_inv d" "on_disk d pid" "length src = PAGE_SIZE"
  obtains d' where "writePage pid src d = Inr d'" "disk_inv d'" "num_pages d' = num_pages d"
    "\<And>q. 0 \<le> q \<Longrightarrow> disk_page d' q = (if q = pid then src else disk_page d q)"
proof -
  define d' where "d' = d\<lparr>dfile := file_write (page_off pid) src (dfile d)\<rparr>"
  have "writePage pid src d = Inr d'" "disk_inv d'" "num_pages d' = num_pages d"
    using assms by (auto simp: writePage_def d'_def disk_inv_def length_file_write)
  moreover have "disk_page d' q = (if q = pid then src else disk_page d q)" if "0 \<le> q" for q
    using assms that by (auto simp: d'_def padded_read_write_same padded_read_write_other)
  ultimately show thesis using that by blast
qed

lemma allocatePage_ok:
  assumes "disk_inv d" "allocatePage d = (pid, d')"
  shows "pid = num_pages d" "disk_inv d'" "num_pages d' = num_pages d + 1" "on_disk d' pid"
    "0 \<le> q \<Longrightarrow> disk_page d' q = (if q = pid then replicate PAGE_SIZE CHR 0x00 else disk_page d q)"
proof -
  have d': "d' = d\<lparr>dfile := file_write (page_off pid) (replicate PAGE_SIZE CHR 0x00) (dfile d),
      num_pages := num_pages d + 1\<rparr>" and pid: "pid = num_pages d"
    using assms by (auto simp: allocatePage_def Let_def)
  show "pid = num_pages d" by (rule pid)
  have "Suc (nat (num_pages d)) * PAGE_SIZE = page_off pid + PAGE_SIZE"
    by (simp add: pid page_off_def)
  with assms pid d' show "disk_inv d'" "num_pages d' = num_pages d + 1" "on_disk d' pid"
    by (auto simp: disk_inv_def length_file_write nat_add_distrib)
  show "disk_page d' q = (if q = pid then replicate PAGE_SIZE CHR 0x00 else disk_page d q)" if "0 \<le> q"
    using that assms(1)
    by (auto simp: d' pid disk_inv_def padded_read_write_same padded_read_write_other)
qed

lemma readPage_ok: "on_disk d pid \<Longrightarrow> readPage pid d = Inr (disk_page d pid)"
  by (simp add: readPage_def)

end
