(* ===== verification/BufferPool.thy ===== *)
theory BufferPool
  imports DiskManager
begin

text \<open>
  \<open>storage/buffer_pool.cpp\<close>: a fixed vector of frames over the disk manager, with clock-sweep
  eviction. A page pointer handed out by \<open>fetchPage\<close> is the index of its frame. Every member
  function is a state transformer on \<open>pool\<close>; an exception keeps the state it had reached.

  The abstraction is \<open>page_view\<close>, the contents of each page as the next fetch would see it.
  The locale \<open>page_cache\<close> states what a client relies on (a fetch pins the page it returns
  and shows its contents, a dirty unpin keeps what was stored); the heap file uses only that.
\<close>

record frame =
  fdata :: string
  fpage :: int
  fpin :: nat
  fdirty :: bool
  fref :: nat
  fvalid :: bool

record pool =
  pdisk :: disk
  frames :: "frame list"
  table :: "int \<rightharpoonup> nat"
  hand :: nat

definition empty_frame :: frame where
  "empty_frame = \<lparr>fdata = replicate PAGE_SIZE CHR 0x00, fpage = INVALID_PAGE, fpin = 0,
     fdirty = False, fref = 0, fvalid = False\<rparr>"

definition pool_new :: "disk \<Rightarrow> nat \<Rightarrow> pool" where
  "pool_new d n = \<lparr>pdisk = d, frames = replicate n empty_frame, table = Map.empty, hand = 0\<rparr>"

definition upd_frame :: "nat \<Rightarrow> (frame \<Rightarrow> frame) \<Rightarrow> pool \<Rightarrow> pool" where
  "upd_frame i g bp = bp\<lparr>frames := (frames bp)[i := g (frames bp ! i)]\<rparr>"

definition flushFrame :: "nat \<Rightarrow> (pool, unit) stm" where
  "flushFrame i bp =
     (let f = frames bp ! i
      in if fvalid f \<and> fdirty f
         then case writePage (fpage f) (fdata f) (pdisk bp) of
                Inl e \<Rightarrow> (Inl e, bp)
              | Inr d \<Rightarrow> (Inr (), upd_frame i (fdirty_update (\<lambda>_. False)) (bp\<lparr>pdisk := d\<rparr>))
         else (Inr (), bp))"

subsection \<open>Clock sweep\<close>

definition next_hand :: "pool \<Rightarrow> nat" where
  "next_hand bp = (hand bp + 1) mod length (frames bp)"

text \<open>Evicting the frame under the hand, which has already moved on.\<close>

definition evict_at :: "nat \<Rightarrow> (pool, nat) stm" where
  "evict_at i = bindS (flushFrame i) (\<lambda>_ bp.
     (Inr i, upd_frame i (fvalid_update (\<lambda>_. False))
               (bp\<lparr>table := (table bp)(fpage (frames bp ! i) := None)\<rparr>)))"

text \<open>Passing over a frame: an unpinned one loses a reference, the hand advances.\<close>

definition sweep_past :: "pool \<Rightarrow> pool" where
  "sweep_past bp =
     (let bp' = (if fpin (frames bp ! hand bp) = 0
                 then upd_frame (hand bp) (\<lambda>f. f\<lparr>fref := fref f - 1\<rparr>) bp else bp)
      in bp'\<lparr>hand := next_hand bp\<rparr>)"

function evict_loop :: "nat \<Rightarrow> nat \<Rightarrow> (pool, nat) stm" where
  "evict_loop limit scanned bp =
     (if hand bp \<ge> length (frames bp) then (Inl MemFault, bp)
      else let i = hand bp; f = frames bp ! i
      in if \<not> fvalid f then (Inr i, bp\<lparr>hand := next_hand bp\<rparr>)
         else if fpin f = 0 \<and> fref f = 0 then evict_at i (bp\<lparr>hand := next_hand bp\<rparr>)
         else if scanned + 1 > limit
           then (Inl (RuntimeError ''buffer pool full: all frames pinned''), sweep_past bp)
         else evict_loop limit (scanned + 1) (sweep_past bp))"
  by pat_completeness auto
termination
  by (relation "measure (\<lambda>(limit, scanned, bp). limit - scanned)") auto

declare evict_loop.simps [simp del]

definition evictVictim :: "(pool, nat) stm" where
  "evictVictim bp = evict_loop (length (frames bp) * 4 + 1) 0 bp"

subsection \<open>Pinning\<close>

definition pinFrameFor :: "int \<Rightarrow> bool \<Rightarrow> (pool, nat) stm" where
  "pinFrameFor pid is_new bp =
     (case table bp pid of
        Some i \<Rightarrow> (Inr i, upd_frame i (\<lambda>f. f\<lparr>fpin := fpin f + 1, fref := 1\<rparr>) bp)
      | None \<Rightarrow> bindS evictVictim (\<lambda>i s.
          let s1 = upd_frame i (\<lambda>f. f\<lparr>fpage := pid, fpin := 1, fdirty := False, fref := 1, fvalid := True\<rparr>) s
          in case (if is_new then Inr (replicate PAGE_SIZE CHR 0x00) else readPage pid (pdisk s1)) of
               Inl e \<Rightarrow> (Inl e, s1)
             | Inr b \<Rightarrow> let s2 = upd_frame i (\<lambda>f. f\<lparr>fdata := b\<rparr>) s1
                       in (Inr i, s2\<lparr>table := (table s2)(pid \<mapsto> i)\<rparr>)) bp)"

definition fetchPage :: "int \<Rightarrow> (pool, nat) stm" where
  "fetchPage pid = pinFrameFor pid False"

definition newPage :: "(pool, int \<times> nat) stm" where
  "newPage bp =
     (let (pid, d) = allocatePage (pdisk bp)
      in bindS (pinFrameFor pid True) (\<lambda>i. retS (pid, i)) (bp\<lparr>pdisk := d\<rparr>))"

definition unpinPage :: "int \<Rightarrow> bool \<Rightarrow> pool \<Rightarrow> pool" where
  "unpinPage pid isdirty bp =
     (case table bp pid of
        None \<Rightarrow> bp
      | Some i \<Rightarrow> upd_frame i (\<lambda>f. f\<lparr>fdirty := (isdirty \<or> fdirty f), fpin := fpin f - 1\<rparr>) bp)"

fun flush_frames :: "nat list \<Rightarrow> (pool, unit) stm" where
  "flush_frames [] = retS ()"
| "flush_frames (i # is) = bindS (flushFrame i) (\<lambda>_. flush_frames is)"

definition flushAll :: "(pool, unit) stm" where
  "flushAll bp = flush_frames [0..<length (frames bp)] bp"

text \<open>The destructor flushes and swallows what it throws.\<close>

definition pool_destroy :: "pool \<Rightarrow> pool" where
  "pool_destroy bp = snd (flushAll bp)"

text \<open>Reading and writing through the pointer of a pinned page.\<close>

definition frame_bytes :: "nat \<Rightarrow> pool \<Rightarrow> string" where
  "frame_bytes i bp = fdata (frames bp ! i)"

definition put_frame_bytes :: "nat \<Rightarrow> string \<Rightarrow> pool \<Rightarrow> pool" where
  "put_frame_bytes i b bp = upd_frame i (\<lambda>f. f\<lparr>fdata := b\<rparr>) bp"

section \<open>Invariant and abstraction\<close>

definition frame_ok :: "disk \<Rightarrow> bool \<Rightarrow> frame \<Rightarrow> bool" where
  "frame_ok d sync f \<longleftrightarrow> length (fdata f) = PAGE_SIZE \<and> fref f \<le> 1
     \<and> (fvalid f \<longrightarrow> on_disk d (fpage f)
          \<and> (sync \<longrightarrow> \<not> fdirty f \<longrightarrow> fdata f = disk_page d (fpage f)))"

text \<open>
  The page table is exactly the index of the valid frames, and the bytes of a clean frame
  are those on disk; the frames in \<open>X\<close> (a page written to but not yet unpinned) are exempt
  from the latter.
\<close>

definition pool_inv_but :: "nat set \<Rightarrow> pool \<Rightarrow> bool" where
  "pool_inv_but X bp \<longleftrightarrow> hand bp < length (frames bp) \<and> disk_inv (pdisk bp)
     \<and> (\<forall>pid i. table bp pid = Some i \<longleftrightarrow>
          i < length (frames bp) \<and> fvalid (frames bp ! i) \<and> fpage (frames bp ! i) = pid)
     \<and> (\<forall>i < length (frames bp). frame_ok (pdisk bp) (i \<notin> X) (frames bp ! i))"

abbreviation pool_inv :: "pool \<Rightarrow> bool" where
  "pool_inv \<equiv> pool_inv_but {}"

definition page_view :: "pool \<Rightarrow> int \<Rightarrow> string" where
  "page_view bp pid = (case table bp pid of
     Some i \<Rightarrow> fdata (frames bp ! i) | None \<Rightarrow> disk_page (pdisk bp) pid)"

definition pin_count :: "pool \<Rightarrow> int \<Rightarrow> nat" where
  "pin_count bp pid = (case table bp pid of Some i \<Rightarrow> fpin (frames bp ! i) | None \<Rightarrow> 0)"

definition known_page :: "pool \<Rightarrow> int \<Rightarrow> bool" where
  "known_page bp pid \<longleftrightarrow> on_disk (pdisk bp) pid"

definition evictable :: "pool \<Rightarrow> nat \<Rightarrow> bool" where
  "evictable bp j \<longleftrightarrow> j < length (frames bp) \<and> (fvalid (frames bp ! j) \<longrightarrow> fpin (frames bp ! j) = 0)"

lemma pool_invD:
  assumes "pool_inv_but X bp"
  shows "hand bp < length (frames bp)" "disk_inv (pdisk bp)"
    "table bp pid = Some i \<longleftrightarrow> i < length (frames bp) \<and> fvalid (frames bp ! i) \<and> fpage (frames bp ! i) = pid"
    "i < length (frames bp) \<Longrightarrow> frame_ok (pdisk bp) (i \<notin> X) (frames bp ! i)"
  using assms by (auto simp: pool_inv_but_def)

lemma table_unique:
  assumes inv: "pool_inv_but X bp" and q: "table bp q = Some k" and p: "table bp pid = Some i"
  shows "k = i \<longleftrightarrow> q = pid"
proof
  assume "k = i"
  have "fpage (frames bp ! k) = q" "fpage (frames bp ! i) = pid"
    using q p pool_invD(3) [OF inv] by blast+
  with \<open>k = i\<close> show "q = pid" by (simp only:)
next
  assume "q = pid"
  with q p show "k = i" by (simp only: option.inject)
qed

lemma pool_inv_new:
  assumes "disk_inv d" "0 < n"
  shows "pool_inv (pool_new d n)" "page_view (pool_new d n) = disk_page d"
    "pin_count (pool_new d n) = (\<lambda>_. 0)"
  using assms
  by (auto simp: pool_inv_but_def pool_new_def frame_ok_def empty_frame_def page_view_def pin_count_def)

subsection \<open>Ageing: what a sweep changes before it evicts\<close>

definition aged :: "pool \<Rightarrow> pool \<Rightarrow> bool" where
  "aged bp bq \<longleftrightarrow> pdisk bq = pdisk bp \<and> table bq = table bp \<and> length (frames bq) = length (frames bp)
     \<and> hand bq < length (frames bq)
     \<and> (\<forall>i < length (frames bp). \<exists>r \<le> fref (frames bp ! i). frames bq ! i = (frames bp ! i)\<lparr>fref := r\<rparr>)"

lemma aged_refl: "hand bp < length (frames bp) \<Longrightarrow> aged bp bp"
  by (auto simp: aged_def intro!: exI [of _ "fref (frames bp ! i)" for i])

lemma aged_trans:
  assumes "aged a b" "aged b c"
  shows "aged a c"
proof -
  have "\<exists>r \<le> fref (frames a ! i). frames c ! i = (frames a ! i)\<lparr>fref := r\<rparr>" if i: "i < length (frames a)" for i
  proof -
    from assms(1) i obtain r where r: "r \<le> fref (frames a ! i)" "frames b ! i = (frames a ! i)\<lparr>fref := r\<rparr>"
      by (auto simp: aged_def)
    from assms i obtain r' where "r' \<le> fref (frames b ! i)" "frames c ! i = (frames b ! i)\<lparr>fref := r'\<rparr>"
      by (auto simp: aged_def)
    with r show ?thesis by (intro exI [of _ r']) auto
  qed
  with assms show ?thesis by (auto simp: aged_def)
qed

lemma next_hand_less: "hand bp < length (frames bp) \<Longrightarrow> next_hand bp < length (frames bp)"
  unfolding next_hand_def by (rule mod_less_divisor) auto

lemma aged_sweep_past:
  assumes "hand bp < length (frames bp)"
  shows "aged bp (sweep_past bp)"
proof -
  let ?h = "hand bp"
  have "\<exists>r \<le> fref (frames bp ! i). frames (sweep_past bp) ! i = (frames bp ! i)\<lparr>fref := r\<rparr>"
    if "i < length (frames bp)" for i
  proof (cases "i = ?h \<and> fpin (frames bp ! ?h) = 0")
    case True
    with that show ?thesis
      by (intro exI [of _ "fref (frames bp ! i) - 1"]) (auto simp: sweep_past_def Let_def upd_frame_def)
  next
    case False
    with that show ?thesis
      by (intro exI [of _ "fref (frames bp ! i)"]) (auto simp: sweep_past_def Let_def upd_frame_def nth_list_update)
  qed
  with assms next_hand_less [OF assms] show ?thesis
    by (auto simp: aged_def sweep_past_def Let_def upd_frame_def)
qed

lemma aged_frame:
  assumes "aged bp bq" "i < length (frames bp)"
  shows "fdata (frames bq ! i) = fdata (frames bp ! i)" "fpage (frames bq ! i) = fpage (frames bp ! i)"
    "fpin (frames bq ! i) = fpin (frames bp ! i)" "fdirty (frames bq ! i) = fdirty (frames bp ! i)"
    "fvalid (frames bq ! i) = fvalid (frames bp ! i)" "fref (frames bq ! i) \<le> fref (frames bp ! i)"
  using assms by (auto simp: aged_def)

lemma aged_inv: "aged bp bq \<Longrightarrow> pool_inv_but X bp \<Longrightarrow> pool_inv_but X bq"
proof -
  assume a: "aged bp bq" and inv: "pool_inv_but X bp"
  have l: "length (frames bq) = length (frames bp)" "pdisk bq = pdisk bp" "table bq = table bp"
    "hand bq < length (frames bq)"
    using a by (auto simp: aged_def)
  have "frame_ok (pdisk bq) (i \<notin> X) (frames bq ! i)" if "i < length (frames bq)" for i
    using pool_invD(4) [OF inv, of i] aged_frame [OF a, of i] that l by (auto simp: frame_ok_def)
  moreover have "(table bq pid = Some i) = (i < length (frames bq) \<and> fvalid (frames bq ! i) \<and> fpage (frames bq ! i) = pid)" for pid i
    using pool_invD(3) [OF inv, of pid i] aged_frame [OF a, of i] l by auto
  ultimately show ?thesis using l pool_invD(2) [OF inv] by (auto simp: pool_inv_but_def)
qed

lemma aged_view:
  assumes "aged bp bq" "pool_inv_but X bp"
  shows "page_view bq = page_view bp" "pin_count bq = pin_count bp"
proof -
  have "fdata (frames bq ! i) = fdata (frames bp ! i)" "fpin (frames bq ! i) = fpin (frames bp ! i)"
    if "table bp pid = Some i" for pid i
    using pool_invD(3) [OF assms(2), of pid i] that aged_frame [OF assms(1), of i] by auto
  with assms(1) show "page_view bq = page_view bp" "pin_count bq = pin_count bp"
    by (auto simp: page_view_def pin_count_def aged_def split: option.split)
qed

lemma aged_set_hand:
  "aged bp bq \<Longrightarrow> h < length (frames bq) \<Longrightarrow> aged bp (bq\<lparr>hand := h\<rparr>)"
  by (simp add: aged_def)

subsection \<open>Flushing and evicting one frame\<close>

lemma frame_ok_disk_cong:
  assumes "num_pages d' = num_pages d"
    and "\<And>q. on_disk d q \<Longrightarrow> q = fpage f \<Longrightarrow> disk_page d' q = disk_page d q"
  shows "frame_ok d s f \<Longrightarrow> frame_ok d' s f"
  using assms by (auto simp: frame_ok_def)

text \<open>Writing a valid dirty frame back: the pool stays well-formed and shows the same pages.\<close>

lemma write_back_ok:
  assumes inv: "pool_inv bp" and i: "i < length (frames bp)" and v: "fvalid (frames bp ! i)"
    and d: "disk_inv d" "num_pages d = num_pages (pdisk bp)"
      "\<And>q. 0 \<le> q \<Longrightarrow> disk_page d q = (if q = fpage (frames bp ! i) then fdata (frames bp ! i) else disk_page (pdisk bp) q)"
  defines "bq \<equiv> upd_frame i (fdirty_update (\<lambda>_. False)) (bp\<lparr>pdisk := d\<rparr>)"
  shows "pool_inv bq" "0 \<le> q \<Longrightarrow> page_view bq q = page_view bp q"
proof -
  let ?f = "frames bp ! i"
  note ok = pool_invD(4) [OF inv i]
  then have od: "on_disk (pdisk bp) (fpage ?f)" "length (fdata ?f) = PAGE_SIZE" using v by (auto simp: frame_ok_def)
  have fr: "frames bq = (frames bp)[i := ?f\<lparr>fdirty := False\<rparr>]"
    and tb: "table bq = table bp" "hand bq = hand bp" "pdisk bq = d"
    by (simp_all add: bq_def upd_frame_def)
  have same: "fpage (frames bq ! j) = fpage (frames bp ! j)" "fvalid (frames bq ! j) = fvalid (frames bp ! j)"
    "fdata (frames bq ! j) = fdata (frames bp ! j)" if "j < length (frames bp)" for j
    using that i by (auto simp: fr nth_list_update)
  have "frame_ok d True (frames bq ! j)" if j: "j < length (frames bp)" for j
  proof (cases "j = i")
    case True
    then show ?thesis using ok i d od by (auto simp: fr frame_ok_def)
  next
    case False
    have neq: "fpage (frames bp ! j) \<noteq> fpage ?f" if "fvalid (frames bp ! j)"
      using pool_invD(3) [OF inv, of "fpage ?f" i] pool_invD(3) [OF inv, of "fpage ?f" j] that i j False v by auto
    show ?thesis
      using pool_invD(4) [OF inv j] neq d False by (auto simp: frame_ok_def fr)
  qed
  moreover have "(table bq pid = Some j) =
      (j < length (frames bq) \<and> fvalid (frames bq ! j) \<and> fpage (frames bq ! j) = pid)" for pid j
    using pool_invD(3) [OF inv, of pid j] same [of j] by (auto simp: fr tb)
  ultimately show "pool_inv bq"
    using pool_invD(1) [OF inv] d(1) by (simp add: pool_inv_but_def tb fr)
  show "page_view bq q = page_view bp q" if q: "0 \<le> q"
  proof (cases "table bp q")
    case None
    have "q \<noteq> fpage ?f"
      using pool_invD(3) [OF inv, of "fpage ?f" i] v i None by auto
    with None q d show ?thesis by (simp add: page_view_def tb)
  next
    case (Some j)
    then have "j < length (frames bp)" using pool_invD(3) [OF inv, of q j] by simp
    with Some show ?thesis by (simp add: page_view_def tb same)
  qed
qed

lemma flushFrame_ok:
  assumes inv: "pool_inv bp" and i: "i < length (frames bp)"
  obtains bq where "flushFrame i bp = (Inr (), bq)" "pool_inv bq"
    "table bq = table bp" "hand bq = hand bp"
    "num_pages (pdisk bq) = num_pages (pdisk bp)"
    "frames bq = (frames bp)[i := (frames bp ! i)\<lparr>fdirty := fdirty (frames bp ! i) \<and> \<not> fvalid (frames bp ! i)\<rparr>]"
    "\<And>q. 0 \<le> q \<Longrightarrow> page_view bq q = page_view bp q"
    "\<And>q. 0 \<le> q \<Longrightarrow> fvalid (frames bp ! i) \<Longrightarrow> disk_page (pdisk bq) q =
        (if q = fpage (frames bp ! i) then fdata (frames bp ! i) else disk_page (pdisk bp) q)"
proof -
  let ?f = "frames bp ! i"
  note ok = pool_invD(4) [OF inv i]
  show thesis
  proof (cases "fvalid ?f \<and> fdirty ?f")
    case False
    then have fl: "flushFrame i bp = (Inr (), bp)" by (auto simp: flushFrame_def Let_def)
    from False have "?f = ?f\<lparr>fdirty := fdirty ?f \<and> \<not> fvalid ?f\<rparr>" by (cases ?f) auto
    then have fr: "frames bp = (frames bp)[i := ?f\<lparr>fdirty := fdirty ?f \<and> \<not> fvalid ?f\<rparr>]" by simp
    show thesis
      by (rule that [OF fl inv]) (use fr False ok in \<open>auto simp: frame_ok_def\<close>)
  next
    case True
    then have od: "on_disk (pdisk bp) (fpage ?f)" "length (fdata ?f) = PAGE_SIZE"
      using ok by (auto simp: frame_ok_def)
    obtain d where d: "writePage (fpage ?f) (fdata ?f) (pdisk bp) = Inr d" "disk_inv d"
        "num_pages d = num_pages (pdisk bp)"
        "\<And>q. 0 \<le> q \<Longrightarrow> disk_page d q = (if q = fpage ?f then fdata ?f else disk_page (pdisk bp) q)"
      using writePage_ok [OF pool_invD(2) [OF inv] od] by blast
    let ?bq = "upd_frame i (fdirty_update (\<lambda>_. False)) (bp\<lparr>pdisk := d\<rparr>)"
    have v: "fvalid ?f" using True by simp
    note wb = write_back_ok [OF inv i v d(2-4)]
    have fl: "flushFrame i bp = (Inr (), ?bq)" using True d by (simp add: flushFrame_def Let_def)
    show thesis
      by (rule that [OF fl wb(1)]) (use True wb(2) d in \<open>auto simp: upd_frame_def\<close>)
  qed
qed

text \<open>What a successful \<open>evictVictim\<close> leaves behind: an invalid frame, nothing else visible.\<close>

definition vacates :: "nat \<Rightarrow> pool \<Rightarrow> pool \<Rightarrow> bool" where
  "vacates i bp bq \<longleftrightarrow> pool_inv bq \<and> i < length (frames bq) \<and> \<not> fvalid (frames bq ! i)
     \<and> length (frames bq) = length (frames bp) \<and> num_pages (pdisk bq) = num_pages (pdisk bp)
     \<and> (\<forall>q \<ge> 0. page_view bq q = page_view bp q) \<and> pin_count bq = pin_count bp
     \<and> (\<forall>q. table bp q = None \<longrightarrow> table bq q = None)"

text \<open>Taking a valid frame out of the table keeps the invariant.\<close>

lemma pool_inv_vacate:
  assumes inv: "pool_inv bm" and i: "i < length (frames bm)" "fvalid (frames bm ! i)"
  shows "pool_inv (upd_frame i (fvalid_update (\<lambda>_. False)) (bm\<lparr>table := (table bm)(fpage (frames bm ! i) := None)\<rparr>))"
    (is "pool_inv ?bq")
proof -
  let ?pid = "fpage (frames bm ! i)"
  note tb = pool_invD(3) [OF inv]
  have q: "table ?bq = (table bm)(?pid := None)" "pdisk ?bq = pdisk bm" "hand ?bq = hand bm"
    "length (frames ?bq) = length (frames bm)" "\<not> fvalid (frames ?bq ! i)" "\<And>j. j \<noteq> i \<Longrightarrow> frames ?bq ! j = frames bm ! j"
    using i by (simp_all add: upd_frame_def)
  have "(table ?bq pid = Some j) = (j < length (frames ?bq) \<and> fvalid (frames ?bq ! j) \<and> fpage (frames ?bq ! j) = pid)" for pid j
  proof (cases "j = i")
    case True
    then show ?thesis using q tb [of pid i] by auto
  next
    case False
    have "\<not> (j < length (frames bm) \<and> fvalid (frames bm ! j) \<and> fpage (frames bm ! j) = ?pid)"
      using tb [of ?pid j] tb [of ?pid i] i False by auto
    then show ?thesis using False q tb [of pid j] by auto
  qed
  moreover have "frame_ok (pdisk ?bq) True (frames ?bq ! j)" if j: "j < length (frames ?bq)" for j
    using pool_invD(4) [OF inv, of j] j i(1) q(2,4,6) by (cases "j = i") (simp_all add: frame_ok_def upd_frame_def)
  ultimately show ?thesis using pool_invD(1,2) [OF inv] q by (simp add: pool_inv_but_def)
qed

lemma evict_at_ok:
  assumes inv: "pool_inv bp" and i: "i < length (frames bp)"
    and v: "fvalid (frames bp ! i)" "fpin (frames bp ! i) = 0"
  obtains bq where "evict_at i bp = (Inr i, bq)" "vacates i bp bq"
proof -
  let ?pid = "fpage (frames bp ! i)"
  obtain bm where bm: "flushFrame i bp = (Inr (), bm)" "pool_inv bm" "table bm = table bp" "hand bm = hand bp"
      "num_pages (pdisk bm) = num_pages (pdisk bp)"
      "frames bm = (frames bp)[i := (frames bp ! i)\<lparr>fdirty := fdirty (frames bp ! i) \<and> \<not> fvalid (frames bp ! i)\<rparr>]"
      "\<And>q. 0 \<le> q \<Longrightarrow> page_view bm q = page_view bp q"
      "\<And>q. 0 \<le> q \<Longrightarrow> fvalid (frames bp ! i) \<Longrightarrow> disk_page (pdisk bm) q =
        (if q = fpage (frames bp ! i) then fdata (frames bp ! i) else disk_page (pdisk bp) q)"
    using flushFrame_ok [OF inv i] by metis
  define bq where "bq = upd_frame i (fvalid_update (\<lambda>_. False)) (bm\<lparr>table := (table bm)(fpage (frames bm ! i) := None)\<rparr>)"
  have res: "evict_at i bp = (Inr i, bq)"
    by (simp add: evict_at_def bindS_def bm(1) bq_def)
  have pg: "fpage (frames bm ! i) = ?pid" using i by (simp add: bm(6))
  have tbi: "table bp pid = Some j \<longleftrightarrow> j < length (frames bp) \<and> fvalid (frames bp ! j) \<and> fpage (frames bp ! j) = pid" for pid j
    by (rule pool_invD(3) [OF inv])
  have q: "table bq = (table bp)(?pid := None)" "pdisk bq = pdisk bm" "hand bq = hand bm"
    "length (frames bq) = length (frames bp)" "\<not> fvalid (frames bq ! i)"
    "\<And>j. j \<noteq> i \<Longrightarrow> frames bq ! j = frames bp ! j"
    using i by (simp_all add: bq_def upd_frame_def pg bm(3,6))
  have "i < length (frames bm)" "fvalid (frames bm ! i)" using i v by (simp_all add: bm(6))
  then have invq: "pool_inv bq" unfolding bq_def by (rule pool_inv_vacate [OF bm(2)])
  have view: "page_view bq p = page_view bp p" if "0 \<le> p" for p
  proof (cases "p = ?pid")
    case True
    with that v i tbi [of ?pid i] show ?thesis by (simp add: page_view_def q bm(8))
  next
    case False
    have "page_view bq p = page_view bm p"
      using False pool_invD(3) [OF inv, of p] i
      by (cases "table bp p") (auto simp: page_view_def q bm(3,6) nth_list_update)
    then show ?thesis using bm(7) that by simp
  qed
  have "pin_count bq p = pin_count bp p" for p
  proof (cases "p = ?pid")
    case True
    with v i tbi [of ?pid i] show ?thesis by (simp add: pin_count_def q)
  next
    case False
    then show ?thesis using tbi [of p i] q by (cases "table bp p") (auto simp: pin_count_def)
  qed
  with invq view q i bm(5) have "vacates i bp bq" by (auto simp: vacates_def)
  with res show thesis by (rule that)
qed

text \<open>
  The sweep as a whole: it only ages frames until it finds its victim. The distance from the
  hand to an evictable frame, plus one more turn while that frame is still referenced,
  bounds the number of frames passed.
\<close>

definition sweep_dist :: "pool \<Rightarrow> nat \<Rightarrow> nat" where
  "sweep_dist bp j = fref (frames bp ! j) * length (frames bp)
     + (j + length (frames bp) - hand bp) mod length (frames bp)"

lemma dist_step:
  fixes h j n :: nat
  assumes "h < n" "j < n" "j \<noteq> h"
  shows "Suc ((j + n - (h + 1) mod n) mod n) = (j + n - h) mod n"
proof (cases "h < j")
  case True
  then have "(h + 1) mod n = h + 1" using assms by simp
  moreover have "(j + n - (h + 1)) mod n = j - (h + 1)" "(j + n - h) mod n = j - h"
    using mod_add_self2 [of "j - (h + 1)" n] mod_add_self2 [of "j - h" n] True assms by simp_all
  ultimately show ?thesis using True by simp
next
  case False
  then show ?thesis using assms by (cases "h + 1 = n") (auto simp: mod_if)
qed

lemma dist_wrap:
  fixes h n :: nat
  assumes "h < n"
  shows "Suc ((h + n - (h + 1) mod n) mod n) = n"
  using assms by (cases "h + 1 = n") (auto simp: mod_if)

lemma sweep_dist_step:
  assumes h: "hand bp < length (frames bp)" and j: "evictable bp j"
    and nv: "fvalid (frames bp ! hand bp)" "\<not> (fpin (frames bp ! hand bp) = 0 \<and> fref (frames bp ! hand bp) = 0)"
  shows "sweep_dist bp j = Suc (sweep_dist (sweep_past bp) j)" "evictable (sweep_past bp) j"
proof -
  let ?n = "length (frames bp)" and ?h = "hand bp"
  have jn: "j < ?n" using j by (simp add: evictable_def)
  have len: "length (frames (sweep_past bp)) = ?n" "hand (sweep_past bp) = (?h + 1) mod ?n"
    by (simp_all add: sweep_past_def Let_def upd_frame_def next_hand_def)
  show "evictable (sweep_past bp) j"
    using j aged_frame [OF aged_sweep_past [OF h] jn] len by (simp add: evictable_def)
  show "sweep_dist bp j = Suc (sweep_dist (sweep_past bp) j)"
  proof (cases "j = ?h")
    case False
    then have "fref (frames (sweep_past bp) ! j) = fref (frames bp ! j)"
      by (simp add: sweep_past_def Let_def upd_frame_def)
    with dist_step [OF h jn False] len show ?thesis by (simp add: sweep_dist_def)
  next
    case True
    with j nv have "fpin (frames bp ! ?h) = 0" "fref (frames bp ! ?h) \<noteq> 0" by (auto simp: evictable_def)
    then obtain r where "fref (frames bp ! ?h) = Suc r" "fref (frames (sweep_past bp) ! ?h) = r"
      using h by (cases "fref (frames bp ! ?h)") (auto simp: sweep_past_def Let_def upd_frame_def)
    with dist_wrap [OF h] len True show ?thesis by (simp add: sweep_dist_def)
  qed
qed

text \<open>At an empty frame, or one that is neither pinned nor referenced, the sweep ends.\<close>

lemma evict_loop_stop:
  assumes inv: "pool_inv bp"
    and c: "\<not> fvalid (frames bp ! hand bp) \<or> fpin (frames bp ! hand bp) = 0 \<and> fref (frames bp ! hand bp) = 0"
    and l: "scanned \<le> limit"
  shows "\<exists>i bq. evict_loop limit scanned bp = (Inr i, bq) \<and> vacates i bp bq"
proof -
  let ?h = "hand bp"
  have h: "?h < length (frames bp)" by (rule pool_invD(1) [OF inv])
  have moved: "aged bp (bp\<lparr>hand := next_hand bp\<rparr>)"
    using aged_set_hand [OF aged_refl [OF h]] next_hand_less [OF h] by simp
  note inv' = aged_inv [OF moved inv]
  show ?thesis
  proof (cases "fvalid (frames bp ! ?h)")
    case False
    then have "evict_loop limit scanned bp = (Inr ?h, bp\<lparr>hand := next_hand bp\<rparr>)"
      using h l by (subst evict_loop.simps) (simp add: Let_def)
    moreover have "vacates ?h bp (bp\<lparr>hand := next_hand bp\<rparr>)"
      using inv' False h aged_view [OF moved inv] by (simp add: vacates_def)
    ultimately show ?thesis by blast
  next
    case True
    then have "evict_loop limit scanned bp = evict_at ?h (bp\<lparr>hand := next_hand bp\<rparr>)"
      using c h l by (subst evict_loop.simps) (simp add: Let_def)
    moreover obtain bq where "evict_at ?h (bp\<lparr>hand := next_hand bp\<rparr>) = (Inr ?h, bq)"
        "vacates ?h (bp\<lparr>hand := next_hand bp\<rparr>) bq"
      using evict_at_ok [OF inv', of ?h] True c h by auto
    moreover from this have "vacates ?h bp bq"
      using aged_view [OF moved inv] by (simp add: vacates_def)
    ultimately show ?thesis by auto
  qed
qed

lemma evict_loop_ok:
  assumes "pool_inv bp" "evictable bp j" "sweep_dist bp j + scanned \<le> limit"
  shows "\<exists>i bq. evict_loop limit scanned bp = (Inr i, bq) \<and> vacates i bp bq"
  using assms
proof (induction limit scanned bp rule: evict_loop.induct)
  case (1 limit scanned bp)
  let ?h = "hand bp"
  note inv = "1.prems"(1)
  have h: "?h < length (frames bp)" by (rule pool_invD(1) [OF inv])
  show ?case
  proof (cases "\<not> fvalid (frames bp ! ?h) \<or> fpin (frames bp ! ?h) = 0 \<and> fref (frames bp ! ?h) = 0")
    case True
    then show ?thesis using "1.prems"(3) by (intro evict_loop_stop [OF inv]) simp_all
  next
    case False
    then have 3: "fvalid (frames bp ! ?h)" "\<not> (fpin (frames bp ! ?h) = 0 \<and> fref (frames bp ! ?h) = 0)" by blast+
    note st = sweep_dist_step [OF h "1.prems"(2) 3]
    note ag = aged_sweep_past [OF h]
    have lim: "\<not> limit < scanned + 1" using "1.prems"(3) st(1) by simp
    have eq: "evict_loop limit scanned bp = evict_loop limit (scanned + 1) (sweep_past bp)"
      using 3 h lim by (subst evict_loop.simps) (auto simp: Let_def)
    have "\<exists>i bq. evict_loop limit (scanned + 1) (sweep_past bp) = (Inr i, bq) \<and> vacates i (sweep_past bp) bq"
    proof (rule "1.IH")
      show "pool_inv (sweep_past bp)" by (rule aged_inv [OF ag inv])
      show "evictable (sweep_past bp) j" by (rule st(2))
      show "sweep_dist (sweep_past bp) j + (scanned + 1) \<le> limit" using "1.prems"(3) st(1) by simp
    qed (use h 3 lim in auto)
    then obtain i bq where "evict_loop limit (scanned + 1) (sweep_past bp) = (Inr i, bq)"
        "vacates i (sweep_past bp) bq" by blast
    moreover from this have "vacates i bp bq"
      using aged_view [OF ag inv] ag by (auto simp: vacates_def aged_def)
    ultimately show ?thesis using eq by auto
  qed
qed

lemma evictVictim_ok:
  assumes inv: "pool_inv bp" and j: "evictable bp j"
  obtains i bq where "evictVictim bp = (Inr i, bq)" "vacates i bp bq"
proof -
  let ?n = "length (frames bp)"
  have jn: "j < ?n" using j by (simp add: evictable_def)
  have "fref (frames bp ! j) \<le> 1" using pool_invD(4) [OF inv jn] by (simp add: frame_ok_def)
  then have "fref (frames bp ! j) * ?n \<le> ?n" by simp
  moreover have "(j + ?n - hand bp) mod ?n < ?n" using jn by (intro mod_less_divisor) auto
  ultimately have "sweep_dist bp j + 0 \<le> ?n * 4 + 1" unfolding sweep_dist_def by linarith
  from evict_loop_ok [OF inv j this] that show thesis by (auto simp: evictVictim_def)
qed

section \<open>The interface a client relies on\<close>

text \<open>
  \<open>inv\<close> is the state between two operations of the heap file (nothing pinned), \<open>held w pid i\<close>
  the state while one page is pinned at pointer \<open>i\<close>, with \<open>w\<close> once it may have been written
  to. \<open>known\<close> are the pages that exist on disk.
\<close>

locale page_cache =
  fixes fetch :: "int \<Rightarrow> ('s, nat) stm"
    and new :: "('s, int \<times> nat) stm"
    and bytes :: "nat \<Rightarrow> 's \<Rightarrow> string"
    and put :: "nat \<Rightarrow> string \<Rightarrow> 's \<Rightarrow> 's"
    and unpin :: "int \<Rightarrow> bool \<Rightarrow> 's \<Rightarrow> 's"
    and inv :: "'s \<Rightarrow> bool"
    and held :: "bool \<Rightarrow> int \<Rightarrow> nat \<Rightarrow> 's \<Rightarrow> bool"
    and view :: "'s \<Rightarrow> int \<Rightarrow> string"
    and known :: "'s \<Rightarrow> int \<Rightarrow> bool"
  assumes fetch_ok: "inv s \<Longrightarrow> known s pid \<Longrightarrow> \<exists>i s'. fetch pid s = (Inr i, s') \<and> held False pid i s'
      \<and> known s' = known s \<and> (\<forall>q. known s q \<longrightarrow> view s' q = view s q)"
    and new_ok: "inv s \<Longrightarrow> \<exists>pid i s'. new s = (Inr (pid, i), s') \<and> held False pid i s' \<and> \<not> known s pid
      \<and> pid \<noteq> INVALID_PAGE \<and> known s' = (known s)(pid := True)
      \<and> view s' pid = replicate PAGE_SIZE CHR 0x00 \<and> (\<forall>q. known s q \<longrightarrow> view s' q = view s q)"
    and bytes_held: "held w pid i s \<Longrightarrow> bytes i s = view s pid"
    and put_ok: "held w pid i s \<Longrightarrow> length b = PAGE_SIZE \<Longrightarrow> held True pid i (put i b s)
      \<and> known (put i b s) = known s \<and> view (put i b s) = (view s)(pid := b)"
    and put_same: "held w pid i s \<Longrightarrow> put i (bytes i s) s = s"
    and unpin_ok: "held w pid i s \<Longrightarrow> w \<longrightarrow> d \<Longrightarrow> inv (unpin pid d s)
      \<and> known (unpin pid d s) = known s \<and> view (unpin pid d s) = view s"
    and view_length: "inv s \<Longrightarrow> known s pid \<Longrightarrow> length (view s pid) = PAGE_SIZE"
    and known_valid: "inv s \<Longrightarrow> known s pid \<Longrightarrow> pid \<noteq> INVALID_PAGE"
begin

lemma read_cycle:
  assumes "inv s" "known s pid"
  obtains i s' where "fetch pid s = (Inr i, s')" "bytes i s' = view s pid" "put i (view s pid) s' = s'"
    "inv (unpin pid d s')" "known (unpin pid d s') = known s"
    "\<And>q. known s q \<Longrightarrow> view (unpin pid d s') q = view s q"
proof -
  obtain i s' where f: "fetch pid s = (Inr i, s')" "held False pid i s'" "known s' = known s"
      "\<forall>q. known s q \<longrightarrow> view s' q = view s q"
    using fetch_ok [OF assms] by blast
  moreover have "bytes i s' = view s pid" using bytes_held [OF f(2)] f assms by simp
  moreover have "put i (view s pid) s' = s'" using put_same [OF f(2)] calculation by simp
  ultimately show thesis using that [of i s'] unpin_ok [OF f(2), of d] by auto
qed

lemma write_cycle:
  assumes "inv s" "known s pid" "length b = PAGE_SIZE"
  obtains i s' where "fetch pid s = (Inr i, s')" "bytes i s' = view s pid"
    "inv (unpin pid True (put i b s'))" "known (unpin pid True (put i b s')) = known s"
    "\<And>q. known s q \<Longrightarrow> view (unpin pid True (put i b s')) q = ((view s)(pid := b)) q"
proof -
  obtain i s' where f: "fetch pid s = (Inr i, s')" "held False pid i s'" "known s' = known s"
      "\<forall>q. known s q \<longrightarrow> view s' q = view s q"
    using fetch_ok [OF assms(1,2)] by blast
  from put_ok [OF f(2) assms(3)] have p: "held True pid i (put i b s')" "known (put i b s') = known s'"
    "view (put i b s') = (view s')(pid := b)" by auto
  have "bytes i s' = view s pid" using bytes_held [OF f(2)] f assms by simp
  with f p unpin_ok [OF p(1), of True] show thesis using that [of i s'] by auto
qed

lemma new_cycle:
  assumes "inv s" "length b = PAGE_SIZE"
  obtains pid i s' where "new s = (Inr (pid, i), s')" "bytes i s' = replicate PAGE_SIZE CHR 0x00"
    "\<not> known s pid" "pid \<noteq> INVALID_PAGE" "inv (unpin pid True (put i b s'))"
    "known (unpin pid True (put i b s')) = (known s)(pid := True)"
    "view (unpin pid True (put i b s')) pid = b"
    "\<And>q. known s q \<Longrightarrow> view (unpin pid True (put i b s')) q = view s q"
proof -
  obtain pid i s' where f: "new s = (Inr (pid, i), s')" "held False pid i s'" "\<not> known s pid"
      "pid \<noteq> INVALID_PAGE" "known s' = (known s)(pid := True)" "view s' pid = replicate PAGE_SIZE CHR 0x00"
      "\<forall>q. known s q \<longrightarrow> view s' q = view s q"
    using new_ok [OF assms(1)] by blast
  from put_ok [OF f(2) assms(2)] have p: "held True pid i (put i b s')" "known (put i b s') = known s'"
    "view (put i b s') = (view s')(pid := b)" by auto
  have "bytes i s' = replicate PAGE_SIZE CHR 0x00" using bytes_held [OF f(2)] f by simp
  moreover have "view (unpin pid True (put i b s')) q = view s q" if "known s q" for q
    using that f p unpin_ok [OF p(1), of True] by (cases "q = pid") auto
  ultimately show thesis using that [of pid i s'] f p unpin_ok [OF p(1), of True] by simp
qed

end

section \<open>The buffer pool implements it\<close>

definition pinned_only :: "int \<Rightarrow> pool \<Rightarrow> bool" where
  "pinned_only pid bp \<longleftrightarrow> pin_count bp = (\<lambda>_. 0)(pid := 1)"

definition cache_inv :: "pool \<Rightarrow> bool" where
  "cache_inv bp \<longleftrightarrow> pool_inv bp \<and> pin_count bp = (\<lambda>_. 0)"

definition cache_held :: "bool \<Rightarrow> int \<Rightarrow> nat \<Rightarrow> pool \<Rightarrow> bool" where
  "cache_held w pid i bp \<longleftrightarrow> pool_inv_but (if w then {i} else {}) bp \<and> table bp pid = Some i \<and> pinned_only pid bp"

lemma unpinned_evictable:
  assumes "pool_inv bp" "pin_count bp = (\<lambda>_. 0)"
  shows "evictable bp 0"
proof -
  have "0 < length (frames bp)" using pool_invD(1) [OF assms(1)] by auto
  moreover have "fpin (frames bp ! 0) = 0" if "fvalid (frames bp ! 0)"
  proof -
    have "table bp (fpage (frames bp ! 0)) = Some 0"
      using pool_invD(3) [OF assms(1), of "fpage (frames bp ! 0)" 0] that calculation by simp
    then show ?thesis using fun_cong [OF assms(2), of "fpage (frames bp ! 0)"] by (simp add: pin_count_def)
  qed
  ultimately show ?thesis by (simp add: evictable_def)
qed

text \<open>A hit, and installing a page in a vacated frame.\<close>

lemma pin_hit:
  assumes inv: "pool_inv bp" and t: "table bp pid = Some i"
  defines "bq \<equiv> upd_frame i (\<lambda>f. f\<lparr>fpin := fpin f + 1, fref := 1\<rparr>) bp"
  shows "pool_inv bq" "table bq = table bp" "pdisk bq = pdisk bp" "page_view bq = page_view bp"
    "pin_count bq = (pin_count bp)(pid := pin_count bp pid + 1)"
proof -
  have i: "i < length (frames bp)" "fvalid (frames bp ! i)" "fpage (frames bp ! i) = pid"
    using pool_invD(3) [OF inv, of pid i] t by auto
  have fr: "frames bq = (frames bp)[i := (frames bp ! i)\<lparr>fpin := fpin (frames bp ! i) + 1, fref := 1\<rparr>]"
    by (simp add: bq_def upd_frame_def)
  show tb: "table bq = table bp" "pdisk bq = pdisk bp" by (simp_all add: bq_def upd_frame_def)
  have "frame_ok (pdisk bp) True (frames bq ! j)" if "j < length (frames bp)" for j
    using pool_invD(4) [OF inv that] i by (auto simp: fr nth_list_update frame_ok_def)
  moreover have "(table bp q = Some j) = (j < length (frames bq) \<and> fvalid (frames bq ! j) \<and> fpage (frames bq ! j) = q)" for q j
    using pool_invD(3) [OF inv, of q j] i by (auto simp: fr nth_list_update)
  ultimately show "pool_inv bq"
    using pool_invD(1,2) [OF inv] by (simp add: pool_inv_but_def tb fr) (simp add: bq_def upd_frame_def)
  have ti: "j < length (frames bp) \<and> (j = i \<longleftrightarrow> q = pid)" if "table bp q = Some j" for q j
    using table_unique [OF inv that t] pool_invD(3) [OF inv] that by blast
  show "page_view bq = page_view bp"
  proof (rule ext)
    fix q
    show "page_view bq q = page_view bp q"
    proof (cases "table bp q")
      case (Some j)
      with ti [OF Some] show ?thesis by (cases "j = i") (simp_all add: page_view_def tb fr)
    qed (simp add: page_view_def tb)
  qed
  show "pin_count bq = (pin_count bp)(pid := pin_count bp pid + 1)"
  proof (rule ext)
    fix q
    show "pin_count bq q = ((pin_count bp)(pid := pin_count bp pid + 1)) q"
    proof (cases "table bp q")
      case None
      then show ?thesis using t by (cases "q = pid") (simp_all add: pin_count_def tb)
    next
      case (Some j)
      with ti [OF Some] t show ?thesis by (cases "j = i") (simp_all add: pin_count_def tb fr)
    qed
  qed
qed

lemma install_ok:
  assumes inv: "pool_inv bp" and i: "i < length (frames bp)" "\<not> fvalid (frames bp ! i)"
    and t: "table bp pid = None" and od: "on_disk (pdisk bp) pid" and b: "b = disk_page (pdisk bp) pid"
  defines "bq \<equiv> (upd_frame i (\<lambda>f. f\<lparr>fdata := b\<rparr>)
      (upd_frame i (\<lambda>f. f\<lparr>fpage := pid, fpin := 1, fdirty := False, fref := 1, fvalid := True\<rparr>) bp))
      \<lparr>table := (table bp)(pid \<mapsto> i)\<rparr>"
  shows "pool_inv bq" "table bq pid = Some i" "pdisk bq = pdisk bp" "page_view bq = page_view bp"
    "pin_count bq = (pin_count bp)(pid := 1)"
proof -
  have fr: "frames bq = (frames bp)[i := \<lparr>fdata = b, fpage = pid, fpin = 1, fdirty = False, fref = 1, fvalid = True\<rparr>]"
    using i by (cases "frames bp ! i") (simp add: bq_def upd_frame_def)
  have tb: "table bq = (table bp)(pid \<mapsto> i)" "pdisk bq = pdisk bp" "hand bq = hand bp"
    by (simp_all add: bq_def upd_frame_def)
  show "table bq pid = Some i" "pdisk bq = pdisk bp" by (simp_all add: tb)
  have ti: "table bp q = Some j \<longleftrightarrow> j < length (frames bp) \<and> fvalid (frames bp ! j) \<and> fpage (frames bp ! j) = q" for q j
    by (rule pool_invD(3) [OF inv])
  have "frame_ok (pdisk bp) True (frames bq ! j)" if "j < length (frames bp)" for j
    using pool_invD(4) [OF inv that] i od b by (auto simp: fr nth_list_update frame_ok_def)
  moreover have "(table bq q = Some j) = (j < length (frames bq) \<and> fvalid (frames bq ! j) \<and> fpage (frames bq ! j) = q)" for q j
    using ti [of q j] i t by (auto simp: tb fr nth_list_update)
  ultimately show "pool_inv bq"
    using pool_invD(1,2) [OF inv] by (simp add: pool_inv_but_def tb(2,3)) (simp add: fr)
  have tj: "table bp q = Some j \<Longrightarrow> q \<noteq> pid \<and> j \<noteq> i" for q j
    using ti [of q j] i t by auto
  show "page_view bq = page_view bp"
  proof (rule ext)
    fix q
    show "page_view bq q = page_view bp q"
    proof (cases "table bp q")
      case None
      then show ?thesis using i by (cases "q = pid") (simp_all add: page_view_def tb fr b)
    next
      case (Some j)
      with tj [OF Some] show ?thesis by (simp add: page_view_def tb fr)
    qed
  qed
  show "pin_count bq = (pin_count bp)(pid := 1)"
  proof (rule ext)
    fix q
    show "pin_count bq q = ((pin_count bp)(pid := 1)) q"
    proof (cases "table bp q")
      case None
      then show ?thesis using i by (cases "q = pid") (simp_all add: pin_count_def tb fr)
    next
      case (Some j)
      with tj [OF Some] show ?thesis by (simp add: pin_count_def tb fr)
    qed
  qed
qed

lemma fetch_miss:
  assumes inv: "pool_inv bp" and t: "table bp pid = None" and j: "evictable bp j"
    and od: "known_page bp pid"
  obtains i bq where "fetchPage pid bp = (Inr i, bq)" "pool_inv bq" "table bq pid = Some i"
    "num_pages (pdisk bq) = num_pages (pdisk bp)" "\<And>q. 0 \<le> q \<Longrightarrow> page_view bq q = page_view bp q"
    "pin_count bq = (pin_count bp)(pid := 1)"
proof -
  obtain i bm where e: "evictVictim bp = (Inr i, bm)" "vacates i bp bm"
    using evictVictim_ok [OF inv j] by blast
  then have m: "pool_inv bm" "i < length (frames bm)" "\<not> fvalid (frames bm ! i)"
      "num_pages (pdisk bm) = num_pages (pdisk bp)"
      "\<And>q. 0 \<le> q \<Longrightarrow> page_view bm q = page_view bp q" "pin_count bm = pin_count bp"
      "table bm pid = None"
    using t by (auto simp: vacates_def)
  have odm: "on_disk (pdisk bm) pid" using od m(4) by (simp add: known_page_def)
  note ins = install_ok [OF m(1-3,7) odm refl]
  have "fetchPage pid bp = (Inr i, (upd_frame i (\<lambda>f. f\<lparr>fdata := disk_page (pdisk bm) pid\<rparr>)
      (upd_frame i (\<lambda>f. f\<lparr>fpage := pid, fpin := 1, fdirty := False, fref := 1, fvalid := True\<rparr>) bm))
      \<lparr>table := (table bm)(pid \<mapsto> i)\<rparr>)"
    using t e(1) readPage_ok [OF odm]
    by (simp add: fetchPage_def pinFrameFor_def bindS_def Let_def upd_frame_def)
  then show thesis
    by (rule that) (use ins m in \<open>simp_all\<close>)
qed

lemma fetchPage_ok:
  assumes inv: "pool_inv bp" and od: "known_page bp pid"
    and "table bp pid \<noteq> None \<or> evictable bp j"
  obtains i bq where "fetchPage pid bp = (Inr i, bq)" "pool_inv bq" "table bq pid = Some i"
    "num_pages (pdisk bq) = num_pages (pdisk bp)" "\<And>q. 0 \<le> q \<Longrightarrow> page_view bq q = page_view bp q"
    "pin_count bq = (pin_count bp)(pid := pin_count bp pid + 1)"
proof (cases "table bp pid")
  case None
  then have pc: "pin_count bp pid = 0" by (simp add: pin_count_def)
  have ev: "evictable bp j" using assms(3) None by simp
  show thesis
    by (rule fetch_miss [OF inv None ev od]) (rule that; simp add: pc)
next
  case (Some i)
  have "fetchPage pid bp = (Inr i, upd_frame i (\<lambda>f. f\<lparr>fpin := fpin f + 1, fref := 1\<rparr>) bp)"
    using Some by (simp add: fetchPage_def pinFrameFor_def)
  then show thesis
    by (rule that) (use pin_hit [OF inv Some] Some in simp_all)
qed

lemma newPage_ok:
  assumes inv: "pool_inv bp" and j: "evictable bp j"
  obtains i bq where "newPage bp = (Inr (num_pages (pdisk bp), i), bq)" "pool_inv bq"
    "table bq (num_pages (pdisk bp)) = Some i"
    "num_pages (pdisk bq) = num_pages (pdisk bp) + 1"
    "\<And>q. 0 \<le> q \<Longrightarrow> page_view bq q =
       (if q = num_pages (pdisk bp) then replicate PAGE_SIZE CHR 0x00 else page_view bp q)"
    "pin_count bq = (pin_count bp)(num_pages (pdisk bp) := 1)"
proof -
  let ?pid = "num_pages (pdisk bp)"
  obtain d where al: "allocatePage (pdisk bp) = (?pid, d)"
    by (simp add: allocatePage_def Let_def)
  note d = allocatePage_ok [OF pool_invD(2) [OF inv] al]
  define bp0 where "bp0 = bp\<lparr>pdisk := d\<rparr>"
  have tN: "table bp ?pid = None"
  proof (rule ccontr)
    assume "table bp ?pid \<noteq> None"
    then obtain k where "table bp ?pid = Some k" by blast
    then have "k < length (frames bp)" "fvalid (frames bp ! k)" "fpage (frames bp ! k) = ?pid"
      using pool_invD(3) [OF inv] by blast+
    then show False using pool_invD(4) [OF inv, of k] by (simp add: frame_ok_def)
  qed
  have fok: "frame_ok d True f" if "frame_ok (pdisk bp) True f" for f
    using that d(3) d(5) [of "fpage f"] by (auto simp: frame_ok_def)
  have inv0: "pool_inv bp0"
    using inv d(2) fok by (auto simp: pool_inv_but_def bp0_def)
  have j0: "evictable bp0 j" using j by (simp add: evictable_def bp0_def)
  have v0: "page_view bp0 q = (if q = ?pid then replicate PAGE_SIZE CHR 0x00 else page_view bp q)"
    if "0 \<le> q" for q
    using that tN d(5) [of q] by (cases "table bp q") (auto simp: page_view_def bp0_def)
  obtain i bm where e: "evictVictim bp0 = (Inr i, bm)" "vacates i bp0 bm"
    using evictVictim_ok [OF inv0 j0] by blast
  then have m: "pool_inv bm" "i < length (frames bm)" "\<not> fvalid (frames bm ! i)"
      "num_pages (pdisk bm) = num_pages d"
      "\<And>q. 0 \<le> q \<Longrightarrow> page_view bm q = page_view bp0 q" "pin_count bm = pin_count bp0"
      "table bm ?pid = None"
    using tN by (auto simp: vacates_def bp0_def)
  have odm: "on_disk (pdisk bm) ?pid" using m(4) d(4) by simp
  have "disk_page (pdisk bm) ?pid = page_view bm ?pid" by (simp add: page_view_def m(7))
  also have "\<dots> = replicate PAGE_SIZE CHR 0x00" using m(5) [of ?pid] v0 [of ?pid] odm by simp
  finally have z: "replicate PAGE_SIZE CHR 0x00 = disk_page (pdisk bm) ?pid" by simp
  note ins = install_ok [OF m(1-3,7) odm z]
  have pc: "pin_count bp0 = pin_count bp"
    by (rule ext) (simp add: pin_count_def bp0_def split: option.split)
  have res: "newPage bp = (Inr (?pid, i), (upd_frame i (\<lambda>f. f\<lparr>fdata := replicate PAGE_SIZE CHR 0x00\<rparr>)
      (upd_frame i (\<lambda>f. f\<lparr>fpage := ?pid, fpin := 1, fdirty := False, fref := 1, fvalid := True\<rparr>) bm))
      \<lparr>table := (table bm)(?pid \<mapsto> i)\<rparr>)"
    using tN e(1) al
    by (simp add: newPage_def pinFrameFor_def bindS_def Let_def upd_frame_def bp0_def)
  show thesis
    by (rule that [OF res]) (use ins m d(3) pc v0 in \<open>simp_all\<close>)
qed

subsection \<open>Stores and unpins\<close>

lemma put_frame_ok:
  assumes inv: "pool_inv_but X bp" and t: "table bp pid = Some i" and b: "length b = PAGE_SIZE"
  defines "bq \<equiv> put_frame_bytes i b bp"
  shows "pool_inv_but (insert i X) bq" "table bq = table bp" "pdisk bq = pdisk bp"
    "page_view bq = (page_view bp)(pid := b)" "pin_count bq = pin_count bp"
proof -
  have i: "i < length (frames bp)" using pool_invD(3) [OF inv] t by blast
  have fr: "frames bq = (frames bp)[i := (frames bp ! i)\<lparr>fdata := b\<rparr>]"
    by (simp add: bq_def put_frame_bytes_def upd_frame_def)
  show tb: "table bq = table bp" "pdisk bq = pdisk bp"
    by (simp_all add: bq_def put_frame_bytes_def upd_frame_def)
  have same: "fpage (frames bq ! k) = fpage (frames bp ! k)" "fvalid (frames bq ! k) = fvalid (frames bp ! k)"
      "fpin (frames bq ! k) = fpin (frames bp ! k)" for k
    using i by (cases "k = i"; simp add: fr)+
  have "frame_ok (pdisk bp) (k \<notin> insert i X) (frames bq ! k)" if "k < length (frames bp)" for k
    using pool_invD(4) [OF inv that] i b by (cases "k = i") (auto simp: fr frame_ok_def)
  moreover have "length (frames bq) = length (frames bp)" "hand bq = hand bp"
    by (simp_all add: bq_def put_frame_bytes_def upd_frame_def)
  ultimately show "pool_inv_but (insert i X) bq"
    using pool_invD(1-3) [OF inv] by (simp add: pool_inv_but_def tb same)
  show "pin_count bq = pin_count bp"
    by (rule ext) (simp add: pin_count_def tb same split: option.split)
  show "page_view bq = (page_view bp)(pid := b)"
  proof (rule ext)
    fix q
    show "page_view bq q = ((page_view bp)(pid := b)) q"
    proof (cases "q = pid")
      case True
      then show ?thesis using t i by (simp add: page_view_def tb fr)
    next
      case False
      have "k \<noteq> i" if "table bp q = Some k" for k
        using table_unique [OF inv that t] False by simp
      with False show ?thesis by (cases "table bp q") (simp_all add: page_view_def tb fr)
    qed
  qed
qed

lemma unpinPage_ok:
  assumes inv: "pool_inv_but (if d then {i} else {}) bp" and t: "table bp pid = Some i"
  defines "bq \<equiv> unpinPage pid d bp"
  shows "pool_inv bq" "table bq = table bp" "pdisk bq = pdisk bp" "page_view bq = page_view bp"
    "pin_count bq = (pin_count bp)(pid := pin_count bp pid - 1)"
proof -
  have i: "i < length (frames bp)" using pool_invD(3) [OF inv] t by blast
  have fr: "frames bq = (frames bp)[i := (frames bp ! i)\<lparr>fdirty := (d \<or> fdirty (frames bp ! i)), fpin := fpin (frames bp ! i) - 1\<rparr>]"
    by (simp add: bq_def unpinPage_def upd_frame_def t)
  show tb: "table bq = table bp" "pdisk bq = pdisk bp"
    by (simp_all add: bq_def unpinPage_def upd_frame_def t)
  have same: "fpage (frames bq ! k) = fpage (frames bp ! k)" "fvalid (frames bq ! k) = fvalid (frames bp ! k)"
      "fdata (frames bq ! k) = fdata (frames bp ! k)" for k
    using i by (cases "k = i"; simp add: fr)+
  have "frame_ok (pdisk bp) True (frames bq ! k)" if "k < length (frames bp)" for k
    using pool_invD(4) [OF inv that] i by (cases "k = i") (auto simp: fr frame_ok_def split: if_splits)
  moreover have "length (frames bq) = length (frames bp)" "hand bq = hand bp"
    by (simp_all add: bq_def unpinPage_def upd_frame_def t)
  ultimately show "pool_inv bq"
    using pool_invD(1-3) [OF inv] by (simp add: pool_inv_but_def tb same)
  show "page_view bq = page_view bp"
    by (rule ext) (simp add: page_view_def tb same split: option.split)
  note tk = table_unique [OF inv _ t]
  show "pin_count bq = (pin_count bp)(pid := pin_count bp pid - 1)"
  proof (rule ext)
    fix q
    show "pin_count bq q = ((pin_count bp)(pid := pin_count bp pid - 1)) q"
    proof (cases "table bp q")
      case None
      then show ?thesis using t by (cases "q = pid") (simp_all add: pin_count_def tb)
    next
      case (Some k)
      then show ?thesis using tk [OF Some] i t by (cases "k = i") (simp_all add: pin_count_def tb fr)
    qed
  qed
qed

interpretation bufpool: page_cache fetchPage newPage frame_bytes put_frame_bytes unpinPage
  cache_inv cache_held page_view known_page
proof
  fix s pid assume a: "cache_inv s" "known_page s pid"
  then have inv: "pool_inv s" "pin_count s = (\<lambda>_. 0)" by (auto simp: cache_inv_def)
  note ev = unpinned_evictable [OF inv]
  obtain i s' where "fetchPage pid s = (Inr i, s')" "pool_inv s'" "table s' pid = Some i"
    "num_pages (pdisk s') = num_pages (pdisk s)" "\<And>q. 0 \<le> q \<Longrightarrow> page_view s' q = page_view s q"
    "pin_count s' = (pin_count s)(pid := pin_count s pid + 1)"
    using fetchPage_ok [OF inv(1) a(2)] ev by blast
  then show "\<exists>i s'. fetchPage pid s = (Inr i, s') \<and> cache_held False pid i s'
      \<and> known_page s' = known_page s \<and> (\<forall>q. known_page s q \<longrightarrow> page_view s' q = page_view s q)"
    by (auto simp: cache_held_def pinned_only_def inv(2) fun_eq_iff known_page_def)
next
  fix s assume a: "cache_inv s"
  then have inv: "pool_inv s" "pin_count s = (\<lambda>_. 0)" by (auto simp: cache_inv_def)
  have np: "0 \<le> num_pages (pdisk s)" using pool_invD(2) [OF inv(1)] by (simp add: disk_inv_def)
  let ?p = "num_pages (pdisk s)"
  obtain i s' where n: "newPage s = (Inr (?p, i), s')" "pool_inv s'" "table s' ?p = Some i"
    "num_pages (pdisk s') = ?p + 1"
    "\<And>q. 0 \<le> q \<Longrightarrow> page_view s' q = (if q = ?p then replicate PAGE_SIZE CHR 0x00 else page_view s q)"
    "pin_count s' = (pin_count s)(?p := 1)"
    using newPage_ok [OF inv(1) unpinned_evictable [OF inv]] by blast
  have "known_page s' = (known_page s)(?p := True)"
    using n(4) np by (auto simp: fun_eq_iff known_page_def)
  moreover have "cache_held False ?p i s'"
    using n inv(2) by (simp add: cache_held_def pinned_only_def)
  moreover have "?p \<noteq> INVALID_PAGE" using np by (simp add: INVALID_PAGE_def)
  ultimately show "\<exists>pid i s'. newPage s = (Inr (pid, i), s') \<and> cache_held False pid i s' \<and> \<not> known_page s pid
      \<and> pid \<noteq> INVALID_PAGE \<and> known_page s' = (known_page s)(pid := True)
      \<and> page_view s' pid = replicate PAGE_SIZE CHR 0x00 \<and> (\<forall>q. known_page s q \<longrightarrow> page_view s' q = page_view s q)"
    using n(1,5) np unfolding known_page_def by (intro exI [of _ ?p] exI [of _ i] exI [of _ s']) simp
next
  fix w pid i s assume "cache_held w pid i s"
  then show "frame_bytes i s = page_view s pid"
    by (simp add: cache_held_def frame_bytes_def page_view_def)
next
  fix w pid i s and b :: string assume h: "cache_held w pid i s" "length b = PAGE_SIZE"
  then have h': "pool_inv_but (if w then {i} else {}) s" "table s pid = Some i" "pinned_only pid s"
    by (auto simp: cache_held_def)
  have "insert i (if w then {i} else {}) = {i}" by auto
  with put_frame_ok [OF h'(1,2) h(2)] h'
  show "cache_held True pid i (put_frame_bytes i b s) \<and> known_page (put_frame_bytes i b s) = known_page s
      \<and> page_view (put_frame_bytes i b s) = (page_view s)(pid := b)"
    by (simp add: cache_held_def pinned_only_def fun_eq_iff known_page_def)
next
  fix w pid i s assume "cache_held w pid i s"
  then show "put_frame_bytes i (frame_bytes i s) s = s"
    by (simp add: put_frame_bytes_def frame_bytes_def upd_frame_def)
next
  fix w d pid i s assume h: "cache_held w pid i s" "w \<longrightarrow> d"
  then have inv: "pool_inv_but (if d then {i} else {}) s" "table s pid = Some i" "pinned_only pid s"
    by (auto simp: cache_held_def pool_inv_but_def frame_ok_def)
  from unpinPage_ok [OF inv(1,2)] inv(3)
  show "cache_inv (unpinPage pid d s) \<and> known_page (unpinPage pid d s) = known_page s
      \<and> page_view (unpinPage pid d s) = page_view s"
    by (simp add: cache_inv_def pinned_only_def fun_eq_iff known_page_def)
next
  fix s pid assume a: "cache_inv s" "known_page s pid"
  then have inv: "pool_inv s" by (simp add: cache_inv_def)
  show "length (page_view s pid) = PAGE_SIZE"
  proof (cases "table s pid")
    case None
    then show ?thesis by (simp add: page_view_def)
  next
    case (Some i)
    then have "i < length (frames s)" using pool_invD(3) [OF inv] by blast
    with Some pool_invD(4) [OF inv] show ?thesis by (simp add: page_view_def frame_ok_def)
  qed
next
  fix s pid assume "cache_inv s" "known_page s pid"
  then show "pid \<noteq> INVALID_PAGE" by (simp add: INVALID_PAGE_def known_page_def)
qed

subsection \<open>Flushing every frame\<close>

lemma flush_frames_ok:
  assumes "pool_inv bp" "\<forall>i \<in> set is. i < length (frames bp)"
  shows "\<exists>bq. flush_frames is bp = (Inr (), bq) \<and> pool_inv bq \<and> table bq = table bp
    \<and> length (frames bq) = length (frames bp)
    \<and> num_pages (pdisk bq) = num_pages (pdisk bp) \<and> (\<forall>q \<ge> 0. page_view bq q = page_view bp q)
    \<and> (\<forall>j < length (frames bp). fvalid (frames bq ! j) = fvalid (frames bp ! j)
        \<and> (fvalid (frames bp ! j) \<and> (j \<in> set is \<or> \<not> fdirty (frames bp ! j)) \<longrightarrow> \<not> fdirty (frames bq ! j)))"
  using assms
proof (induction "is" arbitrary: bp)
  case Nil
  then show ?case by simp
next
  case (Cons i "is")
  then have i: "i < length (frames bp)" by simp
  obtain bm where m: "flushFrame i bp = (Inr (), bm)" "pool_inv bm" "table bm = table bp"
      "num_pages (pdisk bm) = num_pages (pdisk bp)"
      "frames bm = (frames bp)[i := (frames bp ! i)\<lparr>fdirty := fdirty (frames bp ! i) \<and> \<not> fvalid (frames bp ! i)\<rparr>]"
      "\<And>q. 0 \<le> q \<Longrightarrow> page_view bm q = page_view bp q"
    using flushFrame_ok [OF Cons.prems(1) i] by metis
  have fm: "fvalid (frames bm ! j) = fvalid (frames bp ! j)"
      "fvalid (frames bp ! j) \<and> (j = i \<or> \<not> fdirty (frames bp ! j)) \<Longrightarrow> \<not> fdirty (frames bm ! j)"
    if "j < length (frames bp)" for j
    using that i by (cases "j = i"; simp add: m(5))+
  have lm: "length (frames bm) = length (frames bp)" by (simp add: m(5))
  from Cons.IH [OF m(2)] Cons.prems(2) lm obtain bq where
    q: "flush_frames is bm = (Inr (), bq)" "pool_inv bq" "table bq = table bm"
      "length (frames bq) = length (frames bm)"
      "num_pages (pdisk bq) = num_pages (pdisk bm)" "\<forall>q \<ge> 0. page_view bq q = page_view bm q"
      "\<forall>j < length (frames bm). fvalid (frames bq ! j) = fvalid (frames bm ! j)
        \<and> (fvalid (frames bm ! j) \<and> (j \<in> set is \<or> \<not> fdirty (frames bm ! j)) \<longrightarrow> \<not> fdirty (frames bq ! j))"
    by auto
  have "flush_frames (i # is) bp = (Inr (), bq)" using m(1) q(1) by (simp add: bindS_def)
  with q m fm lm show ?case by auto
qed

text \<open>A flush leaves nothing for the next one to do.\<close>

lemma flush_frames_clean:
  "\<forall>i \<in> set is. \<not> (fvalid (frames bp ! i) \<and> fdirty (frames bp ! i)) \<Longrightarrow> flush_frames is bp = (Inr (), bp)"
  by (induction "is") (auto simp: bindS_def flushFrame_def Let_def)

lemma flushAll_twice:
  assumes "pool_inv bp" "flushAll bp = (r, bq)"
  shows "flushAll bq = (Inr (), bq)"
proof -
  have "\<exists>bq. flush_frames [0..<length (frames bp)] bp = (Inr (), bq) \<and> length (frames bq) = length (frames bp)
      \<and> (\<forall>j < length (frames bp). \<not> (fvalid (frames bq ! j) \<and> fdirty (frames bq ! j)))"
    using flush_frames_ok [OF assms(1), of "[0..<length (frames bp)]"] by fastforce
  then have "\<forall>i \<in> set [0..<length (frames bq)]. \<not> (fvalid (frames bq ! i) \<and> fdirty (frames bq ! i))"
    using assms(2) by (auto simp: flushAll_def)
  then show ?thesis unfolding flushAll_def by (rule flush_frames_clean)
qed

lemma flushAll_ok:
  assumes inv: "pool_inv bp"
  obtains bq where "flushAll bp = (Inr (), bq)" "pool_inv bq" "table bq = table bp"
    "num_pages (pdisk bq) = num_pages (pdisk bp)" "\<And>q. 0 \<le> q \<Longrightarrow> page_view bq q = page_view bp q"
    "\<And>q. 0 \<le> q \<Longrightarrow> disk_page (pdisk bq) q = page_view bp q"
proof -
  obtain bq where q: "flushAll bp = (Inr (), bq)" "pool_inv bq" "table bq = table bp"
      "length (frames bq) = length (frames bp)" "num_pages (pdisk bq) = num_pages (pdisk bp)"
      "\<forall>q \<ge> 0. page_view bq q = page_view bp q"
      "\<forall>j < length (frames bp). fvalid (frames bp ! j) \<longrightarrow> \<not> fdirty (frames bq ! j)"
    using flush_frames_ok [OF inv, of "[0..<length (frames bp)]"] by (auto simp: flushAll_def)
  have "disk_page (pdisk bq) p = page_view bp p" if p: "0 \<le> p" for p
  proof (cases "table bq p")
    case None
    then have "page_view bq p = disk_page (pdisk bq) p" by (simp add: page_view_def)
    with q(6) p show ?thesis by simp
  next
    case (Some i)
    then have i: "i < length (frames bp)" "fvalid (frames bq ! i)" "fpage (frames bq ! i) = p"
      using pool_invD(3) [OF q(2)] q(4) by metis+
    moreover have "fvalid (frames bp ! i)"
      using Some q(3) pool_invD(3) [OF inv, of p i] by simp
    ultimately have "fdata (frames bq ! i) = disk_page (pdisk bq) p"
      using pool_invD(4) [OF q(2), of i] q(4,7) by (auto simp: frame_ok_def)
    moreover have "page_view bq p = fdata (frames bq ! i)" using Some by (simp add: page_view_def)
    ultimately show ?thesis using q(6) p by simp
  qed
  with q show thesis using that by blast
qed

lemma flushFrame_pins: "flushFrame i bp = (r, bq) \<Longrightarrow> map fpin (frames bq) = map fpin (frames bp)"
  by (auto simp: flushFrame_def Let_def upd_frame_def map_update list_update_same_conv
      split: if_splits sum.splits) (metis length_map list_update_beyond list_update_same_conv map_update not_less nth_map)

lemma flush_frames_pins: "flush_frames is bp = (r, bq) \<Longrightarrow> map fpin (frames bq) = map fpin (frames bp)"
proof (induction "is" arbitrary: bp)
  case (Cons i "is")
  obtain x bm where m: "flushFrame i bp = (x, bm)" by (cases "flushFrame i bp")
  then show ?case using Cons flushFrame_pins [OF m] by (cases x) (auto simp: bindS_def)
qed simp

lemma flushAll_cache:
  assumes inv: "cache_inv bp"
  obtains bq where "flushAll bp = (Inr (), bq)" "cache_inv bq" "num_pages (pdisk bq) = num_pages (pdisk bp)"
    "\<And>q. 0 \<le> q \<Longrightarrow> page_view bq q = page_view bp q" "\<And>q. 0 \<le> q \<Longrightarrow> disk_page (pdisk bq) q = page_view bp q"
proof -
  have pinv: "pool_inv bp" using inv by (simp add: cache_inv_def)
  obtain bq where q: "flushAll bp = (Inr (), bq)" "pool_inv bq" "table bq = table bp"
    "num_pages (pdisk bq) = num_pages (pdisk bp)" "\<And>q. 0 \<le> q \<Longrightarrow> page_view bq q = page_view bp q"
    "\<And>q. 0 \<le> q \<Longrightarrow> disk_page (pdisk bq) q = page_view bp q"
    by (rule flushAll_ok [OF pinv]) (rule that)
  have pins: "map fpin (frames bq) = map fpin (frames bp)"
    using flush_frames_pins q(1) by (simp add: flushAll_def)
  have "pin_count bq = pin_count bp"
  proof (rule ext)
    fix p
    show "pin_count bq p = pin_count bp p"
    proof (cases "table bp p")
      case (Some i)
      then have "i < length (frames bp)" using pool_invD(3) [OF pinv] by blast
      then have "fpin (frames bq ! i) = fpin (frames bp ! i)"
        using pins by (metis length_map nth_map)
      then show ?thesis using Some q(3) by (simp add: pin_count_def)
    qed (simp add: pin_count_def q(3))
  qed
  then have "cache_inv bq" using inv q(2) by (simp add: cache_inv_def)
  with q show thesis using that by blast
qed

subsection \<open>When every frame is pinned\<close>

definition all_pinned :: "pool \<Rightarrow> bool" where
  "all_pinned bp \<longleftrightarrow> hand bp < length (frames bp) \<and> (\<forall>f \<in> set (frames bp). fvalid f \<and> fpin f \<noteq> 0)"

lemma all_pinned_sweep:
  assumes "all_pinned bp"
  shows "all_pinned (sweep_past bp)" "sweep_past bp = bp\<lparr>hand := next_hand bp\<rparr>"
proof -
  have h: "hand bp < length (frames bp)" and "fpin (frames bp ! hand bp) \<noteq> 0"
    using assms by (auto simp: all_pinned_def)
  then show "sweep_past bp = bp\<lparr>hand := next_hand bp\<rparr>" by (simp add: sweep_past_def)
  with assms next_hand_less [OF h] show "all_pinned (sweep_past bp)" by (simp add: all_pinned_def)
qed

lemma evict_loop_all_pinned:
  assumes "all_pinned bp"
  shows "\<exists>h. evict_loop limit scanned bp
    = (Inl (RuntimeError ''buffer pool full: all frames pinned''), bp\<lparr>hand := h\<rparr>)"
  using assms
proof (induction limit scanned bp rule: evict_loop.induct)
  case (1 limit scanned bp)
  then have h: "hand bp < length (frames bp)" "fvalid (frames bp ! hand bp)" "fpin (frames bp ! hand bp) \<noteq> 0"
    by (auto simp: all_pinned_def)
  note sw = all_pinned_sweep [OF "1.prems"]
  show ?case
  proof (cases "limit < scanned + 1")
    case True
    then show ?thesis using h sw(2) by (subst evict_loop.simps) (auto simp: Let_def)
  next
    case False
    have "evict_loop limit scanned bp = evict_loop limit (scanned + 1) (sweep_past bp)"
      using h False by (subst evict_loop.simps) (auto simp: Let_def)
    moreover have "\<exists>k. evict_loop limit (scanned + 1) (sweep_past bp)
        = (Inl (RuntimeError ''buffer pool full: all frames pinned''), (sweep_past bp)\<lparr>hand := k\<rparr>)"
      by (rule "1.IH" [OF _ refl refl]) (use h False sw in auto)
    ultimately show ?thesis using sw(2) by auto
  qed
qed

section \<open>Properties\<close>

text \<open>
  Whatever is pinned, a fetch of an existing page succeeds as soon as the page is
  resident or one frame can be evicted: the clock sweep finds a victim within its bound of
  four rounds. The pointer shows the page's contents, the page gains one pin, and no page
  changes contents, evicted dirty pages included.
\<close>

theorem fetchPage_succeeds:
  assumes "pool_inv bp" "known_page bp pid" "table bp pid \<noteq> None \<or> evictable bp j"
  shows "\<exists>i bq. fetchPage pid bp = (Inr i, bq) \<and> pool_inv bq \<and> frame_bytes i bq = page_view bp pid
    \<and> pin_count bq = (pin_count bp)(pid := pin_count bp pid + 1)
    \<and> (\<forall>q. 0 \<le> q \<longrightarrow> page_view bq q = page_view bp q)"
proof -
  obtain i bq where q: "fetchPage pid bp = (Inr i, bq)" "pool_inv bq" "table bq pid = Some i"
    "\<And>q. 0 \<le> q \<Longrightarrow> page_view bq q = page_view bp q"
    "pin_count bq = (pin_count bp)(pid := pin_count bp pid + 1)"
    using fetchPage_ok [OF assms] by metis
  moreover have "frame_bytes i bq = page_view bq pid"
    using q(3) by (simp add: frame_bytes_def page_view_def)
  ultimately show ?thesis using assms(2) by (auto simp: known_page_def)
qed

lemma pool_one_frame:
  "pool_inv (pool_new (disk_open (replicate PAGE_SIZE CHR 0x00)) 1)"
  "known_page (pool_new (disk_open (replicate PAGE_SIZE CHR 0x00)) 1) 0"
  "evictable (pool_new (disk_open (replicate PAGE_SIZE CHR 0x00)) 1) 0"
  by (rule pool_inv_new [OF disk_inv_open])
     (simp_all add: pool_new_def disk_open_def PAGE_SIZE_def evictable_def empty_frame_def known_page_def)

theorem fetchPage_succeeds_witness:
  "\<exists>i bq. fetchPage 0 (pool_new (disk_open (replicate PAGE_SIZE CHR 0x00)) 1) = (Inr i, bq)
    \<and> pool_inv bq"
  using fetchPage_succeeds [OF pool_one_frame(1,2)] pool_one_frame(3) by blast

text \<open>
  With every frame pinned the sweep gives up after its bound with the exception the code
  throws, and nothing but the hand has moved.
\<close>

theorem evictVictim_all_pinned:
  assumes "all_pinned bp"
  shows "\<exists>h. evictVictim bp = (Inl (RuntimeError ''buffer pool full: all frames pinned''), bp\<lparr>hand := h\<rparr>)"
  unfolding evictVictim_def by (rule evict_loop_all_pinned [OF assms])

theorem evictVictim_all_pinned_witness:
  "\<exists>h. evictVictim \<lparr>pdisk = disk_open [], frames = [empty_frame\<lparr>fvalid := True, fpin := 1\<rparr>], table = [0 \<mapsto> 0], hand = 0\<rparr>
    = (Inl (RuntimeError ''buffer pool full: all frames pinned''),
       \<lparr>pdisk = disk_open [], frames = [empty_frame\<lparr>fvalid := True, fpin := 1\<rparr>], table = [0 \<mapsto> 0], hand = h\<rparr>)"
  using evictVictim_all_pinned [of "\<lparr>pdisk = disk_open [], frames = [empty_frame\<lparr>fvalid := True, fpin := 1\<rparr>], table = [0 \<mapsto> 0], hand = 0\<rparr>"]
  by (simp add: all_pinned_def)

text \<open>
  Durability of a clean shutdown: after \<open>flushAll\<close> the file itself holds the current
  contents of every page, resident or not, and the pool is still consistent.
\<close>

theorem flushAll_durable:
  assumes "pool_inv bp"
  shows "\<exists>bq. flushAll bp = (Inr (), bq) \<and> pool_inv bq
    \<and> (\<forall>q. 0 \<le> q \<longrightarrow> disk_page (pdisk bq) q = page_view bp q \<and> page_view bq q = page_view bp q)"
  using flushAll_ok [OF assms] by metis

theorem flushAll_durable_witness:
  "\<exists>bq. flushAll (pool_new (disk_open (replicate PAGE_SIZE CHR 0x00)) 1) = (Inr (), bq) \<and> pool_inv bq"
  using flushAll_durable [OF pool_one_frame(1)] by blast

text \<open>
  C38. A fetch of a page id the disk does not have throws, but only after the victim frame was
  marked valid and pinned: the frame stays pinned, no page id is mapped to it, and no \<open>unpinPage\<close>,
  of whatever id, changes it.
\<close>

theorem fetchPage_bad_id_leaks_frame:
  assumes "pool_inv bp" "evictable bp j" "\<not> known_page bp pid"
  shows "\<exists>i bq. fetchPage pid bp = (Inl (RuntimeError ''readPage: bad page id''), bq)
    \<and> i < length (frames bq) \<and> fvalid (frames bq ! i) \<and> fpin (frames bq ! i) = 1
    \<and> (\<forall>p. table bq p \<noteq> Some i) \<and> (\<forall>p d. frames (unpinPage p d bq) ! i = frames bq ! i)"
proof -
  note inv = assms(1)
  have tN: "table bp pid = None"
  proof (rule ccontr)
    assume "table bp pid \<noteq> None"
    then obtain k where "k < length (frames bp)" "fvalid (frames bp ! k)" "fpage (frames bp ! k) = pid"
      using pool_invD(3) [OF inv] by blast
    then show False using pool_invD(4) [OF inv, of k] assms(3) by (simp add: frame_ok_def known_page_def)
  qed
  obtain i bm where e: "evictVictim bp = (Inr i, bm)" "vacates i bp bm"
    using evictVictim_ok [OF inv assms(2)] by blast
  then have m: "i < length (frames bm)" "num_pages (pdisk bm) = num_pages (pdisk bp)" "table bm pid = None"
    using tN by (auto simp: vacates_def)
  define bq where
    "bq = upd_frame i (\<lambda>f. f\<lparr>fpage := pid, fpin := 1, fdirty := False, fref := 1, fvalid := True\<rparr>) bm"
  have "readPage pid (pdisk bq) = Inl (RuntimeError ''readPage: bad page id'')"
    using assms(3) m(2) by (auto simp: known_page_def readPage_def bq_def upd_frame_def)
  then have "fetchPage pid bp = (Inl (RuntimeError ''readPage: bad page id''), bq)"
    using tN e(1) by (simp add: fetchPage_def pinFrameFor_def bindS_def Let_def bq_def)
  moreover have "i < length (frames bq)" "fvalid (frames bq ! i)" "fpin (frames bq ! i) = 1"
    using m by (simp_all add: bq_def upd_frame_def)
  moreover have no: "table bq p \<noteq> Some i" for p
    using pool_invD(3) [of "{}" bm p i] e(2) by (auto simp: bq_def upd_frame_def vacates_def)
  moreover have "frames (unpinPage p d bq) ! i = frames bq ! i" for p d
    using no [of p] by (auto simp: unpinPage_def upd_frame_def split: option.split)
  ultimately show ?thesis by blast
qed

theorem fetchPage_bad_id_leaks_frame_witness:
  "\<exists>i bq. fetchPage 7 (pool_new (disk_open (replicate PAGE_SIZE CHR 0x00)) 1)
      = (Inl (RuntimeError ''readPage: bad page id''), bq) \<and> fpin (frames bq ! i) = 1 \<and> (\<forall>p. table bq p \<noteq> Some i)"
  using fetchPage_bad_id_leaks_frame [OF pool_one_frame(1,3), where pid = 7]
  by (auto simp: known_page_def pool_new_def disk_open_def PAGE_SIZE_def)

end
