(* ===== verification/HeapFile.thy ===== *)
theory HeapFile
  imports BufferPool
begin

text \<open>
  \<open>storage/heap_file.cpp\<close>: the rows of one table as slotted pages behind the buffer pool. The
  page list is owned by the catalog; \<open>heap_insert\<close> returns it, longer by one page when the heap
  grew, which is when the code calls \<open>on_grow_\<close>.

  The abstraction \<open>heap_rows\<close> is the list of live rows in scan order. The proofs use the
  buffer pool only through the cycles of its interface \<open>page_cache\<close>.
\<close>

fun heap_try :: "string \<Rightarrow> nat \<Rightarrow> int list \<Rightarrow> (pool, rowid option) stm" where
  "heap_try src len [] = retS None"
| "heap_try src len (pid # rest) = bindS (fetchPage pid) (\<lambda>i bp.
     let raw = frame_bytes i bp;
         page = (if \<not> initialized raw then page_init raw else raw)
     in case insertTuple src len page of
          Inl e \<Rightarrow> (Inl e, put_frame_bytes i page bp)
        | Inr (slot, page') \<Rightarrow>
            let bp1 = put_frame_bytes i page' bp
            in if slot \<ge> 0
               then (Inr (Some \<lparr>rpage = pid, rslot = int16 (nat slot)\<rparr>), unpinPage pid True bp1)
               else heap_try src len rest (unpinPage pid False bp1))"

definition heap_insert :: "int list \<Rightarrow> string \<Rightarrow> nat \<Rightarrow> (pool, rowid \<times> int list) stm" where
  "heap_insert pages src len =
     (if len + HEADER_SIZE + SLOT_SIZE > PAGE_SIZE then failS (RuntimeError ''tuple too large for a page'')
      else bindS (heap_try src len pages) (\<lambda>r. case r of
        Some rid \<Rightarrow> retS (rid, pages)
      | None \<Rightarrow> bindS newPage (\<lambda>(pid, i) bp.
          case insertTuple src len (page_init (frame_bytes i bp)) of
            Inl e \<Rightarrow> (Inl e, put_frame_bytes i (page_init (frame_bytes i bp)) bp)
          | Inr (slot, page') \<Rightarrow>
              (Inr (\<lparr>rpage = pid, rslot = int16 (nat (slot mod 65536))\<rparr>, pages @ [pid]),
               unpinPage pid True (put_frame_bytes i page' bp)))))"

definition heap_get :: "rowid \<Rightarrow> (pool, string option) stm" where
  "heap_get rid =
     (if \<not> rid_valid rid then retS None
      else bindS (fetchPage (rpage rid)) (\<lambda>i bp.
        case tupleBytes (rslot rid) (frame_bytes i bp) of
          Inl e \<Rightarrow> (Inl e, bp)
        | Inr r \<Rightarrow> (Inr r, unpinPage (rpage rid) False bp)))"

definition heap_erase :: "rowid \<Rightarrow> (pool, unit) stm" where
  "heap_erase rid =
     (if \<not> rid_valid rid then retS ()
      else bindS (fetchPage (rpage rid)) (\<lambda>i bp.
        case eraseTuple (rslot rid) (frame_bytes i bp) of
          Inl e \<Rightarrow> (Inl e, bp)
        | Inr page' \<Rightarrow> (Inr (), unpinPage (rpage rid) True (put_frame_bytes i page' bp))))"

text \<open>\<open>scan\<close> calls back with every live tuple; the calls are collected in order.\<close>

fun scan_slots :: "int \<Rightarrow> string \<Rightarrow> nat list \<Rightarrow> db_error + (rowid \<times> string) list" where
  "scan_slots pid page [] = Inr []"
| "scan_slots pid page (s # ss) =
     bindE (tupleBytes (int s) page) (\<lambda>t.
     bindE (scan_slots pid page ss) (\<lambda>rows.
       Inr (case t of None \<Rightarrow> rows
            | Some b \<Rightarrow> (\<lparr>rpage = pid, rslot = int16 s\<rparr>, b) # rows)))"

fun heap_scan :: "int list \<Rightarrow> (pool, (rowid \<times> string) list) stm" where
  "heap_scan [] = retS []"
| "heap_scan (pid # rest) = bindS (fetchPage pid) (\<lambda>i bp.
     case scan_slots pid (frame_bytes i bp) [0..<num_slots (frame_bytes i bp)] of
       Inl e \<Rightarrow> (Inl e, bp)
     | Inr rows \<Rightarrow> bindS (heap_scan rest) (\<lambda>more. retS (rows @ more)) (unpinPage pid False bp))"

text \<open>
  The same scan with a callback that computes a value or throws. An exception leaves the scan at
  once, with the page still pinned.
\<close>

fun visit_slots :: "(rowid \<times> string \<Rightarrow> db_error + 'a) \<Rightarrow> int \<Rightarrow> string \<Rightarrow> nat list \<Rightarrow> db_error + 'a list" where
  "visit_slots f pid page [] = Inr []"
| "visit_slots f pid page (s # ss) =
     bindE (tupleBytes (int s) page) (\<lambda>t. case t of
       None \<Rightarrow> visit_slots f pid page ss
     | Some b \<Rightarrow> bindE (f (\<lparr>rpage = pid, rslot = int16 s\<rparr>, b)) (\<lambda>y.
         bindE (visit_slots f pid page ss) (\<lambda>ys. Inr (y # ys))))"

fun heap_visit :: "(rowid \<times> string \<Rightarrow> db_error + 'a) \<Rightarrow> int list \<Rightarrow> (pool, 'a list) stm" where
  "heap_visit f [] = retS []"
| "heap_visit f (pid # rest) = bindS (fetchPage pid) (\<lambda>i bp.
     case visit_slots f pid (frame_bytes i bp) [0..<num_slots (frame_bytes i bp)] of
       Inl e \<Rightarrow> (Inl e, bp)
     | Inr ys \<Rightarrow> bindS (heap_visit f rest) (\<lambda>more. retS (ys @ more)) (unpinPage pid False bp))"

lemma visit_slots_scan:
  "scan_slots pid page ss = Inr rows \<Longrightarrow> mapE f rows = Inr ys \<Longrightarrow> visit_slots f pid page ss = Inr ys"
proof (induction ss arbitrary: rows ys)
  case (Cons s ss)
  then obtain t more where t: "tupleBytes (int s) page = Inr t" "scan_slots pid page ss = Inr more"
    by (auto simp: bindE_Inr_iff)
  show ?case using Cons t by (cases t) (auto simp: bindE_Inr_iff)
qed simp

lemma heap_visit_scan:
  "heap_scan pages bp = (Inr rows, bq) \<Longrightarrow> mapE f rows = Inr ys \<Longrightarrow> heap_visit f pages bp = (Inr ys, bq)"
proof (induction pages arbitrary: bp rows ys)
  case (Cons pid ps)
  obtain i s where f: "fetchPage pid bp = (Inr i, s)"
    using Cons.prems(1) by (auto simp: bindS_def split: prod.splits sum.splits)
  obtain r1 where r1: "scan_slots pid (frame_bytes i s) [0..<num_slots (frame_bytes i s)] = Inr r1"
    using Cons.prems(1) f by (auto simp: bindS_def split: sum.splits)
  obtain r2 where r2: "heap_scan ps (unpinPage pid False s) = (Inr r2, bq)" "rows = r1 @ r2"
    using Cons.prems(1) f r1 by (auto simp: bindS_def split: prod.splits sum.splits)
  obtain y1 y2 where y: "mapE f r1 = Inr y1" "mapE f r2 = Inr y2" "ys = y1 @ y2"
    using Cons.prems(2) r2(2) by (auto simp: mapE_append bindE_Inr_iff)
  show ?case using f visit_slots_scan [OF r1 y(1)] Cons.IH [OF r2(1) y(2)] y(3) by (simp add: bindS_def)
qed simp

declare heap_try.simps(2) [simp del] heap_scan.simps(2) [simp del] heap_visit.simps(2) [simp del]

section \<open>Live slots\<close>

fun live :: "nat \<Rightarrow> 'a option list \<Rightarrow> (nat \<times> 'a) list" where
  "live k [] = []"
| "live k (None # xs) = live (Suc k) xs"
| "live k (Some x # xs) = (k, x) # live (Suc k) xs"

lemma live_append: "live k (xs @ ys) = live k xs @ live (k + length xs) ys"
  by (induction k xs rule: live.induct) auto

lemma set_live:
  "(j, x) \<in> set (live k xs) \<longleftrightarrow> k \<le> j \<and> j - k < length xs \<and> xs ! (j - k) = Some x"
proof (induction k xs rule: live.induct)
  case (2 k xs)
  then show ?case by (cases "j = k") (auto simp: nth_Cons')
next
  case (3 k y xs)
  then show ?case by (cases "j = k") (auto simp: nth_Cons')
qed simp

lemma live_ge: "(j, x) \<in> set (live k xs) \<Longrightarrow> k \<le> j \<and> j < k + length xs"
  by (auto simp: set_live)

lemma distinct_live: "distinct (map fst (live k xs))"
  by (induction k xs rule: live.induct) (auto dest: live_ge)

lemma live_erase: "i < length xs \<Longrightarrow> live k (xs[i := None]) = filter (\<lambda>(j, _). j \<noteq> k + i) (live k xs)"
proof (induction k xs arbitrary: i rule: live.induct)
  case (2 k xs)
  then show ?case by (cases i) (auto dest: live_ge intro!: filter_True [symmetric])
next
  case (3 k x xs)
  then show ?case by (cases i) (auto dest: live_ge intro!: filter_True [symmetric])
qed simp

section \<open>Abstraction\<close>

definition page_rows :: "int \<Rightarrow> string \<Rightarrow> (rowid \<times> string) list" where
  "page_rows pid p = map (\<lambda>(i, d). (\<lparr>rpage = pid, rslot = int i\<rparr>, d)) (live 0 (page_tuples p))"

definition heap_rows :: "(int \<Rightarrow> string) \<Rightarrow> int list \<Rightarrow> (rowid \<times> string) list" where
  "heap_rows view pages = concat (map (\<lambda>pid. page_rows pid (view pid)) pages)"

text \<open>A page the heap file may meet: one it wrote, or an allocated one that was never written.\<close>

definition page_ok :: "string \<Rightarrow> bool" where
  "page_ok p \<longleftrightarrow> wf_page p \<or> (length p = PAGE_SIZE \<and> \<not> initialized p \<and> num_slots p = 0)"

definition heap_ok :: "pool \<Rightarrow> int list \<Rightarrow> bool" where
  "heap_ok bp pages \<longleftrightarrow> cache_inv bp \<and> distinct pages
     \<and> (\<forall>pid \<in> set pages. known_page bp pid \<and> page_ok (page_view bp pid))"

lemma page_ok_length: "page_ok p \<Longrightarrow> length p = PAGE_SIZE"
  by (auto simp: page_ok_def wf_page_def)

lemma num_slots_zero: "num_slots (replicate PAGE_SIZE CHR 0x00) = 0"
  by (simp add: num_slots_def slice_def PAGE_SIZE_def numeral_2_eq_2)

lemma page_ok_zero: "page_ok (replicate PAGE_SIZE CHR 0x00)"
proof -
  have z: "le_val (slice off 2 (replicate 4096 CHR 0x00)) = 0" if "off + 2 \<le> 4096" for off
  proof -
    have "slice off 2 (replicate 4096 CHR 0x00) = replicate 2 CHR 0x00"
      using that by (simp add: slice_def min_def)
    then show ?thesis by (simp add: numeral_2_eq_2)
  qed
  then show ?thesis
    by (simp add: page_ok_def initialized_def num_slots_def free_ptr_def PAGE_SIZE_def)
qed

lemma uninit_tuples: "\<not> wf_page p \<Longrightarrow> page_ok p \<Longrightarrow> page_tuples p = [] \<and> \<not> initialized p"
  by (auto simp: page_ok_def page_tuples_def)

lemma page_rows_page: "(rid, d) \<in> set (page_rows pid p) \<Longrightarrow> rpage rid = pid"
  by (auto simp: page_rows_def)

lemma page_rows_mem:
  "(rid, d) \<in> set (page_rows pid p) \<longleftrightarrow> rpage rid = pid \<and> 0 \<le> rslot rid
     \<and> nat (rslot rid) < length (page_tuples p) \<and> page_tuples p ! nat (rslot rid) = Some d"
proof -
  have "(rid, d) \<in> set (page_rows pid p) \<longleftrightarrow>
      (\<exists>i. rpage rid = pid \<and> rslot rid = int i \<and> (i, d) \<in> set (live 0 (page_tuples p)))"
    by (cases rid) (auto simp: page_rows_def)
  also have "\<dots> \<longleftrightarrow> rpage rid = pid \<and> 0 \<le> rslot rid \<and> (nat (rslot rid), d) \<in> set (live 0 (page_tuples p))"
    by (auto intro: exI [of _ "nat (rslot rid)"])
  finally show ?thesis by (simp add: set_live)
qed

lemma distinct_page_rows: "distinct (map fst (page_rows pid p))"
proof -
  have "map fst (page_rows pid p) = map (\<lambda>i. \<lparr>rpage = pid, rslot = int i\<rparr>) (map fst (live 0 (page_tuples p)))"
    by (auto simp: page_rows_def)
  moreover have "inj_on (\<lambda>i. \<lparr>rpage = pid, rslot = int i\<rparr>) A" for A by (simp add: inj_on_def)
  ultimately show ?thesis by (simp only: distinct_map [of "\<lambda>i. \<lparr>rpage = pid, rslot = int i\<rparr>"] distinct_live)
qed

lemma heap_rows_append [simp]: "heap_rows view (xs @ ys) = heap_rows view xs @ heap_rows view ys"
  by (simp add: heap_rows_def)

lemma heap_rows_Cons [simp]: "heap_rows view (pid # ps) = page_rows pid (view pid) @ heap_rows view ps"
  by (simp add: heap_rows_def)

lemma heap_rows_Nil [simp]: "heap_rows view [] = []"
  by (simp add: heap_rows_def)

lemma heap_rows_cong: "(\<And>pid. pid \<in> set pages \<Longrightarrow> v pid = w pid) \<Longrightarrow> heap_rows v pages = heap_rows w pages"
  by (simp add: heap_rows_def cong: map_cong)

lemma heap_rows_mem: "(rid, d) \<in> set (heap_rows view pages) \<longleftrightarrow>
    rpage rid \<in> set pages \<and> (rid, d) \<in> set (page_rows (rpage rid) (view (rpage rid)))"
  by (auto simp: heap_rows_def dest: page_rows_page)

lemma distinct_heap_rows: "distinct pages \<Longrightarrow> distinct (map fst (heap_rows view pages))"
proof (induction pages)
  case (Cons pid pages)
  have "fst ` set (page_rows pid (view pid)) \<inter> fst ` set (heap_rows view pages) = {}"
    using Cons.prems by (auto simp: heap_rows_mem dest: page_rows_page)
  with Cons show ?case by (simp add: distinct_page_rows)
qed simp

section \<open>Refinement of the operations\<close>

lemma page_rows_insert:
  assumes "page_tuples q = page_tuples p @ [Some d]"
  shows "page_rows pid q = page_rows pid p @ [(\<lparr>rpage = pid, rslot = int (length (page_tuples p))\<rparr>, d)]"
  by (simp add: page_rows_def assms live_append)

lemma page_try:
  assumes ok: "page_ok p" and len: "0 < len" "len \<le> length src" "len + HEADER_SIZE + SLOT_SIZE \<le> PAGE_SIZE"
  defines "p' \<equiv> (if \<not> initialized p then page_init p else p)"
  obtains (full) "p' = p" "insertTuple src len p' = Inr (-1, p)"
  | (fits) q where "insertTuple src len p' = Inr (int (length (page_tuples p)), q)" "wf_page q"
      "page_tuples q = page_tuples p @ [Some (take len src)]" "length (page_tuples p) < 1023"
proof (cases "wf_page p")
  case True
  then have p': "p' = p" using wf_page_initialized by (simp add: p'_def)
  show thesis
  proof (cases "len + SLOT_SIZE \<le> freeSpace p")
    case False
    then show thesis using full p' by (simp add: insertTuple_full)
  next
    case fit: True
    from insertTuple_fits [OF True len(2) fit] obtain q where
      q: "insertTuple src len p = Inr (int (num_slots p), q)" "wf_page q"
        "page_tuples q = page_tuples p @ [if len = 0 then None else Some (take len src)]"
        "num_slots q = Suc (num_slots p)" by metis
    moreover have "num_slots p < 1023" using wf_page_bounds(4) [OF q(2)] q(4) by simp
    ultimately show thesis using fits [of q] p' len by (simp add: page_tuples_def)
  qed
next
  case False
  with ok have u: "page_tuples p = []" "\<not> initialized p" by (auto dest: uninit_tuples)
  have l: "length p = PAGE_SIZE" by (rule page_ok_length [OF ok])
  have p': "p' = page_init p" using u by (simp add: p'_def)
  note wf = wf_page_init [OF l]
  have n0: "num_slots (page_init p) = 0" "page_tuples (page_init p) = []"
    using l by (simp_all add: page_init_fields page_tuples_init PAGE_SIZE_def)
  have "len + SLOT_SIZE \<le> freeSpace (page_init p)"
    using len l by (simp add: freeSpace_wf [OF wf] page_init_fields page_consts)
  from insertTuple_fits [OF wf len(2) this] obtain q where
    "insertTuple src len (page_init p) = Inr (0, q)" "wf_page q" "page_tuples q = [Some (take len src)]"
    using n0 len by auto
  then show thesis using fits [of q] p' u by simp
qed

text \<open>First fit over the existing pages.\<close>

text \<open>What \<open>heap_try\<close> leaves: nothing new, or the tuple at the end of one of the pages.\<close>

definition tried :: "string \<Rightarrow> nat \<Rightarrow> int list \<Rightarrow> pool \<Rightarrow> (db_error + rowid option) \<times> pool \<Rightarrow> bool" where
  "tried src len ps bp res \<longleftrightarrow>
     (\<exists>bq. res = (Inr None, bq) \<and> cache_inv bq \<and> known_page bq = known_page bp
        \<and> (\<forall>q. known_page bp q \<longrightarrow> page_view bq q = page_view bp q))
   \<or> (\<exists>pid r bq. pid \<in> set ps
        \<and> res = (Inr (Some \<lparr>rpage = pid, rslot = int (length (page_tuples (page_view bp pid)))\<rparr>), bq)
        \<and> cache_inv bq \<and> known_page bq = known_page bp
        \<and> wf_page r \<and> page_tuples r = page_tuples (page_view bp pid) @ [Some (take len src)]
        \<and> (\<forall>q. known_page bp q \<longrightarrow> page_view bq q = ((page_view bp)(pid := r)) q))"

lemma tried_skip:
  assumes t: "tried src len ps s res" and k: "known_page s = known_page bp"
    and v: "\<And>q. known_page bp q \<Longrightarrow> page_view s q = page_view bp q" and ps: "\<And>x. x \<in> set ps \<Longrightarrow> known_page bp x"
  shows "tried src len (pid # ps) bp res"
proof (rule t [unfolded tried_def, THEN disjE]; elim exE conjE)
  fix bq assume "res = (Inr None, bq)" "cache_inv bq" "known_page bq = known_page s" "\<forall>q. known_page s q \<longrightarrow> page_view bq q = page_view s q"
  then show ?thesis unfolding tried_def using k v by (intro disjI1 exI [of _ bq]) simp
next
  fix x r bq assume h: "x \<in> set ps" "res = (Inr (Some \<lparr>rpage = x, rslot = int (length (page_tuples (page_view s x)))\<rparr>), bq)"
    "cache_inv bq" "known_page bq = known_page s" "wf_page r" "page_tuples r = page_tuples (page_view s x) @ [Some (take len src)]"
    "\<forall>q. known_page s q \<longrightarrow> page_view bq q = ((page_view s)(x := r)) q"
  have "page_view s x = page_view bp x" using v ps [OF h(1)] by simp
  moreover have "page_view bq q = ((page_view bp)(x := r)) q" if "known_page bp q" for q
    using h(7) k v that by simp
  ultimately show ?thesis unfolding tried_def using h k by (intro disjI2 exI [of _ x] exI [of _ r] exI [of _ bq]) simp
qed

lemma heap_try_ok:
  assumes "cache_inv bp" "\<forall>pid \<in> set ps. known_page bp pid \<and> page_ok (page_view bp pid)"
    and len: "0 < len" "len \<le> length src" "len + HEADER_SIZE + SLOT_SIZE \<le> PAGE_SIZE"
  shows "tried src len ps bp (heap_try src len ps bp)"
  using assms(1,2)
proof (induction ps arbitrary: bp)
  case Nil
  then show ?case by (simp add: tried_def)
next
  case (Cons pid ps)
  then have k: "known_page bp pid" and ok: "page_ok (page_view bp pid)" by auto
  show ?case
  proof (rule page_try [OF ok len], goal_cases full fits)
    case full
    obtain i s where f: "fetchPage pid bp = (Inr i, s)" "frame_bytes i s = page_view bp pid"
        "put_frame_bytes i (page_view bp pid) s = s"
        "cache_inv (unpinPage pid False s)" "known_page (unpinPage pid False s) = known_page bp"
        "\<And>q. known_page bp q \<Longrightarrow> page_view (unpinPage pid False s) q = page_view bp q"
      by (rule bufpool.read_cycle [OF Cons.prems(1) k, where d = False]) (rule that)
    let ?s = "unpinPage pid False s"
    have step: "heap_try src len (pid # ps) bp = heap_try src len ps ?s"
      using f full by (cases "initialized (page_view bp pid)") (simp_all add: heap_try.simps(2) bindS_def Let_def)
    have "\<forall>pid \<in> set ps. known_page ?s pid \<and> page_ok (page_view ?s pid)"
    proof
      fix x assume "x \<in> set ps"
      then have "known_page bp x" "page_ok (page_view bp x)" using Cons.prems(2) by auto
      then show "known_page ?s x \<and> page_ok (page_view ?s x)"
        using f(6) [of x] fun_cong [OF f(5), of x] by simp
    qed
    from Cons.IH [OF f(4) this] show ?thesis unfolding step
      by (rule tried_skip) (use f(5,6) Cons.prems(2) in auto)
  next
    case (fits r)
    have lr: "length r = PAGE_SIZE" using fits(2) by (simp add: wf_page_def)
    obtain i s where f: "fetchPage pid bp = (Inr i, s)" "frame_bytes i s = page_view bp pid"
        "cache_inv (unpinPage pid True (put_frame_bytes i r s))"
        "known_page (unpinPage pid True (put_frame_bytes i r s)) = known_page bp"
        "\<And>q. known_page bp q \<Longrightarrow> page_view (unpinPage pid True (put_frame_bytes i r s)) q = ((page_view bp)(pid := r)) q"
      by (rule bufpool.write_cycle [OF Cons.prems(1) k lr]) (rule that)
    have "heap_try src len (pid # ps) bp
        = (Inr (Some \<lparr>rpage = pid, rslot = int (length (page_tuples (page_view bp pid)))\<rparr>),
           unpinPage pid True (put_frame_bytes i r s))"
      using f(1,2) fits
      by (cases "initialized (page_view bp pid)") (simp_all add: heap_try.simps(2) bindS_def Let_def int16_small)
    then show ?thesis unfolding tried_def
      using f(3-5) fits by (intro disjI2 exI [of _ pid] exI [of _ r]) simp
  qed
qed

text \<open>Frame conditions: nothing visible changed, or nothing outside the given pages did.\<close>

definition same_view :: "pool \<Rightarrow> pool \<Rightarrow> bool" where
  "same_view bp bq \<longleftrightarrow> known_page bq = known_page bp
     \<and> (\<forall>q. known_page bp q \<longrightarrow> page_view bq q = page_view bp q)"

definition same_outside :: "int set \<Rightarrow> pool \<Rightarrow> pool \<Rightarrow> bool" where
  "same_outside P bp bq \<longleftrightarrow> (\<forall>q. known_page bp q \<longrightarrow> known_page bq q)
     \<and> (\<forall>q. known_page bp q \<longrightarrow> q \<notin> P \<longrightarrow> page_view bq q = page_view bp q)"

lemma same_view_rows:
  assumes "same_view bp bq" "\<forall>pid \<in> set pages. known_page bp pid"
  shows "heap_rows (page_view bq) pages = heap_rows (page_view bp) pages"
  using assms by (intro heap_rows_cong) (auto simp: same_view_def)

lemma same_view_heap_ok:
  "same_view bp bq \<Longrightarrow> cache_inv bq \<Longrightarrow> heap_ok bp pages \<Longrightarrow> heap_ok bq pages"
  by (auto simp: same_view_def heap_ok_def)

lemma same_view_refl: "same_view bp bp"
  by (simp add: same_view_def)

lemma same_view_trans: "same_view a b \<Longrightarrow> same_view b c \<Longrightarrow> same_view a c"
  by (simp add: same_view_def)

lemma same_outside_rows:
  assumes "same_outside P bp bq" "\<forall>pid \<in> set pages. known_page bp pid" "set pages \<inter> P = {}"
  shows "heap_rows (page_view bq) pages = heap_rows (page_view bp) pages"
  using assms by (intro heap_rows_cong) (auto simp: same_outside_def)

lemma same_outside_heap_ok:
  assumes "same_outside P bp bq" "cache_inv bq" "heap_ok bp pages" "set pages \<inter> P = {}"
  shows "heap_ok bq pages"
  using assms by (auto simp: same_outside_def heap_ok_def)

lemma same_view_outside: "same_view bp bq \<Longrightarrow> same_outside P bp bq"
  by (simp add: same_view_def same_outside_def)

text \<open>Writing one page of a heap.\<close>

lemma heap_write_page:
  assumes ok: "heap_ok bp pages" and pid: "pid \<in> set pages" and r: "page_ok r"
    and inv: "cache_inv bq" and kn: "known_page bq = known_page bp"
    and view: "\<forall>q. known_page bp q \<longrightarrow> page_view bq q = ((page_view bp)(pid := r)) q"
  obtains ps1 ps2 where "pages = ps1 @ pid # ps2" "heap_ok bq pages" "same_outside (set pages) bp bq"
    "heap_rows (page_view bp) pages
       = heap_rows (page_view bp) ps1 @ page_rows pid (page_view bp pid) @ heap_rows (page_view bp) ps2"
    "heap_rows (page_view bq) pages
       = heap_rows (page_view bp) ps1 @ page_rows pid r @ heap_rows (page_view bp) ps2"
proof -
  from pid obtain ps1 ps2 where sp: "pages = ps1 @ pid # ps2" by (auto simp: in_set_conv_decomp)
  have k: "\<forall>q \<in> set pages. known_page bp q" and d: "pid \<notin> set ps1" "pid \<notin> set ps2"
    using ok sp by (auto simp: heap_ok_def)
  have "heap_rows (page_view bq) ps1 = heap_rows (page_view bp) ps1"
    "heap_rows (page_view bq) ps2 = heap_rows (page_view bp) ps2"
    using view k d sp by (auto intro!: heap_rows_cong)
  moreover have "page_view bq pid = r" using view k pid by simp
  moreover have "heap_ok bq pages" using ok view inv kn r by (auto simp: heap_ok_def)
  moreover have "same_outside (set pages) bp bq" using view kn pid by (auto simp: same_outside_def)
  ultimately show thesis using that sp by simp
qed

text \<open>The outcome of an insertion: one row more, under an unused row id, and at most one page more.\<close>

definition row_added :: "int list \<Rightarrow> pool \<Rightarrow> string \<Rightarrow> (db_error + rowid \<times> int list) \<times> pool \<Rightarrow> bool" where
  "row_added pages bp t res \<longleftrightarrow> (\<exists>rid pages' bq xs ys. res = (Inr (rid, pages'), bq)
     \<and> heap_ok bq pages' \<and> heap_rows (page_view bp) pages = xs @ ys
     \<and> heap_rows (page_view bq) pages' = xs @ (rid, t) # ys
     \<and> rid \<notin> fst ` set (xs @ ys) \<and> rpage rid \<in> set pages'
     \<and> (pages' = pages \<or> (\<exists>p. pages' = pages @ [p] \<and> \<not> known_page bp p))
     \<and> same_outside (set pages) bp bq)"

lemma heap_insert_existing:
  assumes ok: "heap_ok bp pages" and nb: "\<not> len + HEADER_SIZE + SLOT_SIZE > PAGE_SIZE"
    and h: "pid \<in> set pages"
      "heap_try src len pages bp = (Inr (Some \<lparr>rpage = pid, rslot = int (length (page_tuples (page_view bp pid)))\<rparr>), bq)"
      "cache_inv bq" "known_page bq = known_page bp" "wf_page r"
      "page_tuples r = page_tuples (page_view bp pid) @ [Some (take len src)]"
      "\<forall>q. known_page bp q \<longrightarrow> page_view bq q = ((page_view bp)(pid := r)) q"
  shows "row_added pages bp (take len src) (heap_insert pages src len bp)"
proof -
  let ?rid = "\<lparr>rpage = pid, rslot = int (length (page_tuples (page_view bp pid)))\<rparr>"
  have ok': "cache_inv bp" "\<forall>pid \<in> set pages. known_page bp pid \<and> page_ok (page_view bp pid)" "distinct pages"
    using ok by (auto simp: heap_ok_def)
  have "page_ok r" using h(5) by (simp add: page_ok_def)
  from heap_write_page [OF ok h(1) this h(3,4,7)] obtain ps1 ps2 where
    w: "pages = ps1 @ pid # ps2" "heap_ok bq pages" "same_outside (set pages) bp bq"
      "heap_rows (page_view bp) pages
        = heap_rows (page_view bp) ps1 @ page_rows pid (page_view bp pid) @ heap_rows (page_view bp) ps2"
      "heap_rows (page_view bq) pages
        = heap_rows (page_view bp) ps1 @ page_rows pid r @ heap_rows (page_view bp) ps2"
    by metis
  have fresh: "?rid \<notin> fst ` set (heap_rows (page_view bp) pages)"
    by (auto simp: heap_rows_mem page_rows_mem)
  have "heap_insert pages src len bp = (Inr (?rid, pages), bq)"
    using nb h(2) by (simp add: heap_insert_def bindS_def)
  then show ?thesis using w fresh h(1) page_rows_insert [OF h(6)] unfolding row_added_def
    by (intro exI [of _ ?rid] exI [of _ pages] exI [of _ bq]
      exI [of _ "heap_rows (page_view bp) ps1 @ page_rows pid (page_view bp pid)"] exI [of _ "heap_rows (page_view bp) ps2"]) simp
qed

lemma heap_insert_fresh:
  assumes ok: "heap_ok bp pages"
    and len: "0 < len" "len \<le> length src" "len + HEADER_SIZE + SLOT_SIZE \<le> PAGE_SIZE"
    and h: "heap_try src len pages bp = (Inr None, bm)" "cache_inv bm" "known_page bm = known_page bp"
      "\<forall>q. known_page bp q \<longrightarrow> page_view bm q = page_view bp q"
  shows "row_added pages bp (take len src) (heap_insert pages src len bp)"
proof -
  have ok': "cache_inv bp" "\<forall>pid \<in> set pages. known_page bp pid \<and> page_ok (page_view bp pid)" "distinct pages"
    using ok by (auto simp: heap_ok_def)
  have nb: "\<not> len + HEADER_SIZE + SLOT_SIZE > PAGE_SIZE" using len(3) by simp
  let ?z = "page_init (replicate PAGE_SIZE CHR 0x00)"
  have wz: "wf_page ?z" by (rule wf_page_init) simp
  have tz: "page_tuples ?z = []" "num_slots ?z = 0" by (simp_all add: page_tuples_init page_init_fields PAGE_SIZE_def)
  have "len + SLOT_SIZE \<le> freeSpace ?z"
    using len by (simp add: freeSpace_init) (simp add: page_consts)
  from insertTuple_fits [OF wz len(2) this] obtain r where
    r: "insertTuple src len ?z = Inr (0, r)" "wf_page r" "page_tuples r = [Some (take len src)]"
    using tz len by auto
  have lr: "length r = PAGE_SIZE" using r(2) by (simp add: wf_page_def)
  obtain pid i s where f: "newPage bm = (Inr (pid, i), s)" "frame_bytes i s = replicate PAGE_SIZE CHR 0x00"
      "\<not> known_page bm pid" "pid \<noteq> INVALID_PAGE" "cache_inv (unpinPage pid True (put_frame_bytes i r s))"
      "known_page (unpinPage pid True (put_frame_bytes i r s)) = (known_page bm)(pid := True)"
      "page_view (unpinPage pid True (put_frame_bytes i r s)) pid = r"
      "\<And>q. known_page bm q \<Longrightarrow> page_view (unpinPage pid True (put_frame_bytes i r s)) q = page_view bm q"
    by (rule bufpool.new_cycle [OF h(2) lr]) (rule that)
  let ?bq = "unpinPage pid True (put_frame_bytes i r s)"
  let ?rid = "\<lparr>rpage = pid, rslot = 0\<rparr>"
  have res: "heap_insert pages src len bp = (Inr (?rid, pages @ [pid]), ?bq)"
    using nb h(1) f(1,2) r(1) by (simp add: heap_insert_def bindS_def int16_small)
  have v: "page_view ?bq q = page_view bp q" if "known_page bp q" for q
    using that h(3,4) f(8) by simp
  have kq: "known_page ?bq = (known_page bp)(pid := True)" using f(6) h(3) by simp
  have np: "pid \<notin> set pages" using f(3) h(3) ok'(2) by auto
  have "heap_rows (page_view ?bq) pages = heap_rows (page_view bp) pages"
    using ok'(2) v by (intro heap_rows_cong) auto
  then have rows: "heap_rows (page_view ?bq) (pages @ [pid])
      = heap_rows (page_view bp) pages @ [(?rid, take len src)]"
    using f(7) r(3) by (simp add: page_rows_def)
  have okq: "heap_ok ?bq (pages @ [pid])"
    using ok' f(5,7) r(2) v kq np by (auto simp: heap_ok_def page_ok_def)
  have fresh: "?rid \<notin> fst ` set (heap_rows (page_view bp) pages)"
    using np by (auto simp: heap_rows_mem)
  have out: "same_outside (set pages) bp ?bq" using v kq by (simp add: same_outside_def)
  show ?thesis using res rows okq fresh out f(3) h(3) unfolding row_added_def
    by (intro exI [of _ ?rid] exI [of _ "pages @ [pid]"] exI [of _ ?bq] exI [of _ "heap_rows (page_view bp) pages"] exI [of _ "[]"]) auto
qed

lemma heap_insert_ok:
  assumes ok: "heap_ok bp pages"
    and len: "0 < len" "len \<le> length src" "len + HEADER_SIZE + SLOT_SIZE \<le> PAGE_SIZE"
  obtains rid pages' bq xs ys where "heap_insert pages src len bp = (Inr (rid, pages'), bq)"
    "heap_ok bq pages'" "heap_rows (page_view bp) pages = xs @ ys"
    "heap_rows (page_view bq) pages' = xs @ (rid, take len src) # ys"
    "rid \<notin> fst ` set (xs @ ys)" "rpage rid \<in> set pages'"
    "pages' = pages \<or> (\<exists>p. pages' = pages @ [p] \<and> \<not> known_page bp p)"
    "same_outside (set pages) bp bq"
proof -
  have ok': "cache_inv bp" "\<forall>pid \<in> set pages. known_page bp pid \<and> page_ok (page_view bp pid)"
    using ok by (auto simp: heap_ok_def)
  have nb: "\<not> len + HEADER_SIZE + SLOT_SIZE > PAGE_SIZE" using len(3) by simp
  have "row_added pages bp (take len src) (heap_insert pages src len bp)"
    using heap_try_ok [OF ok' len, unfolded tried_def] heap_insert_existing [OF ok nb] heap_insert_fresh [OF ok len] by blast
  then show thesis using that unfolding row_added_def by blast
qed

text \<open>Point reads. On a page that was never written every slot index is out of range.\<close>

lemma tupleBytes_page_ok:
  assumes ok: "page_ok p"
  shows "tupleBytes slot p = Inr (map_of (page_rows pid p) \<lparr>rpage = pid, rslot = slot\<rparr>)"
proof -
  let ?rid = "\<lparr>rpage = pid, rslot = slot\<rparr>"
  have m: "map_of (page_rows pid p) ?rid =
      (if 0 \<le> slot \<and> nat slot < length (page_tuples p) then page_tuples p ! nat slot else None)"
  proof (cases "map_of (page_rows pid p) ?rid")
    case None
    then have "\<And>d. (?rid, d) \<notin> set (page_rows pid p)"
      by (metis distinct_page_rows map_of_is_SomeI option.distinct(1))
    with None show ?thesis
      by (cases "page_tuples p ! nat slot") (auto simp: page_rows_mem)
  next
    case (Some d)
    then have "(?rid, d) \<in> set (page_rows pid p)" by (rule map_of_SomeD)
    with Some show ?thesis by (auto simp: page_rows_mem)
  qed
  show ?thesis
  proof (cases "wf_page p")
    case True
    show ?thesis unfolding m tupleBytes_refines [OF True]
      by (auto simp: page_tuples_def nat_less_iff)
  next
    case False
    with ok have "num_slots p = 0" "page_tuples p = []" by (auto simp: page_ok_def page_tuples_def)
    then show ?thesis unfolding m by (auto simp: tupleBytes_def getTuple_def)
  qed
qed

lemma heap_rows_lookup:
  assumes "distinct pages" "rpage rid \<in> set pages"
  shows "map_of (heap_rows view pages) rid = map_of (page_rows (rpage rid) (view (rpage rid))) rid"
proof (cases "map_of (page_rows (rpage rid) (view (rpage rid))) rid")
  case None
  then have "\<And>d. (rid, d) \<notin> set (heap_rows view pages)"
    by (auto simp: heap_rows_mem map_of_eq_None_iff image_iff)
  then have "map_of (heap_rows view pages) rid = None" by (rule map_of_NoneI)
  with None show ?thesis by simp
next
  case (Some d)
  then have "(rid, d) \<in> set (heap_rows view pages)"
    using assms by (auto simp: heap_rows_mem dest: map_of_SomeD)
  with Some show ?thesis using distinct_heap_rows [OF assms(1)] by simp
qed

lemma heap_get_ok:
  assumes ok: "heap_ok bp pages" and rid: "rpage rid \<in> set pages"
  obtains bq where "heap_get rid bp = (Inr (map_of (heap_rows (page_view bp) pages) rid), bq)"
    "heap_ok bq pages" "same_view bp bq"
proof -
  have ok': "cache_inv bp" "known_page bp (rpage rid)" "page_ok (page_view bp (rpage rid))" "distinct pages"
    using ok rid by (auto simp: heap_ok_def)
  have nv: "rpage rid \<noteq> INVALID_PAGE" using bufpool.known_valid [OF ok'(1,2)] .
  note lk = heap_rows_lookup [OF ok'(4) rid, of "page_view bp"]
  show thesis
  proof (cases "rid_valid rid")
    case False
    with nv have "rslot rid < 0" by (simp add: rid_valid_def)
    then have "map_of (heap_rows (page_view bp) pages) rid = None"
      by (force simp: map_of_eq_None_iff heap_rows_mem page_rows_mem)
    with False ok that [of bp] show thesis by (simp add: heap_get_def same_view_refl)
  next
    case True
    obtain i s where f: "fetchPage (rpage rid) bp = (Inr i, s)" "frame_bytes i s = page_view bp (rpage rid)"
        "put_frame_bytes i (page_view bp (rpage rid)) s = s"
        "cache_inv (unpinPage (rpage rid) False s)" "known_page (unpinPage (rpage rid) False s) = known_page bp"
        "\<And>q. known_page bp q \<Longrightarrow> page_view (unpinPage (rpage rid) False s) q = page_view bp q"
      by (rule bufpool.read_cycle [OF ok'(1,2), where d = False]) (rule that)
    have sv: "same_view bp (unpinPage (rpage rid) False s)" using f by (simp add: same_view_def)
    have "tupleBytes (rslot rid) (page_view bp (rpage rid)) = Inr (map_of (heap_rows (page_view bp) pages) rid)"
      using tupleBytes_page_ok [OF ok'(3), of "rslot rid" "rpage rid"] lk by (cases rid) simp
    then have "heap_get rid bp = (Inr (map_of (heap_rows (page_view bp) pages) rid), unpinPage (rpage rid) False s)"
      using True f by (simp add: heap_get_def bindS_def)
    then show thesis by (rule that) (use sv same_view_heap_ok [OF sv f(4) ok] in simp_all)
  qed
qed

lemma eraseTuple_page_ok:
  assumes ok: "page_ok p"
  obtains r where "eraseTuple slot p = Inr r" "page_ok r"
    "page_rows pid r = filter (\<lambda>(x, _). x \<noteq> \<lparr>rpage = pid, rslot = slot\<rparr>) (page_rows pid p)"
proof (cases "wf_page p \<and> 0 \<le> slot \<and> slot < int (num_slots p)")
  case False
  then have e: "eraseTuple slot p = Inr p"
    using ok by (auto simp: eraseTuple_def page_ok_def)
  have "x \<noteq> \<lparr>rpage = pid, rslot = slot\<rparr>" if m: "(x, d) \<in> set (page_rows pid p)" for x d
  proof
    assume "x = \<lparr>rpage = pid, rslot = slot\<rparr>"
    with m have "0 \<le> slot" "nat slot < num_slots p" by (simp_all add: page_rows_mem page_tuples_def)
    with False ok show False by (auto simp: page_ok_def)
  qed
  then have "filter (\<lambda>(x, _). x \<noteq> \<lparr>rpage = pid, rslot = slot\<rparr>) (page_rows pid p) = page_rows pid p"
    by (auto intro!: filter_True)
  with e ok that show thesis by simp
next
  case True
  then obtain r where r: "eraseTuple slot p = Inr r" "wf_page r"
      "page_tuples r = (page_tuples p)[nat slot := None]"
    using eraseTuple_refines [of p slot] by (metis (full_types))
  have "nat slot < length (page_tuples p)" using True by (simp add: page_tuples_def nat_less_iff)
  then have "live 0 (page_tuples r) = filter (\<lambda>(j, _). j \<noteq> nat slot) (live 0 (page_tuples p))"
    by (simp add: r(3) live_erase)
  then have "page_rows pid r = filter (\<lambda>(x, _). x \<noteq> \<lparr>rpage = pid, rslot = slot\<rparr>) (page_rows pid p)"
    using True by (auto simp: page_rows_def filter_map o_def split_def nat_eq_iff intro!: arg_cong [where f = "map _"] filter_cong)
  with r that show thesis by (simp add: page_ok_def)
qed

lemma filter_heap_rows_other:
  "pid \<notin> set ps \<Longrightarrow> rpage rid = pid \<Longrightarrow>
    filter (\<lambda>(x, _). x \<noteq> rid) (heap_rows view ps) = heap_rows view ps"
  by (auto simp: heap_rows_mem intro!: filter_True)

lemma heap_erase_ok:
  assumes ok: "heap_ok bp pages" and rid: "rpage rid \<in> set pages"
  obtains bq where "heap_erase rid bp = (Inr (), bq)" "heap_ok bq pages" "same_outside (set pages) bp bq"
    "heap_rows (page_view bq) pages = filter (\<lambda>(x, _). x \<noteq> rid) (heap_rows (page_view bp) pages)"
proof -
  let ?pid = "rpage rid"
  have ok': "cache_inv bp" "known_page bp ?pid" "page_ok (page_view bp ?pid)" "distinct pages"
    using ok rid by (auto simp: heap_ok_def)
  have nv: "?pid \<noteq> INVALID_PAGE" using bufpool.known_valid [OF ok'(1,2)] .
  show thesis
  proof (cases "rid_valid rid")
    case False
    with nv have "rslot rid < 0" by (simp add: rid_valid_def)
    then have "filter (\<lambda>(x, _). x \<noteq> rid) (heap_rows (page_view bp) pages) = heap_rows (page_view bp) pages"
      by (intro filter_True) (auto simp: heap_rows_mem page_rows_mem)
    with False ok that [of bp] show thesis
      by (simp add: heap_erase_def same_view_outside same_view_refl)
  next
    case True
    obtain r where r: "eraseTuple (rslot rid) (page_view bp ?pid) = Inr r" "page_ok r"
        "page_rows ?pid r = filter (\<lambda>(x, _). x \<noteq> \<lparr>rpage = ?pid, rslot = rslot rid\<rparr>) (page_rows ?pid (page_view bp ?pid))"
      by (rule eraseTuple_page_ok [OF ok'(3), of "rslot rid" ?pid]) (rule that)
    obtain i s where f: "fetchPage ?pid bp = (Inr i, s)" "frame_bytes i s = page_view bp ?pid"
        "cache_inv (unpinPage ?pid True (put_frame_bytes i r s))"
        "known_page (unpinPage ?pid True (put_frame_bytes i r s)) = known_page bp"
        "\<And>q. known_page bp q \<Longrightarrow> page_view (unpinPage ?pid True (put_frame_bytes i r s)) q = ((page_view bp)(?pid := r)) q"
      by (rule bufpool.write_cycle [OF ok'(1,2) page_ok_length [OF r(2)]]) (rule that)
    let ?bq = "unpinPage ?pid True (put_frame_bytes i r s)"
    have view: "\<forall>q. known_page bp q \<longrightarrow> page_view ?bq q = ((page_view bp)(?pid := r)) q" using f(5) by blast
    from heap_write_page [OF ok rid r(2) f(3,4) view] obtain ps1 ps2 where
      w: "pages = ps1 @ ?pid # ps2" "heap_ok ?bq pages" "same_outside (set pages) bp ?bq"
        "heap_rows (page_view bp) pages
          = heap_rows (page_view bp) ps1 @ page_rows ?pid (page_view bp ?pid) @ heap_rows (page_view bp) ps2"
        "heap_rows (page_view ?bq) pages
          = heap_rows (page_view bp) ps1 @ page_rows ?pid r @ heap_rows (page_view bp) ps2"
      by metis
    have "heap_erase rid bp = (Inr (), ?bq)"
      using True f(1,2) r(1) by (simp add: heap_erase_def bindS_def)
    moreover have "heap_rows (page_view ?bq) pages = filter (\<lambda>(x, _). x \<noteq> rid) (heap_rows (page_view bp) pages)"
    proof -
      have eta: "\<lparr>rpage = ?pid, rslot = rslot rid\<rparr> = rid" by (cases rid) simp
      have "?pid \<notin> set ps1" "?pid \<notin> set ps2" using ok'(4) w(1) by auto
      moreover have "page_rows ?pid r = filter (\<lambda>(x, _). x \<noteq> rid) (page_rows ?pid (page_view bp ?pid))"
        using r(3) by (simp only: eta)
      ultimately show ?thesis using w(4,5) by (simp add: filter_heap_rows_other)
    qed
    ultimately show thesis using that w by blast
  qed
qed

subsection \<open>Scanning\<close>

lemma scan_slots_ok:
  assumes ok: "page_ok p" and n: "\<forall>s \<in> set ss. s < num_slots p"
  shows "scan_slots pid p ss = Inr (concat (map (\<lambda>s. case page_tuples p ! s of
      None \<Rightarrow> [] | Some d \<Rightarrow> [(\<lparr>rpage = pid, rslot = int s\<rparr>, d)]) ss))"
  using n
proof (induction ss)
  case (Cons s ss)
  then have s: "s < num_slots p" by simp
  with ok have wf: "wf_page p" by (auto simp: page_ok_def)
  have "s < 32768" using wf_page_bounds(4) [OF wf] s by simp
  with Cons s show ?case
    by (simp add: tupleBytes_refines [OF wf] int16_small split: option.split)
qed simp

lemma live_concat:
  "live k xs = concat (map (\<lambda>s. case xs ! s of None \<Rightarrow> [] | Some d \<Rightarrow> [(k + s, d)]) [0..<length xs])"
proof (induction k xs rule: live.induct)
  case (2 k xs)
  then show ?case by (simp add: upt_conv_Cons map_Suc_upt [symmetric] o_def del: upt_Suc cong: option.case_cong)
next
  case (3 k x xs)
  then show ?case by (simp add: upt_conv_Cons map_Suc_upt [symmetric] o_def del: upt_Suc cong: option.case_cong)
qed simp

lemma page_rows_scan:
  "page_rows pid p = concat (map (\<lambda>s. case page_tuples p ! s of
      None \<Rightarrow> [] | Some d \<Rightarrow> [(\<lparr>rpage = pid, rslot = int s\<rparr>, d)]) [0..<num_slots p])"
proof -
  have "length (page_tuples p) = num_slots p" by (simp add: page_tuples_def)
  then show ?thesis
    by (auto simp: page_rows_def live_concat map_concat o_def intro!: arg_cong [where f = concat] map_cong split: option.split)
qed

lemma heap_scan_ok:
  assumes "heap_ok bp pages"
  obtains bq where "heap_scan pages bp = (Inr (heap_rows (page_view bp) pages), bq)"
    "heap_ok bq pages" "same_view bp bq"
proof -
  have "\<exists>bq. heap_scan ps bp = (Inr (heap_rows (page_view bp) ps), bq) \<and> cache_inv bq \<and> same_view bp bq"
    if "cache_inv bp" "\<forall>pid \<in> set ps. known_page bp pid \<and> page_ok (page_view bp pid)" for ps
    using that
  proof (induction ps arbitrary: bp)
    case Nil
    then show ?case by (simp add: same_view_refl)
  next
    case (Cons pid ps)
    then have k: "known_page bp pid" and okp: "page_ok (page_view bp pid)" by auto
    obtain i s where f: "fetchPage pid bp = (Inr i, s)" "frame_bytes i s = page_view bp pid"
        "put_frame_bytes i (page_view bp pid) s = s"
        "cache_inv (unpinPage pid False s)" "known_page (unpinPage pid False s) = known_page bp"
        "\<And>q. known_page bp q \<Longrightarrow> page_view (unpinPage pid False s) q = page_view bp q"
      by (rule bufpool.read_cycle [OF Cons.prems(1) k, where d = False]) (rule that)
    let ?s = "unpinPage pid False s"
    have sv: "same_view bp ?s" using f by (simp add: same_view_def)
    have "\<forall>x \<in> set ps. known_page ?s x \<and> page_ok (page_view ?s x)"
      using Cons.prems(2) sv by (auto simp: same_view_def)
    from Cons.IH [OF f(4) this] obtain bq where
      q: "heap_scan ps ?s = (Inr (heap_rows (page_view ?s) ps), bq)" "cache_inv bq" "same_view ?s bq" by blast
    have "heap_rows (page_view ?s) ps = heap_rows (page_view bp) ps"
      using same_view_rows [OF sv] Cons.prems(2) by simp
    moreover have "scan_slots pid (page_view bp pid) [0..<num_slots (page_view bp pid)]
        = Inr (page_rows pid (page_view bp pid))"
      by (subst scan_slots_ok [OF okp]) (simp_all add: page_rows_scan)
    ultimately have "heap_scan (pid # ps) bp = (Inr (heap_rows (page_view bp) (pid # ps)), bq)"
      using f(1,2) q(1) by (simp add: heap_scan.simps(2) bindS_def)
    with q sv show ?case using same_view_trans by blast
  qed
  with assms obtain bq where "heap_scan pages bp = (Inr (heap_rows (page_view bp) pages), bq)"
    "cache_inv bq" "same_view bp bq" by (auto simp: heap_ok_def)
  then show thesis using that same_view_heap_ok [OF _ _ assms] by blast
qed


section \<open>The heap as a map from row ids\<close>

lemma heap_insert_map:
  assumes "heap_ok bp pages" "0 < len" "len \<le> length src" "len + HEADER_SIZE + SLOT_SIZE \<le> PAGE_SIZE"
  shows "\<exists>rid pages' bq. heap_insert pages src len bp = (Inr (rid, pages'), bq) \<and> heap_ok bq pages'
    \<and> map_of (heap_rows (page_view bp) pages) rid = None
    \<and> map_of (heap_rows (page_view bq) pages') = (map_of (heap_rows (page_view bp) pages))(rid \<mapsto> take len src)
    \<and> (pages' = pages \<or> (\<exists>p. pages' = pages @ [p] \<and> \<not> known_page bp p))
    \<and> same_outside (set pages) bp bq"
proof -
  obtain rid pages' bq xs ys where h: "heap_insert pages src len bp = (Inr (rid, pages'), bq)"
    "heap_ok bq pages'" "heap_rows (page_view bp) pages = xs @ ys"
    "heap_rows (page_view bq) pages' = xs @ (rid, take len src) # ys"
    "rid \<notin> fst ` set (xs @ ys)" "pages' = pages \<or> (\<exists>p. pages' = pages @ [p] \<and> \<not> known_page bp p)"
    "same_outside (set pages) bp bq"
    by (rule heap_insert_ok [OF assms]) (rule that)
  have n: "map_of xs rid = None" "map_of ys rid = None"
    using h(5) by (auto simp: map_of_eq_None_iff)
  have "map_of (xs @ (rid, d) # ys) = (map_of (xs @ ys))(rid \<mapsto> d)" for d
    using n by (auto simp: fun_eq_iff map_add_def split: option.split)
  with h n show ?thesis by (auto simp: map_add_def)
qed

lemma heap_erase_map:
  assumes "heap_ok bp pages" "rpage rid \<in> set pages"
  shows "\<exists>bq. heap_erase rid bp = (Inr (), bq) \<and> heap_ok bq pages
    \<and> map_of (heap_rows (page_view bq) pages) = (map_of (heap_rows (page_view bp) pages))(rid := None)
    \<and> same_outside (set pages) bp bq"
proof -
  obtain bq where q: "heap_erase rid bp = (Inr (), bq)" "heap_ok bq pages" "same_outside (set pages) bp bq"
    "heap_rows (page_view bq) pages = filter (\<lambda>(x, _). x \<noteq> rid) (heap_rows (page_view bp) pages)"
    by (rule heap_erase_ok [OF assms]) (rule that)
  have "map_of (filter (\<lambda>(x, _). x \<noteq> rid) xs) = (map_of xs)(rid := None)" for xs :: "(rowid \<times> string) list"
    by (induction xs) auto
  with q show ?thesis by auto
qed

lemma heap_rows_page: "map_of (heap_rows view pages) rid = Some d \<Longrightarrow> rpage rid \<in> set pages"
  by (auto dest!: map_of_SomeD simp: heap_rows_mem page_rows_mem)

section \<open>The row-store interface\<close>

text \<open>
  What a table relies on in its heap: row ids name rows, an insertion takes a free one, and
  changes stay within the heap's own pages (\<open>frame\<close>) or a page nobody had (\<open>known\<close>).
\<close>

locale row_store =
  fixes ok :: "'b \<Rightarrow> 'p list \<Rightarrow> bool"
    and rows :: "'b \<Rightarrow> 'p list \<Rightarrow> ('r \<times> 'v) list"
    and known :: "'b \<Rightarrow> 'p \<Rightarrow> bool"
    and frame :: "'p set \<Rightarrow> 'b \<Rightarrow> 'b \<Rightarrow> bool"
    and fits :: "'v \<Rightarrow> bool"
    and ins :: "'p list \<Rightarrow> 'v \<Rightarrow> 'b \<Rightarrow> ('e + 'r \<times> 'p list) \<times> 'b"
    and look :: "'r \<Rightarrow> 'b \<Rightarrow> ('e + 'v option) \<times> 'b"
    and del :: "'r \<Rightarrow> 'b \<Rightarrow> ('e + unit) \<times> 'b"
  assumes ins_ok: "ok b ps \<Longrightarrow> fits v \<Longrightarrow> \<exists>r ps' b'. ins ps v b = (Inr (r, ps'), b') \<and> ok b' ps'
      \<and> map_of (rows b ps) r = None \<and> map_of (rows b' ps') = (map_of (rows b ps))(r \<mapsto> v)
      \<and> (ps' = ps \<or> (\<exists>p. ps' = ps @ [p] \<and> \<not> known b p)) \<and> frame (set ps) b b'"
    and look_ok: "ok b ps \<Longrightarrow> map_of (rows b ps) r = Some v \<Longrightarrow>
      \<exists>b'. look r b = (Inr (Some v), b') \<and> ok b' ps \<and> map_of (rows b' ps) = map_of (rows b ps) \<and> frame {} b b'"
    and del_ok: "ok b ps \<Longrightarrow> map_of (rows b ps) r = Some v \<Longrightarrow> \<exists>b'. del r b = (Inr (), b') \<and> ok b' ps
      \<and> map_of (rows b' ps) = (map_of (rows b ps))(r := None) \<and> frame (set ps) b b'"
    and other_ok: "frame P b b' \<Longrightarrow> ok b qs \<Longrightarrow> ok b' ps' \<Longrightarrow> set qs \<inter> P = {} \<Longrightarrow>
      ok b' qs \<and> rows b' qs = rows b qs"
begin

lemma insert_then_look:
  assumes "ok b ps" "fits v"
  shows "\<exists>r ps' b' b''. ins ps v b = (Inr (r, ps'), b') \<and> look r b' = (Inr (Some v), b'')"
proof -
  obtain r ps' b' where i: "ins ps v b = (Inr (r, ps'), b')" "ok b' ps'"
      "map_of (rows b' ps') = (map_of (rows b ps))(r \<mapsto> v)"
    using ins_ok [OF assms] by blast
  then have "map_of (rows b' ps') r = Some v" by simp
  with i look_ok show ?thesis by blast
qed

lemma insert_then_delete:
  assumes "ok b ps" "fits v"
  shows "\<exists>r ps' b' b''. ins ps v b = (Inr (r, ps'), b') \<and> del r b' = (Inr (), b'')
    \<and> map_of (rows b'' ps') = map_of (rows b ps)"
proof -
  obtain r ps' b' where i: "ins ps v b = (Inr (r, ps'), b')" "ok b' ps'"
      "map_of (rows b' ps') = (map_of (rows b ps))(r \<mapsto> v)" "map_of (rows b ps) r = None"
    using ins_ok [OF assms] by blast
  then have "map_of (rows b' ps') r = Some v" by simp
  from del_ok [OF i(2) this] obtain b'' where "del r b' = (Inr (), b'')"
      "map_of (rows b'' ps') = (map_of (rows b' ps'))(r := None)" by blast
  with i show ?thesis by (metis fun_upd_triv fun_upd_upd)
qed

lemma insert_other:
  assumes "ok b ps" "fits v" "ok b qs" "set qs \<inter> set ps = {}"
  shows "\<exists>r ps' b'. ins ps v b = (Inr (r, ps'), b') \<and> ok b' qs \<and> rows b' qs = rows b qs"
  using ins_ok [OF assms(1,2)] other_ok assms(3,4) by blast

end

definition tuple_fits :: "string \<Rightarrow> bool" where
  "tuple_fits d \<longleftrightarrow> 0 < length d \<and> length d + HEADER_SIZE + SLOT_SIZE \<le> PAGE_SIZE"

interpretation heap: row_store heap_ok "\<lambda>bp pages. heap_rows (page_view bp) pages" known_page same_outside
  tuple_fits "\<lambda>pages d. heap_insert pages d (length d)" heap_get heap_erase
proof unfold_locales
  show "heap_ok b ps \<Longrightarrow> tuple_fits v \<Longrightarrow> \<exists>r ps' b'. heap_insert ps v (length v) b = (Inr (r, ps'), b') \<and> heap_ok b' ps'
      \<and> map_of (heap_rows (page_view b) ps) r = None
      \<and> map_of (heap_rows (page_view b') ps') = (map_of (heap_rows (page_view b) ps))(r \<mapsto> v)
      \<and> (ps' = ps \<or> (\<exists>p. ps' = ps @ [p] \<and> \<not> known_page b p)) \<and> same_outside (set ps) b b'" for b ps v
    using heap_insert_map [of b ps "length v" v] by (simp add: tuple_fits_def)
  show "heap_ok b ps \<Longrightarrow> map_of (heap_rows (page_view b) ps) r = Some v \<Longrightarrow> \<exists>b'. heap_get r b = (Inr (Some v), b')
      \<and> heap_ok b' ps \<and> map_of (heap_rows (page_view b') ps) = map_of (heap_rows (page_view b) ps)
      \<and> same_outside {} b b'" for b ps r v
  proof -
    assume a: "heap_ok b ps" "map_of (heap_rows (page_view b) ps) r = Some v"
    obtain b' where b': "heap_get r b = (Inr (Some v), b')" "heap_ok b' ps" "same_view b b'"
      using heap_get_ok [OF a(1) heap_rows_page [OF a(2)]] a(2) by metis
    have "heap_rows (page_view b') ps = heap_rows (page_view b) ps"
      by (rule same_view_rows [OF b'(3)]) (use a(1) in \<open>simp add: heap_ok_def\<close>)
    with b' same_view_outside show ?thesis by metis
  qed
  show "heap_ok b ps \<Longrightarrow> map_of (heap_rows (page_view b) ps) r = Some v \<Longrightarrow> \<exists>b'. heap_erase r b = (Inr (), b')
      \<and> heap_ok b' ps \<and> map_of (heap_rows (page_view b') ps) = (map_of (heap_rows (page_view b) ps))(r := None)
      \<and> same_outside (set ps) b b'" for b ps r v
    using heap_erase_map heap_rows_page by blast
  show "same_outside P b b' \<Longrightarrow> heap_ok b qs \<Longrightarrow> heap_ok b' ps' \<Longrightarrow> set qs \<inter> P = {} \<Longrightarrow>
      heap_ok b' qs \<and> heap_rows (page_view b') qs = heap_rows (page_view b) qs" for P b b' qs ps'
    using same_outside_heap_ok [of P b b' qs] same_outside_rows [of P b b' qs] by (simp add: heap_ok_def)
qed

text \<open>Rows read from a heap can be inserted again.\<close>

lemma heap_row_fits:
  assumes ok: "heap_ok bp pages" and r: "map_of (heap_rows (page_view bp) pages) rid = Some d"
  shows "tuple_fits d"
proof -
  have m: "(rid, d) \<in> set (heap_rows (page_view bp) pages)" using r by (rule map_of_SomeD)
  let ?p = "page_view bp (rpage rid)"
  have p: "page_ok ?p" and t: "nat (rslot rid) < length (page_tuples ?p)" "page_tuples ?p ! nat (rslot rid) = Some d"
    using m ok by (auto simp: heap_rows_mem page_rows_mem heap_ok_def)
  have n: "nat (rslot rid) < num_slots ?p" using t(1) by (simp add: page_tuples_def)
  then have wf: "wf_page ?p" using p by (auto simp: page_ok_def)
  have sv: "slot_val ?p (nat (rslot rid)) = Some d" using t n by (simp add: page_tuples_def)
  have b: "free_ptr ?p \<le> slot_off ?p (nat (rslot rid))"
    "slot_off ?p (nat (rslot rid)) + slot_len ?p (nat (rslot rid)) \<le> 4096"
    using wf n by (auto simp: wf_page_def PAGE_SIZE_def)
  have "length d = slot_len ?p (nat (rslot rid))" "slot_len ?p (nat (rslot rid)) \<noteq> 0"
    using sv b wf_page_bounds(1) [OF wf] by (auto simp: slot_val_def split: if_splits)
  then show ?thesis using b wf_page_bounds(2) [OF wf] n by (simp add: tuple_fits_def page_consts)
qed

section \<open>Properties\<close>

lemma heap_ok_new: "disk_inv d \<Longrightarrow> 0 < n \<Longrightarrow> heap_ok (pool_new d n) []"
  using pool_inv_new by (simp add: heap_ok_def cache_inv_def)

text \<open>
  C16. \<open>HeapFile::insert\<close> refines a map update: for every tuple that fits a page it succeeds, stores
  the bytes under a row id that was free, keeps every other row of the heap, grows the page list
  by at most one new page, and leaves the pages of other tables as they were.
\<close>

theorem heap_insert_refines_update:
  assumes "heap_ok bp pages" "0 < len" "len \<le> length src" "len + HEADER_SIZE + SLOT_SIZE \<le> PAGE_SIZE"
  shows "\<exists>rid pages' bq. heap_insert pages src len bp = (Inr (rid, pages'), bq) \<and> heap_ok bq pages'
    \<and> map_of (heap_rows (page_view bp) pages) rid = None
    \<and> map_of (heap_rows (page_view bq) pages') = (map_of (heap_rows (page_view bp) pages))(rid \<mapsto> take len src)
    \<and> (pages' = pages \<or> (\<exists>p. pages' = pages @ [p] \<and> \<not> known_page bp p))
    \<and> same_outside (set pages) bp bq"
  by (rule heap_insert_map [OF assms])

theorem heap_insert_refines_update_witness:
  "\<exists>rid pages' bq. heap_insert [] ''ab'' 2 (pool_new (disk_open []) 1) = (Inr (rid, pages'), bq)
    \<and> map_of (heap_rows (page_view bq) pages') = [rid \<mapsto> ''ab'']"
proof -
  have "heap_ok (pool_new (disk_open []) 1) []"
    by (rule heap_ok_new) (simp_all add: disk_open_def disk_inv_def)
  from heap_insert_refines_update [OF this, of 2 "''ab''"]
  show ?thesis by (auto simp: page_consts heap_rows_def)
qed

text \<open>
  \<open>get\<close> answers with the bytes stored under the row id, \<open>erase\<close> removes exactly that row, and
  \<open>scan\<close> calls back with exactly the live rows, each once; reads change no page.
\<close>

theorem heap_read_erase_refine:
  assumes ok: "heap_ok bp pages" and r: "rpage rid \<in> set pages"
  shows "(\<exists>bq. heap_get rid bp = (Inr (map_of (heap_rows (page_view bp) pages) rid), bq)
        \<and> heap_ok bq pages \<and> same_view bp bq)
    \<and> (\<exists>bq. heap_erase rid bp = (Inr (), bq) \<and> heap_ok bq pages
        \<and> map_of (heap_rows (page_view bq) pages) = (map_of (heap_rows (page_view bp) pages))(rid := None)
        \<and> same_outside (set pages) bp bq)
    \<and> (\<exists>bq. heap_scan pages bp = (Inr (heap_rows (page_view bp) pages), bq)
        \<and> distinct (map fst (heap_rows (page_view bp) pages)) \<and> heap_ok bq pages \<and> same_view bp bq)"
proof (intro conjI)
  show "\<exists>bq. heap_get rid bp = (Inr (map_of (heap_rows (page_view bp) pages) rid), bq)
      \<and> heap_ok bq pages \<and> same_view bp bq"
    using heap_get_ok [OF ok r] by metis
  show "\<exists>bq. heap_erase rid bp = (Inr (), bq) \<and> heap_ok bq pages
      \<and> map_of (heap_rows (page_view bq) pages) = (map_of (heap_rows (page_view bp) pages))(rid := None)
      \<and> same_outside (set pages) bp bq" by (rule heap_erase_map [OF ok r])
  have "distinct pages" using ok by (simp add: heap_ok_def)
  then show "\<exists>bq. heap_scan pages bp = (Inr (heap_rows (page_view bp) pages), bq)
      \<and> distinct (map fst (heap_rows (page_view bp) pages)) \<and> heap_ok bq pages \<and> same_view bp bq"
    using heap_scan_ok [OF ok] distinct_heap_rows by metis
qed

theorem heap_read_erase_refine_witness:
  "\<exists>bq. heap_get \<lparr>rpage = 0, rslot = 0\<rparr> (pool_new (disk_open (replicate PAGE_SIZE CHR 0x00)) 1) = (Inr None, bq)"
proof -
  let ?bp = "pool_new (disk_open (replicate PAGE_SIZE CHR 0x00)) 1"
  have v: "page_view ?bp 0 = replicate PAGE_SIZE CHR 0x00"
    by (simp add: page_view_def pool_new_def disk_open_def page_off_def padded_read_def slice_def)
  have "heap_ok ?bp [0]"
    using pool_one_frame page_ok_zero v
    by (simp add: heap_ok_def cache_inv_def fun_eq_iff) (simp add: pin_count_def pool_new_def)
  moreover have "heap_rows (page_view ?bp) [0] = []"
    using v by (simp add: heap_rows_def page_rows_def page_tuples_def num_slots_zero)
  ultimately show ?thesis
    using heap_read_erase_refine [of ?bp "[0]" "\<lparr>rpage = 0, rslot = 0\<rparr>"] by auto
qed

end
