(* ===== verification/BPlusTree.thy ===== *)
theory BPlusTree
  imports Common
begin

text \<open>
  \<open>index/bplus_tree.cpp\<close>: the in-memory B+ tree from primary keys to row ids. Children are
  owned, so a tree is a datatype; the leaf chain aliases leaves, so a leaf carries its
  address and \<open>next\<close> holds the address of its right sibling. \<open>rangeScan\<close> follows these
  addresses and might not return on an ill-linked tree: it is a \<open>partial_function\<close>.

  The abstraction \<open>bp_entries\<close> is the list of (key, row id) pairs in leaf order. The invariant
  \<open>bp_inv\<close> bounds each subtree by the separators around it, puts every leaf at the same depth,
  keeps each node within \<open>ORDER\<close> and the leaf chain equal to the leaves from left to right.
\<close>

definition ORDER :: nat where "ORDER = 4"

datatype bnode =
    BLeaf nat "int list" "rowid list" "nat option"
  | BInner "int list" "bnode list"

record bptree =
  broot :: "bnode option"
  bcount :: nat
  bfresh :: nat

definition bp_empty :: bptree where
  "bp_empty = \<lparr>broot = None, bcount = 0, bfresh = 0\<rparr>"

section \<open>Operations\<close>

text \<open>The loop \<open>while (i < keys.size() && key >= keys[i]) i++\<close>.\<close>

fun route :: "int list \<Rightarrow> int \<Rightarrow> nat" where
  "route [] key = 0"
| "route (k # ks) key = (if key \<ge> k then Suc (route ks key) else 0)"

text \<open>\<open>std::lower_bound\<close> on a sorted vector: the first position whose key is not below.\<close>

definition lower_bound :: "int list \<Rightarrow> int \<Rightarrow> nat" where
  "lower_bound ks key = length (takeWhile (\<lambda>k. k < key) ks)"

definition insert_at :: "nat \<Rightarrow> 'a \<Rightarrow> 'a list \<Rightarrow> 'a list" where
  "insert_at i x xs = take i xs @ x # drop i xs"

definition delete_at :: "nat \<Rightarrow> 'a list \<Rightarrow> 'a list" where
  "delete_at i xs = take i xs @ drop (Suc i) xs"

lemma size_nth_less [termination_simp]: "i < length cs \<Longrightarrow> size (cs ! i) < Suc (size_list size cs)"
  by (metis nth_mem size_list_estimation' order.refl le_imp_less_Suc)

fun findLeaf :: "int \<Rightarrow> bnode \<Rightarrow> db_error + (nat \<times> int list \<times> rowid list \<times> nat option)" where
  "findLeaf key (BLeaf a ks vs n) = Inr (a, ks, vs, n)"
| "findLeaf key (BInner ks cs) =
     (if route ks key < length cs then findLeaf key (cs ! route ks key) else Inl MemFault)"

definition bp_search :: "int \<Rightarrow> bptree \<Rightarrow> db_error + rowid option" where
  "bp_search key t = (case broot t of None \<Rightarrow> Inr None
     | Some root \<Rightarrow> bindE (findLeaf key root) (\<lambda>(a, ks, vs, n).
         let pos = lower_bound ks key
         in if pos < length ks \<and> ks ! pos = key
            then (if pos < length vs then Inr (Some (vs ! pos)) else Inl MemFault)
            else Inr None))"

text \<open>
  \<open>insertInto\<close> returns the node as left behind, the split (separator and right sibling) if
  there was one, whether \<open>count_\<close> was incremented, and the next free address.
\<close>

type_synonym insert_result = "bnode \<times> (int \<times> bnode) option \<times> bool \<times> nat"

fun insertInto :: "bnode \<Rightarrow> int \<Rightarrow> rowid \<Rightarrow> nat \<Rightarrow> db_error + insert_result" where
  "insertInto (BLeaf a ks vs n) key rid f =
     (let pos = lower_bound ks key
      in if pos < length ks \<and> ks ! pos = key
         then (if pos < length vs then Inr (BLeaf a ks (vs[pos := rid]) n, None, False, f) else Inl MemFault)
         else if pos > length vs then Inl MemFault
         else let ks' = insert_at pos key ks; vs' = insert_at pos rid vs
         in if length ks' < ORDER then Inr (BLeaf a ks' vs' n, None, True, f)
         else let mid = length ks' div 2
         in if drop mid ks' = [] then Inl MemFault
         else Inr (BLeaf a (take mid ks') (take mid vs') (Some f),
                   Some (hd (drop mid ks'), BLeaf f (drop mid ks') (drop mid vs') n), True, Suc f))"
| "insertInto (BInner ks cs) key rid f =
     (let i = route ks key
      in if i < length cs
         then bindE (insertInto (cs ! i) key rid f) (\<lambda>(c, sp, added, f').
           case sp of
             None \<Rightarrow> Inr (BInner ks (cs[i := c]), None, added, f')
           | Some (up, r) \<Rightarrow>
               let ks' = insert_at i up ks; cs' = insert_at (Suc i) r (cs[i := c])
               in if length cs' \<le> ORDER then Inr (BInner ks' cs', None, added, f')
               else let mid = length ks' div 2
               in if mid < length ks'
                  then Inr (BInner (take mid ks') (take (Suc mid) cs'),
                            Some (ks' ! mid, BInner (drop (Suc mid) ks') (drop (Suc mid) cs')), added, f')
                  else Inl MemFault)
         else Inl MemFault)"

definition bp_insert :: "int \<Rightarrow> rowid \<Rightarrow> bptree \<Rightarrow> db_error + bptree" where
  "bp_insert key rid t = (case broot t of
     None \<Rightarrow> Inr (t\<lparr>broot := Some (BLeaf (bfresh t) [key] [rid] None), bcount := 1, bfresh := Suc (bfresh t)\<rparr>)
   | Some root \<Rightarrow> bindE (insertInto root key rid (bfresh t)) (\<lambda>(node, sp, added, f).
       let t' = t\<lparr>bcount := (if added then Suc (bcount t) else bcount t), bfresh := f\<rparr>
       in Inr (case sp of
           None \<Rightarrow> t'\<lparr>broot := Some node\<rparr>
         | Some (up, right) \<Rightarrow> t'\<lparr>broot := Some (BInner [up] [node, right])\<rparr>)))"

text \<open>\<open>erase\<close> edits the leaf \<open>findLeaf\<close> reached, in place.\<close>

fun eraseIn :: "int \<Rightarrow> bnode \<Rightarrow> db_error + (bnode \<times> bool)" where
  "eraseIn key (BLeaf a ks vs n) =
     (let pos = lower_bound ks key
      in if pos < length ks \<and> ks ! pos = key
         then (if pos < length vs then Inr (BLeaf a (delete_at pos ks) (delete_at pos vs) n, True) else Inl MemFault)
         else Inr (BLeaf a ks vs n, False))"
| "eraseIn key (BInner ks cs) =
     (if route ks key < length cs
      then bindE (eraseIn key (cs ! route ks key)) (\<lambda>(c, hit).
        Inr (BInner ks (cs[route ks key := c]), hit))
      else Inl MemFault)"

definition bp_erase :: "int \<Rightarrow> bptree \<Rightarrow> db_error + bptree" where
  "bp_erase key t = (case broot t of None \<Rightarrow> Inr t
     | Some root \<Rightarrow> bindE (eraseIn key root) (\<lambda>(node, hit).
         Inr (t\<lparr>broot := Some node, bcount := (if hit then bcount t - 1 else bcount t)\<rparr>)))"

text \<open>
  One leaf of \<open>rangeScan\<close>: the visited pairs, and whether the scan returned because a key
  exceeded \<open>hi\<close>.
\<close>

fun scan_leaf :: "int \<Rightarrow> int \<Rightarrow> int list \<Rightarrow> rowid list \<Rightarrow> db_error + ((int \<times> rowid) list \<times> bool)" where
  "scan_leaf lo hi [] vs = Inr ([], False)"
| "scan_leaf lo hi (k # ks) [] = Inl MemFault"
| "scan_leaf lo hi (k # ks) (v # vs) =
     (if k < lo then scan_leaf lo hi ks vs
      else if k > hi then Inr ([], True)
      else bindE (scan_leaf lo hi ks vs) (\<lambda>(rows, stop). Inr ((k, v) # rows, stop)))"

fun leaves :: "bnode \<Rightarrow> (nat \<times> int list \<times> rowid list \<times> nat option) list" where
  "leaves (BLeaf a ks vs n) = [(a, ks, vs, n)]"
| "leaves (BInner ks cs) = concat (map leaves cs)"

definition leaf_at :: "nat \<Rightarrow> bnode \<Rightarrow> (nat \<times> int list \<times> rowid list \<times> nat option) option" where
  "leaf_at a t = find (\<lambda>l. fst l = a) (leaves t)"

text \<open>
  One round of the \<open>while (leaf)\<close> loop: the visited pairs and the leaf to go on with, none
  when the scan returns here.
\<close>

definition visit_leaf :: "bnode \<Rightarrow> int \<Rightarrow> int \<Rightarrow> nat \<Rightarrow> (db_error + (int \<times> rowid) list) \<times> nat option" where
  "visit_leaf t lo hi a = (case leaf_at a t of
     None \<Rightarrow> (Inl MemFault, None)
   | Some (_, ks, vs, n) \<Rightarrow> (case scan_leaf lo hi ks vs of
       Inl e \<Rightarrow> (Inl e, None)
     | Inr (rows, stop) \<Rightarrow> (Inr rows, if stop then None else n)))"

text \<open>\<open>None\<close>: the walk along \<open>next\<close> does not return.\<close>

partial_function (option) walk ::
  "(nat \<Rightarrow> (db_error + (int \<times> rowid) list) \<times> nat option) \<Rightarrow> nat option
    \<Rightarrow> (db_error + (int \<times> rowid) list) option" where
  "walk visit p = (case p of None \<Rightarrow> Some (Inr [])
     | Some a \<Rightarrow> Option.bind (walk visit (snd (visit a))) (\<lambda>m.
         Some (bindE (fst (visit a)) (\<lambda>rows. bindE m (\<lambda>more. Inr (rows @ more))))))"

definition bp_rangeScan :: "int \<Rightarrow> int \<Rightarrow> bptree \<Rightarrow> (db_error + (int \<times> rowid) list) option" where
  "bp_rangeScan lo hi t = (case broot t of None \<Rightarrow> Some (Inr [])
     | Some root \<Rightarrow> (case findLeaf lo root of
         Inl e \<Rightarrow> Some (Inl e)
       | Inr (a, ks, vs, n) \<Rightarrow> walk (visit_leaf root lo hi) (Some a)))"


section \<open>Invariant and abstraction\<close>

fun entries :: "bnode \<Rightarrow> (int \<times> rowid) list" where
  "entries (BLeaf a ks vs n) = zip ks vs"
| "entries (BInner ks cs) = concat (map entries cs)"

definition bp_entries :: "bptree \<Rightarrow> (int \<times> rowid) list" where
  "bp_entries t = (case broot t of None \<Rightarrow> [] | Some r \<Rightarrow> entries r)"

fun above :: "int option \<Rightarrow> int \<Rightarrow> bool" where
  "above None k = True"
| "above (Some b) k = (b \<le> k)"

fun below :: "int option \<Rightarrow> int \<Rightarrow> bool" where
  "below None k = True"
| "below (Some b) k = (k < b)"

fun sep_above :: "int option \<Rightarrow> int \<Rightarrow> bool" where
  "sep_above None k = True"
| "sep_above (Some b) k = (b < k)"

text \<open>Children and separators alternate: each child lies between the separators around it.\<close>

fun chain :: "(int option \<Rightarrow> int option \<Rightarrow> bnode \<Rightarrow> bool) \<Rightarrow> int option \<Rightarrow> int list \<Rightarrow> bnode list
    \<Rightarrow> int option \<Rightarrow> bool" where
  "chain P lo [] [c] hi = P lo hi c"
| "chain P lo (k # ks) (c # cs) hi =
     (P lo (Some k) c \<and> sep_above lo k \<and> below hi k \<and> chain P (Some k) ks cs hi)"
| "chain P lo _ _ hi = False"

fun wf_node :: "nat \<Rightarrow> int option \<Rightarrow> int option \<Rightarrow> bnode \<Rightarrow> bool" where
  "wf_node 0 lo hi (BLeaf a ks vs n) =
     (sorted_wrt (<) ks \<and> length vs = length ks \<and> length ks < ORDER
      \<and> (\<forall>k \<in> set ks. above lo k \<and> below hi k))"
| "wf_node (Suc d) lo hi (BInner ks cs) =
     (ks \<noteq> [] \<and> length cs \<le> ORDER \<and> chain (wf_node d) lo ks cs hi)"
| "wf_node _ lo hi _ = False"

definition links :: "bnode \<Rightarrow> (nat \<times> nat option) list" where
  "links t = map (\<lambda>(a, ks, vs, n). (a, n)) (leaves t)"

text \<open>\<open>linked ls e\<close>: each leaf's \<open>next\<close> is the following leaf, the last one's is \<open>e\<close>.\<close>

definition first_addr :: "(nat \<times> nat option) list \<Rightarrow> nat option \<Rightarrow> nat option" where
  "first_addr ls e = (case ls of [] \<Rightarrow> e | l # _ \<Rightarrow> Some (fst l))"

fun linked :: "(nat \<times> nat option) list \<Rightarrow> nat option \<Rightarrow> bool" where
  "linked [] e = True"
| "linked ((a, n) # ls) e = (n = first_addr ls e \<and> linked ls e)"

definition bp_inv :: "bptree \<Rightarrow> bool" where
  "bp_inv t \<longleftrightarrow> bcount t = length (bp_entries t) \<and> (\<forall>r. broot t = Some r \<longrightarrow>
     (\<exists>d. wf_node d None None r) \<and> linked (links r) None
     \<and> distinct (map fst (links r)) \<and> (\<forall>a \<in> fst ` set (links r). a < bfresh t))"

lemma chain_length: "chain P lo ks cs hi \<Longrightarrow> length cs = Suc (length ks)"
  by (induction P lo ks cs hi rule: chain.induct) auto

lemma chain_append:
  "length cs1 = Suc (length ks1) \<Longrightarrow>
   chain P lo (ks1 @ u # ks2) (cs1 @ cs2) hi \<longleftrightarrow>
     chain P lo ks1 cs1 (Some u) \<and> sep_above lo u \<and> below hi u
     \<and> (\<forall>k \<in> set ks1. below hi k) \<and> chain P (Some u) ks2 cs2 hi"
proof (induction ks1 arbitrary: lo cs1)
  case Nil
  then obtain c where "cs1 = [c]" by (auto simp: length_Suc_conv)
  then show ?case by auto
next
  case (Cons k ks1)
  then obtain c cs1' where c: "cs1 = c # cs1'" "length cs1' = Suc (length ks1)"
    by (auto simp: length_Suc_conv)
  have "sep_above lo k \<Longrightarrow> sep_above (Some k) u \<Longrightarrow> sep_above lo u" by (cases lo) auto
  with c Cons.IH [OF c(2), of "Some k"] show ?case by auto
qed

lemma bound_trans: "sep_above lo k \<Longrightarrow> k < u \<Longrightarrow> sep_above lo u"
  "below hi u \<Longrightarrow> k < u \<Longrightarrow> below hi k" "sep_above lo k \<Longrightarrow> above lo k"
  "sep_above lo u \<Longrightarrow> u \<le> k \<Longrightarrow> above lo k"
  by (cases lo; cases hi; simp)+

text \<open>
  The child \<open>route\<close> picks, its bounds, and what a replacement of this child by one or two
  nodes leaves of the chain.
\<close>

lemma chain_focus:
  assumes "chain P lo ks cs hi" "above lo key" "below hi key"
  obtains lo' hi' where "route ks key < length cs" "route ks key \<le> length ks"
    "P lo' hi' (cs ! route ks key)" "above lo' key" "below hi' key"
    "\<And>k. above lo' k \<Longrightarrow> above lo k" "\<And>k. below hi' k \<Longrightarrow> below hi k"
    "\<And>c. P lo' hi' c \<Longrightarrow> chain P lo ks (cs[route ks key := c]) hi"
    "\<And>c u r. P lo' (Some u) c \<Longrightarrow> P (Some u) hi' r \<Longrightarrow> sep_above lo' u \<Longrightarrow> below hi' u \<Longrightarrow>
      chain P lo (insert_at (route ks key) u ks)
        (insert_at (Suc (route ks key)) r (cs[route ks key := c])) hi"
  using assms
proof (induction P lo ks cs hi arbitrary: thesis rule: chain.induct)
  case (1 P lo c hi)
  show ?case by (rule "1.prems"(1) [of lo hi]) (use "1.prems" in \<open>auto simp: insert_at_def\<close>)
next
  case (2 P lo k ks c cs hi)
  show ?case
  proof (cases "key < k")
    case True
    then show ?thesis
      by (intro "2.prems"(1) [of lo "Some k"])
        (use "2.prems" in \<open>auto simp: insert_at_def intro: bound_trans\<close>)
  next
    case False
    then have r: "route (k # ks) key = Suc (route ks key)" by simp
    have c: "P lo (Some k) c" "sep_above lo k" "below hi k" "chain P (Some k) ks cs hi"
      using "2.prems" by auto
    show ?thesis
    proof (rule "2.IH" [OF _ c(4)], goal_cases focus a b)
      case (focus lo' hi')
      show ?case
        by (rule "2.prems"(1) [of lo' hi'])
          (use focus c False in \<open>auto simp: r insert_at_def intro: bound_trans\<close>)
    qed (use False "2.prems" in auto)
  qed
qed auto


section \<open>Entries and bounds\<close>

definition in_range :: "int option \<Rightarrow> int option \<Rightarrow> (int \<times> rowid) list \<Rightarrow> bool" where
  "in_range lo hi es \<longleftrightarrow>
     sorted_wrt (<) (map fst es) \<and> (\<forall>e \<in> set es. above lo (fst e) \<and> below hi (fst e))"

lemma in_range_append:
  assumes "in_range lo (Some k) xs" "in_range (Some k) hi ys" "sep_above lo k" "below hi k"
  shows "in_range lo hi (xs @ ys)"
  using assms unfolding in_range_def
  by (auto simp: sorted_wrt_append intro: bound_trans less_le_trans)

lemma chain_in_range:
  assumes "chain P lo ks cs hi" "\<And>lo hi c. P lo hi c \<Longrightarrow> in_range lo hi (entries c)"
  shows "in_range lo hi (concat (map entries cs))"
  using assms by (induction P lo ks cs hi rule: chain.induct) (auto intro: in_range_append)

lemma in_range_leaf:
  assumes "sorted_wrt (<) ks" "length vs = length ks" "\<forall>k \<in> set ks. above lo k \<and> below hi k"
  shows "in_range lo hi (zip ks vs)"
  using assms by (auto simp: in_range_def dest: set_zip_leftD)

lemma wf_node_in_range: "wf_node d lo hi t \<Longrightarrow> in_range lo hi (entries t)"
proof (induction d arbitrary: lo hi t)
  case 0
  then show ?case by (cases t) (auto intro: in_range_leaf)
next
  case (Suc d)
  then show ?case by (cases t) (auto intro: chain_in_range)
qed

text \<open>The entries left of the routed child are below the key, those right of it above.\<close>

lemma chain_sides:
  assumes "chain P lo ks cs hi" "\<And>lo hi c. P lo hi c \<Longrightarrow> in_range lo hi (entries c)"
  shows "(\<forall>e \<in> set (concat (map entries (take (route ks key) cs))). fst e < key)
    \<and> (\<forall>e \<in> set (concat (map entries (drop (Suc (route ks key)) cs))). key < fst e)"
  using assms
proof (induction P lo ks cs hi rule: chain.induct)
  case (2 P lo k ks c cs hi)
  have c: "in_range lo (Some k) (entries c)" "in_range (Some k) hi (concat (map entries cs))"
    using "2.prems" by (auto intro: chain_in_range)
  show ?case
  proof (cases "key < k")
    case True
    then show ?thesis using c(2) by (force simp: in_range_def)
  next
    case False
    then show ?thesis using c(1) "2.IH" "2.prems" by (force simp: in_range_def)
  qed
qed auto

lemma concat_focus:
  assumes "i < length cs"
  shows "concat (map f cs) = concat (map f (take i cs)) @ f (cs ! i) @ concat (map f (drop (Suc i) cs))"
  using arg_cong [OF id_take_nth_drop [OF assms], of "\<lambda>cs. concat (map f cs)"] by simp

lemma concat_replace:
  "i < length cs \<Longrightarrow> concat (map f (cs[i := c])) =
     concat (map f (take i cs)) @ f c @ concat (map f (drop (Suc i) cs))"
  using concat_focus [of i "cs[i := c]" f] by simp

lemma concat_replace2:
  assumes "i < length cs"
  shows "concat (map f (insert_at (Suc i) r (cs[i := c]))) =
     concat (map f (take i cs)) @ f c @ f r @ concat (map f (drop (Suc i) cs))"
proof -
  have "take (Suc i) (cs[i := c]) = take i cs @ [c]"
    using assms by (simp add: take_Suc_conv_app_nth)
  then show ?thesis by (simp add: insert_at_def)
qed

definition upsert :: "int \<Rightarrow> rowid \<Rightarrow> (int \<times> rowid) list \<Rightarrow> (int \<times> rowid) list" where
  "upsert k v es = filter (\<lambda>e. fst e < k) es @ (k, v) # filter (\<lambda>e. k < fst e) es"

lemma upsert_focus:
  assumes "\<forall>e \<in> set xs. fst e < k" "\<forall>e \<in> set ys. k < fst e"
  shows "upsert k v (xs @ es @ ys) = xs @ upsert k v es @ ys"
proof -
  have "filter (\<lambda>e. fst e < k) xs = xs" "filter (\<lambda>e. k < fst e) xs = []"
    "filter (\<lambda>e. fst e < k) ys = []" "filter (\<lambda>e. k < fst e) ys = ys"
    using assms by (force intro!: filter_True simp: filter_empty_conv)+
  then show ?thesis by (simp add: upsert_def)
qed

lemma lower_bound_le: "lower_bound ks key \<le> length ks"
  by (simp add: lower_bound_def length_takeWhile_le)

lemma lower_bound_split:
  assumes "sorted_wrt (<) ks"
  shows "\<forall>k \<in> set (take (lower_bound ks key) ks). k < key"
    "\<forall>k \<in> set (drop (lower_bound ks key) ks). key \<le> k"
    "lower_bound ks key < length ks \<and> ks ! lower_bound ks key = key \<longleftrightarrow> key \<in> set ks"
    "key \<in> set ks \<Longrightarrow> \<forall>k \<in> set (drop (Suc (lower_bound ks key)) ks). key < k"
proof -
  let ?p = "lower_bound ks key"
  have t: "take ?p ks = takeWhile (\<lambda>k. k < key) ks" "drop ?p ks = dropWhile (\<lambda>k. k < key) ks"
    by (simp_all add: lower_bound_def takeWhile_eq_take [symmetric] dropWhile_eq_drop [symmetric])
  show a: "\<forall>k \<in> set (take ?p ks). k < key" unfolding t by (auto dest: set_takeWhileD)
  show b: "\<forall>k \<in> set (drop ?p ks). key \<le> k"
    unfolding t using assms by (induction ks) auto
  have sd: "sorted_wrt (<) (drop ?p ks)" using assms by (rule sorted_wrt_drop)
  show c: "?p < length ks \<and> ks ! ?p = key \<longleftrightarrow> key \<in> set ks"
  proof
    assume "key \<in> set ks"
    then have m: "key \<in> set (drop ?p ks)"
      using a by (metis Un_iff append_take_drop_id less_irrefl set_append)
    then have l: "?p < length ks" by (cases "?p < length ks") auto
    then have e: "drop ?p ks = ks ! ?p # drop (Suc ?p) ks" by (simp add: Cons_nth_drop_Suc)
    have "ks ! ?p = key"
    proof (rule ccontr)
      assume "ks ! ?p \<noteq> key"
      with m e have "key \<in> set (drop (Suc ?p) ks)" by simp
      with sd e have "ks ! ?p < key" by simp
      with b e show False by simp
    qed
    with l show "?p < length ks \<and> ks ! ?p = key" by simp
  qed (metis nth_mem)
  show "\<forall>k \<in> set (drop (Suc ?p) ks). key < k" if "key \<in> set ks"
    using c that sd by (metis Cons_nth_drop_Suc sorted_wrt.simps(2))
qed

text \<open>A sorted leaf around \<open>lower_bound\<close>.\<close>

lemma leaf_split:
  assumes s: "sorted_wrt (<) ks" and l: "length vs = length ks"
  shows "key \<in> set ks \<Longrightarrow> zip ks vs = zip (take (lower_bound ks key) ks) (take (lower_bound ks key) vs)
      @ (key, vs ! lower_bound ks key)
      # zip (drop (Suc (lower_bound ks key)) ks) (drop (Suc (lower_bound ks key)) vs)" (is "_ \<Longrightarrow> ?A")
    and "zip ks vs = zip (take (lower_bound ks key) ks) (take (lower_bound ks key) vs)
      @ zip (drop (lower_bound ks key) ks) (drop (lower_bound ks key) vs)" (is ?B)
    and "filter (\<lambda>e. fst e < key) (zip ks vs) = zip (take (lower_bound ks key) ks) (take (lower_bound ks key) vs)" (is ?C)
    and "filter (\<lambda>e. key < fst e) (zip ks vs) = (if key \<in> set ks
       then zip (drop (Suc (lower_bound ks key)) ks) (drop (Suc (lower_bound ks key)) vs)
       else zip (drop (lower_bound ks key) ks) (drop (lower_bound ks key) vs))" (is ?D)
proof -
  let ?p = "lower_bound ks key"
  note lb = lower_bound_split [OF s, of key]
  show B: ?B
    by (metis append_take_drop_id l length_take zip_append)
  show A: ?A if "key \<in> set ks"
  proof -
    have "?p < length ks" "ks ! ?p = key" using lb(3) that by auto
    then have "drop ?p ks = key # drop (Suc ?p) ks" "drop ?p vs = vs ! ?p # drop (Suc ?p) vs"
      using l by (metis Cons_nth_drop_Suc)+
    with B show ?thesis by simp
  qed
  have t: "\<forall>e \<in> set (zip (take ?p ks) (take ?p vs)). fst e < key"
    using lb(1) by (auto dest: set_zip_leftD)
  have d: "\<forall>e \<in> set (zip (drop ?p ks) (drop ?p vs)). key \<le> fst e"
    using lb(2) by (auto dest: set_zip_leftD)
  have f: "filter (\<lambda>e. fst e < key) (zip (take ?p ks) (take ?p vs)) = zip (take ?p ks) (take ?p vs)"
    "filter (\<lambda>e. fst e < key) (zip (drop ?p ks) (drop ?p vs)) = []"
    "filter (\<lambda>e. key < fst e) (zip (take ?p ks) (take ?p vs)) = []"
    using t d by (force intro!: filter_True simp: filter_empty_conv)+
  show ?C by (subst B) (simp add: f)
  show ?D
  proof (cases "key \<in> set ks")
    case True
    have "\<forall>e \<in> set (zip (drop (Suc ?p) ks) (drop (Suc ?p) vs)). key < fst e"
      using lb(4) [OF True] by (auto dest: set_zip_leftD)
    then have "filter (\<lambda>e. key < fst e) (zip (drop (Suc ?p) ks) (drop (Suc ?p) vs))
        = zip (drop (Suc ?p) ks) (drop (Suc ?p) vs)" by (intro filter_True) auto
    then show ?thesis using True f by (subst A) simp_all
  next
    case False
    then have "\<forall>e \<in> set (zip (drop ?p ks) (drop ?p vs)). key < fst e"
      using d by (metis (no_types, lifting) in_set_dropD in_set_zipE order_le_neq_trans prod.collapse)
    then have "filter (\<lambda>e. key < fst e) (zip (drop ?p ks) (drop ?p vs))
        = zip (drop ?p ks) (drop ?p vs)" by (intro filter_True) auto
    then show ?thesis using False f by (subst B) simp
  qed
qed


section \<open>Leaf chain\<close>

text \<open>How an insertion changes a stretch of the leaf chain: nothing, or one new leaf.\<close>

definition link_step :: "(nat \<times> nat option) list \<Rightarrow> nat \<Rightarrow> (nat \<times> nat option) list \<Rightarrow> nat \<Rightarrow> bool" where
  "link_step L f L' f' \<longleftrightarrow> (\<forall>e. linked L e \<longrightarrow> linked L' e) \<and>
     (map fst L' = map fst L \<and> f' = f
      \<or> (\<exists>xs ys. xs \<noteq> [] \<and> map fst L = xs @ ys \<and> map fst L' = xs @ f # ys \<and> f' = Suc f))"

lemma first_addr_append: "first_addr (xs @ ys) e = first_addr xs (first_addr ys e)"
  by (cases xs) (auto simp: first_addr_def)

lemma linked_append: "linked (xs @ ys) e \<longleftrightarrow> linked xs (first_addr ys e) \<and> linked ys e"
  by (induction xs) (auto simp: first_addr_append)

lemma first_addr_cong: "map fst L = map fst L' \<Longrightarrow> first_addr L e = first_addr L' e"
  by (cases L; cases L') (auto simp: first_addr_def)

lemma link_step_first: "link_step L f L' f' \<Longrightarrow> first_addr L' e = first_addr L e"
  unfolding link_step_def
  by (cases L; cases L') (auto simp: first_addr_def append_eq_Cons_conv Cons_eq_append_conv)

lemma link_step_context:
  assumes "link_step L f L' f'"
  shows "link_step (A @ L @ B) f (A @ L' @ B) f'"
proof -
  have "\<forall>e. linked (A @ L @ B) e \<longrightarrow> linked (A @ L' @ B) e"
    using assms link_step_first [OF assms] by (simp add: linked_append first_addr_append link_step_def)
  moreover have "map fst (A @ L' @ B) = map fst (A @ L @ B) \<and> f' = f
      \<or> (\<exists>xs ys. xs \<noteq> [] \<and> map fst (A @ L @ B) = xs @ ys \<and> map fst (A @ L' @ B) = xs @ f # ys \<and> f' = Suc f)"
  proof -
    consider "map fst L' = map fst L" "f' = f"
      | xs ys where "xs \<noteq> []" "map fst L = xs @ ys" "map fst L' = xs @ f # ys" "f' = Suc f"
      using assms by (auto simp: link_step_def)
    then show ?thesis
    proof cases
      case 2
      then show ?thesis
        by (intro disjI2 exI [of _ "map fst A @ xs"] exI [of _ "ys @ map fst B"]) simp
    qed simp
  qed
  ultimately show ?thesis by (simp add: link_step_def)
qed

lemma link_step_fresh:
  assumes "link_step L f L' f'" "distinct (map fst L)" "\<forall>a \<in> fst ` set L. a < f"
  shows "distinct (map fst L') \<and> (\<forall>a \<in> fst ` set L'. a < f')"
proof -
  consider "map fst L' = map fst L" "f' = f"
    | xs ys where "map fst L = xs @ ys" "map fst L' = xs @ f # ys" "f' = Suc f"
    using assms(1) by (auto simp: link_step_def)
  then show ?thesis
  proof cases
    case 1
    then show ?thesis using assms(2,3) by (metis list.set_map)
  next
    case 2
    have "\<forall>a \<in> set (xs @ ys). a < f" using assms(3) 2(1) by (metis list.set_map)
    moreover have "fst ` set L' = set (xs @ f # ys)" using 2(2) by (metis list.set_map)
    ultimately show ?thesis using assms(2) 2 by (auto simp: less_Suc_eq)
  qed
qed

lemma links_simps [simp]:
  "links (BLeaf a ks vs n) = [(a, n)]"
  "links (BInner ks cs) = concat (map links cs)"
  by (simp_all add: links_def map_concat o_def) (simp add: links_def [abs_def])

section \<open>Insertion\<close>

lemma insert_at_length [simp]: "i \<le> length xs \<Longrightarrow> length (insert_at i x xs) = Suc (length xs)"
  by (simp add: insert_at_def)

lemma set_insert_at [simp]: "set (insert_at i x xs) = insert x (set xs)"
  by (metis Un_insert_right append_take_drop_id insert_at_def list.simps(15) set_append)

lemma zip_insert_at:
  "length vs = length ks \<Longrightarrow> i \<le> length ks \<Longrightarrow>
   zip (insert_at i k ks) (insert_at i v vs) = zip (take i ks) (take i vs) @ (k, v) # zip (drop i ks) (drop i vs)"
  by (simp add: insert_at_def zip_append)

lemma sorted_insert_at:
  assumes "sorted_wrt (<) ks" "key \<notin> set ks"
  shows "sorted_wrt (<) (insert_at (lower_bound ks key) key ks)"
proof -
  note lb = lower_bound_split [OF assms(1), of key]
  have "\<forall>k \<in> set (drop (lower_bound ks key) ks). key < k"
    using lb(2) assms(2) by (metis in_set_dropD order_le_imp_less_or_eq)
  then show ?thesis using lb(1) assms(1)
    by (auto simp: insert_at_def sorted_wrt_append sorted_wrt_take sorted_wrt_drop intro: less_trans)
qed

text \<open>The result of \<open>insertInto\<close>: the node and its right sibling, if any, in place of the node.\<close>

definition parts :: "bnode \<Rightarrow> (int \<times> bnode) option \<Rightarrow> bnode list" where
  "parts t sp = t # (case sp of None \<Rightarrow> [] | Some (u, n) \<Rightarrow> [n])"

definition insert_post :: "nat \<Rightarrow> int option \<Rightarrow> int option \<Rightarrow> int \<Rightarrow> rowid \<Rightarrow> nat \<Rightarrow> bnode \<Rightarrow> insert_result \<Rightarrow> bool" where
  "insert_post d lo hi key rid f t r \<longleftrightarrow> (case r of (t', sp, added, f') \<Rightarrow>
     (case sp of None \<Rightarrow> wf_node d lo hi t'
      | Some (u, n) \<Rightarrow> wf_node d lo (Some u) t' \<and> wf_node d (Some u) hi n \<and> sep_above lo u \<and> below hi u)
     \<and> concat (map entries (parts t' sp)) = upsert key rid (entries t)
     \<and> added = (key \<notin> fst ` set (entries t))
     \<and> link_step (links t) f (concat (map links (parts t' sp))) f')"

lemma zip_fst_set: "length vs = length ks \<Longrightarrow> fst ` set (zip ks vs) = set ks"
  by (metis list.set_map map_fst_zip)

lemma insertInto_leaf_hit:
  assumes wf: "wf_node 0 lo hi (BLeaf a ks vs n)" and hit: "key \<in> set ks"
  shows "\<exists>r. insertInto (BLeaf a ks vs n) key rid f = Inr r \<and> insert_post 0 lo hi key rid f (BLeaf a ks vs n) r"
proof -
  let ?p = "lower_bound ks key"
  have w: "sorted_wrt (<) ks" "length vs = length ks" "length ks < ORDER" "\<forall>k \<in> set ks. above lo k \<and> below hi k"
    using wf by auto
  note ls = leaf_split [OF w(1,2), of key] and fs = zip_fst_set [OF w(2)]
  have p: "?p < length ks" "ks ! ?p = key" using lower_bound_split(3) [OF w(1)] hit by auto
  then have "ks = take ?p ks @ key # drop (Suc ?p) ks" by (metis id_take_nth_drop)
  moreover have "vs[?p := rid] = take ?p vs @ rid # drop (Suc ?p) vs"
    using p w(2) by (simp add: upd_conv_take_nth_drop)
  ultimately have "zip ks (vs[?p := rid]) =
      zip (take ?p ks) (take ?p vs) @ (key, rid) # zip (drop (Suc ?p) ks) (drop (Suc ?p) vs)"
    using p w(2) by (metis length_take zip_Cons_Cons zip_append)
  then have "zip ks (vs[?p := rid]) = upsert key rid (zip ks vs)"
    using ls(3,4) hit by (simp add: upsert_def)
  then show ?thesis using p w hit fs
    by (simp add: insert_post_def parts_def link_step_def ORDER_def)
qed

text \<open>A key that is new to a leaf: the entries it holds then, and the split when they are four.\<close>

lemma leaf_insert_at:
  assumes wf: "wf_node 0 lo hi (BLeaf a ks vs n)" and key: "above lo key" "below hi key" and new: "key \<notin> set ks"
  defines "p \<equiv> lower_bound ks key"
  shows "\<not> (p < length ks \<and> ks ! p = key)" "p \<le> length ks" "zip (insert_at p key ks) (insert_at p rid vs) = upsert key rid (zip ks vs)"
    "sorted_wrt (<) (insert_at p key ks)" "length (insert_at p key ks) = Suc (length ks)"
    "length (insert_at p rid vs) = Suc (length ks)" "\<forall>k \<in> set (insert_at p key ks). above lo k \<and> below hi k"
proof -
  have w: "sorted_wrt (<) ks" "length vs = length ks" "\<forall>k \<in> set ks. above lo k \<and> below hi k" using wf by auto
  note ls = leaf_split [OF w(1,2), of key]
  show "\<not> (p < length ks \<and> ks ! p = key)" using lower_bound_split(3) [OF w(1), of key] new by (simp add: p_def)
  show pl: "p \<le> length ks" unfolding p_def by (rule lower_bound_le)
  show "zip (insert_at p key ks) (insert_at p rid vs) = upsert key rid (zip ks vs)"
    using ls(3,4) new zip_insert_at [OF w(2) pl] by (simp add: upsert_def p_def)
  show "sorted_wrt (<) (insert_at p key ks)" unfolding p_def by (rule sorted_insert_at [OF w(1) new])
  show "length (insert_at p key ks) = Suc (length ks)" "length (insert_at p rid vs) = Suc (length ks)" using pl w(2) by simp_all
  show "\<forall>k \<in> set (insert_at p key ks). above lo k \<and> below hi k" using w(3) key pl by simp
qed

lemma insertInto_leaf_split:
  assumes wf: "wf_node 0 lo hi (BLeaf a ks vs n)" and key: "above lo key" "below hi key" and new: "key \<notin> set ks"
    and full: "\<not> Suc (length ks) < ORDER"
  shows "\<exists>r. insertInto (BLeaf a ks vs n) key rid f = Inr r \<and> insert_post 0 lo hi key rid f (BLeaf a ks vs n) r"
proof -
  let ?p = "lower_bound ks key"
  let ?ks = "insert_at ?p key ks" and ?vs = "insert_at ?p rid vs"
  have w: "length vs = length ks" "length ks < 4" using wf by (auto simp: ORDER_def)
  note at = leaf_insert_at [OF wf key new]
  note z = at(3) [of rid] and fs = zip_fst_set [OF w(1)]
  have l4: "length ?ks = 4" using at(5) w(2) full by (simp add: ORDER_def)
  obtain k0 k1 k2 k3 where K: "?ks = [k0, k1, k2, k3]"
    using l4 by (auto simp: length_Suc_conv eval_nat_numeral)
  obtain v0 v1 v2 v3 where V: "?vs = [v0, v1, v2, v3]"
    using l4 at(5) at(6) [of rid] by (auto simp: length_Suc_conv eval_nat_numeral)
  have ord: "k0 < k1" "k1 < k2" "k2 < k3" using at(4) K by auto
  have b: "above lo k0" "above lo k1" "below hi k0" "below hi k1" "below hi k2" "below hi k3"
    using at(7) K by auto
  have sa: "sep_above lo k2" using b(1) ord by (cases lo) auto
  have res: "insertInto (BLeaf a ks vs n) key rid f =
      Inr (BLeaf a [k0, k1] [v0, v1] (Some f), Some (k2, BLeaf f [k2, k3] [v2, v3] n), True, Suc f)"
    using at(1,2) w(1) K V by (simp add: ORDER_def Let_def)
  have "link_step [(a, n)] f [(a, Some f), (f, n)] (Suc f)"
    unfolding link_step_def
    by (intro conjI allI impI disjI2 exI [of _ "[a]"] exI [of _ "[]::nat list"])
      (simp_all add: first_addr_def)
  then have "insert_post 0 lo hi key rid f (BLeaf a ks vs n)
      (BLeaf a [k0, k1] [v0, v1] (Some f), Some (k2, BLeaf f [k2, k3] [v2, v3] n), True, Suc f)"
    using z K V ord b sa new fs by (simp add: insert_post_def parts_def ORDER_def)
  with res show ?thesis by blast
qed

lemma insertInto_leaf:
  assumes wf: "wf_node 0 lo hi (BLeaf a ks vs n)" and key: "above lo key" "below hi key"
  shows "\<exists>r. insertInto (BLeaf a ks vs n) key rid f = Inr r \<and> insert_post 0 lo hi key rid f (BLeaf a ks vs n) r"
proof (cases "key \<in> set ks")
  case True
  then show ?thesis by (rule insertInto_leaf_hit [OF wf])
next
  case False
  let ?p = "lower_bound ks key"
  let ?ks = "insert_at ?p key ks" and ?vs = "insert_at ?p rid vs"
  note at = leaf_insert_at [OF wf key False]
  have w: "length vs = length ks" using wf by simp
  show ?thesis
  proof (cases "Suc (length ks) < ORDER")
    case True
    then have "insertInto (BLeaf a ks vs n) key rid f = Inr (BLeaf a ?ks ?vs n, None, True, f)"
      using at(1,2,5) w by (simp add: Let_def)
    moreover have "insert_post 0 lo hi key rid f (BLeaf a ks vs n) (BLeaf a ?ks ?vs n, None, True, f)"
      using True at(4-7) at(3) [of rid] False zip_fst_set [OF w] by (simp add: insert_post_def parts_def link_step_def)
    ultimately show ?thesis by blast
  qed (rule insertInto_leaf_split [OF wf key False])
qed

text \<open>Splitting an overfull internal node in the middle.\<close>

lemma wf_inner_split:
  assumes ch: "chain (wf_node d) lo ks cs hi" and len: "length cs = Suc ORDER"
  shows "wf_node (Suc d) lo (Some (ks ! 2)) (BInner (take 2 ks) (take 3 cs))"
    "wf_node (Suc d) (Some (ks ! 2)) hi (BInner (drop 3 ks) (drop 3 cs))"
    "sep_above lo (ks ! 2)" "below hi (ks ! 2)" "length ks = 4"
proof -
  show lk: "length ks = 4" using chain_length [OF ch] len by (simp add: ORDER_def)
  have "ks = take 2 ks @ ks ! 2 # drop 3 ks" using lk id_take_nth_drop [of 2 ks] by simp
  moreover have "cs = take 3 cs @ drop 3 cs" by simp
  ultimately have "chain (wf_node d) lo (take 2 ks @ ks ! 2 # drop 3 ks) (take 3 cs @ drop 3 cs) hi"
    using ch by metis
  moreover have "length (take 3 cs) = Suc (length (take 2 ks))" using lk len by (simp add: ORDER_def)
  ultimately have "chain (wf_node d) lo (take 2 ks) (take 3 cs) (Some (ks ! 2))" "sep_above lo (ks ! 2)"
    "below hi (ks ! 2)" "chain (wf_node d) (Some (ks ! 2)) (drop 3 ks) (drop 3 cs) hi"
    by (simp_all only: chain_append)
  then show "wf_node (Suc d) lo (Some (ks ! 2)) (BInner (take 2 ks) (take 3 cs))"
    "wf_node (Suc d) (Some (ks ! 2)) hi (BInner (drop 3 ks) (drop 3 cs))"
    "sep_above lo (ks ! 2)" "below hi (ks ! 2)"
    using lk len by (auto simp: ORDER_def)
qed

text \<open>A child was split and the node has one child too many: it is split in the middle.\<close>

lemma insertInto_inner_split:
  fixes ks cs key c u r
  defines "ks' \<equiv> insert_at (route ks key) u ks" and "cs' \<equiv> insert_at (Suc (route ks key)) r (cs[route ks key := c])"
  assumes c: "insertInto (cs ! route ks key) key rid f = Inr (c, Some (u, r), added, f')" "route ks key < length cs"
    and ch: "chain (wf_node d) lo ks' cs' hi" "length cs' = Suc ORDER"
    and ups: "upsert key rid (entries (BInner ks cs)) = concat (map entries cs')"
    and step: "link_step (links (BInner ks cs)) f (concat (map links cs')) f'"
    and add: "added = (key \<notin> fst ` set (entries (BInner ks cs)))"
  shows "\<exists>q. insertInto (BInner ks cs) key rid f = Inr q \<and> insert_post (Suc d) lo hi key rid f (BInner ks cs) q"
proof -
  note sp2 = wf_inner_split [OF ch]
  let ?r = "(BInner (take 2 ks') (take 3 cs'), Some (ks' ! 2, BInner (drop 3 ks') (drop 3 cs')), added, f')"
  have "insertInto (BInner ks cs) key rid f = Inr ?r"
    using c ch(2) sp2(5) by (simp add: Let_def ks'_def cs'_def)
  moreover have td: "concat (map g (take 3 cs')) @ concat (map g (drop 3 cs')) = concat (map g cs')" for g :: "bnode \<Rightarrow> 'z list"
    by (metis append_take_drop_id concat_append map_append)
  have "insert_post (Suc d) lo hi key rid f (BInner ks cs) ?r"
    using sp2 ups step add td [of entries] td [of links]
    by (simp add: insert_post_def parts_def [of "BInner _ _"] del: entries.simps(1) wf_node.simps)
  ultimately show ?thesis by blast
qed

text \<open>What an insertion into the child on the route does to the inner node's entries and leaf chain.\<close>

lemma insert_child:
  assumes ch: "chain (wf_node d) lo ks cs hi" and i: "route ks key < length cs"
    and post: "insert_post d lo' hi' key rid f (cs ! route ks key) (c, sp, added, f')"
  defines "A \<equiv> \<lambda>g. concat (map g (take (route ks key) cs))" and "B \<equiv> \<lambda>g. concat (map g (drop (Suc (route ks key)) cs))"
  shows "upsert key rid (entries (BInner ks cs)) = A entries @ concat (map entries (parts c sp)) @ B entries"
    "added = (key \<notin> fst ` set (entries (BInner ks cs)))"
proof -
  have sides: "\<forall>e \<in> set (A entries). fst e < key" "\<forall>e \<in> set (B entries). key < fst e"
    using chain_sides [OF ch wf_node_in_range] by (auto simp: A_def B_def)
  have es: "entries (BInner ks cs) = A entries @ entries (cs ! route ks key) @ B entries"
    using concat_focus [OF i] by (simp_all add: A_def B_def)
  show "upsert key rid (entries (BInner ks cs)) = A entries @ concat (map entries (parts c sp)) @ B entries"
    unfolding es upsert_focus [OF sides] using post by (simp add: insert_post_def)
  have "key \<in> fst ` set (entries (BInner ks cs)) \<longleftrightarrow> key \<in> fst ` set (entries (cs ! route ks key))"
    unfolding es using sides by force
  then show "added = (key \<notin> fst ` set (entries (BInner ks cs)))" using post by (simp add: insert_post_def)
qed

lemma insert_child_links:
  assumes i: "i < length cs" and post: "insert_post d lo' hi' key rid f (cs ! i) (c, sp, added, f')"
  shows "link_step (links (BInner ks cs)) f
    (concat (map links (take i cs)) @ concat (map links (parts c sp)) @ concat (map links (drop (Suc i) cs))) f'"
proof -
  have "links (BInner ks cs) = concat (map links (take i cs)) @ links (cs ! i) @ concat (map links (drop (Suc i) cs))"
    using concat_focus [OF i] by simp
  then show ?thesis using post by (simp only:) (rule link_step_context, simp add: insert_post_def)
qed

lemma insertInto_inner:
  assumes wf: "wf_node (Suc d) lo hi (BInner ks cs)" and key: "above lo key" "below hi key"
    and IH: "\<And>lo hi t. wf_node d lo hi t \<Longrightarrow> above lo key \<Longrightarrow> below hi key \<Longrightarrow>
      \<exists>r. insertInto t key rid f = Inr r \<and> insert_post d lo hi key rid f t r"
  shows "\<exists>r. insertInto (BInner ks cs) key rid f = Inr r \<and> insert_post (Suc d) lo hi key rid f (BInner ks cs) r"
proof -
  let ?i = "route ks key"
  have w: "ks \<noteq> []" "length cs \<le> ORDER" "chain (wf_node d) lo ks cs hi" using wf by auto
  obtain lo' hi' where fc: "?i < length cs" "?i \<le> length ks"
    "wf_node d lo' hi' (cs ! ?i)" "above lo' key" "below hi' key"
    "\<And>c. wf_node d lo' hi' c \<Longrightarrow> chain (wf_node d) lo ks (cs[?i := c]) hi"
    "\<And>c u r. wf_node d lo' (Some u) c \<Longrightarrow> wf_node d (Some u) hi' r \<Longrightarrow> sep_above lo' u \<Longrightarrow> below hi' u \<Longrightarrow>
      chain (wf_node d) lo (insert_at ?i u ks) (insert_at (Suc ?i) r (cs[?i := c])) hi"
    by (rule chain_focus [OF w(3) key]) (rule that)
  let ?A = "\<lambda>g. concat (map g (take ?i cs))" and ?B = "\<lambda>g. concat (map g (drop (Suc ?i) cs))"
  obtain c sp added f' where c: "insertInto (cs ! ?i) key rid f = Inr (c, sp, added, f')"
      "insert_post d lo' hi' key rid f (cs ! ?i) (c, sp, added, f')"
    using IH [OF fc(3-5)] by (metis prod_cases4)
  note ups = insert_child(1) [OF w(3) fc(1) c(2)] and add = insert_child(2) [OF w(3) fc(1) c(2)]
    and step = insert_child_links [OF fc(1) c(2), of ks]
  show ?thesis
  proof (cases sp)
    case None
    have "wf_node d lo' hi' c" using c(2) None by (simp add: insert_post_def)
    from fc(6) [OF this] have "insert_post (Suc d) lo hi key rid f (BInner ks cs) (BInner ks (cs[?i := c]), None, added, f')"
      using w ups step add None concat_replace [OF fc(1), of _ c]
      by (simp add: insert_post_def parts_def del: entries.simps links_simps)
        (simp add: concat_replace [OF fc(1)])
    then show ?thesis using c(1) fc(1) None by (simp add: Let_def)
  next
    case (Some p)
    then obtain u r where sp: "sp = Some (u, r)" by (cases p) auto
    let ?ks = "insert_at ?i u ks" and ?cs = "insert_at (Suc ?i) r (cs[?i := c])"
    have "wf_node d lo' (Some u) c" "wf_node d (Some u) hi' r" "sep_above lo' u" "below hi' u"
      using c(2) sp by (simp_all add: insert_post_def)
    note ch = fc(7) [OF this]
    have lk: "length ?ks = Suc (length ks)" using fc(2) by simp
    have lc: "length ?cs = Suc (length cs)" using fc(1) by simp
    have cc: "concat (map g ?cs) = ?A g @ concat (map g (parts c sp)) @ ?B g" for g :: "bnode \<Rightarrow> 'z list"
      using concat_replace2 [OF fc(1)] sp by (simp add: parts_def)
    show ?thesis
    proof (cases "length ?cs \<le> ORDER")
      case True
      have "?ks \<noteq> []" using lk by auto
      then have "insert_post (Suc d) lo hi key rid f (BInner ks cs) (BInner ?ks ?cs, None, added, f')"
        using True ch ups step add cc [of entries] cc [of links] by (simp add: insert_post_def parts_def [of "BInner _ _"])
      then show ?thesis using c(1) fc(1) sp True by (simp add: Let_def)
    next
      case False
      have l: "length ?cs = Suc ORDER" using False lc w(2) by simp
      show ?thesis
        using insertInto_inner_split [OF c(1) [unfolded sp] fc(1) ch l] ups step add cc [of entries] cc [of links] by simp
    qed
  qed
qed

lemma insertInto_ok:
  "wf_node d lo hi t \<Longrightarrow> above lo key \<Longrightarrow> below hi key \<Longrightarrow>
    \<exists>r. insertInto t key rid f = Inr r \<and> insert_post d lo hi key rid f t r"
proof (induction d arbitrary: lo hi t)
  case 0
  then show ?case
  proof (cases t)
    case (BLeaf a ks vs n)
    then show ?thesis using insertInto_leaf 0 by simp
  qed simp
next
  case (Suc d)
  show ?case
  proof (cases t)
    case (BInner ks cs)
    then show ?thesis using insertInto_inner [OF _ Suc.prems(2,3)] Suc by blast
  qed (use Suc.prems in simp)
qed


section \<open>Search and deletion\<close>

definition leaf_entries :: "(nat \<times> int list \<times> rowid list \<times> nat option) list \<Rightarrow> (int \<times> rowid) list" where
  "leaf_entries ls = concat (map (\<lambda>(a, ks, vs, n). zip ks vs) ls)"

lemma leaf_entries_simps [simp]:
  "leaf_entries [] = []"
  "leaf_entries ((a, ks, vs, n) # ls) = zip ks vs @ leaf_entries ls"
  "leaf_entries (xs @ ys) = leaf_entries xs @ leaf_entries ys"
  by (simp_all add: leaf_entries_def)

lemma leaf_entries_concat: "leaf_entries (concat lss) = concat (map leaf_entries lss)"
  by (induction lss) simp_all

lemma entries_leaves: "entries t = leaf_entries (leaves t)"
proof (induction t rule: entries.induct)
  case (2 ks cs)
  then have "concat (map entries cs) = concat (map (\<lambda>c. leaf_entries (leaves c)) cs)"
    by (simp cong: map_cong)
  then show ?case by (simp add: leaf_entries_concat o_def)
qed simp

lemma leaves_wf:
  "wf_node d lo hi t \<Longrightarrow> \<forall>(a, ks, vs, n) \<in> set (leaves t). sorted_wrt (<) ks \<and> length vs = length ks"
proof (induction d arbitrary: lo hi t)
  case 0
  then show ?case by (cases t) auto
next
  case (Suc d)
  have "\<forall>c \<in> set cs. \<exists>lo hi. P lo hi c" if "chain P lo ks cs hi" for P lo ks cs hi
    using that by (induction P lo ks cs hi rule: chain.induct) auto
  with Suc show ?case by (cases t) (auto, blast+)
qed

text \<open>The leaf \<open>findLeaf\<close> reaches splits the leaf list at the key.\<close>

lemma findLeaf_ok:
  "wf_node d lo hi t \<Longrightarrow> above lo key \<Longrightarrow> below hi key \<Longrightarrow>
    \<exists>l A B. findLeaf key t = Inr l \<and> leaves t = A @ l # B
      \<and> (\<forall>e \<in> set (leaf_entries A). fst e < key) \<and> (\<forall>e \<in> set (leaf_entries B). key < fst e)"
proof (induction d arbitrary: lo hi t)
  case 0
  then obtain a ks vs n where "t = BLeaf a ks vs n" by (cases t) auto
  then show ?case by (simp add: exI [of _ "[]"])
next
  case (Suc d)
  then obtain ks cs where t: "t = BInner ks cs" by (cases t) auto
  let ?i = "route ks key"
  have ch: "chain (wf_node d) lo ks cs hi" using Suc.prems t by simp
  obtain lo' hi' where fc: "?i < length cs" "wf_node d lo' hi' (cs ! ?i)" "above lo' key" "below hi' key"
    by (rule chain_focus [OF ch Suc.prems(2,3)]) (rule that)
  let ?A = "concat (map leaves (take ?i cs))" and ?B = "concat (map leaves (drop (Suc ?i) cs))"
  have e: "leaf_entries (concat (map leaves xs)) = concat (map entries xs)" for xs
    by (simp add: leaf_entries_concat entries_leaves [abs_def] o_def)
  have sides: "\<forall>e \<in> set (leaf_entries ?A). fst e < key" "\<forall>e \<in> set (leaf_entries ?B). key < fst e"
    using chain_sides [OF ch wf_node_in_range] unfolding e by auto
  obtain l A B where l: "findLeaf key (cs ! ?i) = Inr l" "leaves (cs ! ?i) = A @ l # B"
      "\<forall>e \<in> set (leaf_entries A). fst e < key" "\<forall>e \<in> set (leaf_entries B). key < fst e"
    using Suc.IH [OF fc(2-4)] by blast
  have "leaves t = (?A @ A) @ l # (B @ ?B)" using t l(2) concat_focus [OF fc(1), of leaves] by simp
  moreover have "findLeaf key t = Inr l" using t fc(1) l(1) by simp
  moreover have "\<forall>e \<in> set (leaf_entries (?A @ A)). fst e < key" "\<forall>e \<in> set (leaf_entries (B @ ?B)). key < fst e"
    using sides l(3,4) by auto
  ultimately show ?case by blast
qed

lemma map_of_middle:
  "(\<forall>e \<in> set A. fst e < (k::int)) \<Longrightarrow> (\<forall>e \<in> set B. k < fst e) \<Longrightarrow> map_of (A @ M @ B) k = map_of M k"
proof -
  assume "\<forall>e \<in> set A. fst e < k" "\<forall>e \<in> set B. k < fst e"
  then have "map_of A k = None" "map_of B k = None" by (force simp: map_of_eq_None_iff)+
  then show ?thesis by (auto simp: map_add_def split: option.split)
qed

lemma leaf_lookup:
  assumes "sorted_wrt (<) ks" "length vs = length ks"
  shows "(let pos = lower_bound ks key
      in if pos < length ks \<and> ks ! pos = key
         then (if pos < length vs then Inr (Some (vs ! pos)) else Inl MemFault)
         else Inr None) = (Inr (map_of (zip ks vs) key) :: db_error + rowid option)"
proof (cases "key \<in> set ks")
  case True
  note p = lower_bound_split(3) [OF assms(1), of key]
  have s: "sorted_wrt (<) (map fst (zip ks vs))" using assms by simp
  have "(key, vs ! lower_bound ks key) \<in> set (zip ks vs)"
    using leaf_split(1) [OF assms True] by (metis in_set_conv_decomp)
  moreover have "distinct (map fst (zip ks vs))" using s by (simp add: strict_sorted_iff)
  ultimately have "map_of (zip ks vs) key = Some (vs ! lower_bound ks key)" by simp
  then show ?thesis using True p assms by (auto simp: Let_def)
next
  case False
  moreover have "map_of (zip ks vs) key = None"
    using False assms by (simp add: map_of_eq_None_iff zip_fst_set)
  ultimately show ?thesis using lower_bound_split(3) [OF assms(1), of key] by (auto simp: Let_def)
qed

lemma delete_at_zip:
  "length vs = length ks \<Longrightarrow> zip (delete_at i ks) (delete_at i vs)
     = zip (take i ks) (take i vs) @ zip (drop (Suc i) ks) (drop (Suc i) vs)"
  by (simp add: delete_at_def zip_append)

lemma filter_neq_split:
  fixes k :: int
  assumes "sorted_wrt (<) (map fst es)"
  shows "filter (\<lambda>e. fst e \<noteq> k) es = filter (\<lambda>e. fst e < k) es @ filter (\<lambda>e. k < fst e) es"
  using assms
proof (induction es)
  case (Cons e es)
  consider "fst e < k" | "fst e = k" | "k < fst e" by linarith
  then show ?case
  proof cases
    case 1
    with Cons show ?thesis by simp
  next
    case 2
    then have "\<forall>x \<in> set es. k < fst x" using Cons.prems by auto
    then have "filter (\<lambda>e. fst e < k) es = []" by (force simp: filter_empty_conv)
    with Cons 2 show ?thesis by simp
  next
    case 3
    then have "\<forall>x \<in> set es. k < fst x" using Cons.prems by fastforce
    then have "filter (\<lambda>e. fst e < k) es = []" by (force simp: filter_empty_conv)
    with Cons 3 show ?thesis by simp
  qed
qed simp

lemma eraseIn_leaf:
  assumes wf: "wf_node 0 lo hi (BLeaf a ks vs n)"
  shows "\<exists>t'. eraseIn key (BLeaf a ks vs n) = Inr (t', key \<in> fst ` set (entries (BLeaf a ks vs n))) \<and> wf_node 0 lo hi t'
      \<and> entries t' = filter (\<lambda>e. fst e \<noteq> key) (entries (BLeaf a ks vs n)) \<and> links t' = links (BLeaf a ks vs n)"
proof -
  let ?t = "BLeaf a ks vs n"
  let ?p = "lower_bound ks key"
  have w: "sorted_wrt (<) ks" "length vs = length ks" "length ks < ORDER" "\<forall>k \<in> set ks. above lo k \<and> below hi k"
    using wf by auto
  note ls = leaf_split [OF w(1,2), of key] and fs = zip_fst_set [OF w(2)]
  have s: "sorted_wrt (<) (map fst (zip ks vs))" using w by simp
  show ?thesis
  proof (cases "key \<in> set ks")
    case True
    then have p: "?p < length ks" "ks ! ?p = key" using lower_bound_split(3) [OF w(1)] by auto
    have "zip (delete_at ?p ks) (delete_at ?p vs) = filter (\<lambda>e. fst e \<noteq> key) (zip ks vs)"
      unfolding filter_neq_split [OF s] using ls(3,4) True delete_at_zip [OF w(2)] by simp
    moreover have "sorted_wrt (<) (delete_at ?p ks)"
    proof -
      have "sorted_wrt (<) (take ?p ks @ drop ?p ks)" using w(1) by simp
      moreover have "drop ?p ks = key # drop (Suc ?p) ks" using p by (metis Cons_nth_drop_Suc)
      ultimately show ?thesis by (simp add: delete_at_def sorted_wrt_append)
    qed
    moreover have "set (delete_at ?p ks) \<subseteq> set ks"
      by (auto simp: delete_at_def dest: in_set_takeD in_set_dropD)
    moreover have "length (delete_at ?p vs) = length (delete_at ?p ks)" "length (delete_at ?p ks) < ORDER"
      using w(2,3) by (auto simp: delete_at_def)
    ultimately have "wf_node 0 lo hi (BLeaf a (delete_at ?p ks) (delete_at ?p vs) n)"
      "entries (BLeaf a (delete_at ?p ks) (delete_at ?p vs) n) = filter (\<lambda>e. fst e \<noteq> key) (entries ?t)"
      using w(4) by auto
    moreover have "eraseIn key ?t = Inr (BLeaf a (delete_at ?p ks) (delete_at ?p vs) n, True)"
      using p w(2) by (simp add: Let_def)
    ultimately show ?thesis using True fs by auto
  next
    case False
    then have "\<not> (?p < length ks \<and> ks ! ?p = key)" using lower_bound_split(3) [OF w(1)] by auto
    moreover have "filter (\<lambda>e. fst e \<noteq> key) (zip ks vs) = zip ks vs"
      using False by (intro filter_True) (auto dest: set_zip_leftD)
    ultimately show ?thesis using False w fs by (auto simp: Let_def)
  qed
qed

lemma eraseIn_inner:
  assumes wf: "wf_node (Suc d) lo hi (BInner ks cs)" and key: "above lo key" "below hi key"
    and IH: "\<And>lo hi t. wf_node d lo hi t \<Longrightarrow> above lo key \<Longrightarrow> below hi key \<Longrightarrow>
      \<exists>t'. eraseIn key t = Inr (t', key \<in> fst ` set (entries t)) \<and> wf_node d lo hi t'
      \<and> entries t' = filter (\<lambda>e. fst e \<noteq> key) (entries t) \<and> links t' = links t"
  shows "\<exists>t'. eraseIn key (BInner ks cs) = Inr (t', key \<in> fst ` set (entries (BInner ks cs))) \<and> wf_node (Suc d) lo hi t'
      \<and> entries t' = filter (\<lambda>e. fst e \<noteq> key) (entries (BInner ks cs)) \<and> links t' = links (BInner ks cs)"
proof -
  let ?t = "BInner ks cs"
  let ?i = "route ks key"
  have w: "ks \<noteq> []" "length cs \<le> ORDER" "chain (wf_node d) lo ks cs hi" using wf by auto
  obtain lo' hi' where fc: "?i < length cs" "wf_node d lo' hi' (cs ! ?i)" "above lo' key" "below hi' key"
    "\<And>c. wf_node d lo' hi' c \<Longrightarrow> chain (wf_node d) lo ks (cs[?i := c]) hi"
    by (rule chain_focus [OF w(3) key]) (rule that)
  have sides: "\<forall>e \<in> set (concat (map entries (take ?i cs))). fst e < key"
    "\<forall>e \<in> set (concat (map entries (drop (Suc ?i) cs))). key < fst e"
    using chain_sides [OF w(3) wf_node_in_range] by auto
  obtain c where c: "eraseIn key (cs ! ?i) = Inr (c, key \<in> fst ` set (entries (cs ! ?i)))" "wf_node d lo' hi' c"
      "entries c = filter (\<lambda>e. fst e \<noteq> key) (entries (cs ! ?i))" "links c = links (cs ! ?i)"
    using IH [OF fc(2-4)] by blast
  let ?A = "concat (map entries (take ?i cs))" and ?B = "concat (map entries (drop (Suc ?i) cs))"
  have es: "entries ?t = ?A @ entries (cs ! ?i) @ ?B"
    using concat_focus [OF fc(1), of entries] by simp
  have AB: "filter (\<lambda>e. fst e \<noteq> key) ?A = ?A" "filter (\<lambda>e. fst e \<noteq> key) ?B = ?B"
    using sides by (force intro!: filter_True)+
  have "key \<in> fst ` set (entries ?t) \<longleftrightarrow> key \<in> fst ` set (entries (cs ! ?i))"
    unfolding es using sides by force
  then have r: "eraseIn key ?t = Inr (BInner ks (cs[?i := c]), key \<in> fst ` set (entries ?t))"
    using fc(1) c(1) by simp
  have e: "entries (BInner ks (cs[?i := c])) = filter (\<lambda>e. fst e \<noteq> key) (entries ?t)"
    unfolding es filter_append AB using c(3) concat_replace [OF fc(1), of entries c] by simp
  have l: "links (BInner ks (cs[?i := c])) = links ?t"
    using c(4) concat_replace [OF fc(1), of links c] concat_focus [OF fc(1), of links] by simp
  have "wf_node (Suc d) lo hi (BInner ks (cs[?i := c]))" using w fc(5) [OF c(2)] by simp
  with r e l show ?thesis by blast
qed

lemma eraseIn_ok:
  "wf_node d lo hi t \<Longrightarrow> above lo key \<Longrightarrow> below hi key \<Longrightarrow>
    \<exists>t'. eraseIn key t = Inr (t', key \<in> fst ` set (entries t)) \<and> wf_node d lo hi t'
      \<and> entries t' = filter (\<lambda>e. fst e \<noteq> key) (entries t) \<and> links t' = links t"
proof (induction d arbitrary: lo hi t)
  case 0
  then show ?case using eraseIn_leaf by (cases t) auto
next
  case (Suc d)
  then obtain ks cs where t: "t = BInner ks cs" by (cases t) auto
  show ?case unfolding t by (rule eraseIn_inner [OF Suc.prems(1) [unfolded t] Suc.prems(2,3) Suc.IH])
qed

section \<open>Range scan\<close>

definition between :: "int \<Rightarrow> int \<Rightarrow> (int \<times> rowid) list \<Rightarrow> (int \<times> rowid) list" where
  "between lo hi es = filter (\<lambda>e. lo \<le> fst e \<and> fst e \<le> hi) es"

lemma between_simps [simp]:
  "between lo hi [] = []"
  "between lo hi (e # es) = (if lo \<le> fst e \<and> fst e \<le> hi then e # between lo hi es else between lo hi es)"
  "between lo hi (xs @ ys) = between lo hi xs @ between lo hi ys"
  by (simp_all add: between_def)

lemma between_empty: "(\<forall>e \<in> set es. fst e < lo) \<or> (\<forall>e \<in> set es. hi < fst e) \<Longrightarrow> between lo hi es = []"
  by (force simp: between_def filter_empty_conv)

lemma scan_leaf_ok:
  "length vs = length ks \<Longrightarrow> sorted_wrt (<) ks \<Longrightarrow>
   scan_leaf lo hi ks vs = Inr (between lo hi (zip ks vs), \<exists>k \<in> set ks. lo \<le> k \<and> hi < k)"
proof (induction lo hi ks vs rule: scan_leaf.induct)
  case (3 lo hi k ks v vs)
  consider "k < lo" | "lo \<le> k" "hi < k" | "lo \<le> k" "k \<le> hi" by linarith
  then show ?case
  proof cases
    case 2
    have "\<forall>e \<in> set (zip ks vs). hi < fst e"
      using 2 3 by (force dest: set_zip_leftD)
    then have "between lo hi (zip ks vs) = []" by (simp add: between_empty)
    with 2 show ?thesis by simp
  qed (use 3 in auto)
qed auto

lemma find_append: "find P (xs @ ys) = (case find P xs of None \<Rightarrow> find P ys | Some x \<Rightarrow> Some x)"
  by (induction xs) auto

lemma leaf_at_mid:
  assumes "leaves t = A @ (a, ks, vs, n) # B" "distinct (map fst (leaves t))"
  shows "leaf_at a t = Some (a, ks, vs, n)"
proof -
  have "find (\<lambda>l. fst l = a) A = None" using assms by (force simp: find_None_iff)
  then show ?thesis using assms(1) by (simp add: leaf_at_def find_append)
qed

lemma links_first: "map fst (links t) = map fst (leaves t)"
  by (simp add: links_def split_def)

text \<open>The walk visits the leaves from its start to the right and returns.\<close>

lemma walk_ok:
  assumes A: "leaves t = A @ ls" "distinct (map fst (leaves t))" "linked (map (\<lambda>(a, ks, vs, n). (a, n)) ls) None"
    "\<forall>(a, ks, vs, n) \<in> set (leaves t). sorted_wrt (<) ks \<and> length vs = length ks"
    "sorted_wrt (<) (map fst (leaf_entries ls))"
  shows "walk (visit_leaf t lo hi) (first_addr (map (\<lambda>(a, ks, vs, n). (a, n)) ls) None)
    = Some (Inr (between lo hi (leaf_entries ls)))"
  using A
proof (induction ls arbitrary: A)
  case Nil
  then show ?case by (simp add: first_addr_def walk.simps)
next
  case (Cons l ls)
  obtain a ks vs n where l: "l = (a, ks, vs, n)" by (cases l) auto
  let ?first = "first_addr (map (\<lambda>(a, ks, vs, n). (a, n)) ls) None"
  have w: "sorted_wrt (<) ks" "length vs = length ks" using Cons.prems(1,4) l by auto
  have n: "n = ?first" using Cons.prems(3) l by simp
  have la: "leaf_at a t = Some (a, ks, vs, n)" by (rule leaf_at_mid) (use Cons.prems l in auto)
  let ?stop = "\<exists>k \<in> set ks. lo \<le> k \<and> hi < k"
  have v: "visit_leaf t lo hi a = (Inr (between lo hi (zip ks vs)), if ?stop then None else n)"
    using la scan_leaf_ok [OF w(2,1), of lo hi] by (simp add: visit_leaf_def)
  have so: "sorted_wrt (<) (map fst (zip ks vs @ leaf_entries ls))" using Cons.prems(5) l by simp
  have "walk (visit_leaf t lo hi) (if ?stop then None else n) = Some (Inr (between lo hi (leaf_entries ls)))"
  proof (cases ?stop)
    case True
    then obtain k where k: "k \<in> set ks" "hi < k" by blast
    then have "k \<in> fst ` set (zip ks vs)" using zip_fst_set [OF w(2)] by simp
    then have "\<forall>e \<in> set (leaf_entries ls). hi < fst e"
      using so k(2) by (force simp: sorted_wrt_append)
    then have "between lo hi (leaf_entries ls) = []" by (simp add: between_empty)
    with True show ?thesis by (simp add: walk.simps)
  next
    case False
    have "sorted_wrt (<) (map fst (leaf_entries ls))" using so by (simp add: sorted_wrt_append)
    then have "walk (visit_leaf t lo hi) ?first = Some (Inr (between lo hi (leaf_entries ls)))"
      using Cons.IH [of "A @ [l]"] Cons.prems l by simp
    with False n show ?thesis by (simp only: if_False)
  qed
  then show ?case using l v by (simp add: first_addr_def walk.simps [of _ "Some a"])
qed

section \<open>The tree as a finite map\<close>

lemma bp_inv_root:
  assumes "bp_inv t" "broot t = Some r"
  obtains d where "wf_node d None None r" "linked (links r) None" "distinct (map fst (links r))"
    "\<forall>a \<in> fst ` set (links r). a < bfresh t" "bcount t = length (entries r)"
  using assms by (auto simp: bp_inv_def bp_entries_def)

lemma bp_inv_empty: "bp_inv bp_empty"
  by (simp add: bp_inv_def bp_empty_def bp_entries_def)

lemma bp_entries_empty [simp]: "bp_entries bp_empty = []"
  by (simp add: bp_entries_def bp_empty_def)

lemma bp_entries_sorted:
  assumes "bp_inv t"
  shows "sorted_wrt (<) (map fst (bp_entries t))"
proof (cases "broot t")
  case (Some r)
  then obtain d where "wf_node d None None r" using assms by (auto elim: bp_inv_root)
  from wf_node_in_range [OF this] Some show ?thesis by (simp add: in_range_def bp_entries_def)
qed (simp add: bp_entries_def)

lemma bp_search_ok:
  assumes inv: "bp_inv t"
  shows "bp_search key t = Inr (map_of (bp_entries t) key)"
proof (cases "broot t")
  case (Some r)
  then obtain d where wf: "wf_node d None None r" using inv by (auto elim: bp_inv_root)
  obtain l A B where l: "findLeaf key r = Inr l" "leaves r = A @ l # B"
      "\<forall>e \<in> set (leaf_entries A). fst e < key" "\<forall>e \<in> set (leaf_entries B). key < fst e"
    using findLeaf_ok [OF wf] by fastforce
  obtain a ks vs n where leaf: "l = (a, ks, vs, n)" by (cases l) auto
  have w: "sorted_wrt (<) ks" "length vs = length ks" using leaves_wf [OF wf] l(2) leaf by auto
  have "entries r = leaf_entries A @ zip ks vs @ leaf_entries B"
    using l(2) leaf by (simp add: entries_leaves)
  then have "map_of (entries r) key = map_of (zip ks vs) key"
    using map_of_middle [OF l(3,4)] by simp
  then show ?thesis using Some l(1) leaf leaf_lookup [OF w, of key]
    by (simp add: bp_search_def bp_entries_def)
qed (simp add: bp_search_def bp_entries_def)

lemma bp_rangeScan_ok:
  assumes inv: "bp_inv t"
  shows "bp_rangeScan lo hi t = Some (Inr (between lo hi (bp_entries t)))"
proof (cases "broot t")
  case (Some r)
  then obtain d where wf: "wf_node d None None r" and lk: "linked (links r) None" "distinct (map fst (links r))"
    using inv by (auto elim: bp_inv_root)
  obtain l A B where l: "findLeaf lo r = Inr l" "leaves r = A @ l # B"
      "\<forall>e \<in> set (leaf_entries A). fst e < lo"
    using findLeaf_ok [OF wf] by fastforce
  obtain a ks vs n where leaf: "l = (a, ks, vs, n)" by (cases l) auto
  have so: "sorted_wrt (<) (map fst (leaf_entries A @ leaf_entries (l # B)))"
    using wf_node_in_range [OF wf] l(2) leaf by (simp add: in_range_def entries_leaves)
  then have so2: "sorted_wrt (<) (map fst (leaf_entries (l # B)))" by (simp add: sorted_wrt_append)
  have "linked (map (\<lambda>(a, ks, vs, n). (a, n)) (l # B)) None"
    using lk(1) l(2) by (simp add: links_def linked_append)
  then have "walk (visit_leaf r lo hi) (first_addr (map (\<lambda>(a, ks, vs, n). (a, n)) (l # B)) None)
      = Some (Inr (between lo hi (leaf_entries (l # B))))"
    using walk_ok [OF l(2) _ _ leaves_wf [OF wf] so2] lk(2) by (simp add: links_first)
  moreover have "between lo hi (leaf_entries A) = []" using l(3) by (simp add: between_empty)
  ultimately have "walk (visit_leaf r lo hi) (Some a) = Some (Inr (between lo hi (entries r)))"
    using l(2) leaf by (simp add: first_addr_def entries_leaves)
  then show ?thesis using Some l(1) leaf by (simp add: bp_rangeScan_def bp_entries_def)
qed (simp add: bp_rangeScan_def bp_entries_def)

lemma upsert_sorted: "sorted_wrt (<) (map fst es) \<Longrightarrow> sorted_wrt (<) (map fst (upsert k v es))"
  by (auto simp: upsert_def sorted_wrt_append sorted_wrt_map intro: sorted_wrt_filter less_trans)

lemma length_upsert:
  assumes "sorted_wrt (<) (map fst es)"
  shows "length (upsert k v es) = (if k \<in> fst ` set es then length es else Suc (length es))"
  using assms
proof (induction es)
  case (Cons e es)
  consider "fst e < k" | "fst e = k" | "k < fst e" by linarith
  then show ?case
  proof cases
    case 1
    with Cons show ?thesis by (auto simp: upsert_def)
  next
    case 2
    then have "\<forall>x \<in> set es. k < fst x" using Cons.prems by auto
    then have "filter (\<lambda>e. fst e < k) es = []" "filter (\<lambda>e. k < fst e) es = es"
      by (force simp: filter_empty_conv intro!: filter_True)+
    with 2 show ?thesis by (simp add: upsert_def)
  next
    case 3
    then have "\<forall>x \<in> set es. k < fst x" using Cons.prems by fastforce
    then have "filter (\<lambda>e. fst e < k) es = []" "filter (\<lambda>e. k < fst e) es = es" "k \<notin> fst ` set es"
      by (force simp: filter_empty_conv intro!: filter_True)+
    with 3 show ?thesis by (auto simp: upsert_def)
  qed
qed (simp add: upsert_def)

lemma map_of_upsert:
  assumes "sorted_wrt (<) (map fst es)"
  shows "map_of (upsert k v es) = (map_of es)(k \<mapsto> v)"
proof
  fix x
  have d: "distinct (map fst (upsert k v es))" "distinct (map fst es)"
    using assms upsert_sorted [OF assms] by (simp_all add: strict_sorted_iff)
  show "map_of (upsert k v es) x = ((map_of es)(k \<mapsto> v)) x"
  proof (cases "x = k")
    case True
    have "(k, v) \<in> set (upsert k v es)" by (simp add: upsert_def)
    with d(1) True show ?thesis by simp
  next
    case False
    have "(x, y) \<in> set (upsert k v es) \<longleftrightarrow> (x, y) \<in> set es" for y
      using False by (auto simp: upsert_def)
    then have "map_of (upsert k v es) x = map_of es x"
      using d by (metis map_of_SomeD map_of_is_SomeI option.exhaust)
    with False show ?thesis by simp
  qed
qed

lemma map_of_filter_neq: "map_of (filter (\<lambda>e. fst e \<noteq> k) es) = (map_of es)(k := None)"
  by (induction es) auto

lemma bp_insert_ok:
  assumes inv: "bp_inv t"
  obtains t' where "bp_insert key rid t = Inr t'" "bp_inv t'" "bp_entries t' = upsert key rid (bp_entries t)"
proof (cases "broot t")
  case None
  then show thesis
    by (intro that) (auto simp: bp_insert_def bp_inv_def bp_entries_def upsert_def ORDER_def first_addr_def
        intro!: exI [of _ 0])
next
  case (Some r)
  obtain d where wf: "wf_node d None None r" and lk: "linked (links r) None" "distinct (map fst (links r))"
      "\<forall>a \<in> fst ` set (links r). a < bfresh t" and cnt: "bcount t = length (entries r)"
    using inv Some by (rule bp_inv_root)
  obtain t' sp added f' where ins: "insertInto r key rid (bfresh t) = Inr (t', sp, added, f')"
      "insert_post d None None key rid (bfresh t) r (t', sp, added, f')"
    using insertInto_ok [OF wf] by (metis above.simps(1) below.simps(1) prod_cases4)
  have so: "sorted_wrt (<) (map fst (entries r))" using wf_node_in_range [OF wf] by (simp add: in_range_def)
  have e: "concat (map entries (parts t' sp)) = upsert key rid (entries r)"
    and ad: "added = (key \<notin> fst ` set (entries r))"
    and ls: "link_step (links r) (bfresh t) (concat (map links (parts t' sp))) f'"
    using ins(2) by (simp_all add: insert_post_def)
  have lk': "linked (concat (map links (parts t' sp))) None" using ls lk(1) by (simp add: link_step_def)
  note fr = link_step_fresh [OF ls lk(2,3)]
  define root' where "root' = (case sp of None \<Rightarrow> t' | Some (u, n) \<Rightarrow> BInner [u] [t', n])"
  define res where "res = t\<lparr>broot := Some root', bcount := (if added then Suc (bcount t) else bcount t), bfresh := f'\<rparr>"
  have "bp_insert key rid t = Inr res"
    using Some ins(1) by (auto simp: bp_insert_def res_def root'_def Let_def split: option.split)
  moreover have er: "entries root' = upsert key rid (entries r)" "links root' = concat (map links (parts t' sp))"
    using e by (auto simp: root'_def parts_def split: option.split)
  moreover have "\<exists>d. wf_node d None None root'"
  proof (cases sp)
    case None
    then show ?thesis using ins(2) by (auto simp: insert_post_def root'_def)
  next
    case (Some p)
    then have "wf_node (Suc d) None None root'"
      using ins(2) by (auto simp: insert_post_def root'_def ORDER_def)
    then show ?thesis by blast
  qed
  moreover have "bcount res = length (upsert key rid (entries r))"
    using cnt ad length_upsert [OF so] by (simp add: res_def)
  ultimately show thesis
    using that [of res] lk' fr Some by (auto simp: bp_inv_def bp_entries_def res_def)
qed

lemma length_filter_neq:
  fixes k :: int
  assumes "sorted_wrt (<) (map fst es)"
  shows "length (filter (\<lambda>e. fst e \<noteq> k) es) = (if k \<in> fst ` set es then length es - 1 else length es)"
  using assms
proof (induction es)
  case (Cons e es)
  show ?case
  proof (cases "fst e = k")
    case True
    have gt: "\<forall>x \<in> set es. fst e < fst x" using Cons.prems by auto
    have "filter (\<lambda>e. fst e \<noteq> k) es = es" unfolding True [symmetric] using gt
      by (intro filter_True) (metis less_irrefl)
    with True show ?thesis by simp
  next
    case False
    then have "k \<in> fst ` set es \<Longrightarrow> es \<noteq> []" by auto
    with False Cons show ?thesis by (auto simp: Suc_diff_1 length_greater_0_conv)
  qed
qed simp

lemma bp_erase_ok:
  assumes inv: "bp_inv t"
  obtains t' where "bp_erase key t = Inr t'" "bp_inv t'"
    "bp_entries t' = filter (\<lambda>e. fst e \<noteq> key) (bp_entries t)"
proof (cases "broot t")
  case None
  then show thesis by (intro that [of t]) (use inv in \<open>auto simp: bp_erase_def bp_entries_def\<close>)
next
  case (Some r)
  obtain d where wf: "wf_node d None None r" and lk: "linked (links r) None" "distinct (map fst (links r))"
      "\<forall>a \<in> fst ` set (links r). a < bfresh t" and cnt: "bcount t = length (entries r)"
    using inv Some by (rule bp_inv_root)
  have so: "sorted_wrt (<) (map fst (entries r))" using wf_node_in_range [OF wf] by (simp add: in_range_def)
  obtain r' where r': "eraseIn key r = Inr (r', key \<in> fst ` set (entries r))" "wf_node d None None r'"
      "entries r' = filter (\<lambda>e. fst e \<noteq> key) (entries r)" "links r' = links r"
    using eraseIn_ok [OF wf] by (metis above.simps(1) below.simps(1))
  define res where "res = t\<lparr>broot := Some r', bcount := (if key \<in> fst ` set (entries r) then bcount t - 1 else bcount t)\<rparr>"
  have "bp_erase key t = Inr res" using Some r'(1) by (simp add: bp_erase_def res_def)
  moreover have "bp_inv res"
    using lk r'(2-4) cnt length_filter_neq [OF so, of key] by (auto simp: bp_inv_def bp_entries_def res_def)
  ultimately show thesis using that [of res] Some r'(3) by (simp add: bp_entries_def res_def)
qed


section \<open>The index interface\<close>

text \<open>
  What the catalog relies on when it keeps a primary-key index. \<open>entries\<close> is the sorted
  content; no operation fails or diverges on an index built by these operations.
\<close>

locale ordered_index =
  fixes inv :: "'s \<Rightarrow> bool"
    and empty :: 's
    and entries :: "'s \<Rightarrow> (int \<times> 'v) list"
    and ins :: "int \<Rightarrow> 'v \<Rightarrow> 's \<Rightarrow> 'e + 's"
    and del :: "int \<Rightarrow> 's \<Rightarrow> 'e + 's"
    and look :: "int \<Rightarrow> 's \<Rightarrow> 'e + 'v option"
    and range :: "int \<Rightarrow> int \<Rightarrow> 's \<Rightarrow> ('e + (int \<times> 'v) list) option"
  assumes empty_ok: "inv empty" "entries empty = []"
    and sorted: "inv s \<Longrightarrow> sorted_wrt (<) (map fst (entries s))"
    and ins_ok: "inv s \<Longrightarrow> \<exists>s'. ins k v s = Inr s' \<and> inv s' \<and> map_of (entries s') = (map_of (entries s))(k \<mapsto> v)"
    and del_ok: "inv s \<Longrightarrow> \<exists>s'. del k s = Inr s' \<and> inv s' \<and> map_of (entries s') = (map_of (entries s))(k := None)"
    and look_ok: "inv s \<Longrightarrow> look k s = Inr (map_of (entries s) k)"
    and range_ok: "inv s \<Longrightarrow> range lo hi s = Some (Inr (filter (\<lambda>e. lo \<le> fst e \<and> fst e \<le> hi) (entries s)))"

text \<open>Filling an index with the rows of a scan, as \<open>Database::rebuildIndex\<close> does.\<close>

fun load :: "(int \<Rightarrow> 'v \<Rightarrow> 's \<Rightarrow> 'e + 's) \<Rightarrow> (int \<times> 'v) list \<Rightarrow> 's \<Rightarrow> 'e + 's" where
  "load ins [] s = Inr s"
| "load ins ((k, v) # kvs) s = bindE (ins k v s) (load ins kvs)"

context ordered_index
begin

lemma load_ok:
  "inv s \<Longrightarrow> \<exists>s'. load ins kvs s = Inr s' \<and> inv s' \<and> map_of (entries s') = map_of (entries s) ++ map_of (rev kvs)"
proof (induction kvs arbitrary: s)
  case (Cons kv kvs)
  obtain k v where kv: "kv = (k, v)" by (cases kv) auto
  obtain s1 where s1: "ins k v s = Inr s1" "inv s1" "map_of (entries s1) = (map_of (entries s))(k \<mapsto> v)"
    using ins_ok [OF Cons.prems] by blast
  obtain s' where "load ins kvs s1 = Inr s'" "inv s'" "map_of (entries s') = map_of (entries s1) ++ map_of (rev kvs)"
    using Cons.IH [OF s1(2)] by blast
  then show ?case using kv s1 by (auto simp: map_add_assoc)
qed simp

lemma load_empty:
  assumes "distinct (map fst kvs)"
  shows "\<exists>s'. load ins kvs empty = Inr s' \<and> inv s' \<and> (\<forall>k. look k s' = Inr (map_of kvs k))"
proof -
  have "map_of (rev kvs) = map_of kvs"
    using assms by (subst map_of_inject_set) (simp_all add: rev_map [symmetric])
  then show ?thesis using load_ok [OF empty_ok(1), of kvs] empty_ok(2) look_ok by fastforce
qed

lemma range_iff:
  assumes "inv s"
  shows "\<exists>es. range lo hi s = Some (Inr es) \<and> sorted_wrt (<) (map fst es)
    \<and> (\<forall>k v. (k, v) \<in> set es \<longleftrightarrow> look k s = Inr (Some v) \<and> lo \<le> k \<and> k \<le> hi)"
proof -
  have "distinct (map fst (entries s))" using sorted [OF assms] by (simp add: strict_sorted_iff)
  then have "(k, v) \<in> set (entries s) \<longleftrightarrow> look k s = Inr (Some v)" for k v
    using look_ok [OF assms] by simp
  moreover have "sorted_wrt (<) (map fst (filter P (entries s)))" for P
    using sorted [OF assms] by (simp add: sorted_wrt_map sorted_wrt_filter)
  ultimately show ?thesis using range_ok [OF assms, of lo hi] by auto
qed

lemma point_range:
  assumes "inv s"
  shows "range k k s = Some (Inr (case look k s of Inr (Some v) \<Rightarrow> [(k, v)] | _ \<Rightarrow> []))"
proof -
  have d: "distinct (map fst (entries s))" using sorted [OF assms] by (simp add: strict_sorted_iff)
  have f: "(\<lambda>e. k \<le> fst e \<and> fst e \<le> k) = (\<lambda>e. fst e = k)" by auto
  have "filter (\<lambda>e. fst e = k) es = (case map_of es k of None \<Rightarrow> [] | Some v \<Rightarrow> [(k, v)])"
    if "distinct (map fst es)" for es :: "(int \<times> 'v) list"
    using that by (induction es) (auto simp: map_of_eq_None_iff filter_empty_conv image_iff split: option.split)
  from this [OF d] show ?thesis
    using range_ok [OF assms, of k k] look_ok [OF assms] by (simp add: f split: option.split)
qed

end

interpretation pk_index: ordered_index bp_inv bp_empty bp_entries bp_insert bp_erase bp_search bp_rangeScan
proof unfold_locales
  show "bp_inv t \<Longrightarrow> \<exists>s'. bp_insert k v t = Inr s' \<and> bp_inv s'
      \<and> map_of (bp_entries s') = (map_of (bp_entries t))(k \<mapsto> v)" for t k v
    using bp_insert_ok map_of_upsert bp_entries_sorted by metis
  show "bp_inv t \<Longrightarrow> \<exists>s'. bp_erase k t = Inr s' \<and> bp_inv s'
      \<and> map_of (bp_entries s') = (map_of (bp_entries t))(k := None)" for t k
    using bp_erase_ok map_of_filter_neq by metis
qed (simp_all add: bp_inv_empty bp_entries_sorted bp_search_ok bp_rangeScan_ok between_def)

section \<open>Properties\<close>

text \<open>
  C14. On a well-formed tree \<open>insert\<close> returns without a fault, keeps the invariant (all leaves
  at one depth, nodes within \<open>ORDER\<close>, keys between their separators, leaf chain in order) and
  stores the row id under the key, overwriting an earlier one; \<open>size()\<close> counts the distinct keys.
\<close>

theorem bp_insert_refines_update:
  assumes "bp_inv t"
  shows "\<exists>t'. bp_insert key rid t = Inr t' \<and> bp_inv t'
    \<and> map_of (bp_entries t') = (map_of (bp_entries t))(key \<mapsto> rid)
    \<and> bcount t' = (if key \<in> fst ` set (bp_entries t) then bcount t else Suc (bcount t))"
proof -
  obtain t' where t': "bp_insert key rid t = Inr t'" "bp_inv t'" "bp_entries t' = upsert key rid (bp_entries t)"
    by (rule bp_insert_ok [OF assms]) (rule that)
  have "bcount t' = length (bp_entries t')" "bcount t = length (bp_entries t)"
    using assms t'(2) by (simp_all add: bp_inv_def)
  then show ?thesis
    using t' length_upsert map_of_upsert bp_entries_sorted [OF assms] by auto
qed

definition sample_tree :: bptree where
  "sample_tree = \<lparr>broot = Some (BInner [3]
      [BLeaf 0 [1, 2] [\<lparr>rpage = 0, rslot = 0\<rparr>, \<lparr>rpage = 0, rslot = 1\<rparr>] (Some 1),
       BLeaf 1 [3, 4, 5] [\<lparr>rpage = 0, rslot = 2\<rparr>, \<lparr>rpage = 0, rslot = 3\<rparr>, \<lparr>rpage = 0, rslot = 4\<rparr>] None]),
     bcount = 5, bfresh = 2\<rparr>"

lemma sample_tree_inv: "bp_inv sample_tree"
  by (auto simp: sample_tree_def bp_inv_def bp_entries_def ORDER_def first_addr_def intro!: exI [of _ "Suc 0"])

theorem bp_insert_refines_update_witness:
  "\<exists>t'. bp_insert 6 rid_none sample_tree = Inr t' \<and> map_of (bp_entries t') 6 = Some rid_none \<and> bcount t' = 6"
  using bp_insert_refines_update [OF sample_tree_inv, of 6 rid_none]
  by (auto simp: sample_tree_def bp_entries_def)

text \<open>
  \<open>search\<close> is the lookup in the finite map the tree holds: the row id last stored under the
  key, or not found.
\<close>

theorem bp_search_refines_lookup:
  assumes "bp_inv t"
  shows "bp_search key t = Inr (map_of (bp_entries t) key)"
  using pk_index.look_ok [OF assms] .

theorem bp_search_refines_lookup_witness:
  "bp_search 4 sample_tree = Inr (Some \<lparr>rpage = 0, rslot = 3\<rparr>) \<and> bp_search 9 sample_tree = Inr None"
  using bp_search_refines_lookup [OF sample_tree_inv, of 4] bp_search_refines_lookup [OF sample_tree_inv, of 9]
  by (simp add: sample_tree_def bp_entries_def)

text \<open>
  The lazy \<open>erase\<close> removes exactly the given key from the map and keeps every structural
  invariant, although it never merges leaves; \<open>count_\<close> stays the number of entries.
\<close>

theorem bp_erase_refines_delete:
  assumes "bp_inv t"
  shows "\<exists>t'. bp_erase key t = Inr t' \<and> bp_inv t'
    \<and> bp_entries t' = filter (\<lambda>e. fst e \<noteq> key) (bp_entries t)
    \<and> (\<forall>k. bp_search k t' = (if k = key then Inr None else bp_search k t))"
proof -
  obtain t' where t': "bp_erase key t = Inr t'" "bp_inv t'"
      "bp_entries t' = filter (\<lambda>e. fst e \<noteq> key) (bp_entries t)"
    by (rule bp_erase_ok [OF assms]) (rule that)
  then show ?thesis
    using pk_index.look_ok [OF t'(2)] pk_index.look_ok [OF assms] by (simp add: map_of_filter_neq)
qed

theorem bp_erase_refines_delete_witness:
  "\<exists>t'. bp_erase 4 sample_tree = Inr t' \<and> bp_search 4 t' = Inr None \<and> bp_search 5 t' = bp_search 5 sample_tree"
  using bp_erase_refines_delete [OF sample_tree_inv, of 4] by auto

text \<open>
  C15. \<open>rangeScan\<close> returns (the walk along the leaf chain terminates) and visits, in strictly
  ascending key order, exactly the pairs that \<open>search\<close> finds with a key in \<open>[lo, hi]\<close>.
\<close>

theorem bp_rangeScan_exact:
  assumes "bp_inv t"
  shows "\<exists>es. bp_rangeScan lo hi t = Some (Inr es) \<and> sorted_wrt (<) (map fst es)
    \<and> (\<forall>k v. (k, v) \<in> set es \<longleftrightarrow> bp_search k t = Inr (Some v) \<and> lo \<le> k \<and> k \<le> hi)"
  using pk_index.range_iff [OF assms] .

theorem bp_rangeScan_exact_witness:
  "\<exists>es. bp_rangeScan 2 3 sample_tree = Some (Inr es) \<and> (3, \<lparr>rpage = 0, rslot = 2\<rparr>) \<in> set es"
proof -
  have "bp_search 3 sample_tree = Inr (Some \<lparr>rpage = 0, rslot = 2\<rparr>)"
    by (simp add: sample_tree_def bp_search_def lower_bound_def)
  then show ?thesis using bp_rangeScan_exact [OF sample_tree_inv, of 2 3] by auto
qed

end
