(* ===== verification/Schema.thy ===== *)
theory Schema
  imports Common
begin

text \<open>
  \<open>catalog/schema.cpp\<close>: column lists and the row encoding stored in heap pages and log records.
  An \<open>INT\<close> is 8 little-endian bytes, a \<open>TEXT\<close> a 2-byte length and its bytes; which one is
  written is decided by the column's type, whatever the value's own tag says. \<open>deserialize\<close>
  copies with \<open>memcpy\<close> from a \<open>std::string\<close>, whose terminating NUL is readable, and with
  \<open>substr\<close>, which throws past the end and clips at it.
\<close>

record column =
  cname :: string
  ctyp :: ctype

type_synonym schema = "column list"

fun index_from :: "nat \<Rightarrow> string \<Rightarrow> schema \<Rightarrow> int" where
  "index_from i name [] = -1"
| "index_from i name (c # cs) = (if cname c = name then int i else index_from (Suc i) name cs)"

definition indexOf :: "string \<Rightarrow> schema \<Rightarrow> int" where
  "indexOf name cols = index_from 0 name cols"

fun ser_cols :: "schema \<Rightarrow> val list \<Rightarrow> db_error + string" where
  "ser_cols (c # cs) (v # row) =
     (if ctyp c = T_INT
      then bindE (ser_cols cs row) (\<lambda>out. Inr (le_bytes 8 (of_signed 64 (v_i v)) @ out))
      else if length (v_s v) > 65535
      then Inl (RuntimeError ''TEXT value too long (max 65535 bytes)'')
      else bindE (ser_cols cs row) (\<lambda>out. Inr (le_bytes 2 (length (v_s v)) @ v_s v @ out)))"
| "ser_cols _ _ = Inr []"

definition serialize :: "schema \<Rightarrow> val list \<Rightarrow> db_error + string" where
  "serialize cols row =
     (if length row \<noteq> length cols then Inl (RuntimeError ''row arity mismatch'') else ser_cols cols row)"

definition substr :: "nat \<Rightarrow> nat \<Rightarrow> string \<Rightarrow> db_error + string" where
  "substr off n s = (if off > length s then Inl OutOfRange else Inr (slice off n s))"

text \<open>\<open>memcpy\<close> from \<open>s.data() + off\<close>.\<close>

definition str_read :: "nat \<Rightarrow> nat \<Rightarrow> string \<Rightarrow> db_error + nat" where
  "str_read off n s = bindE (mem_read off n (s @ [CHR 0x00])) (\<lambda>b. Inr (le_val b))"

fun deser_from :: "schema \<Rightarrow> nat \<Rightarrow> string \<Rightarrow> db_error + val list" where
  "deser_from [] off bytes = Inr []"
| "deser_from (c # cs) off bytes =
     (if ctyp c = T_INT
      then bindE (str_read off 8 bytes) (\<lambda>v.
           bindE (deser_from cs (off + 8) bytes) (\<lambda>row. Inr (makeInt (to_signed 64 v) # row)))
      else bindE (str_read off 2 bytes) (\<lambda>len.
           bindE (substr (off + 2) len bytes) (\<lambda>s.
           bindE (deser_from cs (off + 2 + len) bytes) (\<lambda>row. Inr (makeText s # row)))))"

definition deserialize :: "schema \<Rightarrow> string \<Rightarrow> db_error + val list" where
  "deserialize cols bytes = deser_from cols 0 bytes"

text \<open>\<open>row[0].i\<close>; there is no check that the row has a column.\<close>

definition primaryKey :: "val list \<Rightarrow> db_error + int" where
  "primaryKey row = (case row of [] \<Rightarrow> Inl MemFault | v # _ \<Rightarrow> Inr (v_i v))"

section \<open>What a row reads back as\<close>

definition coerce :: "column \<Rightarrow> val \<Rightarrow> val" where
  "coerce c v = (if ctyp c = T_INT then makeInt (v_i v) else makeText (v_s v))"

definition storable :: "column \<Rightarrow> val \<Rightarrow> bool" where
  "storable c v \<longleftrightarrow> (if ctyp c = T_INT then in_int64 (v_i v) else length (v_s v) \<le> 65535)"

definition row_ok :: "schema \<Rightarrow> val list \<Rightarrow> bool" where
  "row_ok cols row \<longleftrightarrow> list_all2 (\<lambda>c v. val_ok v \<and> v_type v = ctyp c \<and> storable c v) cols row"

lemma str_read_mid:
  assumes "n = length b"
  shows "str_read (length pre) n (pre @ b @ post) = Inr (le_val b)"
  using assms by (simp add: str_read_def mem_read_def slice_def)

lemma substr_mid: "n = length b \<Longrightarrow> off = length pre \<Longrightarrow> substr off n (pre @ b @ post) = Inr b"
  by (simp add: substr_def slice_def)

lemma deser_ser:
  assumes "ser_cols cols row = Inr out" "length row = length cols" "list_all2 storable cols row"
  shows "deser_from cols (length pre) (pre @ out @ post) = Inr (map2 coerce cols row)"
  using assms
proof (induction cols row arbitrary: out pre rule: ser_cols.induct)
  case (1 c cs v row)
  show ?case
  proof (cases "ctyp c = T_INT")
    case True
    let ?b = "le_bytes 8 (of_signed 64 (v_i v))"
    obtain out' where o: "ser_cols cs row = Inr out'" "out = ?b @ out'"
      using "1.prems"(1) True by (auto simp: bindE_Inr_iff)
    have r: "in_int64 (v_i v)" using "1.prems"(3) True by (simp add: storable_def)
    have "str_read (length pre) 8 (pre @ out @ post) = Inr (of_signed 64 (v_i v))"
      using str_read_mid [of 8 ?b pre "out' @ post"] o of_signed_64_bound [of "v_i v"] by simp
    moreover have "deser_from cs (length (pre @ ?b)) ((pre @ ?b) @ out' @ post) = Inr (map2 coerce cs row)"
      using "1.IH"(1) [OF True o(1), of "pre @ ?b"] "1.prems" by simp
    ultimately show ?thesis using True o r by (simp add: coerce_def to_of_signed_64)
  next
    case False
    let ?l = "le_bytes 2 (length (v_s v))"
    have len: "length (v_s v) \<le> 65535" using "1.prems"(3) False by (simp add: storable_def)
    obtain out' where o: "ser_cols cs row = Inr out'" "out = ?l @ v_s v @ out'"
      using "1.prems"(1) False len by (auto simp: bindE_Inr_iff)
    have "str_read (length pre) 2 (pre @ out @ post) = Inr (length (v_s v))"
      using str_read_mid [of 2 ?l pre "v_s v @ out' @ post"] o len by simp
    moreover have "substr (length pre + 2) (length (v_s v)) (pre @ out @ post) = Inr (v_s v)"
      using substr_mid [of _ "v_s v" _ "pre @ ?l" "out' @ post"] o by simp
    moreover have "deser_from cs (length (pre @ ?l @ v_s v)) ((pre @ ?l @ v_s v) @ out' @ post) = Inr (map2 coerce cs row)"
      using "1.IH"(2) [OF False _ o(1), of "pre @ ?l @ v_s v"] "1.prems" len by simp
    ultimately show ?thesis using False o by (simp add: coerce_def add.assoc)
  qed
qed auto

lemma ser_cols_total:
  assumes "length row = length cols" "list_all2 storable cols row"
  shows "\<exists>out. ser_cols cols row = Inr out"
  using assms by (induction cols row rule: ser_cols.induct) (auto simp: storable_def split: if_splits)

lemma coerce_id: "val_ok v \<Longrightarrow> v_type v = ctyp c \<Longrightarrow> coerce c v = v"
  by (cases v; cases "ctyp c") (auto simp: coerce_def val_ok_def makeInt_def makeText_def)

lemma map2_coerce_id: "row_ok cols row \<Longrightarrow> map2 coerce cols row = row"
  unfolding row_ok_def by (induction rule: list_all2_induct) (auto simp: coerce_id)

lemma row_ok_storable: "row_ok cols row \<Longrightarrow> list_all2 storable cols row \<and> length row = length cols"
  unfolding row_ok_def by (auto dest: list_all2_lengthD intro: list_all2_mono)

lemma serialize_ok:
  assumes "row_ok cols row"
  obtains out where "serialize cols row = Inr out" "deserialize cols out = Inr row"
proof -
  have s: "list_all2 storable cols row" "length row = length cols" using row_ok_storable [OF assms] by auto
  obtain out where o: "ser_cols cols row = Inr out" using ser_cols_total [OF s(2,1)] by blast
  have "deser_from cols 0 out = Inr row"
    using deser_ser [OF o s(2,1), of "[]" "[]"] map2_coerce_id [OF assms] by simp
  then show thesis using that [of out] o s by (simp add: serialize_def deserialize_def)
qed

lemma ser_cols_error:
  assumes "length row = length cols"
  shows "ser_cols cols row = Inl e \<longleftrightarrow> e = RuntimeError ''TEXT value too long (max 65535 bytes)''
    \<and> (\<exists>i < length cols. ctyp (cols ! i) = T_TEXT \<and> length (v_s (row ! i)) > 65535)"
  using assms
proof (induction cols row rule: ser_cols.induct)
  case (1 c cs v row)
  have split: "(\<exists>i < Suc n. P i) \<longleftrightarrow> P 0 \<or> (\<exists>i < n. P (Suc i))" for P n
    by (metis Suc_less_eq gr0_implies_Suc not_gr_zero zero_less_Suc)
  show ?case
  proof (cases "ctyp c")
    case T_INT
    have "ser_cols (c # cs) (v # row) = Inl e \<longleftrightarrow> ser_cols cs row = Inl e"
      using T_INT by (cases "ser_cols cs row") auto
    then show ?thesis using 1 T_INT by (simp add: split)
  next
    case T_TEXT
    have "ser_cols (c # cs) (v # row) = Inl e \<longleftrightarrow>
        (if length (v_s v) > 65535 then e = RuntimeError ''TEXT value too long (max 65535 bytes)'' else ser_cols cs row = Inl e)"
      using T_TEXT by (cases "ser_cols cs row") auto
    then show ?thesis using 1 T_TEXT by (auto simp: split)
  qed
qed auto

lemma ser_ok_storable:
  assumes "length row = length cols" "ser_cols cols row = Inr b" "list_all (\<lambda>v. in_int64 (v_i v)) row"
  shows "list_all2 storable cols row"
  using assms
proof (induction cols row arbitrary: b rule: ser_cols.induct)
  case (1 c cs v row)
  then show ?case by (auto simp: storable_def [of c v] bindE_Inr_iff split: if_splits)
qed auto

section \<open>Properties\<close>

text \<open>
  Row round trip: a row whose values fit their columns is serialised without error, and
  deserialising the bytes gives back the same row.
\<close>

theorem serialize_roundtrip:
  assumes "row_ok cols row"
  shows "\<exists>bytes. serialize cols row = Inr bytes \<and> deserialize cols bytes = Inr row"
  using serialize_ok [OF assms] by metis

theorem serialize_roundtrip_witness:
  "\<exists>bytes. serialize [\<lparr>cname = ''id'', ctyp = T_INT\<rparr>, \<lparr>cname = ''n'', ctyp = T_TEXT\<rparr>] [makeInt (- 5), makeText ''ab''] = Inr bytes
    \<and> deserialize [\<lparr>cname = ''id'', ctyp = T_INT\<rparr>, \<lparr>cname = ''n'', ctyp = T_TEXT\<rparr>] bytes = Inr [makeInt (- 5), makeText ''ab'']"
  by (rule serialize_roundtrip) (simp add: row_ok_def storable_def in_int64_def makeInt_def makeText_def val_ok_def)

text \<open>
  \<open>serialize\<close> fails exactly on a wrong arity, or when the value of a TEXT column is longer than
  65535 bytes; whenever it succeeds, the bytes read back as the row with every value taken at
  its column's type, so a value of the wrong type is replaced silently and never rejected.
\<close>

theorem serialize_errors_exact:
  "(case serialize cols row of
      Inl e \<Rightarrow> (length row \<noteq> length cols \<and> e = RuntimeError ''row arity mismatch'')
        \<or> (length row = length cols \<and> e = RuntimeError ''TEXT value too long (max 65535 bytes)''
           \<and> (\<exists>i < length cols. ctyp (cols ! i) = T_TEXT \<and> length (v_s (row ! i)) > 65535))
    | Inr bytes \<Rightarrow> length row = length cols
        \<and> (list_all (\<lambda>v. in_int64 (v_i v)) row \<longrightarrow> deserialize cols bytes = Inr (map2 coerce cols row)))"
proof (cases "length row = length cols")
  case False
  then show ?thesis by (simp add: serialize_def)
next
  case True
  note err = ser_cols_error [OF True]
  show ?thesis
  proof (cases "ser_cols cols row")
    case (Inl e)
    then have "e = RuntimeError ''TEXT value too long (max 65535 bytes)''
        \<and> (\<exists>i < length cols. ctyp (cols ! i) = T_TEXT \<and> length (v_s (row ! i)) > 65535)"
      using err by blast
    moreover have "serialize cols row = Inl e" using True Inl by (simp add: serialize_def)
    ultimately show ?thesis using True by simp
  next
    case (Inr bytes)
    have "deserialize cols bytes = Inr (map2 coerce cols row)" if r: "list_all (\<lambda>v. in_int64 (v_i v)) row"
    proof -
      have "list_all2 storable cols row" by (rule ser_ok_storable [OF True Inr r])
      from deser_ser [OF Inr True this, of "[]" "[]"] show ?thesis by (simp add: deserialize_def)
    qed
    moreover have "serialize cols row = Inr bytes" using True Inr by (simp add: serialize_def)
    ultimately show ?thesis using True by simp
  qed
qed

theorem serialize_errors_exact_witness:
  "\<exists>bytes. serialize [\<lparr>cname = ''id'', ctyp = T_INT\<rparr>] [makeText ''7''] = Inr bytes
    \<and> deserialize [\<lparr>cname = ''id'', ctyp = T_INT\<rparr>] bytes = Inr [makeInt 0]"
  using serialize_errors_exact [where cols = "[\<lparr>cname = ''id'', ctyp = T_INT\<rparr>]" and row = "[makeText ''7'']"]
  by (simp add: serialize_def in_int64_def makeInt_def makeText_def coerce_def)

end
