(* ===== verification/Catalog.thy ===== *)
theory Catalog
  imports HeapFile BPlusTree Schema
begin

text \<open>
  \<open>catalog/catalog.cpp\<close>: the table registry. \<open>tables_\<close> is an unordered map; the model keeps it
  as an association list, whose order stands for the map's iteration order in \<open>save\<close>. The
  catalog file is the text \<open>save\<close> writes; \<open>load\<close> reads it line by line and token by token, and
  rebuilds each table's index by scanning its heap. \<open>load\<close> is modelled for numeric tokens that
  are plain decimal digits, which is all \<open>save\<close> writes: any other token, where the code goes on
  with a partly converted or an uninitialised number, is \<open>MemFault\<close>.
\<close>

record table =
  tname :: string
  tschema :: schema
  tpages :: "int list"
  tindex :: bptree

type_synonym tables = "(string \<times> table) list"

definition get_table :: "string \<Rightarrow> tables \<Rightarrow> table option" where
  "get_table name ts = map_of ts name"

text \<open>\<open>tables_[name] = std::move(t)\<close>.\<close>

fun put_table :: "string \<Rightarrow> table \<Rightarrow> tables \<Rightarrow> tables" where
  "put_table name t [] = [(name, t)]"
| "put_table name t ((n, u) # ts) = (if n = name then (n, t) # ts else (n, u) # put_table name t ts)"

section \<open>The catalog file\<close>

abbreviation newline :: char where "newline \<equiv> CHR 0x0A"
abbreviation space :: char where "space \<equiv> CHR 0x20"

definition col_line :: "column \<Rightarrow> string" where
  "col_line c = ''COL '' @ cname c @ [space] @ typeName (ctyp c) @ [newline]"

definition pages_line :: "int list \<Rightarrow> string" where
  "pages_line ps = ''PAGES '' @ dec_of_nat (length ps) @ concat (map (\<lambda>p. space # dec_of_int p) ps) @ [newline]"

definition table_text :: "table \<Rightarrow> string" where
  "table_text t = ''TABLE '' @ tname t @ [space] @ dec_of_nat (length (tschema t)) @ [newline]
     @ concat (map col_line (tschema t)) @ pages_line (tpages t)"

definition cat_save :: "tables \<Rightarrow> string" where
  "cat_save ts = concat (map (\<lambda>(n, t). table_text t) ts)"

subsection \<open>Streams\<close>

text \<open>Successive \<open>std::getline\<close> calls, and successive string extractions from one line.\<close>

function lines_of :: "string \<Rightarrow> string list" where
  "lines_of s = (if s = [] then []
     else takeWhile (\<lambda>c. c \<noteq> newline) s # lines_of (drop 1 (dropWhile (\<lambda>c. c \<noteq> newline) s)))"
  by auto
termination
  by (relation "measure length")
    (auto simp: dropWhile_eq_drop neq_Nil_conv intro!: le_imp_less_Suc)

function tokens :: "string \<Rightarrow> string list" where
  "tokens s = (let t = dropWhile is_space s
     in if t = [] then [] else takeWhile (\<lambda>c. \<not> is_space c) t # tokens (dropWhile (\<lambda>c. \<not> is_space c) t))"
  by auto
termination
proof (relation "measure length", goal_cases)
  case (2 s t)
  then obtain c u where cu: "dropWhile is_space s = c # u" "t = c # u" by (metis neq_Nil_conv)
  then have "\<not> is_space c" using hd_dropWhile [of is_space s] by simp
  then have "length (dropWhile (\<lambda>c. \<not> is_space c) t) \<le> length u"
    using cu by (simp add: length_dropWhile_le)
  also have "\<dots> < length (dropWhile is_space s)" using cu by simp
  also have "\<dots> \<le> length s" by (rule length_dropWhile_le)
  finally show ?case by simp
qed simp

declare lines_of.simps [simp del] tokens.simps [simp del]

text \<open>An extraction past the last token leaves an empty string.\<close>

definition token :: "nat \<Rightarrow> string list \<Rightarrow> string" where
  "token i ts = (if i < length ts then ts ! i else [])"

definition num_token :: "nat \<Rightarrow> string list \<Rightarrow> db_error + nat" where
  "num_token i ts = (if token i ts \<noteq> [] \<and> list_all is_digit (token i ts)
     then Inr (nat_of_dec (token i ts)) else Inl MemFault)"

text \<open>
  A \<open>getline\<close> at the end of the file keeps \<open>line\<close> if the text before it ended without a newline
  (the stream is at its end already), and clears it otherwise. From then on \<open>line\<close> stays the same,
  so it is an argument, \<open>eof\<close>, of the functions that read on.
\<close>

definition line_at_eof :: "string \<Rightarrow> string" where
  "line_at_eof text = (if text = [] \<or> last text = newline then [] else last (lines_of text))"

fun next_line :: "string \<Rightarrow> string list \<Rightarrow> string \<times> string list" where
  "next_line eof [] = (eof, [])"
| "next_line eof (l # ls) = (l, ls)"

subsection \<open>Parsing one table\<close>

definition parse_col :: "string \<Rightarrow> column" where
  "parse_col l = (let ts = tokens l
     in \<lparr>cname = token 1 ts, ctyp = (if token 2 ts = ''TEXT'' then T_TEXT else T_INT)\<rparr>)"

fun parse_cols :: "string \<Rightarrow> nat \<Rightarrow> string list \<Rightarrow> schema \<times> string list" where
  "parse_cols eof 0 ls = ([], ls)"
| "parse_cols eof (Suc n) ls =
     (let (l, ls') = next_line eof ls; (cs, rest) = parse_cols eof n ls' in (parse_col l # cs, rest))"

fun parse_nums :: "nat \<Rightarrow> nat \<Rightarrow> string list \<Rightarrow> db_error + int list" where
  "parse_nums i 0 ts = Inr []"
| "parse_nums i (Suc n) ts =
     bindE (num_token i ts) (\<lambda>p. bindE (parse_nums (Suc i) n ts) (\<lambda>ps. Inr (int p # ps)))"

definition parse_pages :: "string \<Rightarrow> db_error + int list" where
  "parse_pages l = (let ts = tokens l in bindE (num_token 1 ts) (\<lambda>n. parse_nums 2 n ts))"

definition parse_table :: "string \<Rightarrow> string list \<Rightarrow> string list \<Rightarrow> db_error + (table \<times> string list)" where
  "parse_table eof ts ls = bindE (num_token 2 ts) (\<lambda>ncols.
     let (cols, ls1) = parse_cols eof ncols ls; (l, ls2) = next_line eof ls1
     in bindE (parse_pages l) (\<lambda>pages.
        Inr (\<lparr>tname = token 1 ts, tschema = cols, tpages = pages, tindex = bp_empty\<rparr>, ls2)))"

section \<open>Operations\<close>

text \<open>The callback of \<open>rebuildIndex\<close>, for the rows in scan order.\<close>

fun index_rows :: "schema \<Rightarrow> (rowid \<times> string) list \<Rightarrow> bptree \<Rightarrow> db_error + bptree" where
  "index_rows cols [] idx = Inr idx"
| "index_rows cols ((rid, bytes) # rows) idx =
     bindE (deserialize cols bytes) (\<lambda>row. bindE (primaryKey row) (\<lambda>pk.
     bindE (bp_insert pk rid idx) (index_rows cols rows)))"

definition rebuildIndex :: "table \<Rightarrow> (pool, table) stm" where
  "rebuildIndex t = bindS (heap_scan (tpages t)) (\<lambda>rows.
     liftS (bindE (index_rows (tschema t) rows bp_empty) (\<lambda>idx. Inr (t\<lparr>tindex := idx\<rparr>))))"

text \<open>\<open>create\<close> answers with the registry; its caller writes \<open>save()\<close> to the catalog file.\<close>

definition cat_create :: "string \<Rightarrow> schema \<Rightarrow> tables \<Rightarrow> db_error + tables" where
  "cat_create name cols ts =
     (if map_of ts name \<noteq> None then Inl (RuntimeError (''table already exists: '' @ name))
      else Inr (put_table name \<lparr>tname = name, tschema = cols, tpages = [], tindex = bp_empty\<rparr> ts))"

lemma next_line_length: "length (snd (next_line eof ls)) \<le> length ls"
  by (cases ls) auto

lemma parse_cols_length: "length (snd (parse_cols eof n ls)) \<le> length ls"
proof (induction n arbitrary: ls)
  case (Suc n)
  have "length (snd (parse_cols eof n (snd (next_line eof ls)))) \<le> length ls"
    using Suc [of "snd (next_line eof ls)"] next_line_length [of eof ls] by simp
  then show ?case by (simp add: split_def Let_def)
qed simp

lemma parse_table_length: "parse_table eof ts ls = Inr (t, rest) \<Longrightarrow> length rest \<le> length ls"
proof -
  assume "parse_table eof ts ls = Inr (t, rest)"
  then obtain n where "rest = snd (next_line eof (snd (parse_cols eof n ls)))"
    by (auto simp: parse_table_def bindE_Inr_iff Let_def split_def)
  then show ?thesis using next_line_length [of eof "snd (parse_cols eof n ls)"] parse_cols_length [of eof n ls] by simp
qed

text \<open>\<open>load\<close>: a line that does not start a table is skipped.\<close>

function cat_load_lines :: "string \<Rightarrow> string list \<Rightarrow> tables \<Rightarrow> (pool, tables) stm" where
  "cat_load_lines eof [] reg = retS reg"
| "cat_load_lines eof (l # ls) reg =
     (if token 0 (tokens l) \<noteq> ''TABLE'' then cat_load_lines eof ls reg
      else case parse_table eof (tokens l) ls of
        Inl e \<Rightarrow> failS e
      | Inr (t, rest) \<Rightarrow> bindS (rebuildIndex t) (\<lambda>t'. cat_load_lines eof rest (put_table (tname t) t' reg)))"
  by pat_completeness auto
termination
  by (relation "measure (\<lambda>(_, ls, _). length ls)") (auto simp: less_Suc_eq_le dest!: parse_table_length)

text \<open>A missing catalog file is a fresh database.\<close>

definition cat_load :: "string option \<Rightarrow> (pool, tables) stm" where
  "cat_load file = (case file of None \<Rightarrow> retS [] | Some text \<Rightarrow> cat_load_lines (line_at_eof text) (lines_of text) [])"


section \<open>Reading back the catalog file\<close>

definition word :: "string \<Rightarrow> bool" where
  "word w \<longleftrightarrow> w \<noteq> [] \<and> list_all (\<lambda>c. \<not> is_space c) w"

lemma tokens_Nil [simp]: "tokens [] = []"
  by (simp add: tokens.simps)

lemma tokens_space: "is_space c \<Longrightarrow> tokens (c # s) = tokens s"
  by (subst (1 2) tokens.simps) simp

lemma tokens_word:
  assumes "word w" "rest = [] \<or> is_space (hd rest)"
  shows "tokens (w @ rest) = w # tokens rest"
proof -
  obtain c u where w: "w = c # u" "\<not> is_space c" using assms(1) by (cases w) (auto simp: word_def)
  have t: "takeWhile (\<lambda>c. \<not> is_space c) (w @ rest) = w" "dropWhile (\<lambda>c. \<not> is_space c) (w @ rest) = rest"
    using assms by (cases rest; simp add: word_def list_all_iff takeWhile_append dropWhile_append)+
  have "dropWhile is_space (w @ rest) = w @ rest" using w by simp
  then show ?thesis using t w by (subst tokens.simps) (simp add: Let_def)
qed

lemma is_space_consts [simp]: "is_space space" "is_space newline"
  by (simp_all add: is_space_def)

lemma digit_not_space: "is_digit c \<Longrightarrow> \<not> is_space c \<and> c \<noteq> newline"
  by (auto simp: is_digit_def is_space_def)

lemma word_dec: "word (dec_of_nat n)"
  using dec_of_nat_digits [of n] digit_not_space by (auto simp: word_def list_all_iff)

lemma num_token_dec: "token i ts = dec_of_nat n \<Longrightarrow> num_token i ts = Inr n"
  using dec_of_nat_digits [of n] by (simp add: num_token_def nat_of_dec_of_nat)

lemma lines_of_line:
  assumes "newline \<notin> set l"
  shows "lines_of (l @ newline # rest) = l # lines_of rest"
proof -
  have "takeWhile (\<lambda>c. c \<noteq> newline) (l @ newline # rest) = l"
    "dropWhile (\<lambda>c. c \<noteq> newline) (l @ newline # rest) = newline # rest"
    using assms by (auto simp: takeWhile_append dropWhile_append)
  then show ?thesis by (subst lines_of.simps) simp
qed

lemma lines_of_Nil [simp]: "lines_of [] = []"
  by (simp add: lines_of.simps)

lemma word_no_newline: "word w \<Longrightarrow> newline \<notin> set w"
  by (auto simp: word_def list_all_iff)

text \<open>The lines of one table's text.\<close>

definition schema_words :: "schema \<Rightarrow> bool" where
  "schema_words cols \<longleftrightarrow> list_all (\<lambda>c. word (cname c)) cols"

definition col_text :: "column \<Rightarrow> string" where
  "col_text c = ''COL '' @ cname c @ [space] @ typeName (ctyp c)"

definition pages_text :: "int list \<Rightarrow> string" where
  "pages_text ps = ''PAGES '' @ dec_of_nat (length ps) @ concat (map (\<lambda>p. space # dec_of_int p) ps)"

definition head_text :: "table \<Rightarrow> string" where
  "head_text t = ''TABLE '' @ tname t @ [space] @ dec_of_nat (length (tschema t))"

lemma typeName_words: "word (typeName t)" "word ''COL''" "word ''PAGES''" "word ''TABLE''"
  by (simp_all add: typeName_def word_def is_space_def)

lemma tokens_words2: "word a \<Longrightarrow> word b \<Longrightarrow> word c \<Longrightarrow> tokens (a @ space # b @ space # c) = [a, b, c]"
  using tokens_word [of c "[]"] by (simp add: tokens_word tokens_space)

lemma parse_col_text: "word (cname c) \<Longrightarrow> parse_col (col_text c) = c"
  using tokens_words2 [OF typeName_words(2) _ typeName_words(1), of "cname c" "ctyp c"]
  by (cases c; cases "ctyp c") (simp_all add: parse_col_def col_text_def token_def typeName_def)

lemma tokens_nums: "\<forall>p \<in> set ps. 0 \<le> p \<Longrightarrow>
    tokens (concat (map (\<lambda>p. space # dec_of_int p) ps)) = map dec_of_int ps"
proof (induction ps)
  case (Cons p ps)
  have w: "word (dec_of_int p)" using Cons.prems word_dec by (simp add: dec_of_int_def)
  have "concat (map (\<lambda>p. space # dec_of_int p) ps) = []
      \<or> is_space (hd (concat (map (\<lambda>p. space # dec_of_int p) ps)))"
    by (cases ps) auto
  then show ?case using Cons tokens_word [OF w] by (simp add: tokens_space)
qed simp

lemma parse_nums_ok:
  assumes "\<forall>p \<in> set ps. 0 \<le> p"
  shows "parse_nums (length pre) (length ps) (pre @ map dec_of_int ps) = Inr ps"
  using assms
proof (induction ps arbitrary: pre)
  case (Cons p ps)
  have "num_token (length pre) (pre @ map dec_of_int (p # ps)) = Inr (nat p)"
    using Cons.prems by (intro num_token_dec) (simp add: token_def nth_append dec_of_int_def)
  then show ?case using Cons.IH [of "pre @ [dec_of_int p]"] Cons.prems by simp
qed simp

lemma parse_pages_text:
  assumes "\<forall>p \<in> set ps. 0 \<le> p"
  shows "parse_pages (pages_text ps) = Inr ps"
proof -
  let ?r = "concat (map (\<lambda>p. space # dec_of_int p) ps)"
  have "?r = [] \<or> is_space (hd ?r)" by (cases ps) auto
  then have "tokens (dec_of_nat (length ps) @ ?r) = dec_of_nat (length ps) # map dec_of_int ps"
    using tokens_word [OF word_dec] tokens_nums [OF assms] by simp
  then have t: "tokens (pages_text ps) = ''PAGES'' # dec_of_nat (length ps) # map dec_of_int ps"
    using tokens_word [OF typeName_words(3), of "space # dec_of_nat (length ps) @ ?r"]
    by (simp add: pages_text_def tokens_space)
  have "num_token 1 (tokens (pages_text ps)) = Inr (length ps)"
    using t by (intro num_token_dec) (simp add: token_def)
  then show ?thesis
    using parse_nums_ok [OF assms, of "[''PAGES'', dec_of_nat (length ps)]"] t
    by (simp add: parse_pages_def Let_def numeral_2_eq_2)
qed

lemma parse_cols_text:
  "schema_words cols \<Longrightarrow> parse_cols eof (length cols) (map col_text cols @ ls) = (cols, ls)"
  by (induction cols) (auto simp: schema_words_def parse_col_text)

definition table_words :: "table \<Rightarrow> bool" where
  "table_words t \<longleftrightarrow> word (tname t) \<and> schema_words (tschema t) \<and> (\<forall>p \<in> set (tpages t). 0 \<le> p)"

lemma tokens_head:
  assumes "word (tname t)"
  shows "tokens (head_text t) = [''TABLE'', tname t, dec_of_nat (length (tschema t))]"
  using tokens_words2 [OF typeName_words(4) assms word_dec] by (simp add: head_text_def)

lemma parse_table_text:
  assumes "table_words t"
  shows "parse_table eof (tokens (head_text t)) (map col_text (tschema t) @ pages_text (tpages t) # ls)
    = Inr (t\<lparr>tindex := bp_empty\<rparr>, ls)"
proof -
  have w: "word (tname t)" "schema_words (tschema t)" "\<forall>p \<in> set (tpages t). 0 \<le> p"
    using assms by (auto simp: table_words_def)
  have "num_token 2 (tokens (head_text t)) = Inr (length (tschema t))"
    using tokens_head [OF w(1)] by (intro num_token_dec) (simp add: token_def)
  then show ?thesis
    using parse_cols_text [OF w(2)] parse_pages_text [OF w(3)] tokens_head [OF w(1)]
    by (cases t) (simp add: parse_table_def token_def)
qed

lemma lines_of_cols:
  "schema_words cols \<Longrightarrow> lines_of (concat (map col_line cols) @ rest) = map col_text cols @ lines_of rest"
proof (induction cols)
  case (Cons c cols)
  have "newline \<notin> set (col_text c)"
    using Cons.prems word_no_newline typeName_words by (auto simp: col_text_def schema_words_def)
  moreover have "col_line c = col_text c @ [newline]" by (simp add: col_line_def col_text_def)
  ultimately show ?case using Cons by (simp add: lines_of_line schema_words_def)
qed simp

lemma lines_of_table:
  assumes "table_words t"
  shows "lines_of (table_text t @ rest)
    = head_text t # map col_text (tschema t) @ pages_text (tpages t) # lines_of rest"
proof -
  have w: "word (tname t)" "schema_words (tschema t)" "\<forall>p \<in> set (tpages t). 0 \<le> p"
    using assms by (auto simp: table_words_def)
  have h: "newline \<notin> set (head_text t)"
    using word_no_newline [OF w(1)] word_no_newline [OF word_dec] by (simp add: head_text_def)
  have p: "newline \<notin> set (pages_text (tpages t))"
    using w(3) word_no_newline [OF word_dec] by (auto simp: pages_text_def dec_of_int_def)
  have "table_text t @ rest = head_text t @ newline # concat (map col_line (tschema t))
      @ (pages_text (tpages t) @ newline # rest)"
    by (simp add: table_text_def head_text_def pages_line_def pages_text_def)
  then show ?thesis using lines_of_line h p lines_of_cols [OF w(2)] by simp
qed

section \<open>A table as a map from keys to rows\<close>

definition key_of :: "schema \<Rightarrow> string \<Rightarrow> db_error + int" where
  "key_of cols bytes = bindE (deserialize cols bytes) primaryKey"

definition t_rows :: "pool \<Rightarrow> table \<Rightarrow> (rowid \<times> string) list" where
  "t_rows bp t = heap_rows (page_view bp) (tpages t)"

definition t_map :: "pool \<Rightarrow> table \<Rightarrow> int \<Rightarrow> string option" where
  "t_map bp t pk = Option.bind (map_of (bp_entries (tindex t)) pk) (map_of (t_rows bp t))"

text \<open>
  The index and the heap agree: the index sends a key to a row id exactly when the heap holds
  a row with this key there, and every row of the heap has a key.
\<close>

definition t_ok :: "pool \<Rightarrow> table \<Rightarrow> bool" where
  "t_ok bp t \<longleftrightarrow> heap_ok bp (tpages t) \<and> bp_inv (tindex t)
     \<and> (\<forall>pk rid. map_of (bp_entries (tindex t)) pk = Some rid \<longleftrightarrow>
          (\<exists>bytes. map_of (t_rows bp t) rid = Some bytes \<and> key_of (tschema t) bytes = Inr pk))
     \<and> (\<forall>rid bytes. map_of (t_rows bp t) rid = Some bytes \<longrightarrow> (\<exists>pk. key_of (tschema t) bytes = Inr pk))"

lemma t_okD:
  assumes "t_ok bp t"
  shows "heap_ok bp (tpages t)" "bp_inv (tindex t)"
    "map_of (bp_entries (tindex t)) pk = Some rid \<longleftrightarrow>
      (\<exists>bytes. map_of (t_rows bp t) rid = Some bytes \<and> key_of (tschema t) bytes = Inr pk)"
    "map_of (t_rows bp t) rid = Some bytes \<Longrightarrow> \<exists>pk. key_of (tschema t) bytes = Inr pk"
  using assms by (auto simp: t_ok_def)

lemma t_map_Some:
  "t_ok bp t \<Longrightarrow> t_map bp t pk = Some bytes \<longleftrightarrow>
    (\<exists>rid. map_of (bp_entries (tindex t)) pk = Some rid \<and> map_of (t_rows bp t) rid = Some bytes)"
  by (simp add: t_map_def bind_eq_Some_conv)

lemma t_map_None:
  assumes "t_ok bp t"
  shows "t_map bp t pk = None \<longleftrightarrow> bp_search pk (tindex t) = Inr None"
proof -
  have "map_of (bp_entries (tindex t)) pk = Some rid \<Longrightarrow> map_of (t_rows bp t) rid \<noteq> None" for rid
    using t_okD(3) [OF assms, of pk rid] by auto
  then show ?thesis using pk_index.look_ok [OF t_okD(2) [OF assms], of pk]
    by (cases "map_of (bp_entries (tindex t)) pk") (auto simp: t_map_def)
qed

lemma t_map_key: "t_ok bp t \<Longrightarrow> t_map bp t pk = Some bytes \<Longrightarrow> key_of (tschema t) bytes = Inr pk"
  using t_okD(3) by (fastforce simp: t_map_Some)

lemma t_ok_frame:
  assumes "t_ok bp t" "same_outside P bp bq" "cache_inv bq" "set (tpages t) \<inter> P = {}"
  shows "t_ok bq t" "t_map bq t = t_map bp t"
proof -
  have h: "heap_ok bp (tpages t)" using assms(1) by (simp add: t_ok_def)
  have r: "t_rows bq t = t_rows bp t"
    unfolding t_rows_def by (rule same_outside_rows [OF assms(2) _ assms(4)]) (use h in \<open>simp add: heap_ok_def\<close>)
  have "heap_ok bq (tpages t)" by (rule same_outside_heap_ok [OF assms(2,3) h assms(4)])
  with assms(1) r show "t_ok bq t" by (simp add: t_ok_def)
  show "t_map bq t = t_map bp t" by (rule ext) (simp add: t_map_def r)
qed

text \<open>\<open>t_ok\<close> looks at a pool only through the pages it shows.\<close>

lemma t_ok_same_view:
  assumes "t_ok bp t" "same_view bp bq" "cache_inv bq"
  shows "t_ok bq t" "t_map bq t = t_map bp t"
proof -
  have h: "heap_ok bp (tpages t)" using assms(1) by (simp add: t_ok_def)
  have r: "t_rows bq t = t_rows bp t"
    unfolding t_rows_def by (rule same_view_rows [OF assms(2)]) (use h in \<open>simp add: heap_ok_def\<close>)
  have "heap_ok bq (tpages t)" by (rule same_view_heap_ok [OF assms(2,3) h])
  with assms(1) r show "t_ok bq t" by (simp add: t_ok_def)
  show "t_map bq t = t_map bp t" by (rule ext) (simp add: t_map_def r)
qed

lemma index_rows_load:
  "(\<forall>(rid, b) \<in> set rows. key_of cols b = Inr (kf b)) \<Longrightarrow>
    index_rows cols rows idx = load bp_insert (map (\<lambda>(rid, b). (kf b, rid)) rows) idx"
proof (induction rows arbitrary: idx)
  case (Cons r rows)
  obtain rid b where r: "r = (rid, b)" by (cases r) auto
  have "key_of cols b = Inr (kf b)" using Cons.prems r by simp
  then obtain row where "deserialize cols b = Inr row" "primaryKey row = Inr (kf b)"
    by (auto simp: key_of_def bindE_Inr_iff)
  then have "index_rows cols (r # rows) idx = bindE (bp_insert (kf b) rid idx) (index_rows cols rows)"
    using r by simp
  also have "\<dots> = bindE (bp_insert (kf b) rid idx) (load bp_insert (map (\<lambda>(rid, b). (kf b, rid)) rows))"
    by (cases "bp_insert (kf b) rid idx") (use Cons in auto)
  finally show ?case using r by simp
qed simp

text \<open>Rebuilding gives an index that agrees with the heap, whatever the table's index was.\<close>

lemma rebuildIndex_ok:
  assumes h: "heap_ok bp (tpages t)"
    and keys: "\<forall>(rid, b) \<in> set (t_rows bp t). key_of (tschema t) b = Inr (kf b)"
    and dist: "distinct (map (\<lambda>(rid, b). kf b) (t_rows bp t))"
  obtains idx bq where "rebuildIndex t bp = (Inr (t\<lparr>tindex := idx\<rparr>), bq)" "same_view bp bq" "cache_inv bq"
    "t_ok bq (t\<lparr>tindex := idx\<rparr>)"
    "\<And>pk. map_of (bp_entries idx) pk = map_of (map (\<lambda>(rid, b). (kf b, rid)) (t_rows bp t)) pk"
proof -
  obtain bq where s: "heap_scan (tpages t) bp = (Inr (t_rows bp t), bq)" "heap_ok bq (tpages t)" "same_view bp bq"
    using heap_scan_ok [OF h] unfolding t_rows_def by metis
  let ?kvs = "map (\<lambda>(rid, b). (kf b, rid)) (t_rows bp t)"
  have "distinct (map fst ?kvs)" using dist by (simp add: split_def o_def)
  then obtain idx where idx: "load bp_insert ?kvs bp_empty = Inr idx" "bp_inv idx"
      "\<forall>k. bp_search k idx = Inr (map_of ?kvs k)"
    using pk_index.load_empty by blast
  have m: "map_of (bp_entries idx) pk = map_of ?kvs pk" for pk
    using pk_index.look_ok [OF idx(2), of pk] idx(3) by simp
  have dr: "distinct (map fst (t_rows bp t))"
    using h distinct_heap_rows by (simp add: heap_ok_def t_rows_def)
  have dk: "distinct (map fst ?kvs)" by fact
  have iff: "map_of ?kvs pk = Some rid \<longleftrightarrow>
      (\<exists>bytes. map_of (t_rows bp t) rid = Some bytes \<and> key_of (tschema t) bytes = Inr pk)" for pk rid
  proof -
    have "map_of ?kvs pk = Some rid \<longleftrightarrow> (pk, rid) \<in> set ?kvs" using dk by simp
    also have "\<dots> \<longleftrightarrow> (\<exists>b. (rid, b) \<in> set (t_rows bp t) \<and> kf b = pk)" by auto
    also have "\<dots> \<longleftrightarrow> (\<exists>b. (rid, b) \<in> set (t_rows bp t) \<and> key_of (tschema t) b = Inr pk)"
      using keys by fastforce
    finally show ?thesis using dr by simp
  qed
  have rows: "t_rows bq (t\<lparr>tindex := idx\<rparr>) = t_rows bp t"
    using same_view_rows [OF s(3)] h by (simp add: t_rows_def heap_ok_def)
  have "\<exists>pk. key_of (tschema t) bytes = Inr pk" if "map_of (t_rows bp t) rid = Some bytes" for rid bytes
    using keys map_of_SomeD [OF that] by fastforce
  then have "t_ok bq (t\<lparr>tindex := idx\<rparr>)"
    using s(2) idx(2) m iff rows by (simp add: t_ok_def)
  moreover have "rebuildIndex t bp = (Inr (t\<lparr>tindex := idx\<rparr>), bq)"
    using s(1) index_rows_load [OF keys, of bp_empty] idx(1) by (simp add: rebuildIndex_def bindS_def)
  moreover have "cache_inv bq" using s(2) by (simp add: heap_ok_def)
  ultimately show thesis using that s(3) m by blast
qed


lemma t_ok_keys:
  assumes "t_ok bp t"
  obtains kf where "\<forall>(rid, b) \<in> set (t_rows bp t). key_of (tschema t) b = Inr (kf b)"
    "distinct (map (\<lambda>(rid, b). kf b) (t_rows bp t))"
proof -
  define kf where "kf b = (case key_of (tschema t) b of Inr pk \<Rightarrow> pk | Inl _ \<Rightarrow> 0)" for b
  have dr: "distinct (map fst (t_rows bp t))"
    using t_okD(1) [OF assms] distinct_heap_rows by (simp add: heap_ok_def t_rows_def)
  have k: "key_of (tschema t) b = Inr (kf b)" if "(rid, b) \<in> set (t_rows bp t)" for rid b
    using t_okD(4) [OF assms, of rid b] that dr by (auto simp: kf_def)
  have "inj_on (\<lambda>(rid, b). kf b) (set (t_rows bp t))"
  proof (rule inj_onI, clarify)
    fix r1 b1 r2 b2
    assume m: "(r1, b1) \<in> set (t_rows bp t)" "(r2, b2) \<in> set (t_rows bp t)" and e: "kf b1 = kf b2"
    have "map_of (t_rows bp t) r1 = Some b1" "map_of (t_rows bp t) r2 = Some b2" using m dr by simp_all
    then have "map_of (bp_entries (tindex t)) (kf b1) = Some r1" "map_of (bp_entries (tindex t)) (kf b1) = Some r2"
      using t_okD(3) [OF assms] k m e by metis+
    then have "r1 = r2" by simp
    then show "r1 = r2 \<and> b1 = b2" using m dr by (metis eq_key_imp_eq_value)
  qed
  moreover have "distinct (t_rows bp t)" using dr by (simp add: distinct_map)
  ultimately show thesis using that [of kf] k by (auto simp: distinct_map)
qed

lemma rebuildIndex_restores:
  assumes "t_ok bp t" "u = t\<lparr>tindex := i\<rparr>"
  obtains t' bq where "rebuildIndex u bp = (Inr t', bq)" "t' = t\<lparr>tindex := tindex t'\<rparr>"
    "same_view bp bq" "cache_inv bq" "t_ok bq t'" "t_map bq t' = t_map bp t"
proof -
  obtain kf where kf: "\<forall>(rid, b) \<in> set (t_rows bp t). key_of (tschema t) b = Inr (kf b)"
    "distinct (map (\<lambda>(rid, b). kf b) (t_rows bp t))"
    using t_ok_keys [OF assms(1)] .
  have ru: "t_rows bp u = t_rows bp t" "tschema u = tschema t" using assms(2) by (simp_all add: t_rows_def)
  obtain idx bq where r: "rebuildIndex u bp = (Inr (u\<lparr>tindex := idx\<rparr>), bq)" "same_view bp bq" "cache_inv bq"
      "t_ok bq (u\<lparr>tindex := idx\<rparr>)"
    by (rule rebuildIndex_ok [of bp u kf]) (use t_okD(1) [OF assms(1)] kf assms(2) ru in simp_all)
  let ?t = "u\<lparr>tindex := idx\<rparr>"
  have rows: "t_rows bq ?t = t_rows bp t"
    using same_view_rows [OF r(2), of "tpages t"] t_okD(1) [OF assms(1)] assms(2)
    by (simp add: t_rows_def heap_ok_def)
  have "map_of (bp_entries idx) pk = Some rid \<longleftrightarrow> map_of (bp_entries (tindex t)) pk = Some rid" for pk rid
    using t_okD(3) [OF r(4), of pk rid] t_okD(3) [OF assms(1), of pk rid] rows assms(2) by simp
  then have "map_of (bp_entries idx) pk = map_of (bp_entries (tindex t)) pk" for pk
    by (metis option.exhaust)
  then have "t_map bq ?t = t_map bp t" using rows by (intro ext) (simp add: t_map_def)
  then show thesis using that [of ?t bq] r assms(2) by simp
qed

section \<open>The registry\<close>

definition reg_ok :: "pool \<Rightarrow> tables \<Rightarrow> bool" where
  "reg_ok bp ts \<longleftrightarrow> cache_inv bp \<and> distinct (map fst ts)
     \<and> (\<forall>(n, t) \<in> set ts. tname t = n \<and> t_ok bp t)
     \<and> (\<forall>(n, t) \<in> set ts. \<forall>(m, u) \<in> set ts. n \<noteq> m \<longrightarrow> set (tpages t) \<inter> set (tpages u) = {})"

text \<open>What the database holds: for each table, its map from keys to row images.\<close>

definition contents :: "pool \<Rightarrow> tables \<Rightarrow> string \<Rightarrow> (int \<Rightarrow> string option) option" where
  "contents bp ts n = map_option (t_map bp) (map_of ts n)"

lemma map_of_put_table: "map_of (put_table n t ts) = (map_of ts)(n \<mapsto> t)"
  by (induction n t ts rule: put_table.induct) (auto simp: fun_eq_iff)

lemma keys_put_table:
  "map fst (put_table n t ts) = (if n \<in> fst ` set ts then map fst ts else map fst ts @ [n])"
  by (induction n t ts rule: put_table.induct) auto

lemma put_table_new: "n \<notin> fst ` set ts \<Longrightarrow> put_table n t ts = ts @ [(n, t)]"
  by (induction n t ts rule: put_table.induct) auto

lemma set_put_table:
  "distinct (map fst ts) \<Longrightarrow> set (put_table n t ts) = insert (n, t) {(m, u) \<in> set ts. m \<noteq> n}"
  by (induction n t ts rule: put_table.induct) (auto simp: image_iff)

lemma reg_okD:
  assumes "reg_ok bp ts" "map_of ts n = Some t"
  shows "tname t = n" "t_ok bp t" "cache_inv bp"
    "map_of ts m = Some u \<Longrightarrow> m \<noteq> n \<Longrightarrow> set (tpages u) \<inter> set (tpages t) = {}"
  using assms by (auto simp: reg_ok_def dest!: map_of_SomeD) blast

text \<open>Changing one table, in its own pages or in one fresh page, leaves the others alone.\<close>

lemma reg_ok_put:
  assumes reg: "reg_ok bp ts" and n: "map_of ts n = Some t"
    and t': "t_ok bq t'" "tname t' = n" and out: "same_outside (set (tpages t)) bp bq" and inv: "cache_inv bq"
    and pages: "tpages t' = tpages t \<or> (\<exists>p. tpages t' = tpages t @ [p] \<and> \<not> known_page bp p)"
  shows "reg_ok bq (put_table n t' ts)"
    "contents bq (put_table n t' ts) = (contents bp ts)(n \<mapsto> t_map bq t')"
proof -
  have d: "distinct (map fst ts)" using reg by (simp add: reg_ok_def)
  have other: "t_ok bq u" "t_map bq u = t_map bp u" "set (tpages u) \<inter> set (tpages t') = {}" "tname u = m"
    if mu: "(m, u) \<in> set ts" "m \<noteq> n" for m u
  proof -
    have u: "map_of ts m = Some u" using mu d by simp
    have du: "set (tpages u) \<inter> set (tpages t) = {}" by (rule reg_okD(4) [OF reg n u mu(2)])
    have ok: "t_ok bp u" by (rule reg_okD(2) [OF reg u])
    show "t_ok bq u" "t_map bq u = t_map bp u" using t_ok_frame [OF ok out inv du] by auto
    have "\<forall>p \<in> set (tpages u). known_page bp p" using t_okD(1) [OF ok] by (simp add: heap_ok_def)
    then show "set (tpages u) \<inter> set (tpages t') = {}" using du pages by auto
    show "tname u = m" by (rule reg_okD(1) [OF reg u])
  qed
  have pd: "set (tpages u) \<inter> set (tpages v) = {}" if "(m, u) \<in> set ts" "(k, v) \<in> set ts" "m \<noteq> k" for m u k v
    using reg that by (fastforce simp: reg_ok_def)
  have mem: "(m, u) \<in> set (put_table n t' ts) \<longleftrightarrow> m = n \<and> u = t' \<or> m \<noteq> n \<and> (m, u) \<in> set ts" for m u
    using set_put_table [OF d] by auto
  show "reg_ok bq (put_table n t' ts)"
    unfolding reg_ok_def
  proof (intro conjI ballI; clarify?)
    show "cache_inv bq" by fact
    show "distinct (map fst (put_table n t' ts))" using d by (auto simp: keys_put_table)
    fix m u assume "(m, u) \<in> set (put_table n t' ts)"
    then show "tname u = m \<and> t_ok bq u" using other t' by (auto simp: mem)
  next
    fix m u k v
    assume "(m, u) \<in> set (put_table n t' ts)" "(k, v) \<in> set (put_table n t' ts)" "m \<noteq> k"
    then show "set (tpages u) \<inter> set (tpages v) = {}"
      using other(3) [of m u] other(3) [of k v] pd [of m u k v] by (simp only: mem) blast
  qed
  show "contents bq (put_table n t' ts) = (contents bp ts)(n \<mapsto> t_map bq t')"
  proof (rule ext)
    fix m
    show "contents bq (put_table n t' ts) m = ((contents bp ts)(n \<mapsto> t_map bq t')) m"
    proof (cases "m = n \<or> map_of ts m = None")
      case False
      then obtain u where "(m, u) \<in> set ts" "map_of ts m = Some u" by (auto dest: map_of_SomeD)
      then show ?thesis using False other(2) by (simp add: contents_def map_of_put_table)
    qed (auto simp: contents_def map_of_put_table)
  qed
qed

section \<open>Reopening\<close>

text \<open>A table before and after: all but the index restored, the index equivalent.\<close>

definition reopened :: "pool \<Rightarrow> pool \<Rightarrow> string \<times> table \<Rightarrow> string \<times> table \<Rightarrow> bool" where
  "reopened bp bq x y \<longleftrightarrow> fst y = fst x \<and> snd y = (snd x)\<lparr>tindex := tindex (snd y)\<rparr>
     \<and> t_ok bq (snd y) \<and> t_map bq (snd y) = t_map bp (snd x)"

lemma cat_load_saved:
  assumes "cache_inv bp" "\<forall>(n, t) \<in> set ts. tname t = n \<and> table_words t \<and> t_ok bp t"
    "distinct (map fst (reg @ ts))"
  shows "\<exists>bq ts'. cat_load_lines eof (lines_of (cat_save ts)) reg bp = (Inr (reg @ ts'), bq)
    \<and> same_view bp bq \<and> cache_inv bq
    \<and> list_all2 (reopened bp bq) ts ts'"
  using assms
proof (induction ts arbitrary: bp reg)
  case Nil
  then show ?case by (simp add: cat_save_def same_view_refl)
next
  case (Cons e ts)
  obtain n t where e: "e = (n, t)" by (cases e) auto
  have t: "tname t = n" "table_words t" "t_ok bp t" using Cons.prems(2) e by auto
  have w: "word (tname t)" using t(2) by (simp add: table_words_def)
  obtain t' bq where r: "rebuildIndex (t\<lparr>tindex := bp_empty\<rparr>) bp = (Inr t', bq)" "t' = t\<lparr>tindex := tindex t'\<rparr>"
      "same_view bp bq" "cache_inv bq" "t_ok bq t'" "t_map bq t' = t_map bp t"
    by (rule rebuildIndex_restores [OF t(3) refl]) (rule that)
  have "\<forall>(n, t) \<in> set ts. tname t = n \<and> table_words t \<and> t_ok bq t"
    using Cons.prems(2) t_ok_same_view(1) [OF _ r(3,4)] by auto
  moreover have "distinct (map fst ((reg @ [(n, t')]) @ ts))" using Cons.prems(3) e by auto
  ultimately obtain br ts' where IH: "cat_load_lines eof (lines_of (cat_save ts)) (reg @ [(n, t')]) bq = (Inr ((reg @ [(n, t')]) @ ts'), br)"
      "same_view bq br" "cache_inv br"
      "list_all2 (reopened bq br) ts ts'"
    using Cons.IH [OF r(4)] by blast
  have "list_all2 (reopened bp br) ts ts'"
  proof (rule list.rel_mono_strong [OF IH(4)])
    fix x y
    assume x: "x \<in> set ts" and xy: "reopened bq br x y"
    have "t_ok bp (snd x)" using Cons.prems(2) x by auto
    from t_ok_same_view(2) [OF this r(3,4)] show "reopened bp br x y"
      using xy by (simp add: reopened_def)
  qed
  moreover have "t_ok br t'" "t_map br t' = t_map bp t"
    using t_ok_same_view [OF r(5) IH(2,3)] r(6) by simp_all
  moreover have "cat_load_lines eof (lines_of (cat_save (e # ts))) reg bp = (Inr (reg @ (n, t') # ts'), br)"
  proof -
    have "n \<notin> fst ` set reg" using Cons.prems(3) e by auto
    then have p: "put_table n t' reg = reg @ [(n, t')]" by (rule put_table_new)
    have l: "lines_of (cat_save (e # ts)) = head_text t # map col_text (tschema t) @ pages_text (tpages t) # lines_of (cat_save ts)"
      using lines_of_table [OF t(2)] e by (simp add: cat_save_def)
    have k: "token 0 (tokens (head_text t)) = ''TABLE''" by (simp add: tokens_head [OF w] token_def)
    show ?thesis
      unfolding l using k parse_table_text [OF t(2)] r(1) t(1) p IH(1) by (simp add: bindS_def)
  qed
  ultimately show ?case using same_view_trans [OF r(3) IH(2)] IH(3) e r(2)
    by (intro exI [of _ br] exI [of _ "(n, t') # ts'"]) (simp add: reopened_def [of _ _ "(_, _)"])
qed

lemma reopened_reg:
  assumes reg: "reg_ok bp ts" and inv: "cache_inv bq"
    and l: "list_all2 (reopened bp bq) ts ts'"
  shows "reg_ok bq ts'" "contents bq ts' = contents bp ts"
proof -
  have fsts: "map fst ts' = map fst ts"
    using l by (induction rule: list_all2_induct) (auto simp: reopened_def)
  have orig: "\<exists>t. (n, t) \<in> set ts \<and> t' = t\<lparr>tindex := tindex t'\<rparr> \<and> t_ok bq t'" if "(n, t') \<in> set ts'" for n t'
    using l that by (induction rule: list_all2_induct) (auto simp: reopened_def)
  have pg: "\<exists>t. (n, t) \<in> set ts \<and> tpages t' = tpages t \<and> tname t' = tname t \<and> t_ok bq t'" if "(n, t') \<in> set ts'" for n t'
    using orig [OF that] by (metis table.select_convs(1,3) table.surjective table.update_convs(4))
  show "reg_ok bq ts'"
    unfolding reg_ok_def
  proof (intro conjI ballI; clarify?)
    show "cache_inv bq" by fact
    show "distinct (map fst ts')" using reg fsts by (simp add: reg_ok_def)
    fix n t' assume n: "(n, t') \<in> set ts'"
    show "tname t' = n \<and> t_ok bq t'" using pg [OF n] reg by (fastforce simp: reg_ok_def)
  next
    fix n t' m u'
    assume "(n, t') \<in> set ts'" "(m, u') \<in> set ts'" "n \<noteq> m"
    moreover obtain t u where "(n, t) \<in> set ts" "tpages t' = tpages t" "(m, u) \<in> set ts" "tpages u' = tpages u"
      using pg calculation(1,2) by metis
    moreover have "\<forall>(n, t) \<in> set ts. \<forall>(m, u) \<in> set ts. n \<noteq> m \<longrightarrow> set (tpages t) \<inter> set (tpages u) = {}"
      using reg by (simp add: reg_ok_def)
    ultimately show "set (tpages t') \<inter> set (tpages u') = {}" by fastforce
  qed
  have "map_option (t_map bq) (map_of ts' n) = map_option (t_map bp) (map_of ts n)" for n
    using l
  proof (induction rule: list_all2_induct)
    case (Cons x xs y ys)
    then show ?case by (cases x; cases y) (simp add: reopened_def)
  qed simp
  then show "contents bq ts' = contents bp ts" by (simp add: contents_def fun_eq_iff)
qed

section \<open>Properties\<close>

text \<open>
  C22. Catalog round trip: loading the file \<open>save\<close> wrote, over the same pages, restores every table
  with its name, columns and page list, and rebuilds each index so that the table maps keys
  to the same row images as before; \<open>load\<close> writes no page.
\<close>

theorem catalog_save_load:
  assumes "reg_ok bp ts" "\<forall>(n, t) \<in> set ts. table_words t"
  shows "\<exists>bq ts'. cat_load (Some (cat_save ts)) bp = (Inr ts', bq) \<and> same_view bp bq \<and> reg_ok bq ts'
    \<and> contents bq ts' = contents bp ts
    \<and> map (\<lambda>(n, t). (n, tname t, tschema t, tpages t)) ts' = map (\<lambda>(n, t). (n, tname t, tschema t, tpages t)) ts"
proof -
  have "cache_inv bp" "\<forall>(n, t) \<in> set ts. tname t = n \<and> table_words t \<and> t_ok bp t" "distinct (map fst ([] @ ts))"
    using assms by (auto simp: reg_ok_def)
  from cat_load_saved [OF this, of "line_at_eof (cat_save ts)"] obtain bq ts' where l: "cat_load_lines (line_at_eof (cat_save ts)) (lines_of (cat_save ts)) [] bp = (Inr ts', bq)"
      "same_view bp bq" "cache_inv bq"
      "list_all2 (reopened bp bq) ts ts'"
    by auto
  have "map (\<lambda>(n, t). (n, tname t, tschema t, tpages t)) ts' = map (\<lambda>(n, t). (n, tname t, tschema t, tpages t)) ts"
    using l(4)
  proof (induction rule: list_all2_induct)
    case (Cons x xs y ys)
    then obtain n t t' where "x = (n, t)" "y = (n, t')" "t' = t\<lparr>tindex := tindex t'\<rparr>" by (cases x; cases y) (auto simp: reopened_def)
    then have "tname t' = tname t \<and> tschema t' = tschema t \<and> tpages t' = tpages t"
      by (metis table.select_convs(1-3) table.surjective table.update_convs(4))
    with Cons \<open>x = _\<close> \<open>y = _\<close> show ?case by simp
  qed simp
  with l reopened_reg [OF assms(1) l(3,4)] show ?thesis by (auto simp: cat_load_def)
qed

theorem catalog_save_load_witness:
  "\<exists>bq ts'. cat_load (Some (cat_save [(''t'', \<lparr>tname = ''t'', tschema = [\<lparr>cname = ''id'', ctyp = T_INT\<rparr>], tpages = [], tindex = bp_empty\<rparr>)]))
      (pool_new (disk_open []) 1) = (Inr ts', bq)
    \<and> map (\<lambda>(n, t). (n, tname t, tschema t, tpages t)) ts' = [(''t'', ''t'', [\<lparr>cname = ''id'', ctyp = T_INT\<rparr>], [])]"
proof -
  let ?t = "\<lparr>tname = ''t'', tschema = [\<lparr>cname = ''id'', ctyp = T_INT\<rparr>], tpages = [], tindex = bp_empty\<rparr>"
  have h: "heap_ok (pool_new (disk_open []) 1) []"
    by (rule heap_ok_new) (simp_all add: disk_open_def disk_inv_def)
  then have "reg_ok (pool_new (disk_open []) 1) [(''t'', ?t)]"
    by (simp add: reg_ok_def t_ok_def t_rows_def heap_rows_def bp_inv_empty heap_ok_def)
  then show ?thesis
    using catalog_save_load [of "pool_new (disk_open []) 1" "[(''t'', ?t)]"]
    by (auto simp: table_words_def schema_words_def word_def is_space_def)
qed

end
