(* ===== verification/Wal.thy ===== *)
theory Wal
  imports Schema
begin

text \<open>
  \<open>recovery/wal.cpp\<close>: the append-only log. Its state is the bytes of the file. A record is a
  32-bit total length followed by its body: type byte, transaction id, key, table name with a
  16-bit length, row image with a 32-bit length. \<open>readAll\<close> is the loop of the code on the
  bytes not yet read; each round consumes at least the 4 bytes of a length.

  The properties say what a crash leaves readable: \<open>readAll\<close> of any prefix of a log is the
  records that lie entirely in the prefix.
\<close>

text \<open>The enum has a fixed underlying type, so a byte that names no enumerator is still a value of it.\<close>

datatype log_type = LBegin | LInsert | LDelete | LCommit | LAbort | LOther nat

fun type_code :: "log_type \<Rightarrow> nat" where
  "type_code LBegin = 1"
| "type_code LInsert = 2"
| "type_code LDelete = 3"
| "type_code LCommit = 4"
| "type_code LAbort = 5"
| "type_code (LOther n) = n"

definition type_of_code :: "nat \<Rightarrow> log_type" where
  "type_of_code n = (if n = 1 then LBegin else if n = 2 then LInsert else if n = 3 then LDelete
     else if n = 4 then LCommit else if n = 5 then LAbort else LOther n)"

record logrec =
  ltype :: log_type
  ltxid :: int
  lpk :: int
  ltable :: string
  limage :: string

section \<open>Writing\<close>

text \<open>\<open>put(body, rec.table.data(), tlen)\<close> copies \<open>tlen\<close> bytes, the length cut to 16 bits.\<close>

definition rec_body :: "logrec \<Rightarrow> string" where
  "rec_body r =
     (let tlen = length (ltable r) mod 2 ^ 16;
          ilen = length (limage r) mod 2 ^ 32
      in le_bytes 1 (type_code (ltype r)) @ le_bytes 8 (of_signed 64 (ltxid r)) @ le_bytes 8 (of_signed 64 (lpk r))
         @ le_bytes 2 tlen @ take tlen (ltable r) @ le_bytes 4 ilen @ take ilen (limage r))"

definition rec_bytes :: "logrec \<Rightarrow> string" where
  "rec_bytes r = le_bytes 4 (length (rec_body r)) @ rec_body r"

definition wal_append :: "logrec \<Rightarrow> string \<Rightarrow> string" where
  "wal_append r wal = wal @ rec_bytes r"

definition begin_rec :: "int \<Rightarrow> logrec" where
  "begin_rec t = \<lparr>ltype = LBegin, ltxid = t, lpk = 0, ltable = [], limage = []\<rparr>"

definition insert_rec :: "int \<Rightarrow> string \<Rightarrow> int \<Rightarrow> string \<Rightarrow> logrec" where
  "insert_rec t tab pk img = \<lparr>ltype = LInsert, ltxid = t, lpk = pk, ltable = tab, limage = img\<rparr>"

definition delete_rec :: "int \<Rightarrow> string \<Rightarrow> int \<Rightarrow> string \<Rightarrow> logrec" where
  "delete_rec t tab pk img = \<lparr>ltype = LDelete, ltxid = t, lpk = pk, ltable = tab, limage = img\<rparr>"

definition commit_rec :: "int \<Rightarrow> logrec" where
  "commit_rec t = \<lparr>ltype = LCommit, ltxid = t, lpk = 0, ltable = [], limage = []\<rparr>"

definition abort_rec :: "int \<Rightarrow> logrec" where
  "abort_rec t = \<lparr>ltype = LAbort, ltxid = t, lpk = 0, ltable = [], limage = []\<rparr>"

definition logBegin :: "int \<Rightarrow> string \<Rightarrow> string" where
  "logBegin t = wal_append (begin_rec t)"

definition logInsert :: "int \<Rightarrow> string \<Rightarrow> int \<Rightarrow> string \<Rightarrow> string \<Rightarrow> string" where
  "logInsert t tab pk img = wal_append (insert_rec t tab pk img)"

definition logDelete :: "int \<Rightarrow> string \<Rightarrow> int \<Rightarrow> string \<Rightarrow> string \<Rightarrow> string" where
  "logDelete t tab pk img = wal_append (delete_rec t tab pk img)"

definition logCommit :: "int \<Rightarrow> string \<Rightarrow> string" where
  "logCommit t = wal_append (commit_rec t)"

definition logAbort :: "int \<Rightarrow> string \<Rightarrow> string" where
  "logAbort t = wal_append (abort_rec t)"

definition wal_reset :: "string \<Rightarrow> string" where
  "wal_reset wal = []"

section \<open>Reading\<close>

definition parse_body :: "string \<Rightarrow> db_error + logrec" where
  "parse_body b =
     bindE (str_read 0 1 b) (\<lambda>type.
     bindE (str_read 1 8 b) (\<lambda>txid.
     bindE (str_read 9 8 b) (\<lambda>pk.
     bindE (str_read 17 2 b) (\<lambda>tlen.
     bindE (substr 19 tlen b) (\<lambda>table.
     bindE (str_read (19 + tlen) 4 b) (\<lambda>ilen.
     bindE (substr (23 + tlen) ilen b) (\<lambda>image.
       Inr \<lparr>ltype = type_of_code type, ltxid = to_signed 64 txid, lpk = to_signed 64 pk,
            ltable = table, limage = image\<rparr>)))))))"

function readAll :: "string \<Rightarrow> db_error + logrec list" where
  "readAll rest =
     (if length rest < 4 then Inr []
      else let total = le_val (take 4 rest); body = take total (drop 4 rest)
      in if length body < total then Inr []
      else bindE (parse_body body) (\<lambda>r.
           bindE (readAll (drop (4 + total) rest)) (\<lambda>rs. Inr (r # rs))))"
  by auto
termination by (relation "measure length") auto

declare readAll.simps [simp del]

section \<open>Round trip\<close>

text \<open>A record whose fields fit the widths they are written with.\<close>

definition rec_ok :: "logrec \<Rightarrow> bool" where
  "rec_ok r \<longleftrightarrow> type_code (ltype r) < 256 \<and> type_of_code (type_code (ltype r)) = ltype r
     \<and> in_int64 (ltxid r) \<and> in_int64 (lpk r)
     \<and> length (ltable r) < 2 ^ 16 \<and> 23 + length (ltable r) + length (limage r) < 2 ^ 32"

lemma rec_body_ok:
  assumes "rec_ok r"
  shows "rec_body r = le_bytes 1 (type_code (ltype r)) @ le_bytes 8 (of_signed 64 (ltxid r))
      @ le_bytes 8 (of_signed 64 (lpk r)) @ le_bytes 2 (length (ltable r)) @ ltable r
      @ le_bytes 4 (length (limage r)) @ limage r"
    "length (rec_body r) = 23 + length (ltable r) + length (limage r)"
  using assms by (simp_all add: rec_ok_def rec_body_def)

lemma str_read_at:
  "off = length pre \<Longrightarrow> n = length b \<Longrightarrow> str_read off n (pre @ b @ post) = Inr (le_val b)"
  using str_read_mid by simp

lemma parse_body_ok:
  assumes ok: "rec_ok r"
  shows "parse_body (rec_body r) = Inr r"
proof -
  let ?t = "le_bytes 1 (type_code (ltype r))" and ?x = "le_bytes 8 (of_signed 64 (ltxid r))"
  let ?p = "le_bytes 8 (of_signed 64 (lpk r))" and ?l = "le_bytes 2 (length (ltable r))"
  let ?i = "le_bytes 4 (length (limage r))"
  have b: "rec_body r = ?t @ ?x @ ?p @ ?l @ ltable r @ ?i @ limage r" using rec_body_ok [OF ok] by simp
  have w: "type_code (ltype r) < 256" "length (ltable r) < 65536" "length (limage r) < 4294967296"
    using ok by (simp_all add: rec_ok_def)
  have "str_read 0 1 (rec_body r) = Inr (type_code (ltype r))"
    using str_read_at [of 0 "[]" 1 ?t] b w by simp
  moreover have "str_read 1 8 (rec_body r) = Inr (of_signed 64 (ltxid r))"
    using str_read_at [of 1 ?t 8 ?x] b of_signed_64_bound [of "ltxid r"] by simp
  moreover have "str_read 9 8 (rec_body r) = Inr (of_signed 64 (lpk r))"
    using str_read_at [of 9 "?t @ ?x" 8 ?p] b of_signed_64_bound [of "lpk r"] by simp
  moreover have "str_read 17 2 (rec_body r) = Inr (length (ltable r))"
    using str_read_at [of 17 "?t @ ?x @ ?p" 2 ?l] b w by simp
  moreover have "substr 19 (length (ltable r)) (rec_body r) = Inr (ltable r)"
    using substr_mid [of _ "ltable r" 19 "?t @ ?x @ ?p @ ?l"] b by simp
  moreover have "str_read (19 + length (ltable r)) 4 (rec_body r) = Inr (length (limage r))"
    using str_read_at [of "19 + length (ltable r)" "?t @ ?x @ ?p @ ?l @ ltable r" 4 ?i] b w by simp
  moreover have "substr (23 + length (ltable r)) (length (limage r)) (rec_body r) = Inr (limage r)"
    using substr_mid [of _ "limage r" "23 + length (ltable r)" "?t @ ?x @ ?p @ ?l @ ltable r @ ?i" "[]"] b by simp
  ultimately show ?thesis using ok by (simp add: parse_body_def rec_ok_def to_of_signed_64)
qed

lemma rec_bytes_length: "rec_ok r \<Longrightarrow> length (rec_bytes r) = 27 + length (ltable r) + length (limage r)"
  by (simp add: rec_bytes_def rec_body_ok)

lemma readAll_cons:
  assumes "rec_ok r"
  shows "readAll (rec_bytes r @ rest) = bindE (readAll rest) (\<lambda>rs. Inr (r # rs))"
proof -
  have n: "length (rec_body r) < 4294967296"
    using assms by (simp add: rec_body_ok rec_ok_def)
  have d: "drop 4 (rec_bytes r @ rest) = rec_body r @ rest" "take 4 (rec_bytes r @ rest) = le_bytes 4 (length (rec_body r))"
    "drop (4 + length (rec_body r)) (rec_bytes r @ rest) = rest"
    by (simp_all add: rec_bytes_def)
  show ?thesis
    by (subst readAll.simps) (use n d parse_body_ok [OF assms] in \<open>simp add: Let_def rec_bytes_def\<close>)
qed

definition log_bytes :: "logrec list \<Rightarrow> string" where
  "log_bytes rs = concat (map rec_bytes rs)"

lemma log_bytes_simps [simp]:
  "log_bytes [] = []"
  "log_bytes (r # rs) = rec_bytes r @ log_bytes rs"
  "log_bytes (xs @ ys) = log_bytes xs @ log_bytes ys"
  by (simp_all add: log_bytes_def)

lemma readAll_append:
  "list_all rec_ok rs \<Longrightarrow> readAll (log_bytes rs @ rest) = bindE (readAll rest) (\<lambda>rs'. Inr (rs @ rs'))"
proof (induction rs)
  case Nil
  show ?case by (cases "readAll rest") simp_all
next
  case (Cons r rs)
  then show ?case by (cases "readAll rest") (simp_all add: readAll_cons)
qed

lemma readAll_Nil [simp]: "readAll [] = Inr []"
  by (simp add: readAll.simps)

lemma readAll_log: "list_all rec_ok rs \<Longrightarrow> readAll (log_bytes rs) = Inr rs"
  using readAll_append [of rs "[]"] by simp

lemma readAll_short:
  assumes "length x < 4 \<or> length x - 4 < le_val (take 4 x)"
  shows "readAll x = Inr []"
  using assms by (subst readAll.simps) (auto simp: Let_def min_def)

text \<open>A record cut short, with fewer bytes behind it than are missing, ends the reading.\<close>

lemma readAll_torn:
  assumes "rec_ok r" "n < length (rec_bytes r)" "length rest < length (rec_bytes r) - n" "rest = [] \<or> 4 \<le> n"
  shows "readAll (take n (rec_bytes r) @ rest) = Inr []"
proof (cases "n < 4")
  case True
  then show ?thesis using assms by (intro readAll_short) simp
next
  case False
  have k: "length (rec_body r) < 4294967296"
    using assms(1) by (simp add: rec_body_ok rec_ok_def)
  have "take 4 (take n (rec_bytes r) @ rest) = le_bytes 4 (length (rec_body r))"
    using False by (simp add: rec_bytes_def)
  moreover have "length (take n (rec_bytes r) @ rest) - 4 < length (rec_body r)"
    using assms(2,3) False by (simp add: rec_bytes_def)
  ultimately show ?thesis using k by (intro readAll_short) simp
qed

lemma readAll_prefix:
  assumes "list_all rec_ok rs"
  shows "\<exists>j \<le> length rs. readAll (take n (log_bytes rs)) = Inr (take j rs)
    \<and> (\<forall>i \<le> length rs. i \<le> j \<longleftrightarrow> length (log_bytes (take i rs)) \<le> n)"
  using assms
proof (induction rs arbitrary: n)
  case (Cons r rs)
  then have ok: "rec_ok r" by simp
  let ?l = "length (rec_bytes r)"
  show ?case
  proof (cases "n < ?l")
    case True
    then have "readAll (take n (log_bytes (r # rs))) = Inr []"
      using readAll_torn [OF ok True, of "[]"] by simp
    moreover have "\<forall>i. i \<le> 0 \<longleftrightarrow> length (log_bytes (take i (r # rs))) \<le> n"
      using True by (auto simp: take_Cons' not_le)
    ultimately show ?thesis by (intro exI [of _ 0]) auto
  next
    case False
    then have e: "readAll (take n (log_bytes (r # rs)))
        = bindE (readAll (take (n - ?l) (log_bytes rs))) (\<lambda>rs'. Inr (r # rs'))"
      using readAll_cons [OF ok] by simp
    obtain j where j: "j \<le> length rs" "readAll (take (n - ?l) (log_bytes rs)) = Inr (take j rs)"
        "\<forall>i \<le> length rs. i \<le> j \<longleftrightarrow> length (log_bytes (take i rs)) \<le> n - ?l"
      using Cons by fastforce
    have "\<forall>i \<le> length (r # rs). i \<le> Suc j \<longleftrightarrow> length (log_bytes (take i (r # rs))) \<le> n"
    proof (intro allI impI)
      fix i
      assume i: "i \<le> length (r # rs)"
      show "i \<le> Suc j \<longleftrightarrow> length (log_bytes (take i (r # rs))) \<le> n"
      proof (cases i)
        case (Suc k)
        then have "k \<le> j \<longleftrightarrow> length (log_bytes (take k rs)) \<le> n - ?l" using j(3) i by simp
        then show ?thesis using Suc False by auto
      qed simp
    qed
    then show ?thesis using e j(1,2) by (intro exI [of _ "Suc j"]) simp
  qed
qed simp

section \<open>Properties\<close>

text \<open>
  Log round trip: reading a log of appended records gives back these records, every field
  included.
\<close>

theorem wal_roundtrip:
  assumes "list_all rec_ok rs"
  shows "readAll (foldl (\<lambda>w r. wal_append r w) (wal_reset w) rs) = Inr rs"
proof -
  have "foldl (\<lambda>w r. wal_append r w) w rs = w @ log_bytes rs" for w
    by (induction rs arbitrary: w) (auto simp: wal_append_def)
  then show ?thesis using readAll_log [OF assms] by (simp add: wal_reset_def)
qed

theorem wal_roundtrip_witness:
  "readAll (foldl (\<lambda>w r. wal_append r w) (wal_reset ''x'') [begin_rec 1, insert_rec 1 ''t'' (- 7) ''ab'', commit_rec 1])
    = Inr [begin_rec 1, insert_rec 1 ''t'' (- 7) ''ab'', commit_rec 1]"
  by (rule wal_roundtrip)
    (simp add: rec_ok_def begin_rec_def insert_rec_def commit_rec_def in_int64_def type_of_code_def)


text \<open>
  C21. Crash in the middle of a write: whatever prefix of the log reached the disk, \<open>readAll\<close>
  returns without error exactly the records that lie entirely in the prefix, in order; the
  torn record behind them is dropped.
\<close>

theorem readAll_torn_tail:
  assumes "list_all rec_ok rs"
  shows "\<exists>j \<le> length rs. readAll (take n (concat (map rec_bytes rs))) = Inr (take j rs)
    \<and> (\<forall>i \<le> length rs. i \<le> j \<longleftrightarrow> length (concat (map rec_bytes (take i rs))) \<le> n)"
  using readAll_prefix [OF assms] by (simp add: log_bytes_def)

theorem readAll_torn_tail_witness:
  "\<exists>j \<le> 2. readAll (take 40 (concat (map rec_bytes [begin_rec 1, commit_rec 1]))) = Inr (take j [begin_rec 1, commit_rec 1])
    \<and> 1 \<le> j"
proof -
  have ok: "list_all rec_ok [begin_rec 1, commit_rec 1]"
    by (simp add: rec_ok_def begin_rec_def commit_rec_def in_int64_def type_of_code_def)
  then have "length (concat (map rec_bytes (take 1 [begin_rec 1, commit_rec 1]))) \<le> 40"
    by (simp add: rec_bytes_length) (simp add: begin_rec_def)
  then show ?thesis using readAll_torn_tail [OF ok, of 40] by (auto simp: numeral_2_eq_2)
qed

text \<open>
  Records appended behind a torn record are not read back. \<open>readAll\<close> stops at the torn
  length, and nothing truncates the file at that point, so as long as the bytes appended after
  it are fewer than the torn record lacks, a whole later transaction with its COMMIT is
  invisible: the log reads as empty.
\<close>

theorem readAll_append_after_torn:
  assumes "rec_ok r" "4 \<le> n" "n < length (rec_bytes r)"
    and "length (concat (map rec_bytes rs)) < length (rec_bytes r) - n"
  shows "readAll (foldl (\<lambda>w r. wal_append r w) (take n (rec_bytes r)) rs) = Inr []"
proof -
  have "foldl (\<lambda>w r. wal_append r w) w rs = w @ concat (map rec_bytes rs)" for w
    by (induction rs arbitrary: w) (auto simp: wal_append_def)
  then show ?thesis using readAll_torn [OF assms(1,3,4)] assms(2) by simp
qed

theorem readAll_append_after_torn_witness:
  "readAll (foldl (\<lambda>w r. wal_append r w) (take 30 (rec_bytes (insert_rec 1 ''t'' 7 (replicate 200 CHR ''x''))))
     [begin_rec 2, insert_rec 2 ''t'' 8 ''ab'', commit_rec 2]) = Inr []"
proof (rule readAll_append_after_torn)
  have ok: "list_all rec_ok [insert_rec 1 ''t'' 7 (replicate 200 CHR ''x''), begin_rec 2, insert_rec 2 ''t'' 8 ''ab'', commit_rec 2]"
    by (simp add: rec_ok_def begin_rec_def insert_rec_def commit_rec_def in_int64_def type_of_code_def)
  then show "rec_ok (insert_rec 1 ''t'' 7 (replicate 200 CHR ''x''))" by simp
  show "30 < length (rec_bytes (insert_rec 1 ''t'' 7 (replicate 200 CHR ''x'')))"
    using ok by (simp add: rec_bytes_length) (simp add: insert_rec_def)
  show "length (concat (map rec_bytes [begin_rec 2, insert_rec 2 ''t'' 8 ''ab'', commit_rec 2]))
      < length (rec_bytes (insert_rec 1 ''t'' 7 (replicate 200 CHR ''x''))) - 30"
    using ok by (simp add: rec_bytes_length) (simp add: begin_rec_def insert_rec_def commit_rec_def)
qed simp

end
