(* ===== verification/Database.thy ===== *)
theory Database
  imports Catalog Wal
begin

text \<open>
  \<open>catalog/database.cpp\<close>: one session over disk, buffer pool, catalog and log. A \<open>Table*\<close> is
  the table's name, looked up at each use, since operations change the table in place. The
  files are part of the state: the data file inside the pool's disk, the catalog file
  \<open>dcat\<close> (\<open>None\<close> before the first \<open>save\<close>) and the log \<open>dwal\<close>.
\<close>

record undo =
  u_insert :: bool
  u_table :: string
  u_pk :: int
  u_image :: string

record db =
  dpool :: pool
  dtables :: tables
  dcat :: "string option"
  dwal :: string
  cur_txn :: int
  next_txn :: int
  autocommit :: bool
  undos :: "undo list"

definition FRAMES :: nat where "FRAMES = 64"

definition on_pool :: "(pool, 'a) stm \<Rightarrow> (db, 'a) stm" where
  "on_pool m = (\<lambda>d. let (r, bp) = m (dpool d) in (r, d\<lparr>dpool := bp\<rparr>))"

definition set_table :: "string \<Rightarrow> table \<Rightarrow> db \<Rightarrow> db" where
  "set_table n t d = d\<lparr>dtables := put_table n t (dtables d)\<rparr>"

definition save_catalog :: "db \<Rightarrow> db" where
  "save_catalog d = d\<lparr>dcat := Some (cat_save (dtables d))\<rparr>"

text \<open>A \<open>Table*\<close> that names no table is a null or dangling pointer.\<close>

definition with_table :: "string \<Rightarrow> (table \<Rightarrow> (db, 'a) stm) \<Rightarrow> (db, 'a) stm" where
  "with_table n f = (\<lambda>d. case map_of (dtables d) n of None \<Rightarrow> (Inl MemFault, d) | Some t \<Rightarrow> f t d)"

definition createTable :: "string \<Rightarrow> schema \<Rightarrow> (db, unit) stm" where
  "createTable name cols = (\<lambda>d. case cat_create name cols (dtables d) of
     Inl e \<Rightarrow> (Inl e, d) | Inr ts \<Rightarrow> (Inr (), save_catalog (d\<lparr>dtables := ts\<rparr>)))"

section \<open>Physical operations\<close>

text \<open>
  The heap insert appends to the table's page list and saves the catalog when it grew. Only the
  low 16 bits of the image's size reach it.
\<close>

definition physInsert :: "string \<Rightarrow> int \<Rightarrow> string \<Rightarrow> (db, unit) stm" where
  "physInsert n pk img = with_table n (\<lambda>t.
     bindS (on_pool (heap_insert (tpages t) img (u16 (length img)))) (\<lambda>(rid, pages) d.
       let t1 = t\<lparr>tpages := pages\<rparr>;
           d1 = (if pages \<noteq> tpages t then save_catalog (set_table n t1 d) else d)
       in case bp_insert pk rid (tindex t1) of
            Inl e \<Rightarrow> (Inl e, d1)
          | Inr idx \<Rightarrow> (Inr (), set_table n (t1\<lparr>tindex := idx\<rparr>) d1)))"

definition erase_row :: "string \<Rightarrow> int \<Rightarrow> rowid \<Rightarrow> (db, unit) stm" where
  "erase_row n pk rid = with_table n (\<lambda>t.
     bindS (on_pool (heap_erase rid)) (\<lambda>_ d.
       case bp_erase pk (tindex t) of
         Inl e \<Rightarrow> (Inl e, d)
       | Inr idx \<Rightarrow> (Inr (), set_table n (t\<lparr>tindex := idx\<rparr>) d)))"

definition physDelete :: "string \<Rightarrow> int \<Rightarrow> (db, unit) stm" where
  "physDelete n pk = with_table n (\<lambda>t.
     bindS (liftS (bp_search pk (tindex t))) (\<lambda>r. case r of
       None \<Rightarrow> retS ()
     | Some rid \<Rightarrow> erase_row n pk rid))"

section \<open>Transactions\<close>

definition db_begin :: "(db, unit) stm" where
  "db_begin = (\<lambda>d. if cur_txn d \<noteq> INVALID_TXN then (Inl (RuntimeError ''transaction already active''), d)
     else let t = next_txn d
          in (Inr (), d\<lparr>cur_txn := t, next_txn := next_txn d + 1, autocommit := False, undos := [],
                dwal := logBegin t (dwal d)\<rparr>))"

definition db_commit :: "(db, unit) stm" where
  "db_commit = (\<lambda>d. if cur_txn d = INVALID_TXN then (Inl (RuntimeError ''no active transaction''), d)
     else (Inr (), d\<lparr>dwal := logCommit (cur_txn d) (dwal d), cur_txn := INVALID_TXN, autocommit := False, undos := []\<rparr>))"

text \<open>One inverse operation; an operation on a table that is gone is skipped.\<close>

definition undo_one :: "undo \<Rightarrow> (db, unit) stm" where
  "undo_one u = (\<lambda>d. if map_of (dtables d) (u_table u) = None then (Inr (), d)
     else if u_insert u then physDelete (u_table u) (u_pk u) d
     else physInsert (u_table u) (u_pk u) (u_image u) d)"

fun undo_all :: "undo list \<Rightarrow> (db, unit) stm" where
  "undo_all [] = retS ()"
| "undo_all (u # us) = bindS (undo_one u) (\<lambda>_. undo_all us)"

definition db_rollback :: "(db, unit) stm" where
  "db_rollback = (\<lambda>d. if cur_txn d = INVALID_TXN then (Inl (RuntimeError ''no active transaction''), d)
     else bindS (undo_all (rev (undos d))) (\<lambda>_ d.
       (Inr (), d\<lparr>dwal := logAbort (cur_txn d) (dwal d), cur_txn := INVALID_TXN, autocommit := False, undos := []\<rparr>)) d)"

definition ensureTxn :: "(db, bool) stm" where
  "ensureTxn = (\<lambda>d. if cur_txn d \<noteq> INVALID_TXN then (Inr False, d)
     else bindS db_begin (\<lambda>_ d. (Inr True, d\<lparr>autocommit := True\<rparr>)) d)"

definition maybeAutoCommit :: "bool \<Rightarrow> (db, unit) stm" where
  "maybeAutoCommit implicit = (if implicit then db_commit else retS ())"

definition log_write :: "(int \<Rightarrow> string \<Rightarrow> string) \<Rightarrow> (db, unit) stm" where
  "log_write f = (\<lambda>d. (Inr (), d\<lparr>dwal := f (cur_txn d) (dwal d)\<rparr>))"

definition push_undo :: "undo \<Rightarrow> (db, unit) stm" where
  "push_undo u = (\<lambda>d. (Inr (), d\<lparr>undos := undos d @ [u]\<rparr>))"

definition insertRow :: "string \<Rightarrow> val list \<Rightarrow> (db, unit) stm" where
  "insertRow n row = with_table n (\<lambda>t.
     bindS (liftS (primaryKey row)) (\<lambda>pk.
     bindS (liftS (bp_search pk (tindex t))) (\<lambda>existing.
     if existing \<noteq> None then failS (RuntimeError (''duplicate primary key: '' @ dec_of_int pk))
     else bindS ensureTxn (\<lambda>implicit.
     bindS (liftS (serialize (tschema t) row)) (\<lambda>img.
     bindS (log_write (\<lambda>txn. logInsert txn (tname t) pk img)) (\<lambda>_.
     bindS (physInsert n pk img) (\<lambda>_.
     bindS (push_undo \<lparr>u_insert = True, u_table = tname t, u_pk = pk, u_image = img\<rparr>) (\<lambda>_.
       maybeAutoCommit implicit))))))))"

definition deleteByKey :: "string \<Rightarrow> int \<Rightarrow> (db, bool) stm" where
  "deleteByKey n pk = with_table n (\<lambda>t.
     bindS (liftS (bp_search pk (tindex t))) (\<lambda>r. case r of
       None \<Rightarrow> retS False
     | Some rid \<Rightarrow>
         bindS (on_pool (heap_get rid)) (\<lambda>got.
         let before = (case got of None \<Rightarrow> [] | Some b \<Rightarrow> b)
         in bindS ensureTxn (\<lambda>implicit.
            bindS (log_write (\<lambda>txn. logDelete txn (tname t) pk before)) (\<lambda>_.
            bindS (erase_row n pk rid) (\<lambda>_.
            bindS (push_undo \<lparr>u_insert = False, u_table = tname t, u_pk = pk, u_image = before\<rparr>) (\<lambda>_.
            bindS (maybeAutoCommit implicit) (\<lambda>_. retS True))))))))"

definition db_flush :: "(db, unit) stm" where
  "db_flush = bindS (on_pool flushAll) (\<lambda>_ d. (Inr (), save_catalog d))"

text \<open>The destructor: \<open>flush\<close>, whatever it throws, and then the destructor of the buffer pool.\<close>

definition db_destroy :: "db \<Rightarrow> db" where
  "db_destroy d = (let d' = snd (db_flush d) in d'\<lparr>dpool := pool_destroy (dpool d')\<rparr>)"

section \<open>Recovery\<close>

text \<open>\<open>std::max(max_txn, r.txid)\<close> over the log, from 0, and the committed transactions.\<close>

definition max_txid :: "logrec list \<Rightarrow> int" where
  "max_txid rs = foldl (\<lambda>m r. max m (ltxid r)) 0 rs"

definition committed_txns :: "logrec list \<Rightarrow> int list" where
  "committed_txns rs = map ltxid (filter (\<lambda>r. ltype r = LCommit) rs)"

definition redo_one :: "logrec \<Rightarrow> (db, unit) stm" where
  "redo_one r = (\<lambda>d. case map_of (dtables d) (ltable r) of
     None \<Rightarrow> (Inr (), d)
   | Some t \<Rightarrow> (case ltype r of
       LInsert \<Rightarrow> bindS (liftS (bp_search (lpk r) (tindex t))) (\<lambda>x.
          if x = None then physInsert (ltable r) (lpk r) (limage r) else retS ()) d
     | LDelete \<Rightarrow> bindS (liftS (bp_search (lpk r) (tindex t))) (\<lambda>x.
          if x \<noteq> None then physDelete (ltable r) (lpk r) else retS ()) d
     | _ \<Rightarrow> (Inr (), d)))"

definition undo_loser :: "logrec \<Rightarrow> (db, unit) stm" where
  "undo_loser r = (\<lambda>d. case map_of (dtables d) (ltable r) of
     None \<Rightarrow> (Inr (), d)
   | Some t \<Rightarrow> (case ltype r of
       LInsert \<Rightarrow> bindS (liftS (bp_search (lpk r) (tindex t))) (\<lambda>x.
          if x \<noteq> None then physDelete (ltable r) (lpk r) else retS ()) d
     | LDelete \<Rightarrow> bindS (liftS (bp_search (lpk r) (tindex t))) (\<lambda>x.
          if x = None then physInsert (ltable r) (lpk r) (limage r) else retS ()) d
     | _ \<Rightarrow> (Inr (), d)))"

fun redo_pass :: "int list \<Rightarrow> logrec list \<Rightarrow> (db, unit) stm" where
  "redo_pass com [] = retS ()"
| "redo_pass com (r # rs) =
     bindS (if ltxid r \<in> set com then redo_one r else retS ()) (\<lambda>_. redo_pass com rs)"

fun undo_pass :: "int list \<Rightarrow> logrec list \<Rightarrow> (db, unit) stm" where
  "undo_pass com [] = retS ()"
| "undo_pass com (r # rs) =
     bindS (if ltxid r \<in> set com then retS () else undo_loser r) (\<lambda>_. undo_pass com rs)"

definition recover_log :: "logrec list \<Rightarrow> (db, unit) stm" where
  "recover_log rs =
     (if rs = [] then retS ()
      else bindS (\<lambda>d. (Inr (), d\<lparr>next_txn := max_txid rs + 1\<rparr>)) (\<lambda>_.
           bindS (redo_pass (committed_txns rs) rs) (\<lambda>_.
           bindS (undo_pass (committed_txns rs) (rev rs)) (\<lambda>_.
           bindS db_flush (\<lambda>_ d. (Inr (), d\<lparr>dwal := wal_reset (dwal d)\<rparr>))))))"

definition recover :: "(db, unit) stm" where
  "recover = (\<lambda>d. case readAll (dwal d) of Inl e \<Rightarrow> (Inl e, d) | Inr rs \<Rightarrow> recover_log rs d)"

text \<open>The constructor, from the bytes of the three files.\<close>

definition db_start :: "string \<Rightarrow> string option \<Rightarrow> string \<Rightarrow> db" where
  "db_start dat cat wal = \<lparr>dpool = pool_new (disk_open dat) FRAMES, dtables = [], dcat = cat, dwal = wal,
     cur_txn = INVALID_TXN, next_txn = 1, autocommit = False, undos = []\<rparr>"

definition db_open :: "string \<Rightarrow> string option \<Rightarrow> string \<Rightarrow> (db_error + unit) \<times> db" where
  "db_open dat cat wal = bindS (on_pool (cat_load cat)) (\<lambda>ts d. recover (d\<lparr>dtables := ts\<rparr>)) (db_start dat cat wal)"

section \<open>The abstract database\<close>

text \<open>
  A database is a map from table names to maps from keys to row images. Each physical operation,
  transaction step and recovery pass has its counterpart on this state.
\<close>

type_synonym adb = "string \<Rightarrow> (int \<Rightarrow> string option) option"

definition a_put :: "string \<Rightarrow> int \<Rightarrow> string option \<Rightarrow> adb \<Rightarrow> adb" where
  "a_put n pk v A = (case A n of None \<Rightarrow> A | Some m \<Rightarrow> A(n \<mapsto> m(pk := v)))"

definition a_get :: "adb \<Rightarrow> string \<Rightarrow> int \<Rightarrow> string option" where
  "a_get A n pk = Option.bind (A n) (\<lambda>m. m pk)"

definition db_contents :: "db \<Rightarrow> adb" where
  "db_contents d = contents (dpool d) (dtables d)"

definition db_schemas :: "db \<Rightarrow> string \<Rightarrow> schema option" where
  "db_schemas d n = map_option tschema (map_of (dtables d) n)"

definition db_ok :: "db \<Rightarrow> bool" where
  "db_ok d \<longleftrightarrow> reg_ok (dpool d) (dtables d)"

text \<open>An image the table can hold under the key.\<close>

definition image_ok :: "schema \<Rightarrow> int \<Rightarrow> string \<Rightarrow> bool" where
  "image_ok cols pk img \<longleftrightarrow> key_of cols img = Inr pk \<and> tuple_fits img"

text \<open>The part of a session no physical operation touches.\<close>

definition session :: "db \<Rightarrow> string \<times> int \<times> int \<times> bool \<times> undo list" where
  "session d = (dwal d, cur_txn d, next_txn d, autocommit d, undos d)"

lemma t_ok_insert:
  assumes ok: "t_ok bp t" and free: "t_map bp t pk = None" and img: "key_of (tschema t) img = Inr pk" "tuple_fits img"
  obtains rid pages bq idx where "heap_insert (tpages t) img (length img) bp = (Inr (rid, pages), bq)"
    "bp_insert pk rid (tindex t) = Inr idx"
    "t_ok bq (t\<lparr>tpages := pages, tindex := idx\<rparr>)"
    "t_map bq (t\<lparr>tpages := pages, tindex := idx\<rparr>) = (t_map bp t)(pk \<mapsto> img)"
    "same_outside (set (tpages t)) bp bq" "cache_inv bq"
    "pages = tpages t \<or> (\<exists>p. pages = tpages t @ [p] \<and> \<not> known_page bp p)"
proof -
  obtain rid pages bq where h: "heap_insert (tpages t) img (length img) bp = (Inr (rid, pages), bq)"
      "heap_ok bq pages" "map_of (t_rows bp t) rid = None"
      "map_of (heap_rows (page_view bq) pages) = (map_of (t_rows bp t))(rid \<mapsto> img)"
      "pages = tpages t \<or> (\<exists>p. pages = tpages t @ [p] \<and> \<not> known_page bp p)"
      "same_outside (set (tpages t)) bp bq"
    using heap.ins_ok [OF t_okD(1) [OF ok] img(2)] unfolding t_rows_def by blast
  obtain idx where i: "bp_insert pk rid (tindex t) = Inr idx" "bp_inv idx"
      "map_of (bp_entries idx) = (map_of (bp_entries (tindex t)))(pk \<mapsto> rid)"
    using pk_index.ins_ok [OF t_okD(2) [OF ok]] by blast
  let ?t = "t\<lparr>tpages := pages, tindex := idx\<rparr>"
  have rows: "map_of (t_rows bq ?t) = (map_of (t_rows bp t))(rid \<mapsto> img)"
    using h(4) by (simp add: t_rows_def)
  have nopk: "map_of (bp_entries (tindex t)) pk = None"
    using t_map_None [OF ok] free pk_index.look_ok [OF t_okD(2) [OF ok]] by simp
  have norid: "map_of (bp_entries (tindex t)) k \<noteq> Some rid" for k
    using t_okD(3) [OF ok, of k rid] h(3) by simp
  have iff: "map_of (bp_entries idx) k = Some r \<longleftrightarrow>
      (\<exists>b. map_of (t_rows bq ?t) r = Some b \<and> key_of (tschema t) b = Inr k)" for k r
  proof (cases "r = rid")
    case True
    then show ?thesis using rows i(3) img(1) norid [of k] by auto
  next
    case False
    then show ?thesis using rows i(3) t_okD(3) [OF ok, of k r] nopk by auto
  qed
  have "\<exists>k. key_of (tschema t) b = Inr k" if "map_of (t_rows bq ?t) r = Some b" for r b
    using that rows t_okD(4) [OF ok, of r b] img(1) by (cases "r = rid") auto
  then have "t_ok bq ?t" using h(2) i(2) iff by (simp add: t_ok_def)
  moreover have "t_map bq ?t = (t_map bp t)(pk \<mapsto> img)"
  proof (rule ext)
    fix k
    show "t_map bq ?t k = ((t_map bp t)(pk \<mapsto> img)) k"
      using norid [of k] by (cases "map_of (bp_entries (tindex t)) k") (auto simp: t_map_def i(3) rows)
  qed
  moreover have "cache_inv bq" using h(2) by (simp add: heap_ok_def)
  ultimately show thesis using that h i by blast
qed

lemma t_ok_erase:
  assumes ok: "t_ok bp t" and rid: "map_of (bp_entries (tindex t)) pk = Some rid"
  obtains bq idx where "heap_erase rid bp = (Inr (), bq)" "bp_erase pk (tindex t) = Inr idx"
    "t_ok bq (t\<lparr>tindex := idx\<rparr>)" "t_map bq (t\<lparr>tindex := idx\<rparr>) = (t_map bp t)(pk := None)"
    "same_outside (set (tpages t)) bp bq" "cache_inv bq"
proof -
  obtain b where b: "map_of (t_rows bp t) rid = Some b" "key_of (tschema t) b = Inr pk"
    using t_okD(3) [OF ok, of pk rid] rid by auto
  obtain bq where h: "heap_erase rid bp = (Inr (), bq)" "heap_ok bq (tpages t)"
      "map_of (heap_rows (page_view bq) (tpages t)) = (map_of (t_rows bp t))(rid := None)"
      "same_outside (set (tpages t)) bp bq"
    using heap.del_ok [OF t_okD(1) [OF ok]] b(1) unfolding t_rows_def by blast
  obtain idx where i: "bp_erase pk (tindex t) = Inr idx" "bp_inv idx"
      "map_of (bp_entries idx) = (map_of (bp_entries (tindex t)))(pk := None)"
    using pk_index.del_ok [OF t_okD(2) [OF ok]] by blast
  let ?t = "t\<lparr>tindex := idx\<rparr>"
  have rows: "map_of (t_rows bq ?t) = (map_of (t_rows bp t))(rid := None)"
    using h(3) by (simp add: t_rows_def)
  have only: "k = pk" if "map_of (bp_entries (tindex t)) k = Some rid" for k
    using t_okD(3) [OF ok, of k rid] that b by auto
  have iff: "map_of (bp_entries idx) k = Some r \<longleftrightarrow>
      (\<exists>b. map_of (t_rows bq ?t) r = Some b \<and> key_of (tschema t) b = Inr k)" for k r
  proof (cases "r = rid")
    case True
    then show ?thesis using rows i(3) only [of k] by auto
  next
    case False
    then show ?thesis using rows i(3) t_okD(3) [OF ok, of k r] rid by auto
  qed
  have "\<exists>k. key_of (tschema t) b = Inr k" if "map_of (t_rows bq ?t) r = Some b" for r b
    using that rows t_okD(4) [OF ok, of r b] by (cases "r = rid") auto
  then have "t_ok bq ?t" using h(2) i(2) iff by (simp add: t_ok_def)
  moreover have "t_map bq ?t = (t_map bp t)(pk := None)"
  proof (rule ext)
    fix k
    show "t_map bq ?t k = ((t_map bp t)(pk := None)) k"
      using only [of k] by (cases "map_of (bp_entries (tindex t)) k") (auto simp: t_map_def i(3) rows)
  qed
  moreover have "cache_inv bq" using h(2) by (simp add: heap_ok_def)
  ultimately show thesis using that h i by blast
qed


section \<open>Refinement of the physical operations\<close>

text \<open>The outcome of a physical operation: the new contents, and nothing else that is observable.\<close>

definition phys :: "db \<Rightarrow> db \<Rightarrow> adb \<Rightarrow> bool" where
  "phys d d' A \<longleftrightarrow> db_ok d' \<and> db_contents d' = A \<and> db_schemas d' = db_schemas d \<and> session d' = session d"

lemma physD:
  assumes "phys d d' A"
  shows "db_ok d'" "db_contents d' = A" "db_schemas d' = db_schemas d" "session d' = session d"
    "dwal d' = dwal d" "cur_txn d' = cur_txn d" "next_txn d' = next_txn d" "autocommit d' = autocommit d" "undos d' = undos d"
  using assms by (simp_all add: phys_def session_def)

lemma phys_refl: "db_ok d \<Longrightarrow> phys d d (db_contents d)"
  by (simp add: phys_def)

lemma phys_trans: "phys a b A \<Longrightarrow> phys b c B \<Longrightarrow> phys a c B"
  by (simp add: phys_def)

lemma db_contents_table:
  "map_of (dtables d) n = Some t \<Longrightarrow> db_contents d n = Some (t_map (dpool d) t)"
  by (simp add: db_contents_def contents_def)

lemma a_get_table: "map_of (dtables d) n = Some t \<Longrightarrow> a_get (db_contents d) n = t_map (dpool d) t"
  by (rule ext) (simp add: a_get_def db_contents_table)

lemma db_table_ok: "db_ok d \<Longrightarrow> map_of (dtables d) n = Some t \<Longrightarrow> t_ok (dpool d) t \<and> tname t = n"
  using reg_okD by (auto simp: db_ok_def)

lemma db_search:
  assumes "db_ok d" "map_of (dtables d) n = Some t"
  obtains r where "bp_search pk (tindex t) = Inr r" "r = None \<longleftrightarrow> a_get (db_contents d) n pk = None"
    "r = map_of (bp_entries (tindex t)) pk"
proof -
  have ok: "t_ok (dpool d) t" using db_table_ok [OF assms] by simp
  have "bp_search pk (tindex t) = Inr (map_of (bp_entries (tindex t)) pk)"
    using pk_index.look_ok [OF t_okD(2) [OF ok]] .
  then show thesis using that t_map_None [OF ok, of pk] a_get_table [OF assms(2)] by simp
qed

text \<open>Installing a changed table.\<close>

lemma phys_put:
  assumes d: "db_ok d" and n: "map_of (dtables d) n = Some t"
    and d': "dpool d' = bq" "dtables d' = put_table n t' (dtables d)" "session d' = session d"
    and t': "t_ok bq t'" "t_map bq t' = (t_map (dpool d) t)(pk := v)" "tname t' = tname t" "tschema t' = tschema t"
    and out: "same_outside (set (tpages t)) (dpool d) bq" "cache_inv bq"
    and pages: "tpages t' = tpages t \<or> (\<exists>p. tpages t' = tpages t @ [p] \<and> \<not> known_page (dpool d) p)"
  shows "phys d d' (a_put n pk v (db_contents d))"
proof -
  have reg: "reg_ok (dpool d) (dtables d)" using d by (simp add: db_ok_def)
  have tn: "tname t' = n" using t'(3) reg_okD(1) [OF reg n] by simp
  note put = reg_ok_put [OF reg n t'(1) tn out pages]
  have "db_contents d' = a_put n pk v (db_contents d)"
    using put(2) d' t'(2) db_contents_table [OF n] by (simp add: db_contents_def a_put_def)
  moreover have "db_schemas d' = db_schemas d"
    using d'(2) n t'(4) by (auto simp: db_schemas_def map_of_put_table fun_eq_iff)
  ultimately show ?thesis using put(1) d' by (simp add: phys_def db_ok_def)
qed

lemma put_table_put: "put_table n u (put_table n t ts) = put_table n u ts"
  by (induction n t ts rule: put_table.induct) auto

lemma u16_fits: "tuple_fits img \<Longrightarrow> u16 (length img) = length img"
  by (simp add: tuple_fits_def page_consts)

lemma physInsert_ok:
  assumes d: "db_ok d" and n: "map_of (dtables d) n = Some t" and free: "a_get (db_contents d) n pk = None"
    and img: "image_ok (tschema t) pk img"
  obtains d' where "physInsert n pk img d = (Inr (), d')" "phys d d' (a_put n pk (Some img) (db_contents d))"
proof -
  have ok: "t_ok (dpool d) t" using db_table_ok [OF d n] by simp
  have fr: "t_map (dpool d) t pk = None" using free a_get_table [OF n] by simp
  have im: "key_of (tschema t) img = Inr pk" "tuple_fits img" using img by (simp_all add: image_ok_def)
  obtain rid pages bq idx where h: "heap_insert (tpages t) img (length img) (dpool d) = (Inr (rid, pages), bq)"
    "bp_insert pk rid (tindex t) = Inr idx"
    "t_ok bq (t\<lparr>tpages := pages, tindex := idx\<rparr>)"
    "t_map bq (t\<lparr>tpages := pages, tindex := idx\<rparr>) = (t_map (dpool d) t)(pk \<mapsto> img)"
    "same_outside (set (tpages t)) (dpool d) bq" "cache_inv bq"
    "pages = tpages t \<or> (\<exists>p. pages = tpages t @ [p] \<and> \<not> known_page (dpool d) p)"
    by (rule t_ok_insert [OF ok fr im]) (rule that)
  let ?t = "t\<lparr>tpages := pages, tindex := idx\<rparr>"
  define d1 where "d1 = (if pages \<noteq> tpages t then save_catalog (set_table n (t\<lparr>tpages := pages\<rparr>) (d\<lparr>dpool := bq\<rparr>))
    else d\<lparr>dpool := bq\<rparr>)"
  define d' where "d' = set_table n ?t d1"
  have "physInsert n pk img d = (Inr (), d')"
    using n h(1,2) u16_fits [OF im(2)]
    by (simp add: physInsert_def with_table_def on_pool_def bindS_def d'_def d1_def Let_def)
  moreover have "dpool d' = bq" "dtables d' = put_table n ?t (dtables d)" "session d' = session d"
    by (simp_all add: d'_def d1_def set_table_def save_catalog_def session_def put_table_put)
  from phys_put [OF d n this h(3,4)] have "phys d d' (a_put n pk (Some img) (db_contents d))"
    using h(5-7) by simp
  ultimately show thesis using that by blast
qed

lemma erase_row_ok:
  assumes d: "db_ok d" and n: "map_of (dtables d) n = Some t" and rid: "map_of (bp_entries (tindex t)) pk = Some rid"
  obtains d' where "erase_row n pk rid d = (Inr (), d')" "phys d d' (a_put n pk None (db_contents d))"
proof -
  have ok: "t_ok (dpool d) t" using db_table_ok [OF d n] by simp
  obtain bq idx where h: "heap_erase rid (dpool d) = (Inr (), bq)" "bp_erase pk (tindex t) = Inr idx"
    "t_ok bq (t\<lparr>tindex := idx\<rparr>)" "t_map bq (t\<lparr>tindex := idx\<rparr>) = (t_map (dpool d) t)(pk := None)"
    "same_outside (set (tpages t)) (dpool d) bq" "cache_inv bq"
    by (rule t_ok_erase [OF ok rid]) (rule that)
  let ?t = "t\<lparr>tindex := idx\<rparr>" and ?d = "set_table n (t\<lparr>tindex := idx\<rparr>) (d\<lparr>dpool := bq\<rparr>)"
  have "erase_row n pk rid d = (Inr (), ?d)"
    using n h(1,2) by (simp add: erase_row_def with_table_def on_pool_def bindS_def)
  moreover have "dpool ?d = bq" "dtables ?d = put_table n ?t (dtables d)" "session ?d = session d"
    by (simp_all add: set_table_def session_def)
  from phys_put [OF d n this h(3,4)] have "phys d ?d (a_put n pk None (db_contents d))"
    using h(5,6) by simp
  ultimately show thesis using that by blast
qed

lemma a_put_None_id: "a_get A n pk = None \<Longrightarrow> a_put n pk None A = A"
  by (auto simp: a_put_def a_get_def fun_eq_iff split: option.split)

lemma physDelete_ok:
  assumes d: "db_ok d" and n: "map_of (dtables d) n = Some t"
  obtains d' where "physDelete n pk d = (Inr (), d')" "phys d d' (a_put n pk None (db_contents d))"
proof -
  obtain r where r: "bp_search pk (tindex t) = Inr r" "r = None \<longleftrightarrow> a_get (db_contents d) n pk = None"
      "r = map_of (bp_entries (tindex t)) pk"
    using db_search [OF d n] .
  show thesis
  proof (cases r)
    case None
    then have "physDelete n pk d = (Inr (), d)" using n r(1) by (simp add: physDelete_def with_table_def)
    moreover have "a_put n pk None (db_contents d) = db_contents d" using None r(2) by (simp add: a_put_None_id)
    ultimately show thesis using that phys_refl [OF d] by simp
  next
    case (Some rid)
    then have "map_of (bp_entries (tindex t)) pk = Some rid" using r(3) by simp
    from erase_row_ok [OF d n this] obtain d' where "erase_row n pk rid d = (Inr (), d')"
        "phys d d' (a_put n pk None (db_contents d))" .
    moreover have "physDelete n pk d = erase_row n pk rid d"
      using n r(1) Some by (simp add: physDelete_def with_table_def)
    ultimately show thesis using that by simp
  qed
qed

section \<open>Transactions on the abstract database\<close>

definition a_undo :: "undo \<Rightarrow> adb \<Rightarrow> adb" where
  "a_undo u A = a_put (u_table u) (u_pk u) (if u_insert u then None else Some (u_image u)) A"

text \<open>An undo list that can be replayed: a row to put back has a free key and an image that fits.\<close>

fun undo_valid :: "(string \<Rightarrow> schema option) \<Rightarrow> undo list \<Rightarrow> adb \<Rightarrow> bool" where
  "undo_valid sch [] A = True"
| "undo_valid sch (u # us) A =
     ((case sch (u_table u) of None \<Rightarrow> False | Some cols \<Rightarrow>
        \<not> u_insert u \<longrightarrow> a_get A (u_table u) (u_pk u) = None \<and> image_ok cols (u_pk u) (u_image u))
      \<and> undo_valid sch us (a_undo u A))"

lemma db_schemas_Some: "db_schemas d n = Some cols \<longleftrightarrow> (\<exists>t. map_of (dtables d) n = Some t \<and> tschema t = cols)"
  by (auto simp: db_schemas_def)

lemma undo_all_ok:
  "db_ok d \<Longrightarrow> undo_valid (db_schemas d) us (db_contents d) \<Longrightarrow>
    \<exists>d'. undo_all us d = (Inr (), d') \<and> phys d d' (fold a_undo us (db_contents d))"
proof (induction us arbitrary: d)
  case Nil
  then show ?case by (simp add: phys_refl)
next
  case (Cons u us)
  obtain t where t: "map_of (dtables d) (u_table u) = Some t"
      and v: "\<not> u_insert u \<longrightarrow> a_get (db_contents d) (u_table u) (u_pk u) = None \<and> image_ok (tschema t) (u_pk u) (u_image u)"
      and vs: "undo_valid (db_schemas d) us (a_undo u (db_contents d))"
    using Cons.prems(2) by (auto simp: db_schemas_Some split: option.splits)
  have "\<exists>d1. undo_one u d = (Inr (), d1) \<and> phys d d1 (a_undo u (db_contents d))"
  proof (cases "u_insert u")
    case True
    obtain d1 where "physDelete (u_table u) (u_pk u) d = (Inr (), d1)"
        "phys d d1 (a_put (u_table u) (u_pk u) None (db_contents d))"
      by (rule physDelete_ok [OF Cons.prems(1) t]) (rule that)
    then show ?thesis using True t by (simp add: undo_one_def a_undo_def)
  next
    case False
    then have "a_get (db_contents d) (u_table u) (u_pk u) = None" "image_ok (tschema t) (u_pk u) (u_image u)"
      using v by auto
    from physInsert_ok [OF Cons.prems(1) t this]
    obtain d1 where "physInsert (u_table u) (u_pk u) (u_image u) d = (Inr (), d1)"
        "phys d d1 (a_put (u_table u) (u_pk u) (Some (u_image u)) (db_contents d))" .
    then show ?thesis using False t by (simp add: undo_one_def a_undo_def)
  qed
  then obtain d1 where d1: "undo_one u d = (Inr (), d1)" "phys d d1 (a_undo u (db_contents d))" by blast
  have "undo_valid (db_schemas d1) us (db_contents d1)" using vs physD(2,3) [OF d1(2)] by simp
  from Cons.IH [OF physD(1) [OF d1(2)] this] obtain d2 where
    d2: "undo_all us d1 = (Inr (), d2)" "phys d1 d2 (fold a_undo us (db_contents d1))" by blast
  have "undo_all (u # us) d = (Inr (), d2)" using d1(1) d2(1) by (simp add: bindS_def)
  then show ?case using phys_trans [OF d1(2) d2(2)] physD(2) [OF d1(2)] by simp
qed


section \<open>Statements\<close>

text \<open>Rows as \<open>Executor::runInsert\<close> lets them through, and tables as \<open>runCreate\<close> does.\<close>

definition row_typed :: "schema \<Rightarrow> val list \<Rightarrow> bool" where
  "row_typed cols row \<longleftrightarrow> list_all2 (\<lambda>c v. val_ok v \<and> v_type v = ctyp c \<and> in_int64 (v_i v)) cols row"

definition keyed :: "schema \<Rightarrow> bool" where
  "keyed cols \<longleftrightarrow> cols \<noteq> [] \<and> ctyp (hd cols) = T_INT"

lemma row_typed_length: "row_typed cols row \<Longrightarrow> length row = length cols"
  unfolding row_typed_def by (auto dest: list_all2_lengthD)

lemma row_typed_cases:
  assumes "row_typed cols row"
  shows "row_ok cols row \<or> serialize cols row = Inl (RuntimeError ''TEXT value too long (max 65535 bytes)'')"
proof (cases "serialize cols row")
  case (Inl e)
  then show ?thesis
    using row_typed_length [OF assms] ser_cols_error [of row cols e] by (auto simp: serialize_def)
next
  case (Inr img)
  have ints: "list_all (\<lambda>v. in_int64 (v_i v)) row"
    using assms unfolding row_typed_def by (induction rule: list_all2_induct) auto
  have "list_all2 storable cols row"
    using Inr row_typed_length [OF assms] ser_ok_storable [OF _ _ ints] by (simp add: serialize_def)
  then have "row_ok cols row"
    using assms by (simp add: row_ok_def row_typed_def list_all2_conv_all_nth)
  then show ?thesis by simp
qed

lemma keyed_image:
  assumes k: "keyed cols" and r: "row_ok cols row"
  obtains img pk where "serialize cols row = Inr img" "primaryKey row = Inr pk" "key_of cols img = Inr pk" "8 \<le> length img"
proof -
  obtain img where i: "serialize cols row = Inr img" "deserialize cols img = Inr row"
    by (rule serialize_ok [OF r]) (rule that)
  obtain c cs where c: "cols = c # cs" "ctyp c = T_INT" using k by (cases cols) (auto simp: keyed_def)
  obtain v vs where v: "row = v # vs" using r c by (auto simp: row_ok_def list_all2_Cons1)
  have "8 \<le> length img" using i(1) c v by (auto simp: serialize_def bindE_Inr_iff split: if_splits)
  then show thesis using that i v by (simp add: key_of_def primaryKey_def)
qed

text \<open>The state of an open transaction: its undo list leads back to the contents it began with.\<close>

definition txn_inv :: "adb \<Rightarrow> db \<Rightarrow> bool" where
  "txn_inv A d \<longleftrightarrow> db_ok d \<and> undo_valid (db_schemas d) (rev (undos d)) (db_contents d)
     \<and> fold a_undo (rev (undos d)) (db_contents d) = A"

lemma a_put_undo: "a_get A n pk = v \<Longrightarrow> a_put n pk v (a_put n pk w A) = A"
  by (auto simp: a_put_def a_get_def fun_eq_iff split: option.split)

lemma a_get_put: "A n \<noteq> None \<Longrightarrow> a_get (a_put n pk v A) m k = (if m = n \<and> k = pk then v else a_get A m k)"
  by (auto simp: a_put_def a_get_def split: option.split)

lemma tables_contents: "map_of (dtables d) n = Some t \<Longrightarrow> db_contents d n \<noteq> None"
  by (simp add: db_contents_table)

definition insert_undo :: "string \<Rightarrow> int \<Rightarrow> string \<Rightarrow> undo" where
  "insert_undo n pk img = \<lparr>u_insert = True, u_table = n, u_pk = pk, u_image = img\<rparr>"

definition delete_undo :: "string \<Rightarrow> int \<Rightarrow> string \<Rightarrow> undo" where
  "delete_undo n pk img = \<lparr>u_insert = False, u_table = n, u_pk = pk, u_image = img\<rparr>"

text \<open>An INSERT inside an open transaction, on each of its branches.\<close>

lemma insertRow_serialized:
  assumes d: "db_ok d" and n: "map_of (dtables d) n = Some t" and c: "cur_txn d \<noteq> INVALID_TXN"
    and k: "keyed (tschema t)" and rok: "row_ok (tschema t) row"
    and small: "\<And>img. serialize (tschema t) row = Inr img \<Longrightarrow> length img < 65536"
    and pk: "primaryKey row = Inr pk" and x: "bp_search pk (tindex t) = Inr None" and free: "a_get (db_contents d) n pk = None"
  shows "(\<exists>e d'. insertRow n row d = (Inl e, d') \<and> phys d (d'\<lparr>dwal := dwal d\<rparr>) (db_contents d))
    \<or> (\<exists>pk img d' d''. insertRow n row d = (Inr (), d'') \<and> primaryKey row = Inr pk
        \<and> serialize (tschema t) row = Inr img \<and> image_ok (tschema t) pk img
        \<and> a_get (db_contents d) n pk = None
        \<and> phys (d\<lparr>dwal := logInsert (cur_txn d) n pk img (dwal d)\<rparr>) d' (a_put n pk (Some img) (db_contents d))
        \<and> d'' = d'\<lparr>undos := undos d' @ [insert_undo n pk img]\<rparr>)"
proof -
  have tn: "tname t = n" using db_table_ok [OF d n] by simp
  have ens: "ensureTxn d = (Inr False, d)" using c by (simp add: ensureTxn_def)
  obtain img pk' where img: "serialize (tschema t) row = Inr img" "primaryKey row = Inr pk'"
      "key_of (tschema t) img = Inr pk'" "8 \<le> length img"
    by (rule keyed_image [OF k rok]) (rule that)
  have pk': "pk' = pk" using img(2) pk by simp
  let ?d1 = "d\<lparr>dwal := logInsert (cur_txn d) n pk img (dwal d)\<rparr>"
  have d1: "db_ok ?d1" "map_of (dtables ?d1) n = Some t" "db_contents ?d1 = db_contents d"
    using d n by (simp_all add: db_ok_def db_contents_def)
  have u: "u16 (length img) = length img" using small [OF img(1)] by (simp add: u16_def)
  have run: "insertRow n row d = bindS (physInsert n pk img) (\<lambda>_. bindS (push_undo (insert_undo n pk img)) (\<lambda>_. maybeAutoCommit False)) ?d1"
    using n pk x ens img(1) tn
    by (simp add: insertRow_def with_table_def bindS_def log_write_def insert_undo_def)
  show ?thesis
  proof (cases "tuple_fits img")
    case False
    then have big: "length img + HEADER_SIZE + SLOT_SIZE > PAGE_SIZE" using img(4) by (auto simp: tuple_fits_def)
    have "physInsert n pk img ?d1 = (Inl (RuntimeError ''tuple too large for a page''), ?d1)"
      using d1(2) big u by (simp add: physInsert_def with_table_def on_pool_def bindS_def heap_insert_def)
    then have "insertRow n row d = (Inl (RuntimeError ''tuple too large for a page''), ?d1)"
      unfolding run by (simp add: bindS_def)
    moreover have "?d1\<lparr>dwal := dwal d\<rparr> = d" by (cases d) simp
    ultimately show ?thesis using phys_refl [OF d] by metis
  next
    case True
    then have im: "image_ok (tschema t) pk img" using img(3) pk' by (simp add: image_ok_def)
    have "a_get (db_contents ?d1) n pk = None" using free d1(3) by simp
    from physInsert_ok [OF d1(1,2) this im] obtain d' where
      d': "physInsert n pk img ?d1 = (Inr (), d')" "phys ?d1 d' (a_put n pk (Some img) (db_contents ?d1))" .
    have "insertRow n row d = (Inr (), d'\<lparr>undos := undos d' @ [insert_undo n pk img]\<rparr>)"
      unfolding run using d'(1) by (simp add: bindS_def push_undo_def maybeAutoCommit_def)
    then show ?thesis using pk img(1) im free d'(2) d1(3) by metis
  qed
qed

lemma insertRow_open:
  assumes d: "db_ok d" and n: "map_of (dtables d) n = Some t" and c: "cur_txn d \<noteq> INVALID_TXN"
    and k: "keyed (tschema t)" and r: "row_typed (tschema t) row"
    and small: "\<And>img. serialize (tschema t) row = Inr img \<Longrightarrow> length img < 65536"
  shows "(\<exists>e d'. insertRow n row d = (Inl e, d') \<and> phys d (d'\<lparr>dwal := dwal d\<rparr>) (db_contents d))
    \<or> (\<exists>pk img d' d''. insertRow n row d = (Inr (), d'') \<and> primaryKey row = Inr pk
        \<and> serialize (tschema t) row = Inr img \<and> image_ok (tschema t) pk img
        \<and> a_get (db_contents d) n pk = None
        \<and> phys (d\<lparr>dwal := logInsert (cur_txn d) n pk img (dwal d)\<rparr>) d' (a_put n pk (Some img) (db_contents d))
        \<and> d'' = d'\<lparr>undos := undos d' @ [insert_undo n pk img]\<rparr>)"
proof -
  obtain v vs where v: "row = v # vs" using r k by (cases row) (auto simp: row_typed_def keyed_def)
  define pk where "pk = v_i v"
  have pk: "primaryKey row = Inr pk" by (simp add: v primaryKey_def pk_def)
  obtain x where x: "bp_search pk (tindex t) = Inr x" "x = None \<longleftrightarrow> a_get (db_contents d) n pk = None"
    using db_search [OF d n] .
  have ens: "ensureTxn d = (Inr False, d)" using c by (simp add: ensureTxn_def)
  show ?thesis
  proof (cases "x = None")
    case False
    then have "insertRow n row d = (Inl (RuntimeError (''duplicate primary key: '' @ dec_of_int pk)), d)"
      using n pk x(1) by (simp add: insertRow_def with_table_def)
    then show ?thesis using phys_refl [OF d] by auto
  next
    case True
    then have free: "a_get (db_contents d) n pk = None" using x(2) by simp
    show ?thesis
    proof (cases "row_ok (tschema t) row")
      case False
      then have "serialize (tschema t) row = Inl (RuntimeError ''TEXT value too long (max 65535 bytes)'')"
        using row_typed_cases [OF r] by simp
      then have "insertRow n row d = (Inl (RuntimeError ''TEXT value too long (max 65535 bytes)''), d)"
        using n pk x(1) True ens by (simp add: insertRow_def with_table_def bindS_def)
      then show ?thesis using phys_refl [OF d] by auto
    next
      case rok: True
      show ?thesis
        using insertRow_serialized [OF d n c k rok small pk _ free] x(1) True by simp
    qed
  qed
qed

lemma deleteByKey_open:
  assumes d: "db_ok d" and n: "map_of (dtables d) n = Some t" and c: "cur_txn d \<noteq> INVALID_TXN"
  shows "deleteByKey n pk d = (Inr False, d) \<and> a_get (db_contents d) n pk = None
    \<or> (\<exists>img dp d' d''. deleteByKey n pk d = (Inr True, d'') \<and> a_get (db_contents d) n pk = Some img
        \<and> image_ok (tschema t) pk img
        \<and> phys (d\<lparr>dpool := dp, dwal := logDelete (cur_txn d) n pk img (dwal d)\<rparr>) d' (a_put n pk None (db_contents d))
        \<and> db_schemas d' = db_schemas d
        \<and> d'' = d'\<lparr>undos := undos d' @ [delete_undo n pk img]\<rparr>)"
proof -
  have ok: "t_ok (dpool d) t" and tn: "tname t = n" using db_table_ok [OF d n] by auto
  have ag: "a_get (db_contents d) n = t_map (dpool d) t" by (rule a_get_table [OF n])
  have se: "bp_search pk (tindex t) = Inr (map_of (bp_entries (tindex t)) pk)"
    using pk_index.look_ok [OF t_okD(2) [OF ok]] .
  have ens: "ensureTxn e = (Inr False, e)" if "cur_txn e \<noteq> INVALID_TXN" for e using that by (simp add: ensureTxn_def)
  show ?thesis
  proof (cases "map_of (bp_entries (tindex t)) pk")
    case None
    then show ?thesis using n se ag by (simp add: deleteByKey_def with_table_def t_map_def)
  next
    case (Some rid)
    obtain img where img: "map_of (t_rows (dpool d) t) rid = Some img" "key_of (tschema t) img = Inr pk"
      using t_okD(3) [OF ok, of pk rid] Some by auto
    have g: "a_get (db_contents d) n pk = Some img" using ag Some img(1) by (simp add: t_map_def)
    have fit: "tuple_fits img" using heap_row_fits [OF t_okD(1) [OF ok]] img(1) by (simp add: t_rows_def)
    obtain dp where dp: "heap_get rid (dpool d) = (Inr (Some img), dp)" "heap_ok dp (tpages t)"
        "same_outside {} (dpool d) dp"
      using heap.look_ok [OF t_okD(1) [OF ok]] img(1) unfolding t_rows_def by blast
    have inv: "cache_inv dp" using dp(2) by (simp add: heap_ok_def)
    let ?d1 = "d\<lparr>dpool := dp, dwal := logDelete (cur_txn d) n pk img (dwal d)\<rparr>"
    have same: "t_ok dp u" "t_map dp u = t_map (dpool d) u" if "t_ok (dpool d) u" for u
      using t_ok_frame [OF that dp(3) inv] by auto
    have reg: "reg_ok (dpool d) (dtables d)" using d by (simp add: db_ok_def)
    have ok1: "db_ok ?d1" using reg inv same(1) by (auto simp: db_ok_def reg_ok_def)
    have con1: "db_contents ?d1 = db_contents d"
    proof (rule ext)
      fix m show "db_contents ?d1 m = db_contents d m"
        using same(2) db_table_ok [OF d, of m] by (cases "map_of (dtables d) m") (auto simp: db_contents_def contents_def)
    qed
    have n1: "map_of (dtables ?d1) n = Some t" using n by simp
    from erase_row_ok [OF ok1 n1 Some] obtain d' where
      d': "erase_row n pk rid ?d1 = (Inr (), d')" "phys ?d1 d' (a_put n pk None (db_contents ?d1))" .
    have "deleteByKey n pk d = (Inr True, d'\<lparr>undos := undos d' @ [delete_undo n pk img]\<rparr>)"
      using n se Some dp(1) ens [of "d\<lparr>dpool := dp\<rparr>"] c d'(1) tn
      by (simp add: deleteByKey_def with_table_def bindS_def on_pool_def log_write_def push_undo_def
          maybeAutoCommit_def delete_undo_def)
    moreover have "image_ok (tschema t) pk img" using img(2) fit by (simp add: image_ok_def)
    moreover have "db_schemas d' = db_schemas d" using physD(3) [OF d'(2)] by (simp add: db_schemas_def fun_eq_iff)
    ultimately show ?thesis using g d'(2) con1 by metis
  qed
qed


section \<open>Statement sequences\<close>

datatype stmt = SInsert string "val list" | SDelete string int

text \<open>The caller catches an exception and goes on with the next statement in the state reached.\<close>

fun exec_stmt :: "stmt \<Rightarrow> db \<Rightarrow> db" where
  "exec_stmt (SInsert n row) d = snd (insertRow n row d)"
| "exec_stmt (SDelete n pk) d = snd (deleteByKey n pk d)"

fun run_stmts :: "stmt list \<Rightarrow> db \<Rightarrow> db" where
  "run_stmts [] d = d"
| "run_stmts (s # ss) d = run_stmts ss (exec_stmt s d)"

definition insertable :: "schema \<Rightarrow> val list \<Rightarrow> bool" where
  "insertable cols row \<longleftrightarrow> keyed cols \<and> row_typed cols row
     \<and> (case serialize cols row of Inr img \<Rightarrow> length img < 65536 | Inl _ \<Rightarrow> True)"

fun stmt_ok :: "(string \<Rightarrow> schema option) \<Rightarrow> stmt \<Rightarrow> bool" where
  "stmt_ok sch (SInsert n row) = (case sch n of None \<Rightarrow> False | Some cols \<Rightarrow> insertable cols row)"
| "stmt_ok sch (SDelete n pk) = (sch n \<noteq> None)"

lemma a_undo_insert:
  "a_get A n pk = None \<Longrightarrow> a_undo (insert_undo n pk img) (a_put n pk (Some img) A) = A"
  by (simp add: a_undo_def insert_undo_def a_put_undo)

lemma a_undo_delete:
  "a_get A n pk = Some img \<Longrightarrow> a_undo (delete_undo n pk img) (a_put n pk None A) = A"
  by (simp add: a_undo_def delete_undo_def a_put_undo)

lemma txn_inv_push:
  assumes inv: "txn_inv A d" and ok: "db_ok d'" and sch: "db_schemas d' = db_schemas d"
    and u: "undos d' = undos d @ [u]" and undoes: "a_undo u (db_contents d') = db_contents d"
    and v: "undo_valid (db_schemas d) [u] (db_contents d')"
  shows "txn_inv A d'"
  using assms by (auto simp: txn_inv_def split: option.splits)

lemma txn_insert:
  assumes inv: "txn_inv A d" and c: "cur_txn d \<noteq> INVALID_TXN" and s: "stmt_ok (db_schemas d) (SInsert n row)"
  shows "txn_inv A (exec_stmt (SInsert n row) d) \<and> cur_txn (exec_stmt (SInsert n row) d) = cur_txn d
    \<and> db_schemas (exec_stmt (SInsert n row) d) = db_schemas d"
proof -
  have d: "db_ok d" using inv by (simp add: txn_inv_def)
  obtain t where n: "map_of (dtables d) n = Some t" and ins: "insertable (tschema t) row"
    using s by (auto simp: db_schemas_Some split: option.splits)
  have i: "keyed (tschema t)" "row_typed (tschema t) row"
    "\<And>img. serialize (tschema t) row = Inr img \<Longrightarrow> length img < 65536"
    using ins by (auto simp: insertable_def)
  from insertRow_open [OF d n c i]
  consider (err) e d' where "insertRow n row d = (Inl e, d')" "phys d (d'\<lparr>dwal := dwal d\<rparr>) (db_contents d)"
    | (ok) pk img d' d'' where "insertRow n row d = (Inr (), d'')" "image_ok (tschema t) pk img"
        "a_get (db_contents d) n pk = None"
        "phys (d\<lparr>dwal := logInsert (cur_txn d) n pk img (dwal d)\<rparr>) d' (a_put n pk (Some img) (db_contents d))"
        "d'' = d'\<lparr>undos := undos d' @ [insert_undo n pk img]\<rparr>"
    by blast
  then show ?thesis
  proof cases
    case err
    then have "db_ok d'" "db_contents d' = db_contents d" "db_schemas d' = db_schemas d"
      "cur_txn d' = cur_txn d" "undos d' = undos d"
      using physD [OF err(2)] by (simp_all add: db_ok_def db_contents_def db_schemas_def fun_eq_iff)
    then show ?thesis using inv err(1) by (simp add: txn_inv_def)
  next
    case ok
    note p = physD [OF ok(4)]
    have f: "db_ok d''" "db_contents d'' = a_put n pk (Some img) (db_contents d)" "db_schemas d'' = db_schemas d"
      "cur_txn d'' = cur_txn d" "undos d'' = undos d @ [insert_undo n pk img]"
      using p ok(5) by (simp_all add: db_ok_def db_contents_def db_schemas_def fun_eq_iff)
    have "txn_inv A d''"
      using txn_inv_push [OF inv f(1,3,5)] f(2) a_undo_insert [OF ok(3)] n
      by (auto simp: insert_undo_def db_schemas_def)
    then show ?thesis using ok(1) f by simp
  qed
qed

lemma txn_delete:
  assumes inv: "txn_inv A d" and c: "cur_txn d \<noteq> INVALID_TXN" and s: "stmt_ok (db_schemas d) (SDelete n pk)"
  shows "txn_inv A (exec_stmt (SDelete n pk) d) \<and> cur_txn (exec_stmt (SDelete n pk) d) = cur_txn d
    \<and> db_schemas (exec_stmt (SDelete n pk) d) = db_schemas d"
proof -
  have d: "db_ok d" using inv by (simp add: txn_inv_def)
  obtain t where n: "map_of (dtables d) n = Some t" using s by (auto simp: db_schemas_def)
  from deleteByKey_open [OF d n c, of pk]
  consider (none) "deleteByKey n pk d = (Inr False, d)"
    | (ok) img dp d' d'' where "deleteByKey n pk d = (Inr True, d'')" "a_get (db_contents d) n pk = Some img"
        "image_ok (tschema t) pk img"
        "phys (d\<lparr>dpool := dp, dwal := logDelete (cur_txn d) n pk img (dwal d)\<rparr>) d' (a_put n pk None (db_contents d))"
        "db_schemas d' = db_schemas d" "d'' = d'\<lparr>undos := undos d' @ [delete_undo n pk img]\<rparr>"
    by blast
  then show ?thesis
  proof cases
    case none
    then show ?thesis using inv by simp
  next
    case ok
    note p = physD [OF ok(4)]
    have f: "db_ok d''" "db_contents d'' = a_put n pk None (db_contents d)" "db_schemas d'' = db_schemas d"
      "cur_txn d'' = cur_txn d" "undos d'' = undos d @ [delete_undo n pk img]"
      using p ok(5,6) by (simp_all add: db_ok_def db_contents_def db_schemas_def fun_eq_iff)
    have "a_get (db_contents d'') n pk = None"
      using f(2) tables_contents [OF n] by (simp add: a_get_put)
    then have "txn_inv A d''"
      using txn_inv_push [OF inv f(1,3,5)] f(2) a_undo_delete [OF ok(2)] n ok(3)
      by (auto simp: delete_undo_def db_schemas_def)
    then show ?thesis using ok(1) f by simp
  qed
qed

lemma txn_step:
  assumes inv: "txn_inv A d" and c: "cur_txn d \<noteq> INVALID_TXN" and s: "stmt_ok (db_schemas d) s"
  shows "txn_inv A (exec_stmt s d) \<and> cur_txn (exec_stmt s d) = cur_txn d \<and> db_schemas (exec_stmt s d) = db_schemas d"
  using txn_insert [OF inv c] txn_delete [OF inv c] s by (cases s) simp_all

lemma txn_run:
  "txn_inv A d \<Longrightarrow> cur_txn d \<noteq> INVALID_TXN \<Longrightarrow> \<forall>s \<in> set ss. stmt_ok (db_schemas d) s \<Longrightarrow>
    txn_inv A (run_stmts ss d) \<and> cur_txn (run_stmts ss d) = cur_txn d \<and> db_schemas (run_stmts ss d) = db_schemas d"
proof (induction ss arbitrary: d)
  case (Cons s ss)
  have "stmt_ok (db_schemas d) s" using Cons.prems(3) by simp
  from txn_step [OF Cons.prems(1,2) this] Cons.IH [of "exec_stmt s d"] Cons.prems show ?case by simp
qed simp

lemma rollback_ok:
  assumes inv: "txn_inv A d" and c: "cur_txn d \<noteq> INVALID_TXN"
  obtains d' where "db_rollback d = (Inr (), d')" "db_ok d'" "db_contents d' = A" "cur_txn d' = INVALID_TXN"
    "dwal d' = logAbort (cur_txn d) (dwal d)" "db_schemas d' = db_schemas d" "next_txn d' = next_txn d" "undos d' = []"
proof -
  have "db_ok d" "undo_valid (db_schemas d) (rev (undos d)) (db_contents d)"
    "fold a_undo (rev (undos d)) (db_contents d) = A" using inv by (simp_all add: txn_inv_def)
  with undo_all_ok obtain d1 where d1: "undo_all (rev (undos d)) d = (Inr (), d1)" "phys d d1 A" by metis
  define d' where "d' = d1\<lparr>dwal := logAbort (cur_txn d1) (dwal d1), cur_txn := INVALID_TXN, autocommit := False, undos := []\<rparr>"
  have "db_rollback d = (Inr (), d')" using c d1(1) by (simp add: db_rollback_def bindS_def d'_def)
  moreover have "db_ok d'" "db_contents d' = A" "db_schemas d' = db_schemas d"
    using physD [OF d1(2)] by (simp_all add: d'_def db_ok_def db_contents_def db_schemas_def fun_eq_iff)
  ultimately show thesis using that [of d'] physD [OF d1(2)] by (simp add: d'_def)
qed

lemma begin_ok:
  assumes d: "db_ok d" and c: "cur_txn d = INVALID_TXN" and nx: "0 < next_txn d"
  obtains d1 where "db_begin d = (Inr (), d1)" "txn_inv (db_contents d) d1" "cur_txn d1 = next_txn d"
    "cur_txn d1 \<noteq> INVALID_TXN" "db_schemas d1 = db_schemas d" "db_contents d1 = db_contents d" "dtables d1 = dtables d"
    "dwal d1 = logBegin (next_txn d) (dwal d)" "next_txn d1 = next_txn d + 1" "undos d1 = []"
proof -
  let ?d1 = "d\<lparr>cur_txn := next_txn d, next_txn := next_txn d + 1, autocommit := False, undos := [],
    dwal := logBegin (next_txn d) (dwal d)\<rparr>"
  have "db_begin d = (Inr (), ?d1)" using c by (simp add: db_begin_def Let_def)
  then show thesis using that [of ?d1] d nx
    by (simp add: txn_inv_def db_ok_def db_contents_def db_schemas_def fun_eq_iff INVALID_TXN_def)
qed

section \<open>Auto-commit\<close>

definition implicit_txn :: "db \<Rightarrow> db" where
  "implicit_txn d = d\<lparr>cur_txn := next_txn d, next_txn := next_txn d + 1, autocommit := True, undos := [],
     dwal := logBegin (next_txn d) (dwal d)\<rparr>"

lemma implicit_txn_facts:
  assumes "db_ok d" "0 < next_txn d"
  shows "db_ok (implicit_txn d)" "db_contents (implicit_txn d) = db_contents d" "dtables (implicit_txn d) = dtables d"
    "db_schemas (implicit_txn d) = db_schemas d" "cur_txn (implicit_txn d) = next_txn d" "cur_txn (implicit_txn d) \<noteq> INVALID_TXN"
    "dwal (implicit_txn d) = logBegin (next_txn d) (dwal d)" "undos (implicit_txn d) = []"
    "next_txn (implicit_txn d) = next_txn d + 1"
  using assms
  by (simp_all add: implicit_txn_def db_ok_def db_contents_def db_schemas_def fun_eq_iff INVALID_TXN_def)

text \<open>
  Outside a transaction an INSERT of a free key is the same INSERT inside a fresh one, followed by
  COMMIT unless it threw.
\<close>

lemma insertRow_implicit:
  assumes n: "map_of (dtables d) n = Some t" and c: "cur_txn d = INVALID_TXN" and nx: "0 < next_txn d"
    and pk: "primaryKey row = Inr pk" and free: "bp_search pk (tindex t) = Inr None"
  shows "insertRow n row d = bindS (insertRow n row) (\<lambda>_. db_commit) (implicit_txn d)"
proof -
  let ?d = "implicit_txn d"
  have e1: "ensureTxn d = (Inr True, ?d)"
    using c by (simp add: ensureTxn_def bindS_def db_begin_def implicit_txn_def Let_def)
  have e2: "ensureTxn ?d = (Inr False, ?d)"
    using nx by (simp add: ensureTxn_def implicit_txn_def INVALID_TXN_def)
  have n2: "map_of (dtables ?d) n = Some t" using n by (simp add: implicit_txn_def)
  show ?thesis
  proof (cases "serialize (tschema t) row")
    case (Inl e)
    then show ?thesis using n n2 pk free e1 e2 by (simp add: insertRow_def with_table_def bindS_def)
  next
    case (Inr img)
    let ?d1 = "?d\<lparr>dwal := logInsert (cur_txn ?d) (tname t) pk img (dwal ?d)\<rparr>"
    obtain r d2 where p: "physInsert n pk img ?d1 = (r, d2)" by (cases "physInsert n pk img ?d1")
    show ?thesis
      using n n2 pk free e1 e2 Inr p
      by (cases r) (simp_all add: insertRow_def with_table_def bindS_def log_write_def push_undo_def maybeAutoCommit_def)
  qed
qed

lemma insertRow_in_txn:
  assumes d: "db_ok d" and n: "map_of (dtables d) n = Some t" and c: "cur_txn d \<noteq> INVALID_TXN"
    and k: "keyed (tschema t)" and r: "row_ok (tschema t) row" and pk: "primaryKey row = Inr pk"
    and free: "a_get (db_contents d) n pk = None"
    and img: "serialize (tschema t) row = Inr img" "length img + 8 \<le> PAGE_SIZE"
  obtains d' where "insertRow n row d = (Inr (), d'\<lparr>undos := undos d' @ [insert_undo n pk img]\<rparr>)"
    "phys (d\<lparr>dwal := logInsert (cur_txn d) n pk img (dwal d)\<rparr>) d' (a_put n pk (Some img) (db_contents d))"
    "image_ok (tschema t) pk img"
proof -
  have tn: "tname t = n" using db_table_ok [OF d n] by simp
  obtain x where x: "bp_search pk (tindex t) = Inr x" "x = None \<longleftrightarrow> a_get (db_contents d) n pk = None"
    using db_search [OF d n] .
  have fr: "bp_search pk (tindex t) = Inr None" using x free by simp
  let ?d1 = "d\<lparr>dwal := logInsert (cur_txn d) n pk img (dwal d)\<rparr>"
  have im: "image_ok (tschema t) pk img"
  proof -
    obtain img' pk' where "serialize (tschema t) row = Inr img'" "primaryKey row = Inr pk'"
        "key_of (tschema t) img' = Inr pk'" "8 \<le> length img'" by (rule keyed_image [OF k r]) (rule that)
    then show ?thesis using img pk by (auto simp: image_ok_def tuple_fits_def page_consts)
  qed
  have d1: "db_ok ?d1" "map_of (dtables ?d1) n = Some t" "a_get (db_contents ?d1) n pk = None"
    and c1: "db_contents ?d1 = db_contents d"
    using d n free by (simp_all add: db_ok_def db_contents_def)
  from physInsert_ok [OF d1 im] obtain d2 where
    d2: "physInsert n pk img ?d1 = (Inr (), d2)" "phys ?d1 d2 (a_put n pk (Some img) (db_contents ?d1))" .
  have e2: "ensureTxn d = (Inr False, d)" using c by (simp add: ensureTxn_def)
  have "insertRow n row d = (Inr (), d2\<lparr>undos := undos d2 @ [insert_undo n pk img]\<rparr>)"
    using n pk fr e2 img(1) d2(1) tn
    by (simp add: insertRow_def with_table_def bindS_def log_write_def push_undo_def maybeAutoCommit_def insert_undo_def)
  then show thesis using that d2(2) c1 im by simp
qed

lemma insertRow_auto:
  assumes d: "db_ok d" and n: "map_of (dtables d) n = Some t" and c: "cur_txn d = INVALID_TXN" and nx: "0 < next_txn d"
    and k: "keyed (tschema t)" and r: "row_ok (tschema t) row" and pk: "primaryKey row = Inr pk"
    and free: "a_get (db_contents d) n pk = None"
    and img: "serialize (tschema t) row = Inr img" "length img + 8 \<le> PAGE_SIZE"
  obtains d' where "insertRow n row d = (Inr (), d')" "db_ok d'" "db_contents d' = a_put n pk (Some img) (db_contents d)"
    "db_schemas d' = db_schemas d" "cur_txn d' = INVALID_TXN" "next_txn d' = next_txn d + 1"
    "dwal d' = dwal d @ log_bytes [begin_rec (next_txn d), insert_rec (next_txn d) n pk img, commit_rec (next_txn d)]"
    "image_ok (tschema t) pk img"
proof -
  let ?d = "implicit_txn d"
  note f = implicit_txn_facts [OF d nx]
  obtain x where x: "bp_search pk (tindex t) = Inr x" "x = None \<longleftrightarrow> a_get (db_contents d) n pk = None"
    using db_search [OF d n] .
  have fr: "bp_search pk (tindex t) = Inr None" using x free by simp
  have n1: "map_of (dtables ?d) n = Some t" "a_get (db_contents ?d) n pk = None" using n free f by simp_all
  obtain d2 where d2: "insertRow n row ?d = (Inr (), d2\<lparr>undos := undos d2 @ [insert_undo n pk img]\<rparr>)"
    "phys (?d\<lparr>dwal := logInsert (cur_txn ?d) n pk img (dwal ?d)\<rparr>) d2 (a_put n pk (Some img) (db_contents ?d))"
    "image_ok (tschema t) pk img"
    by (rule insertRow_in_txn [OF f(1) n1(1) f(6) k r pk n1(2) img]) (rule that)
  have c2: "cur_txn d2 = next_txn d" "cur_txn d2 \<noteq> INVALID_TXN"
    using physD [OF d2(2)] f(5,6) by simp_all
  define d' where "d' = d2\<lparr>dwal := logCommit (next_txn d) (dwal d2), cur_txn := INVALID_TXN, autocommit := False, undos := []\<rparr>"
  have "insertRow n row d = (Inr (), d')"
    unfolding insertRow_implicit [OF n c nx pk fr] using d2(1) c2 by (simp add: bindS_def db_commit_def d'_def)
  moreover have "db_contents d' = a_put n pk (Some img) (db_contents d)"
  proof -
    have "db_contents d' = db_contents d2" by (simp add: d'_def db_contents_def)
    then show ?thesis using physD(2) [OF d2(2)] f(2) by simp
  qed
  moreover have "db_ok d'" "db_schemas d' = db_schemas d" "next_txn d' = next_txn d + 1"
    using physD [OF d2(2)] f by (simp_all add: d'_def db_ok_def db_schemas_def fun_eq_iff)
  moreover have "dwal d' = dwal d @ log_bytes [begin_rec (next_txn d), insert_rec (next_txn d) n pk img, commit_rec (next_txn d)]"
    using physD(5) [OF d2(2)] f(5,7) by (simp add: d'_def logBegin_def logInsert_def logCommit_def wal_append_def)
  ultimately show thesis using that d2(3) by (simp add: d'_def)
qed

lemma row_ok_typed: "row_ok cols row \<Longrightarrow> row_typed cols row"
  unfolding row_ok_def row_typed_def
  by (erule list_all2_mono) (auto simp: storable_def val_ok_def in_int64_def split: if_splits)

section \<open>Properties\<close>

text \<open>A session with one empty table, for the witnesses.\<close>

definition sample_cols :: schema where
  "sample_cols = [\<lparr>cname = ''id'', ctyp = T_INT\<rparr>, \<lparr>cname = ''x'', ctyp = T_TEXT\<rparr>]"

definition sample_db :: db where
  "sample_db = (db_start [] None [])\<lparr>dtables :=
     [(''t'', \<lparr>tname = ''t'', tschema = sample_cols, tpages = [], tindex = bp_empty\<rparr>)]\<rparr>"

lemma sample_db_ok:
  "db_ok sample_db" "cur_txn sample_db = INVALID_TXN" "next_txn sample_db = 1" "db_schemas sample_db ''t'' = Some sample_cols"
  "db_contents sample_db ''t'' = Some (\<lambda>_. None)" "dwal sample_db = []"
proof -
  have h: "heap_ok (pool_new (disk_open []) FRAMES) []"
    by (rule heap_ok_new) (simp_all add: disk_open_def disk_inv_def FRAMES_def)
  then show "db_ok sample_db"
    by (simp add: sample_db_def db_start_def db_ok_def reg_ok_def t_ok_def t_rows_def heap_rows_def bp_inv_empty heap_ok_def)
qed (simp_all add: sample_db_def db_start_def db_schemas_def db_contents_def contents_def t_map_def fun_eq_iff)

lemma sample_insertable: "in_int64 k \<Longrightarrow> length x < 1000 \<Longrightarrow> insertable sample_cols [makeInt k, makeText x]"
  by (auto simp: insertable_def keyed_def row_typed_def sample_cols_def makeInt_def makeText_def val_ok_def
      serialize_def in_int64_def)

text \<open>
  Atomicity of ROLLBACK: whatever inserts and deletes an explicit transaction made, failed
  ones included, \<open>rollback\<close> succeeds and every table again maps its keys to the rows it had at
  \<open>begin\<close>; heap and index still agree and no transaction is active.
\<close>

theorem rollback_restores_contents:
  assumes "db_ok d" "cur_txn d = INVALID_TXN" "0 < next_txn d" "\<forall>s \<in> set ss. stmt_ok (db_schemas d) s"
  shows "\<exists>d1 d2. db_begin d = (Inr (), d1) \<and> db_rollback (run_stmts ss d1) = (Inr (), d2)
    \<and> db_ok d2 \<and> db_contents d2 = db_contents d \<and> cur_txn d2 = INVALID_TXN"
proof -
  obtain d1 where d1: "db_begin d = (Inr (), d1)" "txn_inv (db_contents d) d1" "cur_txn d1 \<noteq> INVALID_TXN"
      "db_schemas d1 = db_schemas d"
    by (rule begin_ok [OF assms(1-3)]) (rule that)
  have "txn_inv (db_contents d) (run_stmts ss d1)" "cur_txn (run_stmts ss d1) \<noteq> INVALID_TXN"
    using txn_run [OF d1(2,3)] assms(4) d1(3,4) by auto
  then show ?thesis using rollback_ok d1(1) by metis
qed

theorem rollback_restores_contents_witness:
  "\<exists>d1 d2. db_begin sample_db = (Inr (), d1)
    \<and> db_rollback (run_stmts [SInsert ''t'' [makeInt 1, makeText ''a''], SDelete ''t'' 1] d1) = (Inr (), d2)
    \<and> db_ok d2 \<and> db_contents d2 = db_contents sample_db \<and> cur_txn d2 = INVALID_TXN"
  by (rule rollback_restores_contents)
    (simp_all add: sample_db_ok sample_insertable in_int64_def)


text \<open>
  An auto-committed INSERT of a row with a new key that fits a page puts exactly this row into the
  table, and the log grows by BEGIN, INSERT and COMMIT of one fresh transaction.
\<close>

theorem insertRow_autocommit:
  assumes "db_ok d" "db_schemas d n = Some cols" "cur_txn d = INVALID_TXN" "0 < next_txn d"
    and "keyed cols" "row_ok cols row" "primaryKey row = Inr pk" "a_get (db_contents d) n pk = None"
    and "serialize cols row = Inr img" "length img + 8 \<le> PAGE_SIZE"
  shows "\<exists>d'. insertRow n row d = (Inr (), d') \<and> db_ok d' \<and> cur_txn d' = INVALID_TXN
    \<and> db_contents d' = (db_contents d)(n := map_option (\<lambda>m. m(pk \<mapsto> img)) (db_contents d n))
    \<and> dwal d' = dwal d @ concat (map rec_bytes
        [begin_rec (next_txn d), insert_rec (next_txn d) n pk img, commit_rec (next_txn d)])"
proof -
  obtain t where t: "map_of (dtables d) n = Some t" "tschema t = cols"
    using assms(2) by (auto simp: db_schemas_Some)
  obtain d' where d': "insertRow n row d = (Inr (), d')" "db_ok d'" "db_contents d' = a_put n pk (Some img) (db_contents d)"
    "cur_txn d' = INVALID_TXN"
    "dwal d' = dwal d @ log_bytes [begin_rec (next_txn d), insert_rec (next_txn d) n pk img, commit_rec (next_txn d)]"
    by (rule insertRow_auto [OF assms(1) t(1) assms(3,4) _ _ assms(7,8) _ assms(10)]) (use assms t in simp_all)
  then show ?thesis by (auto simp: a_put_def log_bytes_def fun_eq_iff split: option.split)
qed

theorem insertRow_autocommit_witness:
  "\<exists>img d'. insertRow ''t'' [makeInt 7, makeText ''a''] sample_db = (Inr (), d') \<and> db_ok d'
    \<and> a_get (db_contents d') ''t'' 7 = Some img"
proof -
  have r: "row_ok sample_cols [makeInt 7, makeText ''a'']" "keyed sample_cols"
    by (simp_all add: row_ok_def sample_cols_def storable_def in_int64_def makeInt_def makeText_def val_ok_def keyed_def)
  have p: "primaryKey [makeInt 7, makeText ''a''] = Inr 7" by (simp add: primaryKey_def makeInt_def)
  obtain img where i: "serialize sample_cols [makeInt 7, makeText ''a''] = Inr img" "length img + 8 \<le> PAGE_SIZE"
    by (auto simp: serialize_def sample_cols_def makeInt_def makeText_def PAGE_SIZE_def)
  have "a_get (db_contents sample_db) ''t'' 7 = None" by (simp add: a_get_def sample_db_ok)
  from insertRow_autocommit [OF sample_db_ok(1,4,2) _ r(2,1) p this i]
  show ?thesis by (auto simp: sample_db_ok a_get_def)
qed

text \<open>
  A duplicate primary key is rejected before anything is logged or changed.
\<close>

theorem insertRow_duplicate:
  assumes "db_ok d" "map_of (dtables d) n = Some t" "primaryKey row = Inr pk" "a_get (db_contents d) n pk \<noteq> None"
  shows "insertRow n row d = (Inl (RuntimeError (''duplicate primary key: '' @ dec_of_int pk)), d)"
proof -
  obtain x where x: "bp_search pk (tindex t) = Inr x" "x = None \<longleftrightarrow> a_get (db_contents d) n pk = None"
    using db_search [OF assms(1,2)] .
  then show ?thesis using assms by (simp add: insertRow_def with_table_def)
qed

theorem insertRow_duplicate_witness:
  "\<exists>d. insertRow ''t'' [makeInt 7, makeText ''b''] d = (Inl (RuntimeError (''duplicate primary key: '' @ dec_of_int 7)), d)"
proof -
  have r: "row_ok sample_cols [makeInt 7, makeText ''a'']" "keyed sample_cols"
    by (simp_all add: row_ok_def sample_cols_def storable_def in_int64_def makeInt_def makeText_def val_ok_def keyed_def)
  have p: "primaryKey [makeInt 7, makeText x] = Inr 7" for x by (simp add: primaryKey_def makeInt_def)
  obtain img where i: "serialize sample_cols [makeInt 7, makeText ''a''] = Inr img" "length img + 8 \<le> PAGE_SIZE"
    by (auto simp: serialize_def sample_cols_def makeInt_def makeText_def PAGE_SIZE_def)
  have f: "a_get (db_contents sample_db) ''t'' 7 = None" by (simp add: a_get_def sample_db_ok)
  obtain t where t: "map_of (dtables sample_db) ''t'' = Some t" "tschema t = sample_cols"
    using sample_db_ok(4) by (auto simp: db_schemas_Some)
  obtain d' where d': "db_ok d'" "db_contents d' = a_put ''t'' 7 (Some img) (db_contents sample_db)"
      "db_schemas d' = db_schemas sample_db"
    by (rule insertRow_auto [OF sample_db_ok(1) t(1) sample_db_ok(2) _ _ _ p f _ i(2)])
      (use t r i sample_db_ok in simp_all)
  obtain t' where t': "map_of (dtables d') ''t'' = Some t'"
    using d'(3) sample_db_ok(4) by (metis db_schemas_Some)
  have "a_get (db_contents d') ''t'' 7 \<noteq> None" using d'(2) sample_db_ok(5) by (simp add: a_get_put)
  from insertRow_duplicate [OF d'(1) t' p this] show ?thesis
    by (intro exI [of _ d']) simp
qed

text \<open>
  An auto-committed INSERT that throws after \<open>ensureTxn\<close> leaves its implicit transaction
  open: a row too large for a page is logged, the exception is reported, and the next statements
  run inside this transaction, uncommitted, although the user never issued BEGIN.
\<close>

theorem insertRow_too_large_leaves_txn_open:
  assumes "db_ok d" "db_schemas d n = Some cols" "cur_txn d = INVALID_TXN" "0 < next_txn d"
    and "primaryKey row = Inr pk" "a_get (db_contents d) n pk = None"
    and "serialize cols row = Inr img" "PAGE_SIZE < length img + 8" "length img < 65536"
  shows "\<exists>d'. insertRow n row d = (Inl (RuntimeError ''tuple too large for a page''), d')
    \<and> cur_txn d' = next_txn d \<and> cur_txn d' \<noteq> INVALID_TXN \<and> db_contents d' = db_contents d
    \<and> dwal d' = dwal d @ concat (map rec_bytes [begin_rec (next_txn d), insert_rec (next_txn d) n pk img])"
proof -
  obtain t where t: "map_of (dtables d) n = Some t" "tschema t = cols" "tname t = n"
    using assms(1,2) db_table_ok by (auto simp: db_schemas_Some)
  obtain x where x: "bp_search pk (tindex t) = Inr x" "x = None \<longleftrightarrow> a_get (db_contents d) n pk = None"
    using db_search [OF assms(1) t(1)] .
  have fr: "bp_search pk (tindex t) = Inr None" using x assms(6) by simp
  let ?d = "implicit_txn d"
  note f = implicit_txn_facts [OF assms(1,4)]
  let ?d1 = "?d\<lparr>dwal := logInsert (next_txn d) n pk img (dwal ?d)\<rparr>"
  have "physInsert n pk img ?d1 = (Inl (RuntimeError ''tuple too large for a page''), ?d1)"
    using t f assms(8,9) by (simp add: physInsert_def with_table_def on_pool_def bindS_def heap_insert_def page_consts)
  moreover have "ensureTxn ?d = (Inr False, ?d)" using f(6) by (simp add: ensureTxn_def)
  ultimately have "insertRow n row ?d = (Inl (RuntimeError ''tuple too large for a page''), ?d1)"
    using t f(3,5) assms(5,7) fr by (simp add: insertRow_def with_table_def bindS_def log_write_def)
  then have "insertRow n row d = (Inl (RuntimeError ''tuple too large for a page''), ?d1)"
    unfolding insertRow_implicit [OF t(1) assms(3,4,5) fr] by (simp add: bindS_def)
  then show ?thesis using f by (simp add: db_contents_def logBegin_def logInsert_def wal_append_def)
qed

theorem insertRow_too_large_leaves_txn_open_witness:
  "\<exists>d'. insertRow ''t'' [makeInt 7, makeText (replicate 5000 CHR ''x'')] sample_db
      = (Inl (RuntimeError ''tuple too large for a page''), d') \<and> cur_txn d' = 1"
proof -
  let ?row = "[makeInt 7, makeText (replicate 5000 CHR ''x'')]"
  have i: "serialize sample_cols ?row = Inr (le_bytes 8 7 @ le_bytes 2 5000 @ replicate 5000 CHR ''x'')"
    by (simp add: serialize_def sample_cols_def makeInt_def makeText_def of_signed_def)
  have "a_get (db_contents sample_db) ''t'' 7 = None" by (simp add: a_get_def sample_db_ok)
  from insertRow_too_large_leaves_txn_open [OF sample_db_ok(1,4,2) _ _ this i]
  show ?thesis by (auto simp: sample_db_ok primaryKey_def makeInt_def PAGE_SIZE_def)
qed

text \<open>
  \<open>physInsert\<close> hands the heap only the low 16 bits of the image's size, so an image of 64 KiB
  or more passes the size check and is stored cut off, without an error.
\<close>

theorem physInsert_truncates:
  assumes "db_ok d" "map_of (dtables d) n = Some t" "65536 \<le> length img"
    and "0 < length img mod 65536" "length img mod 65536 + 8 \<le> PAGE_SIZE"
  shows "\<exists>d' rid t'. physInsert n pk img d = (Inr (), d') \<and> map_of (dtables d') n = Some t'
    \<and> map_of (t_rows (dpool d') t') rid = Some (take (length img mod 65536) img)
    \<and> bp_search pk (tindex t') = Inr (Some rid)"
proof -
  have ok: "t_ok (dpool d) t" using db_table_ok [OF assms(1,2)] by simp
  let ?len = "u16 (length img)"
  have l: "0 < ?len" "?len \<le> length img" "?len + HEADER_SIZE + SLOT_SIZE \<le> PAGE_SIZE"
    using assms(3-5) by (simp_all add: page_consts)
  obtain rid pages bq where h: "heap_insert (tpages t) img ?len (dpool d) = (Inr (rid, pages), bq)"
      "map_of (heap_rows (page_view bq) pages) = (map_of (t_rows (dpool d) t))(rid \<mapsto> take ?len img)"
    using heap_insert_map [OF t_okD(1) [OF ok] l] unfolding t_rows_def by blast
  obtain idx where i: "bp_insert pk rid (tindex t) = Inr idx" "bp_inv idx"
      "map_of (bp_entries idx) = (map_of (bp_entries (tindex t)))(pk \<mapsto> rid)"
    using pk_index.ins_ok [OF t_okD(2) [OF ok]] by blast
  let ?t = "t\<lparr>tpages := pages, tindex := idx\<rparr>"
  define d1 where "d1 = (if pages \<noteq> tpages t then save_catalog (set_table n (t\<lparr>tpages := pages\<rparr>) (d\<lparr>dpool := bq\<rparr>))
    else d\<lparr>dpool := bq\<rparr>)"
  have "physInsert n pk img d = (Inr (), set_table n ?t d1)"
    using assms(2) h(1) i(1) by (simp add: physInsert_def with_table_def on_pool_def bindS_def d1_def Let_def)
  moreover have "map_of (dtables (set_table n ?t d1)) n = Some ?t" "dpool (set_table n ?t d1) = bq"
    by (simp_all add: set_table_def d1_def save_catalog_def map_of_put_table)
  moreover have "map_of (t_rows bq ?t) rid = Some (take (length img mod 65536) img)"
    using h(2) by (simp add: t_rows_def u16_def)
  moreover have "bp_search pk idx = Inr (Some rid)" using pk_index.look_ok [OF i(2)] i(3) by simp
  ultimately show ?thesis by fastforce
qed

theorem physInsert_truncates_witness:
  "\<exists>d' rid t'. physInsert ''t'' 7 (replicate 65546 CHR ''x'') sample_db = (Inr (), d')
    \<and> map_of (t_rows (dpool d') t') rid = Some (replicate 10 CHR ''x'')"
proof -
  obtain t where "map_of (dtables sample_db) ''t'' = Some t"
    using sample_db_ok(4) by (auto simp: db_schemas_Some)
  from physInsert_truncates [OF sample_db_ok(1) this, of "replicate 65546 CHR ''x''" 7]
  show ?thesis by (auto simp: PAGE_SIZE_def)
qed

end
