(* ===== verification/Recovery.thy ===== *)
theory Recovery
  imports Database
begin

text \<open>
  \<open>Database::recover\<close> and restart. Each pass over the log refines a function on the abstract
  database; recovery is then studied key by key, on the records of one key.

  A crash leaves a table with, for each key, any value the key ever had since the log was
  started: pages reach the disk in any order and at any time. \<open>crash_value\<close> allows all of them.
\<close>

section \<open>The passes on the abstract database\<close>

definition a_redo :: "logrec \<Rightarrow> adb \<Rightarrow> adb" where
  "a_redo r A = (case ltype r of
     LInsert \<Rightarrow> if a_get A (ltable r) (lpk r) = None then a_put (ltable r) (lpk r) (Some (limage r)) A else A
   | LDelete \<Rightarrow> a_put (ltable r) (lpk r) None A
   | _ \<Rightarrow> A)"

definition a_undo_loser :: "logrec \<Rightarrow> adb \<Rightarrow> adb" where
  "a_undo_loser r A = (case ltype r of
     LInsert \<Rightarrow> a_put (ltable r) (lpk r) None A
   | LDelete \<Rightarrow> if a_get A (ltable r) (lpk r) = None then a_put (ltable r) (lpk r) (Some (limage r)) A else A
   | _ \<Rightarrow> A)"

definition is_committed :: "logrec list \<Rightarrow> logrec \<Rightarrow> bool" where
  "is_committed rs r \<longleftrightarrow> ltxid r \<in> set (committed_txns rs)"

definition a_recover :: "logrec list \<Rightarrow> adb \<Rightarrow> adb" where
  "a_recover rs A = fold a_undo_loser (rev (filter (\<lambda>r. \<not> is_committed rs r) rs))
     (fold a_redo (filter (is_committed rs) rs) A)"

text \<open>The image of a logged insert or delete is one the table can hold.\<close>

definition logged_ok :: "(string \<Rightarrow> schema option) \<Rightarrow> logrec \<Rightarrow> bool" where
  "logged_ok sch r \<longleftrightarrow> (ltype r = LInsert \<or> ltype r = LDelete) \<longrightarrow>
     (case sch (ltable r) of None \<Rightarrow> True | Some cols \<Rightarrow> image_ok cols (lpk r) (limage r))"

lemma a_put_None_table: "A n = None \<Longrightarrow> a_put n pk v A = A"
  by (simp add: a_put_def)

lemma no_table: "map_of (dtables d) n = None \<Longrightarrow> db_contents d n = None"
  by (simp add: db_contents_def contents_def)

text \<open>The two ways to replay a record, each guarded by a look at the index.\<close>

lemma replay_insert:
  assumes d: "db_ok d" and t: "map_of (dtables d) n = Some t" and im: "image_ok (tschema t) pk img"
  obtains d' where "bindS (liftS (bp_search pk (tindex t))) (\<lambda>x. if x = None then physInsert n pk img else retS ()) d = (Inr (), d')"
    "phys d d' (if a_get (db_contents d) n pk = None then a_put n pk (Some img) (db_contents d) else db_contents d)"
proof -
  obtain x where x: "bp_search pk (tindex t) = Inr x" "x = None \<longleftrightarrow> a_get (db_contents d) n pk = None" using db_search [OF d t] .
  show thesis
  proof (cases "x = None")
    case True
    then have f: "a_get (db_contents d) n pk = None" using x by simp
    obtain d' where "physInsert n pk img d = (Inr (), d')" "phys d d' (a_put n pk (Some img) (db_contents d))"
      using physInsert_ok [OF d t f im] .
    then show thesis using that x True f by simp
  next
    case False
    then obtain v where "a_get (db_contents d) n pk = Some v" using x(2) by blast
    then show thesis using that [of d] x(1) False phys_refl [OF d] by simp
  qed
qed

lemma replay_delete:
  assumes d: "db_ok d" and t: "map_of (dtables d) n = Some t"
  obtains d' where "bindS (liftS (bp_search pk (tindex t))) (\<lambda>x. if x \<noteq> None then physDelete n pk else retS ()) d = (Inr (), d')"
    "phys d d' (a_put n pk None (db_contents d))"
proof -
  obtain x where x: "bp_search pk (tindex t) = Inr x" "x = None \<longleftrightarrow> a_get (db_contents d) n pk = None" using db_search [OF d t] .
  show thesis
  proof (cases "x = None")
    case True
    then have "a_put n pk None (db_contents d) = db_contents d" using x by (simp add: a_put_None_id)
    then show thesis using that [of d] x True phys_refl [OF d] by simp
  next
    case False
    obtain d' where "physDelete n pk d = (Inr (), d')" "phys d d' (a_put n pk None (db_contents d))"
      by (rule physDelete_ok [OF d t]) (rule that)
    then show thesis using that x False by simp
  qed
qed

lemma redo_one_ok:
  assumes d: "db_ok d" and r: "logged_ok (db_schemas d) r"
  obtains d' where "redo_one r d = (Inr (), d')" "phys d d' (a_redo r (db_contents d))"
proof (cases "map_of (dtables d) (ltable r)")
  case None
  then have "a_redo r (db_contents d) = db_contents d" "redo_one r d = (Inr (), d)"
    by (simp_all add: a_redo_def a_put_None_table no_table redo_one_def split: log_type.split)
  then show thesis using that phys_refl [OF d] by simp
next
  case (Some t)
  show thesis
  proof (cases "ltype r")
    case LInsert
    then have "image_ok (tschema t) (lpk r) (limage r)" using r Some by (simp add: logged_ok_def db_schemas_def)
    then show thesis by (rule replay_insert [OF d Some]) (use that Some LInsert in \<open>simp add: redo_one_def a_redo_def\<close>)
  next
    case LDelete
    show thesis by (rule replay_delete [OF d Some]) (use that Some LDelete in \<open>simp add: redo_one_def a_redo_def\<close>)
  qed (use that Some phys_refl [OF d] in \<open>simp_all add: redo_one_def a_redo_def\<close>)
qed

lemma undo_loser_ok:
  assumes d: "db_ok d" and r: "logged_ok (db_schemas d) r"
  obtains d' where "undo_loser r d = (Inr (), d')" "phys d d' (a_undo_loser r (db_contents d))"
proof (cases "map_of (dtables d) (ltable r)")
  case None
  then have "a_undo_loser r (db_contents d) = db_contents d" "undo_loser r d = (Inr (), d)"
    by (simp_all add: a_undo_loser_def a_put_None_table no_table undo_loser_def split: log_type.split)
  then show thesis using that phys_refl [OF d] by simp
next
  case (Some t)
  show thesis
  proof (cases "ltype r")
    case LDelete
    then have "image_ok (tschema t) (lpk r) (limage r)" using r Some by (simp add: logged_ok_def db_schemas_def)
    then show thesis by (rule replay_insert [OF d Some]) (use that Some LDelete in \<open>simp add: undo_loser_def a_undo_loser_def\<close>)
  next
    case LInsert
    show thesis by (rule replay_delete [OF d Some]) (use that Some LInsert in \<open>simp add: undo_loser_def a_undo_loser_def\<close>)
  qed (use that Some phys_refl [OF d] in \<open>simp_all add: undo_loser_def a_undo_loser_def\<close>)
qed

lemma redo_pass_ok:
  "db_ok d \<Longrightarrow> \<forall>r \<in> set rs. logged_ok (db_schemas d) r \<Longrightarrow>
    \<exists>d'. redo_pass com rs d = (Inr (), d')
      \<and> phys d d' (fold a_redo (filter (\<lambda>r. ltxid r \<in> set com) rs) (db_contents d))"
proof (induction rs arbitrary: d)
  case (Cons r rs)
  show ?case
  proof (cases "ltxid r \<in> set com")
    case True
    have "logged_ok (db_schemas d) r" using Cons.prems(2) by simp
    from redo_one_ok [OF Cons.prems(1) this] obtain d1 where
      d1: "redo_one r d = (Inr (), d1)" "phys d d1 (a_redo r (db_contents d))" .
    from Cons.IH [OF physD(1) [OF d1(2)]] Cons.prems(2) physD(3) [OF d1(2)] obtain d2 where
      d2: "redo_pass com rs d1 = (Inr (), d2)" "phys d1 d2 (fold a_redo (filter (\<lambda>r. ltxid r \<in> set com) rs) (db_contents d1))"
      by auto
    show ?thesis using True d1(1) d2 phys_trans [OF d1(2) d2(2)] physD(2) [OF d1(2)] by (simp add: bindS_def)
  qed (use Cons in simp)
qed (simp add: phys_refl)

lemma undo_pass_ok:
  "db_ok d \<Longrightarrow> \<forall>r \<in> set rs. logged_ok (db_schemas d) r \<Longrightarrow>
    \<exists>d'. undo_pass com rs d = (Inr (), d')
      \<and> phys d d' (fold a_undo_loser (filter (\<lambda>r. ltxid r \<notin> set com) rs) (db_contents d))"
proof (induction rs arbitrary: d)
  case (Cons r rs)
  show ?case
  proof (cases "ltxid r \<in> set com")
    case False
    have "logged_ok (db_schemas d) r" using Cons.prems(2) by simp
    from undo_loser_ok [OF Cons.prems(1) this] obtain d1 where
      d1: "undo_loser r d = (Inr (), d1)" "phys d d1 (a_undo_loser r (db_contents d))" .
    from Cons.IH [OF physD(1) [OF d1(2)]] Cons.prems(2) physD(3) [OF d1(2)] obtain d2 where
      d2: "undo_pass com rs d1 = (Inr (), d2)" "phys d1 d2 (fold a_undo_loser (filter (\<lambda>r. ltxid r \<notin> set com) rs) (db_contents d1))"
      by auto
    show ?thesis using False d1(1) d2 phys_trans [OF d1(2) d2(2)] physD(2) [OF d1(2)] by (simp add: bindS_def)
  qed (use Cons in simp)
qed (simp add: phys_refl)

section \<open>Flush and restart\<close>

lemma db_ok_pages:
  assumes "db_ok d" "map_of (dtables d) n = Some t" "p \<in> set (tpages t)"
  shows "known_page (dpool d) p" "0 \<le> p"
  using t_okD(1) [OF conjunct1 [OF db_table_ok [OF assms(1,2)]]] assms(3)
  by (auto simp: heap_ok_def known_page_def)

text \<open>Tables seen through another pool that shows the same pages.\<close>

lemma db_ok_view:
  assumes d: "db_ok d" and inv: "cache_inv bq"
    and view: "\<And>p. known_page (dpool d) p \<Longrightarrow> known_page bq p \<and> page_view bq p = page_view (dpool d) p"
  shows "reg_ok bq (dtables d)" "contents bq (dtables d) = db_contents d"
proof -
  have same: "t_ok bq t" "t_map bq t = t_map (dpool d) t" if n: "map_of (dtables d) n = Some t" for n t
  proof -
    have ok: "t_ok (dpool d) t" using db_table_ok [OF d n] by simp
    have so: "same_outside {} (dpool d) bq" using view by (simp add: same_outside_def)
    show "t_ok bq t" "t_map bq t = t_map (dpool d) t" using t_ok_frame [OF ok so inv] by auto
  qed
  have reg: "reg_ok (dpool d) (dtables d)" using d by (simp add: db_ok_def)
  then have ds: "distinct (map fst (dtables d))" by (simp add: reg_ok_def)
  show "reg_ok bq (dtables d)" using reg inv same(1) ds by (auto simp: reg_ok_def)
  show "contents bq (dtables d) = db_contents d"
  proof (rule ext)
    fix n show "contents bq (dtables d) n = db_contents d n"
      using same(2) by (cases "map_of (dtables d) n") (auto simp: contents_def db_contents_def)
  qed
qed

lemma db_flush_ok:
  assumes d: "db_ok d"
  obtains d' where "db_flush d = (Inr (), d')" "phys d d' (db_contents d)" "dtables d' = dtables d"
    "dcat d' = Some (cat_save (dtables d))" "num_pages (pdisk (dpool d')) = num_pages (pdisk (dpool d))"
    "\<And>q. 0 \<le> q \<Longrightarrow> disk_page (pdisk (dpool d')) q = page_view (dpool d) q"
proof -
  have "cache_inv (dpool d)" using d by (simp add: db_ok_def reg_ok_def)
  then obtain bq where q: "flushAll (dpool d) = (Inr (), bq)" "cache_inv bq" "num_pages (pdisk bq) = num_pages (pdisk (dpool d))"
    "\<And>q. 0 \<le> q \<Longrightarrow> page_view bq q = page_view (dpool d) q" "\<And>q. 0 \<le> q \<Longrightarrow> disk_page (pdisk bq) q = page_view (dpool d) q"
    using flushAll_cache by metis
  have v: "known_page bq p \<and> page_view bq p = page_view (dpool d) p" if "known_page (dpool d) p" for p
    using that q(3,4) by (auto simp: known_page_def)
  let ?d = "save_catalog (d\<lparr>dpool := bq\<rparr>)"
  have "db_flush d = (Inr (), ?d)" using q(1) by (simp add: db_flush_def bindS_def on_pool_def)
  moreover have "phys d ?d (db_contents d)"
    using db_ok_view [OF d q(2) v]
    by (simp add: phys_def db_ok_def db_contents_def db_schemas_def session_def save_catalog_def fun_eq_iff)
  ultimately show thesis using that [of ?d] q by (simp add: save_catalog_def)
qed

lemma recover_log_ok:
  assumes d: "db_ok d" and r: "\<forall>r \<in> set rs. logged_ok (db_schemas d) r"
  obtains d' where "recover_log rs d = (Inr (), d')" "db_ok d'" "db_contents d' = a_recover rs (db_contents d)"
    "db_schemas d' = db_schemas d" "rs \<noteq> [] \<Longrightarrow> dwal d' = []" "rs \<noteq> [] \<Longrightarrow> next_txn d' = max_txid rs + 1"
    "cur_txn d' = cur_txn d"
proof (cases "rs = []")
  case True
  then show thesis using that [of d] d by (simp add: recover_log_def a_recover_def)
next
  case False
  let ?d0 = "d\<lparr>next_txn := max_txid rs + 1\<rparr>" and ?com = "committed_txns rs"
  have d0: "db_ok ?d0" "db_contents ?d0 = db_contents d" "db_schemas ?d0 = db_schemas d"
    using d by (simp_all add: db_ok_def db_contents_def db_schemas_def fun_eq_iff)
  obtain d1 where d1: "redo_pass ?com rs ?d0 = (Inr (), d1)"
      "phys ?d0 d1 (fold a_redo (filter (\<lambda>r. ltxid r \<in> set ?com) rs) (db_contents d))"
    using redo_pass_ok [OF d0(1)] r d0(2,3) by metis
  have "\<forall>r \<in> set (rev rs). logged_ok (db_schemas d1) r" using r d0(3) physD(3) [OF d1(2)] by simp
  from undo_pass_ok [OF physD(1) [OF d1(2)] this] obtain d2 where d2: "undo_pass ?com (rev rs) d1 = (Inr (), d2)"
      "phys d1 d2 (fold a_undo_loser (filter (\<lambda>r. ltxid r \<notin> set ?com) (rev rs)) (db_contents d1))" by metis
  obtain d3 where d3: "db_flush d2 = (Inr (), d3)" "phys d2 d3 (db_contents d2)"
    by (rule db_flush_ok [OF physD(1) [OF d2(2)]]) (rule that)
  let ?d4 = "d3\<lparr>dwal := wal_reset (dwal d3)\<rparr>"
  have "recover_log rs d = (Inr (), ?d4)"
    using False d1(1) d2(1) d3(1) by (simp add: recover_log_def bindS_def)
  moreover have "db_contents d3 = a_recover rs (db_contents d)"
    using physD(2) [OF d1(2)] physD(2) [OF d2(2)] physD(2) [OF d3(2)]
    by (simp add: a_recover_def is_committed_def [abs_def] rev_filter)
  moreover have "db_ok ?d4" "db_contents ?d4 = db_contents d3" "db_schemas ?d4 = db_schemas d"
    using physD(1,3) [OF d3(2)] physD(3) [OF d2(2)] physD(3) [OF d1(2)] d0(3)
    by (simp_all add: db_ok_def db_contents_def db_schemas_def fun_eq_iff)
  moreover have "next_txn ?d4 = max_txid rs + 1" "cur_txn ?d4 = cur_txn d"
    using physD(6,7) [OF d3(2)] physD(6,7) [OF d2(2)] physD(6,7) [OF d1(2)] by simp_all
  ultimately show thesis using that [of ?d4] by (simp add: wal_reset_def)
qed

text \<open>
  Reopening the three files of a flushed session: the catalog is read back, the indexes are
  rebuilt, and the log is recovered from these contents.
\<close>

text \<open>
  A database that goes out of scope is flushed: its destructor does what \<open>flush\<close> does, and after a
  \<open>flush\<close>, as at the end of \<open>main\<close>, it changes nothing any more.
\<close>

theorem destroy_flushes:
  assumes d: "db_ok d"
  shows "db_flush d = (Inr (), db_destroy d) \<and> db_destroy (db_destroy d) = db_destroy d"
proof -
  obtain d' where f: "db_flush d = (Inr (), d')" by (rule db_flush_ok [OF d]) (rule that)
  obtain bq where b: "flushAll (dpool d) = (Inr (), bq)" "d' = d\<lparr>dpool := bq, dcat := Some (cat_save (dtables d))\<rparr>"
    using f by (cases "flushAll (dpool d)") (auto simp: db_flush_def bindS_def on_pool_def save_catalog_def split: sum.splits)
  have "pool_inv (dpool d)" using d by (simp add: db_ok_def reg_ok_def cache_inv_def)
  note tw = flushAll_twice [OF this b(1)]
  have "db_destroy d = d'" using f tw by (simp add: db_destroy_def pool_destroy_def b(2))
  moreover have "db_destroy d' = d'"
    using tw by (simp add: db_destroy_def pool_destroy_def b(2) db_flush_def bindS_def on_pool_def save_catalog_def)
  ultimately show ?thesis using f by simp
qed

theorem destroy_flushes_witness:
  "db_flush sample_db = (Inr (), db_destroy sample_db)"
  using destroy_flushes [OF sample_db_ok(1)] by blast

text \<open>A pool over the file of a flushed database shows the pages that database showed.\<close>

lemma reopened_view:
  assumes di: "disk_inv dk" and n: "num_pages dk = num_pages (pdisk bp)"
    and w: "\<And>q. 0 \<le> q \<Longrightarrow> disk_page dk q = page_view bp q" and k: "known_page bp p"
  defines "bq \<equiv> pool_new (disk_open (dfile dk)) FRAMES"
  shows "known_page bq p" "page_view bq p = page_view bp p"
proof -
  have p: "0 \<le> p" "p < num_pages dk" using k n by (auto simp: known_page_def)
  have "nat (num_pages dk) \<le> length (dfile dk) div PAGE_SIZE"
    using di by (subst less_eq_div_iff_mult_less_eq) (simp_all add: disk_inv_def PAGE_SIZE_def)
  then show "known_page bq p" using p by (simp add: bq_def known_page_def pool_new_def disk_open_def)
  have "page_view bq p = disk_page dk p"
    using pool_inv_new(2) [of "disk_open (dfile dk)" FRAMES] by (simp add: bq_def disk_open_def disk_inv_def FRAMES_def)
  then show "page_view bq p = page_view bp p" using w p(1) by simp
qed

lemma reopened_schemas:
  assumes "list_all2 (reopened bp bq) xs ys"
  shows "map_option tschema (map_of ys n) = map_option tschema (map_of xs n)"
  using assms
proof (induction rule: list_all2_induct)
  case (Cons x xs y ys)
  then show ?case by (cases x; cases y) (auto simp: reopened_def, metis table.select_convs(2) table.surjective table.update_convs(4))
qed simp

lemma db_open_flushed:
  assumes d: "db_ok d" and w: "\<forall>(n, t) \<in> set (dtables d). word n \<and> schema_words (tschema t)"
    and fl: "db_flush d = (Inr (), d1)"
  obtains d2 where "db_open (dfile (pdisk (dpool d1))) (dcat d1) wal = recover d2" "db_ok d2"
    "db_contents d2 = db_contents d" "db_schemas d2 = db_schemas d" "dwal d2 = wal" "cur_txn d2 = INVALID_TXN" "next_txn d2 = 1"
proof -
  obtain d1' where f: "db_flush d = (Inr (), d1')" "phys d d1' (db_contents d)" "dtables d1' = dtables d"
    "dcat d1' = Some (cat_save (dtables d))" "num_pages (pdisk (dpool d1')) = num_pages (pdisk (dpool d))"
    "\<And>q. 0 \<le> q \<Longrightarrow> disk_page (pdisk (dpool d1')) q = page_view (dpool d) q"
    by (rule db_flush_ok [OF d]) (rule that)
  have e: "d1' = d1" using f(1) fl by simp
  let ?file = "dfile (pdisk (dpool d1))" and ?bp = "pool_new (disk_open (dfile (pdisk (dpool d1)))) FRAMES"
  have inv: "cache_inv ?bp"
    using pool_inv_new [of "disk_open ?file" FRAMES] by (simp add: cache_inv_def disk_open_def disk_inv_def FRAMES_def)
  have di: "disk_inv (pdisk (dpool d1))"
    using physD(1) [OF f(2)] e pool_invD(2) by (auto simp: db_ok_def reg_ok_def cache_inv_def)
  have v: "known_page ?bp p \<and> page_view ?bp p = page_view (dpool d) p" if "known_page (dpool d) p" for p
    using reopened_view [OF di _ _ that] f(5,6) e by simp
  have reg: "reg_ok ?bp (dtables d)" and con: "contents ?bp (dtables d) = db_contents d"
    using db_ok_view [OF d inv v] by auto
  have words: "\<forall>(n, t) \<in> set (dtables d). table_words t"
  proof (clarify)
    fix n t assume m: "(n, t) \<in> set (dtables d)"
    have "distinct (map fst (dtables d))" using reg by (simp add: reg_ok_def)
    then have "map_of (dtables d) n = Some t" using m by simp
    then show "table_words t"
      using db_ok_pages(2) [OF d] db_table_ok [OF d] w m by (auto simp: table_words_def)
  qed
  have a: "cache_inv ?bp" "\<forall>(n, t) \<in> set (dtables d). tname t = n \<and> table_words t \<and> t_ok ?bp t" "distinct (map fst ([] @ dtables d))"
    using reg words by (auto simp: reg_ok_def)
  from cat_load_saved [OF a, of "line_at_eof (cat_save (dtables d))"] obtain bq ts where l: "cat_load_lines (line_at_eof (cat_save (dtables d))) (lines_of (cat_save (dtables d))) [] ?bp = (Inr ts, bq)"
      "cache_inv bq" "list_all2 (reopened ?bp bq) (dtables d) ts" by auto
  note ro = reopened_reg [OF reg l(2,3)]
  let ?d2 = "(db_start ?file (dcat d1) wal)\<lparr>dpool := bq, dtables := ts\<rparr>"
  have "db_open ?file (dcat d1) wal = recover ?d2"
    using l(1) f(4) e by (simp add: db_open_def bindS_def on_pool_def cat_load_def db_start_def)
  moreover have "db_ok ?d2" "db_contents ?d2 = db_contents d"
    using ro con by (simp_all add: db_ok_def db_contents_def)
  moreover have "db_schemas ?d2 = db_schemas d"
    using reopened_schemas [OF l(3)] by (simp add: db_schemas_def fun_eq_iff)
  ultimately show thesis using that [of ?d2] by (simp add: db_start_def)
qed


section \<open>Recovery of one key\<close>

definition is_op :: "logrec \<Rightarrow> bool" where
  "is_op r \<longleftrightarrow> ltype r = LInsert \<or> ltype r = LDelete"

definition key_ops :: "string \<Rightarrow> int \<Rightarrow> logrec list \<Rightarrow> logrec list" where
  "key_ops n pk rs = filter (\<lambda>r. is_op r \<and> ltable r = n \<and> lpk r = pk) rs"

text \<open>What one record does to its key: normally, when redone, and when undone.\<close>

definition k_apply :: "logrec \<Rightarrow> string option" where
  "k_apply r = (if ltype r = LInsert then Some (limage r) else None)"

definition k_redo :: "logrec \<Rightarrow> string option \<Rightarrow> string option" where
  "k_redo r v = (if ltype r = LInsert then (if v = None then Some (limage r) else v) else None)"

definition k_undo :: "logrec \<Rightarrow> string option \<Rightarrow> string option" where
  "k_undo r v = (if ltype r = LInsert then None else (if v = None then Some (limage r) else v))"

lemma a_get_redo:
  assumes "A n \<noteq> None"
  shows "a_get (a_redo r A) n pk = (if is_op r \<and> ltable r = n \<and> lpk r = pk then k_redo r (a_get A n pk) else a_get A n pk)"
    "a_redo r A n \<noteq> None"
  using assms
  by (auto simp: a_redo_def k_redo_def is_op_def a_get_def a_put_def split: log_type.splits option.splits)

lemma a_get_undo:
  assumes "A n \<noteq> None"
  shows "a_get (a_undo_loser r A) n pk = (if is_op r \<and> ltable r = n \<and> lpk r = pk then k_undo r (a_get A n pk) else a_get A n pk)"
    "a_undo_loser r A n \<noteq> None"
  using assms
  by (auto simp: a_undo_loser_def k_undo_def is_op_def a_get_def a_put_def split: log_type.splits option.splits)

lemma a_get_fold_redo:
  "A n \<noteq> None \<Longrightarrow> a_get (fold a_redo rs A) n pk = fold k_redo (key_ops n pk rs) (a_get A n pk)
    \<and> fold a_redo rs A n \<noteq> None"
proof (induction rs arbitrary: A)
  case (Cons r rs)
  show ?case
    using Cons.IH [of "a_redo r A"] a_get_redo(1) [of A n r pk] a_get_redo(2) [of A n r] Cons.prems
    by (simp add: key_ops_def)
qed (simp add: key_ops_def)

lemma a_get_fold_undo:
  "A n \<noteq> None \<Longrightarrow> a_get (fold a_undo_loser rs A) n pk = fold k_undo (key_ops n pk rs) (a_get A n pk)"
proof (induction rs arbitrary: A)
  case (Cons r rs)
  show ?case
    using Cons.IH [of "a_undo_loser r A"] a_get_undo(1) [of A n r pk] a_get_undo(2) [of A n r] Cons.prems
    by (simp add: key_ops_def)
qed (simp add: key_ops_def)

lemma key_ops_filter: "key_ops n pk (filter P rs) = filter P (key_ops n pk rs)"
  by (simp add: key_ops_def conj_commute)

lemma key_ops_rev: "key_ops n pk (rev rs) = rev (key_ops n pk rs)"
  by (simp add: key_ops_def rev_filter)

lemma a_get_recover:
  assumes "A n \<noteq> None"
  shows "a_get (a_recover rs A) n pk =
    fold k_undo (rev (filter (\<lambda>r. \<not> is_committed rs r) (key_ops n pk rs)))
      (fold k_redo (filter (is_committed rs) (key_ops n pk rs)) (a_get A n pk))"
  unfolding a_recover_def
  using assms a_get_fold_redo [of A n "filter (is_committed rs) rs" pk]
  by (simp add: a_get_fold_undo key_ops_rev key_ops_filter)

subsection \<open>Histories of one key\<close>

text \<open>An insert happens on a free key, a delete logs the row it removes.\<close>

definition k_can :: "string option \<Rightarrow> logrec \<Rightarrow> bool" where
  "k_can v r \<longleftrightarrow> (if ltype r = LInsert then v = None else v = Some (limage r))"

fun k_valid :: "string option \<Rightarrow> logrec list \<Rightarrow> bool" where
  "k_valid v [] = True"
| "k_valid v (r # rs) = (k_can v r \<and> k_valid (k_apply r) rs)"

definition k_final :: "string option \<Rightarrow> logrec list \<Rightarrow> string option" where
  "k_final v rs = (if rs = [] then v else k_apply (last rs))"

text \<open>Losers: an abort in between puts the committed value \<open>c\<close> back, without a record of its own.\<close>

fun k_losers :: "string option \<Rightarrow> string option \<Rightarrow> logrec list \<Rightarrow> bool" where
  "k_losers c v [] = True"
| "k_losers c v (r # rs) = ((k_can v r \<or> k_can c r) \<and> k_losers c (k_apply r) rs)"

lemma k_final_Cons: "k_final v (r # rs) = k_final (k_apply r) rs"
  by (simp add: k_final_def)

lemma k_redo_valid:
  assumes "k_valid v0 cs" "list_all is_op cs" "\<exists>r \<in> set cs. ltype r = LDelete"
  shows "fold k_redo cs x = k_final v0 cs"
  using assms
proof (induction cs arbitrary: v0 x)
  case (Cons r cs)
  have tail: "fold k_redo cs v = k_final v cs" if "k_valid v cs" "list_all is_op cs" for v cs
    using that
  proof (induction cs arbitrary: v)
    case (Cons r cs)
    then have "k_redo r v = k_apply r" by (auto simp: k_redo_def k_apply_def k_can_def)
    then show ?case using Cons by (simp add: k_final_Cons)
  qed (simp add: k_final_def)
  show ?case
  proof (cases "ltype r = LDelete")
    case True
    then have "k_redo r x = k_apply r" by (simp add: k_redo_def k_apply_def)
    then show ?thesis using Cons.prems tail by (simp add: k_final_Cons)
  next
    case False
    then show ?thesis using Cons by (simp add: k_final_Cons)
  qed
qed simp

lemma k_undo_losers:
  assumes "k_losers c c ls" "list_all is_op ls" "ls \<noteq> []"
    and "y = None \<or> y = c \<or> (\<exists>r \<in> set ls. ltype r = LInsert)"
  shows "fold k_undo (rev ls) y = c"
  using assms
proof (induction ls)
  case (Cons f ls)
  have can: "k_can c f" using Cons.prems(1) by simp
  show ?case
  proof (cases "ltype f = LInsert")
    case True
    then show ?thesis using can by (simp add: k_undo_def k_can_def)
  next
    case False
    then have c: "c = Some (limage f)" using can by (simp add: k_can_def)
    show ?thesis
    proof (cases ls)
      case Nil
      then show ?thesis using Cons.prems(4) False c by (auto simp: k_undo_def)
    next
      case (Cons g ls')
      show ?thesis
      proof (cases "ltype g = LInsert")
        case True
        then have "fold k_undo (rev ls) y = None" using Cons by (simp add: k_undo_def [of g])
        then show ?thesis using False c by (simp add: k_undo_def [of f])
      next
        case gdel: False
        have "k_losers c None ls" using Cons.prems(1) False by (simp add: k_apply_def)
        then have "k_losers c c ls" using Cons gdel by (auto simp: k_can_def)
        then have "fold k_undo (rev ls) y = c"
          using Cons.IH Cons.prems(2,4) Cons False by auto
        then show ?thesis using False c by (simp add: k_undo_def [of f])
      qed
    qed
  qed
qed simp

text \<open>
  The log of a key splits into committed records and, behind them, losers; and the table holds,
  after the crash, some value the key had while the log was written.
\<close>

definition key_history :: "logrec list \<Rightarrow> string option \<Rightarrow> logrec list \<Rightarrow> bool" where
  "key_history rs v0 ops \<longleftrightarrow> (\<exists>cs ls. ops = cs @ ls \<and> list_all (is_committed rs) cs
     \<and> list_all (\<lambda>r. \<not> is_committed rs r) ls \<and> k_valid v0 cs \<and> k_losers (k_final v0 cs) (k_final v0 cs) ls)"

definition crash_value :: "string option \<Rightarrow> logrec list \<Rightarrow> string option \<Rightarrow> bool" where
  "crash_value v0 ops x \<longleftrightarrow> x = v0 \<or> (\<exists>r \<in> set ops. x = k_apply r)"

text \<open>A committed history without a delete is at most one insert.\<close>

lemma k_valid_inserts:
  assumes "k_valid v0 cs" "list_all is_op cs" "cs \<noteq> []" "\<not> (\<exists>r \<in> set cs. ltype r = LDelete)"
  obtains r where "cs = [r]" "ltype r = LInsert" "v0 = None" "k_final v0 cs = Some (limage r)"
proof -
  obtain r rest where cs: "cs = r # rest" "ltype r = LInsert"
    using assms(2-4) by (cases cs) (auto simp: is_op_def)
  have "rest = []"
  proof (cases rest)
    case (Cons r2 rest2)
    then have "ltype r2 = LInsert" "k_can (k_apply r) r2" using assms cs by (auto simp: is_op_def)
    then show ?thesis using cs by (simp add: k_can_def k_apply_def)
  qed simp
  then show thesis using that cs assms(1) by (simp add: k_can_def k_final_def k_apply_def)
qed

lemma redo_all:
  assumes cs: "k_valid v0 cs" "list_all is_op cs" and x: "x = None \<or> x = v0 \<or> (\<exists>r \<in> set cs. x = k_apply r)"
  shows "fold k_redo cs x = k_final v0 cs \<or> cs = [] \<and> x \<in> {None, v0}"
proof (cases "cs = []")
  case ne: False
  show ?thesis
  proof (cases "\<exists>r \<in> set cs. ltype r = LDelete")
    case True
    then show ?thesis using k_redo_valid [OF cs] by blast
  next
    case nodel: False
    obtain r where r: "cs = [r]" "ltype r = LInsert" "v0 = None" "k_final v0 cs = Some (limage r)"
      by (rule k_valid_inserts [OF cs ne nodel]) (rule that)
    have "x = None \<or> x = Some (limage r)" using x r by (auto simp: k_apply_def)
    then show ?thesis using r by (auto simp: k_redo_def)
  qed
qed (use x in auto)

lemma recover_key:
  assumes h: "key_history rs v0 ops" and ops: "list_all is_op ops" and x: "crash_value v0 ops x"
  shows "fold k_undo (rev (filter (\<lambda>r. \<not> is_committed rs r) ops)) (fold k_redo (filter (is_committed rs) ops) x)
    = k_final v0 (filter (is_committed rs) ops)"
proof -
  obtain cs ls where sp: "ops = cs @ ls" "list_all (is_committed rs) cs" "list_all (\<lambda>r. \<not> is_committed rs r) ls"
      "k_valid v0 cs" "k_losers (k_final v0 cs) (k_final v0 cs) ls"
    using h by (auto simp: key_history_def)
  have f: "filter (is_committed rs) ops = cs" "filter (\<lambda>r. \<not> is_committed rs r) ops = ls"
    using sp(1-3) by (auto simp: list_all_iff intro!: filter_True filter_False)
  have o: "list_all is_op cs" "list_all is_op ls" using ops sp(1) by simp_all
  let ?c = "k_final v0 cs" and ?y = "fold k_redo cs x"
  have xs: "x = v0 \<or> (\<exists>r \<in> set cs. x = k_apply r) \<or> (\<exists>r \<in> set ls. x = k_apply r)"
    using x sp(1) by (auto simp: crash_value_def)
  show ?thesis
  proof (cases "ls = []")
    case True
    then have "?y = ?c" using redo_all [OF sp(4) o(1), of x] xs x sp(1) by (auto simp: k_final_def crash_value_def)
    then show ?thesis using f True by simp
  next
    case False
    have "?y = None \<or> ?y = ?c \<or> (\<exists>r \<in> set ls. ltype r = LInsert)"
    proof (cases "\<exists>r \<in> set ls. ltype r = LInsert")
      case False
      then have "\<forall>r \<in> set ls. k_apply r = None" by (simp add: k_apply_def)
      then have "x = None \<or> x = v0 \<or> (\<exists>r \<in> set cs. x = k_apply r)" using xs by metis
      then show ?thesis using redo_all [OF sp(4) o(1), of x] by (auto simp: k_final_def)
    qed simp
    then show ?thesis using k_undo_losers [OF sp(5) o(2) False] f by simp
  qed
qed

lemma key_ops_is_op: "list_all is_op (key_ops n pk rs)"
  by (simp add: key_ops_def list_all_iff)

lemma k_final_crash: "crash_value v0 ops (k_final v0 (filter P ops))"
proof (cases "filter P ops = []")
  case True
  then show ?thesis by (simp add: k_final_def crash_value_def)
next
  case False
  then have "last (filter P ops) \<in> set ops" using last_in_set [OF False] by simp
  then show ?thesis using False by (auto simp: k_final_def crash_value_def)
qed

lemma recover_run:
  assumes d: "db_ok d" and log: "readAll (dwal d) = Inr rs" and r: "\<forall>r \<in> set rs. logged_ok (db_schemas d) r"
  obtains d' where "recover d = (Inr (), d')" "db_ok d'" "db_contents d' = a_recover rs (db_contents d)"
    "db_schemas d' = db_schemas d" "rs \<noteq> [] \<Longrightarrow> dwal d' = []"
proof -
  obtain d' where "recover_log rs d = (Inr (), d')" "db_ok d'" "db_contents d' = a_recover rs (db_contents d)"
    "db_schemas d' = db_schemas d" "rs \<noteq> [] \<Longrightarrow> dwal d' = []"
    by (rule recover_log_ok [OF d r]) (rule that)
  then show thesis using that log by (simp add: recover_def)
qed

lemma recover_key_value:
  assumes "A n \<noteq> None" "key_history rs v0 (key_ops n pk rs)" "crash_value v0 (key_ops n pk rs) (a_get A n pk)"
  shows "a_get (a_recover rs A) n pk = k_final v0 (filter (is_committed rs) (key_ops n pk rs))"
  using a_get_recover [of A n rs pk] assms(1) recover_key [OF assms(2) key_ops_is_op assms(3)] by simp

lemma a_recover_tables: "A n \<noteq> None \<Longrightarrow> a_recover rs A n \<noteq> None"
proof -
  have "fold a_undo_loser us B n \<noteq> None" if "B n \<noteq> None" for us B
    using that
  proof (induction us arbitrary: B)
    case (Cons u us)
    show ?case using Cons.IH [of "a_undo_loser u B"] a_get_undo(2) [of B n u] Cons.prems by simp
  qed simp
  then show "A n \<noteq> None \<Longrightarrow> a_recover rs A n \<noteq> None"
    unfolding a_recover_def using a_get_fold_redo [of A n] by blast
qed

section \<open>Properties\<close>

text \<open>
  C1. Crash recovery of a key, for a well-formed database and a readable log whose images the
  tables can hold. If the records of the key are committed ones followed by losers (unfinished or
  aborted), each inserting a free key or deleting the row it logged (\<open>key_history\<close>), and the table
  holds some value the key had since the log was started (\<open>crash_value\<close>), then \<open>recover\<close> returns,
  heap and index agree, and the key has the value of its last committed record, or its old value
  if it has none. For a key with a committed record behind a loser this fails
  (\<open>restart_loses_reinserted_row\<close>).
\<close>

theorem recover_committed_only:
  assumes "db_ok d" "readAll (dwal d) = Inr rs" "\<forall>r \<in> set rs. logged_ok (db_schemas d) r"
    and "db_contents d n \<noteq> None" "key_history rs v0 (key_ops n pk rs)"
    and "crash_value v0 (key_ops n pk rs) (a_get (db_contents d) n pk)"
  shows "\<exists>d'. recover d = (Inr (), d') \<and> db_ok d'
    \<and> a_get (db_contents d') n pk = k_final v0 (filter (is_committed rs) (key_ops n pk rs))"
proof -
  obtain d' where "recover d = (Inr (), d')" "db_ok d'" "db_contents d' = a_recover rs (db_contents d)"
    by (rule recover_run [OF assms(1-3)]) (rule that)
  then show ?thesis using recover_key_value [OF assms(4-6)] by simp
qed

definition sample_img :: string where
  "sample_img = le_bytes 8 7 @ le_bytes 2 1 @ ''a''"

lemma sample_img_ok: "serialize sample_cols [makeInt 7, makeText ''a''] = Inr sample_img" "image_ok sample_cols 7 sample_img"
proof -
  show s: "serialize sample_cols [makeInt 7, makeText ''a''] = Inr sample_img"
    by (simp add: serialize_def sample_cols_def makeInt_def makeText_def of_signed_def sample_img_def)
  have r: "row_ok sample_cols [makeInt 7, makeText ''a'']" "keyed sample_cols"
    by (simp_all add: row_ok_def sample_cols_def storable_def in_int64_def makeInt_def makeText_def val_ok_def keyed_def)
  obtain img pk where "serialize sample_cols [makeInt 7, makeText ''a''] = Inr img"
      "primaryKey [makeInt 7, makeText ''a''] = Inr pk" "key_of sample_cols img = Inr pk"
    by (rule keyed_image [OF r(2,1)]) (rule that)
  then show "image_ok sample_cols 7 sample_img"
    using s by (simp add: image_ok_def primaryKey_def makeInt_def tuple_fits_def page_consts sample_img_def)
qed

definition crashed_db :: "logrec list \<Rightarrow> db" where
  "crashed_db rs = sample_db\<lparr>dwal := log_bytes rs\<rparr>"

lemma crashed_db_ok:
  "db_ok (crashed_db rs)" "db_contents (crashed_db rs) = db_contents sample_db"
  "db_schemas (crashed_db rs) = db_schemas sample_db" "dwal (crashed_db rs) = log_bytes rs"
  using sample_db_ok(1) by (simp_all add: crashed_db_def db_ok_def db_contents_def db_schemas_def fun_eq_iff)

text \<open>A committed insert of key 7 and its deletion by a transaction that never ended.\<close>

definition sample_log :: "logrec list" where
  "sample_log = [begin_rec 1, insert_rec 1 ''t'' 7 sample_img, commit_rec 1, begin_rec 2, delete_rec 2 ''t'' 7 sample_img]"

lemma sample_log_ok:
  "list_all rec_ok sample_log" "\<forall>r \<in> set sample_log. logged_ok (db_schemas sample_db) r"
  "key_ops ''t'' 7 sample_log = [insert_rec 1 ''t'' 7 sample_img, delete_rec 2 ''t'' 7 sample_img]"
  "committed_txns sample_log = [1]"
  using sample_img_ok(2)
  by (simp_all add: sample_log_def rec_ok_def begin_rec_def insert_rec_def delete_rec_def commit_rec_def in_int64_def
      type_of_code_def sample_img_def logged_ok_def sample_db_ok key_ops_def is_op_def committed_txns_def)

theorem recover_committed_only_witness:
  "\<exists>d'. recover (crashed_db sample_log) = (Inr (), d') \<and> a_get (db_contents d') ''t'' 7 = Some sample_img"
proof -
  have h: "key_history sample_log None (key_ops ''t'' 7 sample_log)"
    unfolding key_history_def sample_log_ok(3)
    by (intro exI [of _ "[insert_rec 1 ''t'' 7 sample_img]"] exI [of _ "[delete_rec 2 ''t'' 7 sample_img]"])
      (simp add: is_committed_def sample_log_ok insert_rec_def delete_rec_def k_can_def k_final_def k_apply_def)
  have "readAll (dwal (crashed_db sample_log)) = Inr sample_log"
    using readAll_log [OF sample_log_ok(1)] by (simp add: crashed_db_ok)
  from recover_committed_only [OF crashed_db_ok(1) this _ _ h]
  show ?thesis using sample_log_ok
    by (auto simp: crashed_db_ok sample_db_ok crash_value_def a_get_def is_committed_def insert_rec_def
        delete_rec_def k_final_def k_apply_def)
qed

text \<open>
  A second crash after the recovery passes but before the log is truncated is harmless:
  recovering the same log again changes nothing.
\<close>

theorem recover_idempotent:
  assumes "db_ok d" "readAll (dwal d) = Inr rs" "\<forall>r \<in> set rs. logged_ok (db_schemas d) r"
    and "db_contents d n \<noteq> None" "key_history rs v0 (key_ops n pk rs)"
    and "crash_value v0 (key_ops n pk rs) (a_get (db_contents d) n pk)"
  shows "\<exists>d' d''. recover d = (Inr (), d') \<and> recover (d'\<lparr>dwal := dwal d\<rparr>) = (Inr (), d'')
    \<and> a_get (db_contents d'') n pk = a_get (db_contents d') n pk"
proof -
  obtain d' where d': "recover d = (Inr (), d')" "db_ok d'" "db_contents d' = a_recover rs (db_contents d)"
      "db_schemas d' = db_schemas d"
    by (rule recover_run [OF assms(1-3)]) (rule that)
  let ?e = "d'\<lparr>dwal := dwal d\<rparr>"
  have e: "db_ok ?e" "readAll (dwal ?e) = Inr rs" "\<forall>r \<in> set rs. logged_ok (db_schemas ?e) r"
    "db_contents ?e = db_contents d'"
    using d' assms(2,3) by (simp_all add: db_ok_def db_contents_def db_schemas_def [abs_def])
  obtain d'' where d'': "recover ?e = (Inr (), d'')" "db_contents d'' = a_recover rs (db_contents ?e)"
    by (rule recover_run [OF e(1-3)]) (rule that)
  have v: "a_get (db_contents d') n pk = k_final v0 (filter (is_committed rs) (key_ops n pk rs))"
    using recover_key_value [OF assms(4-6)] d'(3) by simp
  have "db_contents d' n \<noteq> None" unfolding d'(3) using a_recover_tables [of "db_contents d" n rs] assms(4) by blast
  moreover have "crash_value v0 (key_ops n pk rs) (a_get (db_contents d') n pk)"
    unfolding v by (rule k_final_crash)
  ultimately have "a_get (db_contents d'') n pk = k_final v0 (filter (is_committed rs) (key_ops n pk rs))"
    unfolding d''(2) e(4) using recover_key_value [OF _ assms(5)] by blast
  with v d'(1) d''(1) show ?thesis by simp
qed

theorem recover_idempotent_witness:
  "\<exists>d' d''. recover (crashed_db sample_log) = (Inr (), d')
    \<and> recover (d'\<lparr>dwal := dwal (crashed_db sample_log)\<rparr>) = (Inr (), d'')
    \<and> a_get (db_contents d'') ''t'' 7 = a_get (db_contents d') ''t'' 7"
proof -
  have h: "key_history sample_log None (key_ops ''t'' 7 sample_log)"
    unfolding key_history_def sample_log_ok(3)
    by (intro exI [of _ "[insert_rec 1 ''t'' 7 sample_img]"] exI [of _ "[delete_rec 2 ''t'' 7 sample_img]"])
      (simp add: is_committed_def sample_log_ok insert_rec_def delete_rec_def k_can_def k_final_def k_apply_def)
  have "readAll (dwal (crashed_db sample_log)) = Inr sample_log"
    using readAll_log [OF sample_log_ok(1)] by (simp add: crashed_db_ok)
  from recover_idempotent [OF crashed_db_ok(1) this _ _ h]
  show ?thesis using sample_log_ok
    by (simp add: crashed_db_ok sample_db_ok crash_value_def a_get_def)
qed

text \<open>
  C23. Clean shutdown and reopening, with any readable log \<open>rs\<close> whose images the tables can hold:
  \<open>flush\<close> and then the constructor on the three files give back the same tables, with the contents
  that replaying \<open>rs\<close> makes of the flushed ones, since shutdown does not truncate the log. So an empty
  log leaves all contents as they were, and any log leaves a key of an existing table as it was if
  its records are committed ones followed by losers (\<open>key_history\<close>) and its row is that of the
  last committed one.
\<close>

theorem reopen_restores_contents:
  assumes "db_ok d" "\<forall>(n, t) \<in> set (dtables d). word n \<and> schema_words (tschema t)"
    and "readAll (dwal d) = Inr rs" "\<forall>r \<in> set rs. logged_ok (db_schemas d) r"
  shows "\<exists>d1 d2. db_flush d = (Inr (), d1) \<and> db_open (dfile (pdisk (dpool d1))) (dcat d1) (dwal d1) = (Inr (), d2)
    \<and> db_ok d2 \<and> db_schemas d2 = db_schemas d
    \<and> db_contents d2 = a_recover rs (db_contents d)
    \<and> (rs = [] \<longrightarrow> db_contents d2 = db_contents d)
    \<and> (\<forall>n pk v0. db_contents d n \<noteq> None \<longrightarrow> key_history rs v0 (key_ops n pk rs)
         \<longrightarrow> a_get (db_contents d) n pk = k_final v0 (filter (is_committed rs) (key_ops n pk rs))
         \<longrightarrow> a_get (db_contents d2) n pk = a_get (db_contents d) n pk)"
proof -
  obtain d1 where d1: "db_flush d = (Inr (), d1)" "phys d d1 (db_contents d)"
    by (rule db_flush_ok [OF assms(1)]) (rule that)
  obtain e where e: "db_open (dfile (pdisk (dpool d1))) (dcat d1) (dwal d1) = recover e" "db_ok e"
      "db_contents e = db_contents d" "db_schemas e = db_schemas d" "dwal e = dwal d1"
    by (rule db_open_flushed [OF assms(1,2) d1(1)]) (rule that)
  have rs: "readAll (dwal e) = Inr rs" "\<forall>r \<in> set rs. logged_ok (db_schemas e) r"
    using e(4,5) physD(5) [OF d1(2)] assms(3,4) by simp_all
  obtain d2 where d2: "recover e = (Inr (), d2)" "db_ok d2" "db_contents d2 = a_recover rs (db_contents d)"
      "db_schemas d2 = db_schemas d"
    using recover_run [OF e(2) rs] e(3,4) by metis
  have same: "a_get (db_contents d2) n pk = a_get (db_contents d) n pk"
    if "db_contents d n \<noteq> None" "key_history rs v0 (key_ops n pk rs)"
      "a_get (db_contents d) n pk = k_final v0 (filter (is_committed rs) (key_ops n pk rs))" for n pk v0
    using recover_key_value [where A = "db_contents d", OF that(1,2)] k_final_crash that(3) d2(3) by metis
  have none: "db_contents d2 = db_contents d" if "rs = []" using d2(3) that by (simp add: a_recover_def)
  show ?thesis using d1(1) e(1) d2 none same by metis
qed

lemma sample_words: "\<forall>(n, t) \<in> set (dtables sample_db). word n \<and> schema_words (tschema t)"
  by (simp add: sample_db_def sample_cols_def schema_words_def word_def is_space_def)

text \<open>One transaction inserted key 7 and deleted it again.\<close>

definition undone_log :: "logrec list" where
  "undone_log = [begin_rec 1, insert_rec 1 ''t'' 7 sample_img, delete_rec 1 ''t'' 7 sample_img, commit_rec 1]"

lemma undone_log_ok:
  "list_all rec_ok undone_log" "\<forall>r \<in> set undone_log. logged_ok (db_schemas sample_db) r"
  "key_ops ''t'' 7 undone_log = [insert_rec 1 ''t'' 7 sample_img, delete_rec 1 ''t'' 7 sample_img]"
  "committed_txns undone_log = [1]"
  using sample_img_ok(2)
  by (simp_all add: undone_log_def rec_ok_def begin_rec_def insert_rec_def delete_rec_def commit_rec_def in_int64_def
      type_of_code_def sample_img_def logged_ok_def sample_db_ok key_ops_def is_op_def committed_txns_def)

theorem reopen_restores_contents_witness:
  "\<exists>d1 d2. db_flush (crashed_db undone_log) = (Inr (), d1)
    \<and> db_open (dfile (pdisk (dpool d1))) (dcat d1) (dwal d1) = (Inr (), d2)
    \<and> db_contents d2 = a_recover undone_log (db_contents sample_db)
    \<and> a_get (db_contents d2) ''t'' 7 = a_get (db_contents sample_db) ''t'' 7"
proof -
  have l: "readAll (dwal (crashed_db undone_log)) = Inr undone_log"
    using readAll_log [OF undone_log_ok(1)] by (simp add: crashed_db_ok)
  have w: "\<forall>(n, t) \<in> set (dtables (crashed_db undone_log)). word n \<and> schema_words (tschema t)"
    using sample_words by (simp add: crashed_db_def)
  have ops: "list_all (is_committed undone_log) (key_ops ''t'' 7 undone_log)"
    by (simp add: undone_log_ok is_committed_def insert_rec_def delete_rec_def)
  have kv: "k_valid None (key_ops ''t'' 7 undone_log)" "k_final None (key_ops ''t'' 7 undone_log) = None"
    by (simp_all add: undone_log_ok insert_rec_def delete_rec_def k_can_def k_apply_def k_final_def)
  have all: "filter (is_committed undone_log) (key_ops ''t'' 7 undone_log) = key_ops ''t'' 7 undone_log"
    using ops by (auto simp: list_all_iff intro!: filter_True)
  have "key_history undone_log None (key_ops ''t'' 7 undone_log)"
    unfolding key_history_def
    by (rule exI [of _ "key_ops ''t'' 7 undone_log"], rule exI [of _ "[]"]) (use ops kv in simp)
  moreover have "a_get (db_contents sample_db) ''t'' 7 = k_final None (filter (is_committed undone_log) (key_ops ''t'' 7 undone_log))"
    using kv(2) by (simp add: all sample_db_ok a_get_def)
  ultimately show ?thesis using reopen_restores_contents [OF crashed_db_ok(1) w l] undone_log_ok(2)
    by (fastforce simp: crashed_db_ok sample_db_ok)
qed

abbreviation reinsert_log :: "int \<Rightarrow> string \<Rightarrow> int \<Rightarrow> string \<Rightarrow> logrec list" where
  "reinsert_log T n pk img \<equiv> [begin_rec T, insert_rec T n pk img, abort_rec T,
     begin_rec (T + 1), insert_rec (T + 1) n pk img, commit_rec (T + 1)]"

lemma reinsert_run:
  assumes d: "db_ok d" "cur_txn d = INVALID_TXN" "0 < next_txn d" "dwal d = []"
    and sch: "db_schemas d n = Some cols" "keyed cols"
    and row: "row_ok cols row" "primaryKey row = Inr pk" "a_get (db_contents d) n pk = None"
    and img: "serialize cols row = Inr img" "length img + 8 \<le> PAGE_SIZE"
  obtains d1 d2 d3 d4 where "db_begin d = (Inr (), d1)" "insertRow n row d1 = (Inr (), d2)"
    "db_rollback d2 = (Inr (), d3)" "insertRow n row d3 = (Inr (), d4)" "db_ok d4" "db_schemas d4 = db_schemas d"
    "db_contents d4 = a_put n pk (Some img) (db_contents d)" "image_ok cols pk img"
    "dwal d4 = log_bytes (reinsert_log (next_txn d) n pk img)"
proof -
  let ?T = "next_txn d"
  obtain t where t: "map_of (dtables d) n = Some t" "tschema t = cols" using sch(1) by (auto simp: db_schemas_Some)
  obtain d1 where d1: "db_begin d = (Inr (), d1)" "txn_inv (db_contents d) d1" "cur_txn d1 = ?T" "cur_txn d1 \<noteq> INVALID_TXN"
      "db_schemas d1 = db_schemas d" "db_contents d1 = db_contents d" "dtables d1 = dtables d"
      "dwal d1 = logBegin ?T (dwal d)" "next_txn d1 = ?T + 1" "undos d1 = []"
    by (rule begin_ok [OF d(1-3)]) (rule that)
  have t1: "map_of (dtables d1) n = Some t" and f1: "a_get (db_contents d1) n pk = None" and ok1: "db_ok d1"
    using t(1) d1(2,6,7) row(3) by (simp_all add: txn_inv_def)
  obtain e2 where e2: "insertRow n row d1 = (Inr (), e2\<lparr>undos := undos e2 @ [insert_undo n pk img]\<rparr>)"
      "phys (d1\<lparr>dwal := logInsert (cur_txn d1) n pk img (dwal d1)\<rparr>) e2 (a_put n pk (Some img) (db_contents d1))"
      "image_ok (tschema t) pk img"
    by (rule insertRow_in_txn [OF ok1 t1 d1(4) _ _ row(2) f1 _ img(2)]) (use sch row img t in simp_all)
  define d2 where "d2 = e2\<lparr>undos := undos e2 @ [insert_undo n pk img]\<rparr>"
  have ins: "stmt_ok (db_schemas d1) (SInsert n row)"
    using d1(5) sch row_ok_typed [OF row(1)] img by (simp add: insertable_def PAGE_SIZE_def)
  have d2: "txn_inv (db_contents d) d2" "cur_txn d2 = ?T" "db_schemas d2 = db_schemas d" "cur_txn d2 \<noteq> INVALID_TXN"
    using txn_step [OF d1(2,4) ins] e2(1) d1(3,4,5) by (simp_all add: d2_def)
  have w2: "dwal d2 = log_bytes [begin_rec ?T, insert_rec ?T n pk img]" "next_txn d2 = ?T + 1"
    using physD(5,7) [OF e2(2)] d1(3,8,9) d(4) by (simp_all add: d2_def logBegin_def logInsert_def wal_append_def)
  obtain d3 where d3: "db_rollback d2 = (Inr (), d3)" "db_ok d3" "db_contents d3 = db_contents d" "cur_txn d3 = INVALID_TXN"
    "dwal d3 = logAbort (cur_txn d2) (dwal d2)" "db_schemas d3 = db_schemas d2" "next_txn d3 = next_txn d2"
    by (rule rollback_ok [OF d2(1,4)]) (rule that)
  obtain t3 where t3: "map_of (dtables d3) n = Some t3" "tschema t3 = cols"
    using sch(1) d2(3) d3(6) by (metis db_schemas_Some)
  obtain d4 where d4: "insertRow n row d3 = (Inr (), d4)" "db_ok d4"
      "db_contents d4 = a_put n pk (Some img) (db_contents d3)" "db_schemas d4 = db_schemas d3"
      "dwal d4 = dwal d3 @ log_bytes [begin_rec (next_txn d3), insert_rec (next_txn d3) n pk img, commit_rec (next_txn d3)]"
    by (rule insertRow_auto [OF d3(2) t3(1) d3(4) _ _ _ row(2) _ _ img(2)]) (use sch row img t3 d3 w2 d in simp_all)
  have "dwal d4 = log_bytes (reinsert_log ?T n pk img)"
    using d4(5) d3(5,7) w2 d2(2) by (simp add: logAbort_def wal_append_def)
  then show thesis
    using that [OF d1(1) _ d3(1) d4(1,2)] e2(1,3) d2(3) d3(3,6) d4(3,4) t(2) by (simp add: d2_def)
qed

lemma reinsert_replay:
  assumes d: "db_ok d" "dwal d = log_bytes (reinsert_log T n pk img)" "0 < T" "in_int64 (T + 1)"
    and row: "db_schemas d n = Some cols" "image_ok cols pk img" "in_int64 pk" "length n < 65536" "length img + 8 \<le> PAGE_SIZE"
  obtains d' where "recover d = (Inr (), d')" "a_get (db_contents d') n pk = None"
proof -
  let ?rs = "reinsert_log T n pk img"
  note recs = begin_rec_def insert_rec_def abort_rec_def commit_rec_def
  have "in_int64 T" using d(3,4) by (simp add: in_int64_def)
  then have "list_all rec_ok ?rs"
    using d(4) row(3,4,5) by (simp add: rec_ok_def recs type_of_code_def PAGE_SIZE_def) (simp add: in_int64_def)
  then have rd: "readAll (dwal d) = Inr ?rs" using d(2) by (simp only: readAll_log)
  have "\<forall>r \<in> set ?rs. logged_ok (db_schemas d) r" using row(1,2) by (simp add: logged_ok_def recs)
  then obtain d' where d': "recover d = (Inr (), d')" "db_contents d' = a_recover ?rs (db_contents d)"
    using recover_run [OF d(1) rd] by metis
  have A: "db_contents d n \<noteq> None" using row(1) tables_contents by (auto simp: db_schemas_Some)
  have "committed_txns ?rs = [T + 1]" by (simp add: committed_txns_def recs)
  then have ic: "is_committed ?rs = (\<lambda>r. ltxid r = T + 1)" unfolding is_committed_def by auto
  have ko: "key_ops n pk ?rs = [insert_rec T n pk img, insert_rec (T + 1) n pk img]" by (simp add: key_ops_def is_op_def recs)
  have "a_get (db_contents d') n pk = None"
    using a_get_recover [of "db_contents d" n ?rs pk] A d'(2)
    unfolding ko ic by (simp add: insert_rec_def k_undo_def)
  then show thesis using d'(1) that by blast
qed

text \<open>
  C40. A committed row is lost by a clean restart. INSERT of a key in a transaction that is rolled
  back, then the same INSERT auto-committed: the row is there, and the session is flushed. The
  log still holds both transactions, since nothing truncates it at shutdown, and on reopening
  the UNDO pass of \<open>recover\<close> deletes the key for the aborted transaction's record, after REDO
  found the committed row present.
\<close>

theorem restart_loses_reinserted_row:
  assumes d: "db_ok d" "cur_txn d = INVALID_TXN" "0 < next_txn d" "in_int64 (next_txn d + 1)" "dwal d = []"
    and w: "\<forall>(n, t) \<in> set (dtables d). word n \<and> schema_words (tschema t)"
    and sch: "db_schemas d n = Some cols" "keyed cols" "length n < 65536"
    and row: "row_ok cols row" "primaryKey row = Inr pk" "a_get (db_contents d) n pk = None"
    and img: "serialize cols row = Inr img" "length img + 8 \<le> PAGE_SIZE"
  shows "\<exists>d1 d2 d3 d4 d5 d6. db_begin d = (Inr (), d1) \<and> insertRow n row d1 = (Inr (), d2)
    \<and> db_rollback d2 = (Inr (), d3) \<and> insertRow n row d3 = (Inr (), d4) \<and> a_get (db_contents d4) n pk = Some img
    \<and> db_flush d4 = (Inr (), d5) \<and> db_open (dfile (pdisk (dpool d5))) (dcat d5) (dwal d5) = (Inr (), d6)
    \<and> a_get (db_contents d6) n pk = None"
proof -
  obtain d1 d2 d3 d4 where run: "db_begin d = (Inr (), d1)" "insertRow n row d1 = (Inr (), d2)"
      "db_rollback d2 = (Inr (), d3)" "insertRow n row d3 = (Inr (), d4)"
    and d4: "db_ok d4" "db_schemas d4 = db_schemas d" "db_contents d4 = a_put n pk (Some img) (db_contents d)"
      "image_ok cols pk img" "dwal d4 = log_bytes (reinsert_log (next_txn d) n pk img)"
    by (rule reinsert_run [OF d(1-3,5) sch(1,2) row img])
  obtain t where "map_of (dtables d) n = Some t" using sch(1) by (auto simp: db_schemas_Some)
  then have live: "a_get (db_contents d4) n pk = Some img" using tables_contents d4(3) by (simp add: a_get_put)
  obtain d5 where d5: "db_flush d4 = (Inr (), d5)" "phys d4 d5 (db_contents d4)"
    by (rule db_flush_ok [OF d4(1)]) (rule that)
  have w4: "\<forall>(m, u) \<in> set (dtables d4). word m \<and> schema_words (tschema u)"
  proof (clarify)
    fix m u assume "(m, u) \<in> set (dtables d4)"
    moreover have "distinct (map fst (dtables d4))" using d4(1) by (simp add: db_ok_def reg_ok_def)
    ultimately have "db_schemas d m = Some (tschema u)" using d4(2) by (metis db_schemas_Some map_of_is_SomeI)
    then show "word m \<and> schema_words (tschema u)" using w by (fastforce simp: db_schemas_Some dest: map_of_SomeD)
  qed
  obtain d6 where d6: "db_open (dfile (pdisk (dpool d5))) (dcat d5) (dwal d5) = recover d6" "db_ok d6"
      "db_contents d6 = db_contents d4" "db_schemas d6 = db_schemas d4" "dwal d6 = dwal d5"
    by (rule db_open_flushed [OF d4(1) w4 d5(1)]) (rule that)
  have pk: "in_int64 pk" using row(1,2) sch(2) unfolding row_ok_def keyed_def
    by (cases cols; cases row) (auto simp: primaryKey_def storable_def)
  have log: "dwal d6 = log_bytes (reinsert_log (next_txn d) n pk img)" and cols: "db_schemas d6 n = Some cols"
    using d6(4,5) physD(5) [OF d5(2)] d4(2,5) sch(1) by simp_all
  obtain d7 where "recover d6 = (Inr (), d7)" "a_get (db_contents d7) n pk = None"
    by (rule reinsert_replay [OF d6(2) log d(3,4) cols d4(4) pk sch(3) img(2)])
  then show ?thesis using run live d5(1) d6(1) by metis
qed

theorem restart_loses_reinserted_row_witness:
  "\<exists>d4 d5 d6. a_get (db_contents d4) ''t'' 7 = Some sample_img \<and> db_flush d4 = (Inr (), d5)
    \<and> db_open (dfile (pdisk (dpool d5))) (dcat d5) (dwal d5) = (Inr (), d6) \<and> a_get (db_contents d6) ''t'' 7 = None"
proof -
  have r: "row_ok sample_cols [makeInt 7, makeText ''a'']" "keyed sample_cols" "primaryKey [makeInt 7, makeText ''a''] = Inr 7"
    by (simp_all add: row_ok_def sample_cols_def storable_def in_int64_def makeInt_def makeText_def val_ok_def keyed_def primaryKey_def)
  have l: "length sample_img + 8 \<le> PAGE_SIZE" by (simp add: sample_img_def PAGE_SIZE_def)
  have f: "a_get (db_contents sample_db) ''t'' 7 = None" by (simp add: a_get_def sample_db_ok)
  have i: "0 < next_txn sample_db" "in_int64 (next_txn sample_db + 1)" "length ''t'' < 65536"
    by (simp_all add: sample_db_ok in_int64_def)
  from restart_loses_reinserted_row [OF sample_db_ok(1,2) i(1,2) sample_db_ok(6) sample_words sample_db_ok(4) r(2) i(3) r(1,3) f
      sample_img_ok(1) l]
  show ?thesis by blast
qed

end
