(* ===== verification/TransactionManager.thy ===== *)
theory TransactionManager
  imports Prelude "HOL-Library.AList"
begin

text \<open>
  \<open>txn/transaction_manager.cpp\<close>: the concurrency engine, MVCC or strict two-phase locking over an
  in-memory integer store. Every member function runs under one mutex, so it is one atomic
  step, up to the call of \<open>cv_.wait\<close>: a blocked request ends its step with \<open>Wait\<close>, and what it
  does when it is woken (at any time, also spuriously) is a step of its own, \<open>resume_read\<close> or
  \<open>resume_write\<close>, which goes round the \<open>while\<close> loop of \<open>acquire\<close> again.
  \<open>cv_.notify_all()\<close> at the end of \<open>commit\<close> and \<open>abort\<close> changes nothing of the manager's data; it is
  modelled with the sleeping threads, in \<open>Benchmark\<close> (\<open>notify_all\<close>).

  Maps whose missing entry behaves like an empty one are total functions; a \<open>std::set\<close> is its
  ascending list; the waits-for map is an association list.
\<close>

datatype tm_mode = MVCC | TWO_PL
datatype lock_mode = SHARED | EXCLUSIVE
datatype tm_error = DeadlockAbort int | TxnConflict int
datatype 'a outcome = Done 'a | Wait | Raise tm_error

record version =
  commit_ts :: int
  ver_value :: int

record txn =
  txid :: int
  snapshot :: int

record tm =
  tmode :: tm_mode
  commit_clock :: int
  next_id :: int
  deadlocks :: nat
  history :: "int \<Rightarrow> version list"
  writes :: "int \<Rightarrow> (int \<times> int) list"
  xlock :: "int \<Rightarrow> int option"
  slock :: "int \<Rightarrow> int list"
  held_x :: "int \<Rightarrow> int list"
  held_s :: "int \<Rightarrow> int list"
  waits :: "(int \<times> int list) list"

definition tm_new :: "tm_mode \<Rightarrow> tm" where
  "tm_new m = \<lparr>tmode = m, commit_clock = 0, next_id = 1, deadlocks = 0, history = (\<lambda>_. []), writes = (\<lambda>_. []),
     xlock = (\<lambda>_. None), slock = (\<lambda>_. []), held_x = (\<lambda>_. []), held_s = (\<lambda>_. []), waits = []\<rparr>"

definition setInitial :: "int \<Rightarrow> int \<Rightarrow> tm \<Rightarrow> tm" where
  "setInitial key v m = m\<lparr>history := (history m)(key := history m key @ [\<lparr>commit_ts = 0, ver_value = v\<rparr>])\<rparr>"

definition tm_begin :: "tm \<Rightarrow> txn \<times> tm" where
  "tm_begin m = (\<lparr>txid = next_id m, snapshot = commit_clock m\<rparr>, m\<lparr>next_id := next_id m + 1\<rparr>)"

section \<open>Reading versions\<close>

fun visible_from :: "int \<Rightarrow> int \<Rightarrow> version list \<Rightarrow> int" where
  "visible_from snap val [] = val"
| "visible_from snap val (v # vs) = (if commit_ts v \<le> snap then visible_from snap (ver_value v) vs else val)"

definition visibleValue :: "txn \<Rightarrow> int \<Rightarrow> tm \<Rightarrow> int" where
  "visibleValue t key m = visible_from (snapshot t) 0 (history m key)"

definition latest :: "int \<Rightarrow> tm \<Rightarrow> int" where
  "latest key m = (if history m key = [] then 0 else ver_value (last (history m key)))"

section \<open>Locks\<close>

text \<open>\<open>canGrant\<close> is \<open>blockers = []\<close>.\<close>

definition blockers :: "int \<Rightarrow> int \<Rightarrow> lock_mode \<Rightarrow> tm \<Rightarrow> int list" where
  "blockers t key md m =
     (let b1 = (case xlock m key of None \<Rightarrow> [] | Some h \<Rightarrow> if h \<noteq> t then [h] else [])
      in if md = EXCLUSIVE
         then fold (\<lambda>h b. if h \<noteq> t then insort_insert h b else b) (slock m key) b1
         else b1)"

definition succs :: "(int \<times> int list) list \<Rightarrow> int \<Rightarrow> int list" where
  "succs w t = (case map_of w t of None \<Rightarrow> [] | Some ns \<Rightarrow> ns)"

text \<open>The loop of \<open>hasCycle\<close>; the head of the list is the back of the vector used as a stack.\<close>

function dfs :: "(int \<times> int list) list \<Rightarrow> int \<Rightarrow> int list \<Rightarrow> int list \<Rightarrow> bool" where
  "dfs w start visited [] = False"
| "dfs w start visited (cur # stack) =
     (if cur = start then True
      else if cur \<in> set visited then dfs w start visited stack
      else dfs w start (insort_insert cur visited) (rev (succs w cur) @ stack))"
  by pat_completeness auto
termination
proof (relation "measures [\<lambda>(w, start, visited, stack). card (set (map fst w) - set visited),
    \<lambda>(w, start, visited, stack). length stack]", goal_cases)
  case (3 w start visited cur stack)
  show ?case
  proof (cases "cur \<in> set (map fst w)")
    case True
    then have "card (set (map fst w) - insert cur (set visited)) < card (set (map fst w) - set visited)"
      using 3 by (intro psubset_card_mono) auto
    then show ?thesis by (simp add: set_insort_insert)
  next
    case False
    then have "succs w cur = []" by (simp add: succs_def map_of_eq_None_iff [THEN iffD2])
    moreover have "set (map fst w) - insert cur (set visited) = set (map fst w) - set visited" using False by auto
    ultimately show ?thesis by (simp add: set_insort_insert)
  qed
qed auto

definition hasCycle :: "int \<Rightarrow> (int \<times> int list) list \<Rightarrow> bool" where
  "hasCycle start w = dfs w start [] (rev (succs w start))"

text \<open>The effects of a granted request.\<close>

definition grant :: "int \<Rightarrow> int \<Rightarrow> lock_mode \<Rightarrow> tm \<Rightarrow> tm" where
  "grant t key md m =
     (let m1 = m\<lparr>waits := AList.delete t (waits m)\<rparr>
      in if md = EXCLUSIVE
         then m1\<lparr>slock := (slock m)(key := removeAll t (slock m key)),
                 held_s := (held_s m)(t := removeAll key (held_s m t)),
                 xlock := (xlock m)(key := Some t),
                 held_x := (held_x m)(t := insort_insert key (held_x m t))\<rparr>
         else m1\<lparr>slock := (slock m)(key := insort_insert t (slock m key)),
                 held_s := (held_s m)(t := insort_insert key (held_s m t))\<rparr>)"

text \<open>One round of the \<open>while\<close> loop, with the code behind it when the loop ends.\<close>

definition acquire_loop :: "int \<Rightarrow> int \<Rightarrow> lock_mode \<Rightarrow> tm \<Rightarrow> unit outcome \<times> tm" where
  "acquire_loop t key md m =
     (let b = blockers t key md m
      in if b = [] then (Done (), grant t key md m)
         else let w = AList.update t b (waits m)
         in if hasCycle t w
            then (Raise (DeadlockAbort t), m\<lparr>waits := AList.delete t w, deadlocks := deadlocks m + 1\<rparr>)
            else (Wait, m\<lparr>waits := w\<rparr>))"

definition acquire :: "int \<Rightarrow> int \<Rightarrow> lock_mode \<Rightarrow> tm \<Rightarrow> unit outcome \<times> tm" where
  "acquire t key md m =
     (if key \<in> set (held_x m t) then (Done (), m)
      else if md = SHARED \<and> key \<in> set (held_s m t) then (Done (), m)
      else acquire_loop t key md m)"

definition releaseAll :: "int \<Rightarrow> tm \<Rightarrow> tm" where
  "releaseAll t m = m\<lparr>
     xlock := fold (\<lambda>k x. if x k = Some t then x(k := None) else x) (held_x m t) (xlock m),
     slock := fold (\<lambda>k s. s(k := removeAll t (s k))) (held_s m t) (slock m),
     held_x := (held_x m)(t := []), held_s := (held_s m)(t := []),
     waits := AList.delete t (waits m)\<rparr>"

section \<open>Operations\<close>

fun finish_read :: "int \<Rightarrow> unit outcome \<times> tm \<Rightarrow> int outcome \<times> tm" where
  "finish_read key (Done _, m) = (Done (latest key m), m)"
| "finish_read key (Wait, m) = (Wait, m)"
| "finish_read key (Raise e, m) = (Raise e, m)"

definition tm_read :: "txn \<Rightarrow> int \<Rightarrow> tm \<Rightarrow> int outcome \<times> tm" where
  "tm_read t key m = (case map_of (writes m (txid t)) key of
     Some v \<Rightarrow> (Done v, m)
   | None \<Rightarrow> if tmode m = TWO_PL then finish_read key (acquire (txid t) key SHARED m)
             else (Done (visibleValue t key m), m))"

definition resume_read :: "txn \<Rightarrow> int \<Rightarrow> tm \<Rightarrow> int outcome \<times> tm" where
  "resume_read t key m = finish_read key (acquire_loop (txid t) key SHARED m)"

fun finish_write :: "int \<Rightarrow> int \<Rightarrow> int \<Rightarrow> unit outcome \<times> tm \<Rightarrow> unit outcome \<times> tm" where
  "finish_write t key v (Done _, m) = (Done (), m\<lparr>writes := (writes m)(t := AList.update key v (writes m t))\<rparr>)"
| "finish_write t key v (Wait, m) = (Wait, m)"
| "finish_write t key v (Raise e, m) = (Raise e, m)"

definition tm_write :: "txn \<Rightarrow> int \<Rightarrow> int \<Rightarrow> tm \<Rightarrow> unit outcome \<times> tm" where
  "tm_write t key v m = finish_write (txid t) key v (acquire (txid t) key EXCLUSIVE m)"

definition resume_write :: "txn \<Rightarrow> int \<Rightarrow> int \<Rightarrow> tm \<Rightarrow> unit outcome \<times> tm" where
  "resume_write t key v m = finish_write (txid t) key v (acquire_loop (txid t) key EXCLUSIVE m)"

text \<open>The first-committer-wins test, and the versions a commit appends.\<close>

definition conflict :: "txn \<Rightarrow> tm \<Rightarrow> bool" where
  "conflict t m \<longleftrightarrow> (\<exists>(k, v) \<in> set (writes m (txid t)).
     history m k \<noteq> [] \<and> commit_ts (last (history m k)) > snapshot t)"

definition install :: "int \<Rightarrow> (int \<times> int) list \<Rightarrow> (int \<Rightarrow> version list) \<Rightarrow> int \<Rightarrow> version list" where
  "install ts ws h = fold (\<lambda>(k, v) h. h(k := h k @ [\<lparr>commit_ts = ts, ver_value = v\<rparr>])) ws h"

definition tm_commit :: "txn \<Rightarrow> tm \<Rightarrow> unit outcome \<times> tm" where
  "tm_commit t m =
     (let dropped = m\<lparr>writes := (writes m)(txid t := [])\<rparr>
      in if tmode m = MVCC \<and> conflict t m
         then (Raise (TxnConflict (txid t)), releaseAll (txid t) dropped)
         else let ts = commit_clock m + 1
         in (Done (), releaseAll (txid t) (dropped\<lparr>commit_clock := ts,
               history := install ts (writes m (txid t)) (history m)\<rparr>)))"

definition tm_abort :: "txn \<Rightarrow> tm \<Rightarrow> tm" where
  "tm_abort t m = releaseAll (txid t) (m\<lparr>writes := (writes m)(txid t := [])\<rparr>)"

section \<open>Cycle detection\<close>

definition waits_rel :: "(int \<times> int list) list \<Rightarrow> (int \<times> int) set" where
  "waits_rel w = {(a, b). b \<in> set (succs w a)}"

text \<open>A path to \<open>start\<close> whose nodes before \<open>start\<close> are all outside \<open>V\<close>.\<close>

inductive avoids :: "(int \<times> int) set \<Rightarrow> int \<Rightarrow> int set \<Rightarrow> int \<Rightarrow> bool" for R start where
  here: "avoids R start V start"
| step: "a \<notin> V \<Longrightarrow> (a, b) \<in> R \<Longrightarrow> avoids R start V b \<Longrightarrow> avoids R start V a"

inductive_cases avoidsE: "avoids R start V a"

lemma avoids_mono: "avoids R start V a \<Longrightarrow> W \<subseteq> V \<Longrightarrow> avoids R start W a"
  by (induction rule: avoids.induct) (auto intro: avoids.intros)

lemma avoids_split:
  "avoids R start V a \<Longrightarrow> avoids R start (insert c V) a \<or> (\<exists>b. (c, b) \<in> R \<and> avoids R start (insert c V) b)"
proof (induction rule: avoids.induct)
  case (step a V b)
  then show ?case by (cases "a = c") (auto intro: avoids.intros)
qed (auto intro: avoids.intros)

lemma dfs_iff:
  "dfs w start visited stack \<longleftrightarrow> (\<exists>s \<in> set stack. avoids (waits_rel w) start (set visited) s)"
proof (induction w start visited stack rule: dfs.induct)
  case (2 w start visited cur stack)
  let ?R = "waits_rel w" and ?V = "set visited"
  consider "cur = start" | "cur \<noteq> start" "cur \<in> ?V" | "cur \<noteq> start" "cur \<notin> ?V" by blast
  then show ?case
  proof cases
    case 1
    then show ?thesis by (auto intro: avoids.intros)
  next
    case c2: 2
    then have "\<not> avoids ?R start ?V cur" by (auto elim: avoidsE)
    then show ?thesis using 2 c2 by simp
  next
    case 3
    have "(\<exists>s \<in> set (cur # stack). avoids ?R start ?V s) \<longleftrightarrow>
        (\<exists>s \<in> set (succs w cur) \<union> set stack. avoids ?R start (insert cur ?V) s)" (is "?l \<longleftrightarrow> ?r")
    proof
      assume ?l
      then obtain s where s: "s = cur \<or> s \<in> set stack" "avoids ?R start ?V s" by auto
      from avoids_split [OF s(2), of cur] show ?r
      proof
        assume a: "avoids ?R start (insert cur ?V) s"
        then have "s \<noteq> cur" using 3(1) by (auto elim: avoidsE)
        with a s(1) show ?r by blast
      qed (auto simp: waits_rel_def)
    next
      assume ?r
      then obtain s where s: "s \<in> set (succs w cur) \<or> s \<in> set stack" "avoids ?R start (insert cur ?V) s" by auto
      have "avoids ?R start ?V s" by (rule avoids_mono [OF s(2)]) auto
      with s(1) 3(2) show ?l by (auto simp: waits_rel_def intro: avoids.step)
    qed
    then show ?thesis using 3 2 by (simp add: set_insort_insert Un_commute)
  qed
qed simp

lemma avoids_empty: "avoids R start {} a \<longleftrightarrow> (a, start) \<in> R\<^sup>*"
proof
  assume "(a, start) \<in> R\<^sup>*"
  then show "avoids R start {} a" by (induction rule: converse_rtrancl_induct) (auto intro: avoids.intros)
next
  assume "avoids R start {} a"
  then show "(a, start) \<in> R\<^sup>*"
    by (induction "{}::int set" a rule: avoids.induct) (auto intro: converse_rtrancl_into_rtrancl)
qed

lemma hasCycle_iff: "hasCycle t w \<longleftrightarrow> (t, t) \<in> (waits_rel w)\<^sup>+"
proof -
  have "hasCycle t w \<longleftrightarrow> (\<exists>b. (t, b) \<in> waits_rel w \<and> (b, t) \<in> (waits_rel w)\<^sup>*)"
    by (auto simp: hasCycle_def dfs_iff avoids_empty waits_rel_def)
  then show ?thesis by (meson rtrancl_into_trancl2 tranclD)
qed


section \<open>Invariants of the engine\<close>

text \<open>
  The lock tables and the per-transaction lists agree, an exclusive lock excludes every other
  lock on its key, and a buffered write is covered by the writer's exclusive lock.
\<close>

definition lock_inv :: "tm \<Rightarrow> bool" where
  "lock_inv m \<longleftrightarrow> (\<forall>t k. xlock m k = Some t \<longleftrightarrow> k \<in> set (held_x m t))
     \<and> (\<forall>t k. t \<in> set (slock m k) \<longleftrightarrow> k \<in> set (held_s m t))
     \<and> (\<forall>t k. xlock m k = Some t \<longrightarrow> slock m k = [])
     \<and> (\<forall>t k. k \<in> fst ` set (writes m t) \<longrightarrow> xlock m k = Some t)
     \<and> (\<forall>t. distinct (map fst (writes m t)))"

definition hist_inv :: "tm \<Rightarrow> bool" where
  "hist_inv m \<longleftrightarrow> 0 \<le> commit_clock m
     \<and> (\<forall>k. sorted (map commit_ts (history m k)) \<and> (\<forall>v \<in> set (history m k). commit_ts v \<le> commit_clock m))"

definition wait_inv :: "tm \<Rightarrow> bool" where
  "wait_inv m \<longleftrightarrow> distinct (map fst (waits m)) \<and> acyclic (waits_rel (waits m))"

definition tm_inv :: "tm \<Rightarrow> bool" where
  "tm_inv m \<longleftrightarrow> lock_inv m \<and> hist_inv m \<and> wait_inv m"

lemma succs_update [simp]: "succs (AList.update t b w) x = (if x = t then b else succs w x)"
  by (simp add: succs_def update_conv')

lemma succs_delete [simp]: "succs (AList.delete t w) x = (if x = t then [] else succs w x)"
  by (simp add: succs_def delete_conv')

lemma waits_rel_delete: "waits_rel (AList.delete t w) \<subseteq> waits_rel w"
  by (auto simp: waits_rel_def split: if_splits)

lemma waits_rel_delete_update: "waits_rel (AList.delete t (AList.update t b w)) = waits_rel (AList.delete t w)"
  by (auto simp: waits_rel_def split: if_splits)

lemma wait_inv_delete: "wait_inv m \<Longrightarrow> wait_inv (m\<lparr>waits := AList.delete t (waits m)\<rparr>)"
  using acyclic_subset [OF _ waits_rel_delete] by (auto simp: wait_inv_def intro: distinct_delete)

text \<open>A new edge set of \<open>t\<close> that closes no cycle through \<open>t\<close> closes no cycle at all.\<close>

lemma acyclic_update:
  assumes ac: "acyclic (waits_rel w)" and no: "\<not> hasCycle t (AList.update t b w)"
  shows "acyclic (waits_rel (AList.update t b w))"
proof (rule acyclicI, rule allI, rule notI)
  let ?R = "waits_rel (AList.update t b w)"
  fix x
  assume x: "(x, x) \<in> ?R\<^sup>+"
  have nt: "(t, t) \<notin> ?R\<^sup>+" using no by (simp add: hasCycle_iff)
  have key: "(a, c) \<in> (waits_rel w)\<^sup>+ \<or> (a, t) \<in> ?R\<^sup>* \<and> (t, c) \<in> ?R\<^sup>+" if "(a, c) \<in> ?R\<^sup>+" for a c
    using that
  proof (induction rule: trancl_induct)
    case (base y)
    then show ?case by (cases "a = t") (auto simp: waits_rel_def)
  next
    case (step y z)
    show ?case
    proof (cases "y = t")
      case True
      then show ?thesis using step.hyps by (auto intro: trancl_into_rtrancl)
    next
      case False
      then have "(y, z) \<in> waits_rel w" using step.hyps(2) by (simp add: waits_rel_def)
      then show ?thesis using step.IH step.hyps(2) by (meson trancl.simps)
    qed
  qed
  from key [OF x] show False
  proof
    assume "(x, x) \<in> (waits_rel w)\<^sup>+"
    with ac show False by (auto simp: acyclic_def)
  next
    assume "(x, t) \<in> ?R\<^sup>* \<and> (t, x) \<in> ?R\<^sup>+"
    then have "(t, t) \<in> ?R\<^sup>+" by auto
    with nt show False ..
  qed
qed

lemma set_blockers:
  "set (blockers t key md m) = {h. xlock m key = Some h \<and> h \<noteq> t}
     \<union> (if md = EXCLUSIVE then {h \<in> set (slock m key). h \<noteq> t} else {})"
proof -
  have "set (fold (\<lambda>h b. if h \<noteq> t then insort_insert h b else b) hs b) = set b \<union> {h \<in> set hs. h \<noteq> t}" for hs b
    by (induction hs arbitrary: b) (auto simp: set_insort_insert)
  then show ?thesis by (auto simp: blockers_def split: option.splits)
qed

lemma lock_invD:
  assumes "lock_inv m"
  shows "xlock m k = Some t \<longleftrightarrow> k \<in> set (held_x m t)" "t \<in> set (slock m k) \<longleftrightarrow> k \<in> set (held_s m t)"
    "xlock m k = Some t \<Longrightarrow> slock m k = []" "k \<in> fst ` set (writes m t) \<Longrightarrow> xlock m k = Some t"
    "distinct (map fst (writes m t))"
  using assms by (auto simp: lock_inv_def)

subsection \<open>Granting\<close>

lemma grant_shared_lock:
  assumes inv: "lock_inv m" and b: "blockers t key SHARED m = []" and nx: "key \<notin> set (held_x m t)"
  shows "lock_inv (grant t key SHARED m)"
proof -
  have "set (blockers t key SHARED m) = {}" using b by simp
  then have "xlock m key = None" using set_blockers [of t key SHARED m] lock_invD(1) [OF inv, of key t] nx
    by (cases "xlock m key") auto
  then have no: "\<And>u. key \<notin> set (held_x m u)" using lock_invD(1) [OF inv] by (metis option.distinct(1))
  then show ?thesis using inv
    by (auto simp: grant_def lock_inv_def set_insort_insert)
qed

lemma grant_exclusive_lock:
  assumes inv: "lock_inv m" and b: "blockers t key EXCLUSIVE m = []"
  shows "lock_inv (grant t key EXCLUSIVE m)"
proof -
  have e: "set (blockers t key EXCLUSIVE m) = {}" using b by simp
  have x: "xlock m key = None \<or> xlock m key = Some t"
    using e set_blockers [of t key EXCLUSIVE m] by (cases "xlock m key") auto
  have s: "set (slock m key) \<subseteq> {t}"
    using e set_blockers [of t key EXCLUSIVE m] by auto
  then have rs: "removeAll t (slock m key) = []" by (auto simp: removeAll_filter_not_eq filter_empty_conv)
  note d = lock_invD [OF inv]
  have hx: "u = t" if "key \<in> set (held_x m u)" for u
    using d(1) [of key u] that x by auto
  have hs: "u = t" if "key \<in> set (held_s m u)" for u
    using d(2) [of u key] that s by auto
  have hw: "u = t" if "key \<in> fst ` set (writes m u)" for u
    using d(4) [OF that] x by auto
  let ?g = "grant t key EXCLUSIVE m"
  have f: "xlock ?g = (xlock m)(key := Some t)" "slock ?g = (slock m)(key := [])"
    "held_x ?g = (held_x m)(t := insort_insert key (held_x m t))" "held_s ?g = (held_s m)(t := removeAll key (held_s m t))"
    "writes ?g = writes m"
    using rs by (simp_all add: grant_def)
  have "xlock ?g k = Some u \<longleftrightarrow> k \<in> set (held_x ?g u)" for u k
    using d(1) [of k u] hx [of u] by (auto simp: f set_insort_insert)
  moreover have "u \<in> set (slock ?g k) \<longleftrightarrow> k \<in> set (held_s ?g u)" for u k
    using d(2) [of u k] hs [of u] by (auto simp: f)
  moreover have "xlock ?g k = Some u \<Longrightarrow> slock ?g k = []" for u k
    using d(3) [of k u] by (auto simp: f split: if_splits)
  moreover have "xlock ?g k = Some u" if "k \<in> fst ` set (writes ?g u)" for u k
    using d(4) [of k u] hw [of u] that by (auto simp: f)
  moreover have "distinct (map fst (writes ?g u))" for u using d(5) by (simp add: f)
  ultimately show ?thesis unfolding lock_inv_def by blast
qed

lemma grant_other:
  "hist_inv m \<Longrightarrow> hist_inv (grant t key md m)" "wait_inv m \<Longrightarrow> wait_inv (grant t key md m)"
  using wait_inv_delete by (auto simp: grant_def hist_inv_def wait_inv_def Let_def)

lemma acquire_loop_inv:
  assumes inv: "tm_inv m" and nx: "key \<notin> set (held_x m t)"
  shows "tm_inv (snd (acquire_loop t key md m))"
proof (cases "blockers t key md m = []")
  case True
  have "lock_inv (grant t key md m)"
    using inv True grant_shared_lock [OF _ _ nx] grant_exclusive_lock by (cases md) (auto simp: tm_inv_def)
  then show ?thesis using True inv grant_other by (simp add: acquire_loop_def tm_inv_def)
next
  case False
  let ?w = "AList.update t (blockers t key md m) (waits m)"
  have ac: "acyclic (waits_rel (waits m))" "distinct (map fst (waits m))" using inv by (auto simp: tm_inv_def wait_inv_def)
  show ?thesis
  proof (cases "hasCycle t ?w")
    case True
    have "acyclic (waits_rel (AList.delete t ?w))"
      unfolding waits_rel_delete_update by (rule acyclic_subset [OF ac(1) waits_rel_delete])
    then show ?thesis using False True inv ac(2)
      by (simp add: acquire_loop_def tm_inv_def lock_inv_def hist_inv_def wait_inv_def distinct_delete distinct_update)
  next
    case no: False
    then show ?thesis using False inv ac acyclic_update [OF ac(1) no]
      by (simp add: acquire_loop_def tm_inv_def lock_inv_def hist_inv_def wait_inv_def distinct_update)
  qed
qed

lemma acquire_inv: "tm_inv m \<Longrightarrow> tm_inv (snd (acquire t key md m))"
  using acquire_loop_inv by (simp add: acquire_def)


subsection \<open>Releasing\<close>

lemma releaseAll_xlock:
  "xlock (releaseAll t m) k = (if k \<in> set (held_x m t) \<and> xlock m k = Some t then None else xlock m k)"
proof -
  have "fold (\<lambda>k x. if x k = Some t then x(k := None) else x) ks x k
      = (if k \<in> set ks \<and> x k = Some t then None else x k)" for ks and x :: "int \<Rightarrow> int option"
    by (induction ks arbitrary: x) auto
  then show ?thesis by (simp add: releaseAll_def)
qed

lemma releaseAll_slock:
  "slock (releaseAll t m) k = (if k \<in> set (held_s m t) then removeAll t (slock m k) else slock m k)"
proof -
  have "fold (\<lambda>k s. s(k := removeAll t (s k))) ks s k = (if k \<in> set ks then removeAll t (s k) else s k)"
    for ks and s :: "int \<Rightarrow> int list"
    by (induction ks arbitrary: s) auto
  then show ?thesis by (simp add: releaseAll_def)
qed

lemma releaseAll_fields [simp]:
  "held_x (releaseAll t m) = (held_x m)(t := [])" "held_s (releaseAll t m) = (held_s m)(t := [])"
  "writes (releaseAll t m) = writes m" "history (releaseAll t m) = history m"
  "commit_clock (releaseAll t m) = commit_clock m" "next_id (releaseAll t m) = next_id m"
  "waits (releaseAll t m) = AList.delete t (waits m)" "tmode (releaseAll t m) = tmode m"
  by (simp_all add: releaseAll_def)

lemma releaseAll_inv:
  assumes inv: "tm_inv m" and w: "writes m t = []"
  shows "tm_inv (releaseAll t m)"
proof -
  have li: "lock_inv m" using inv by (simp add: tm_inv_def)
  note d = lock_invD [OF li]
  let ?r = "releaseAll t m"
  have "xlock ?r k = Some u \<longleftrightarrow> k \<in> set (held_x ?r u)" for u k
    using d(1) [of k u] d(1) [of k t] by (auto simp: releaseAll_xlock)
  moreover have "u \<in> set (slock ?r k) \<longleftrightarrow> k \<in> set (held_s ?r u)" for u k
    using d(2) [of u k] d(2) [of t k] by (auto simp: releaseAll_slock)
  moreover have "xlock ?r k = Some u \<Longrightarrow> slock ?r k = []" for u k
    using d(3) [of k u] by (auto simp: releaseAll_xlock releaseAll_slock split: if_splits)
  moreover have "xlock ?r k = Some u" if "k \<in> fst ` set (writes ?r u)" for u k
  proof -
    have "xlock m k = Some u" using d(4) [of k u] that by simp
    moreover have "u \<noteq> t" using that w by auto
    ultimately show ?thesis by (simp add: releaseAll_xlock)
  qed
  moreover have "distinct (map fst (writes ?r u))" for u using d(5) by simp
  ultimately have "lock_inv ?r" unfolding lock_inv_def by blast
  moreover have "hist_inv ?r" using inv by (simp add: tm_inv_def hist_inv_def)
  moreover have "wait_inv ?r" using inv wait_inv_delete by (auto simp: tm_inv_def wait_inv_def)
  ultimately show ?thesis by (simp add: tm_inv_def)
qed

subsection \<open>Every operation\<close>

lemma acquire_loop_frame:
  assumes "acquire_loop t key md m = (r, m')"
  shows "history m' = history m" "writes m' = writes m" "commit_clock m' = commit_clock m" "next_id m' = next_id m"
    "tmode m' = tmode m"
  using assms by (auto simp: acquire_loop_def grant_def Let_def split: if_splits)

lemma acquire_frame:
  assumes "acquire t key md m = (r, m')"
  shows "history m' = history m" "writes m' = writes m" "commit_clock m' = commit_clock m" "next_id m' = next_id m"
    "tmode m' = tmode m"
  using assms acquire_loop_frame by (auto simp: acquire_def split: if_splits)

lemma acquire_loop_x: "acquire_loop t key EXCLUSIVE m = (Done u, m') \<Longrightarrow> xlock m' key = Some t"
  by (auto simp: acquire_loop_def grant_def Let_def split: if_splits)

lemma acquire_x: "lock_inv m \<Longrightarrow> acquire t key EXCLUSIVE m = (Done u, m') \<Longrightarrow> xlock m' key = Some t"
  using acquire_loop_x lock_invD(1) by (auto simp: acquire_def split: if_splits)

lemma fst_set_update: "fst ` set (AList.update k v ws) = insert k (fst ` set ws)"
  by (metis dom_map_of_conv_image_fst dom_fun_upd option.distinct(1) update_conv')

lemma finish_write_inv:
  assumes inv: "tm_inv m" and x: "r = Done () \<Longrightarrow> xlock m key = Some t"
  shows "tm_inv (snd (finish_write t key v (r, m)))"
proof (cases r)
  case (Done u)
  then have k: "xlock m key = Some t" using x by simp
  let ?m = "m\<lparr>writes := (writes m)(t := AList.update key v (writes m t))\<rparr>"
  have li: "lock_inv m" using inv by (simp add: tm_inv_def)
  note d = lock_invD [OF li]
  have "xlock m k' = Some u" if "k' \<in> fst ` set (writes ?m u)" for k' u
  proof (cases "u = t")
    case True
    then have "k' = key \<or> k' \<in> fst ` set (writes m t)" using that by (auto simp: fst_set_update)
    then show ?thesis using k d(4) True by blast
  next
    case False
    then show ?thesis using that d(4) by auto
  qed
  moreover have "distinct (map fst (writes ?m u))" for u using d(5) by (auto simp: distinct_update)
  ultimately have "lock_inv ?m" using li unfolding lock_inv_def by auto
  then show ?thesis using Done inv by (simp add: tm_inv_def hist_inv_def wait_inv_def)
qed (use inv in simp_all)

lemma finish_read_snd [simp]: "snd (finish_read key p) = snd p"
  by (cases p; cases "fst p") auto

lemma tm_read_inv: "tm_inv m \<Longrightarrow> tm_inv (snd (tm_read t key m))"
  using acquire_inv by (auto simp: tm_read_def split: option.split)

lemma resume_read_inv: "tm_inv m \<Longrightarrow> key \<notin> set (held_x m (txid t)) \<Longrightarrow> tm_inv (snd (resume_read t key m))"
  using acquire_loop_inv by (simp add: resume_read_def)

lemma tm_write_inv:
  assumes inv: "tm_inv m"
  shows "tm_inv (snd (tm_write t key v m))"
proof -
  obtain r m' where a: "acquire (txid t) key EXCLUSIVE m = (r, m')" by (cases "acquire (txid t) key EXCLUSIVE m")
  have "tm_inv m'" using acquire_inv [OF inv, of "txid t" key EXCLUSIVE] a by simp
  moreover have "r = Done () \<Longrightarrow> xlock m' key = Some (txid t)"
    using acquire_x inv a by (auto simp: tm_inv_def)
  ultimately show ?thesis using finish_write_inv a by (simp add: tm_write_def)
qed

lemma resume_write_inv:
  assumes inv: "tm_inv m" and nx: "key \<notin> set (held_x m (txid t))"
  shows "tm_inv (snd (resume_write t key v m))"
proof -
  obtain r m' where a: "acquire_loop (txid t) key EXCLUSIVE m = (r, m')"
    by (cases "acquire_loop (txid t) key EXCLUSIVE m")
  have "tm_inv m'" using acquire_loop_inv [OF inv nx, of EXCLUSIVE] a by simp
  moreover have "r = Done () \<Longrightarrow> xlock m' key = Some (txid t)" using acquire_loop_x a by blast
  ultimately show ?thesis using finish_write_inv a by (simp add: resume_write_def)
qed

lemma install_other: "k \<notin> fst ` set ws \<Longrightarrow> install ts ws h k = h k"
  unfolding install_def by (induction ws arbitrary: h) auto

lemma install_key:
  assumes "distinct (map fst ws)"
  shows "install ts ws h k = (case map_of ws k of None \<Rightarrow> h k | Some v \<Rightarrow> h k @ [\<lparr>commit_ts = ts, ver_value = v\<rparr>])"
  using assms
proof (induction ws arbitrary: h)
  case (Cons kv ws)
  obtain a v where kv: "kv = (a, v)" by (cases kv) auto
  have i: "install ts (kv # ws) h = install ts ws (h(a := h a @ [\<lparr>commit_ts = ts, ver_value = v\<rparr>]))"
    by (simp add: install_def kv)
  show ?case
  proof (cases "k = a")
    case True
    then have "k \<notin> fst ` set ws" using Cons.prems kv by auto
    then show ?thesis unfolding i by (simp add: install_other kv True)
  next
    case False
    then show ?thesis unfolding i using Cons kv by (auto split: option.split)
  qed
qed (simp add: install_def)

lemma lock_inv_drop:
  assumes "lock_inv m" "xlock m' = xlock m" "slock m' = slock m" "held_x m' = held_x m" "held_s m' = held_s m"
    "writes m' = (writes m)(t := [])"
  shows "lock_inv m'"
proof -
  have w: "xlock m' k = Some u" if "k \<in> fst ` set (writes m' u)" for k u
  proof (cases "u = t")
    case True
    then show ?thesis using that assms(6) by simp
  next
    case False
    then have "k \<in> fst ` set (writes m u)" using that assms(6) by simp
    then show ?thesis using lock_invD(4) [OF assms(1)] assms(2) by simp
  qed
  have "distinct (map fst (writes m' u))" for u using lock_invD(5) [OF assms(1)] assms(6) by simp
  then show ?thesis using assms(1-5) w unfolding lock_inv_def by simp
qed

lemma drop_writes_inv: "tm_inv m \<Longrightarrow> tm_inv (m\<lparr>writes := (writes m)(t := [])\<rparr>)"
  using lock_inv_drop [of m "m\<lparr>writes := (writes m)(t := [])\<rparr>" t]
  by (simp add: tm_inv_def hist_inv_def wait_inv_def)

lemma tm_abort_inv: "tm_inv m \<Longrightarrow> tm_inv (tm_abort t m)"
  unfolding tm_abort_def by (rule releaseAll_inv [OF drop_writes_inv]) simp_all

lemma tm_commit_inv:
  assumes inv: "tm_inv m"
  shows "tm_inv (snd (tm_commit t m))"
proof (cases "tmode m = MVCC \<and> conflict t m")
  case True
  have "tm_inv (releaseAll (txid t) (m\<lparr>writes := (writes m)(txid t := [])\<rparr>))"
    by (rule releaseAll_inv [OF drop_writes_inv [OF inv]]) simp
  then show ?thesis using True by (simp add: tm_commit_def Let_def)
next
  case False
  let ?ts = "commit_clock m + 1" and ?ws = "writes m (txid t)"
  let ?m = "m\<lparr>writes := (writes m)(txid t := []), commit_clock := ?ts, history := install ?ts ?ws (history m)\<rparr>"
  have h: "hist_inv m" and li: "lock_inv m" using inv by (simp_all add: tm_inv_def)
  have dw: "distinct (map fst ?ws)" using lock_invD(5) [OF li] .
  have hk: "sorted (map commit_ts (history m k)) \<and> (\<forall>v \<in> set (history m k). commit_ts v \<le> commit_clock m)" for k
    using h by (simp add: hist_inv_def)
  have "sorted (map commit_ts (install ?ts ?ws (history m) k))
      \<and> (\<forall>v \<in> set (install ?ts ?ws (history m) k). commit_ts v \<le> ?ts)" for k
    using hk [of k] by (force simp: install_key [OF dw] sorted_append split: option.split)
  then have "hist_inv ?m" using h by (simp add: hist_inv_def)
  moreover have "lock_inv ?m" by (rule lock_inv_drop [OF li]) simp_all
  moreover have "wait_inv ?m" using inv by (simp add: tm_inv_def wait_inv_def)
  ultimately have "tm_inv (releaseAll (txid t) ?m)" by (intro releaseAll_inv) (simp_all add: tm_inv_def)
  then show ?thesis using False by (auto simp: tm_commit_def Let_def)
qed

section \<open>The system of transactions\<close>

text \<open>
  Clients begin transactions and use each from one thread: a transaction has at most one
  operation pending, and while it has, it does nothing else. The steps of different
  transactions interleave freely.
\<close>

datatype pend = PRead int | PWrite int int

record sys =
  mgr :: tm
  active :: "int \<Rightarrow> txn option"
  pending :: "int \<Rightarrow> pend option"

definition set_pending :: "int \<Rightarrow> 'a outcome \<Rightarrow> pend \<Rightarrow> sys \<Rightarrow> int \<Rightarrow> pend option" where
  "set_pending i r p s = (pending s)(i := (case r of Wait \<Rightarrow> Some p | _ \<Rightarrow> None))"

inductive sys_step :: "sys \<Rightarrow> sys \<Rightarrow> bool" where
  st_begin: "tm_begin (mgr s) = (t, m) \<Longrightarrow>
    sys_step s (s\<lparr>mgr := m, active := (active s)(txid t \<mapsto> t)\<rparr>)"
| st_read: "active s i = Some t \<Longrightarrow> pending s i = None \<Longrightarrow> tm_read t k (mgr s) = (r, m) \<Longrightarrow>
    sys_step s (s\<lparr>mgr := m, pending := set_pending i r (PRead k) s\<rparr>)"
| st_write: "active s i = Some t \<Longrightarrow> pending s i = None \<Longrightarrow> tm_write t k v (mgr s) = (w, m) \<Longrightarrow>
    sys_step s (s\<lparr>mgr := m, pending := set_pending i w (PWrite k v) s\<rparr>)"
| st_wake_read: "active s i = Some t \<Longrightarrow> pending s i = Some (PRead k) \<Longrightarrow> resume_read t k (mgr s) = (r, m) \<Longrightarrow>
    sys_step s (s\<lparr>mgr := m, pending := set_pending i r (PRead k) s\<rparr>)"
| st_wake_write: "active s i = Some t \<Longrightarrow> pending s i = Some (PWrite k v) \<Longrightarrow> resume_write t k v (mgr s) = (w, m) \<Longrightarrow>
    sys_step s (s\<lparr>mgr := m, pending := set_pending i w (PWrite k v) s\<rparr>)"
| st_commit: "active s i = Some t \<Longrightarrow> pending s i = None \<Longrightarrow> tm_commit t (mgr s) = (w, m) \<Longrightarrow>
    sys_step s (s\<lparr>mgr := m, active := (active s)(i := None)\<rparr>)"
| st_abort: "active s i = Some t \<Longrightarrow> pending s i = None \<Longrightarrow>
    sys_step s (s\<lparr>mgr := tm_abort t (mgr s), active := (active s)(i := None)\<rparr>)"

inductive_cases sys_stepE: "sys_step s s'"

definition sys_init :: "tm_mode \<Rightarrow> (int \<times> int) list \<Rightarrow> sys" where
  "sys_init md kvs = \<lparr>mgr = fold (\<lambda>(k, v). setInitial k v) kvs (tm_new md), active = (\<lambda>_. None), pending = (\<lambda>_. None)\<rparr>"

definition reachable :: "tm_mode \<Rightarrow> (int \<times> int) list \<Rightarrow> sys \<Rightarrow> bool" where
  "reachable md kvs s \<longleftrightarrow> sys_step\<^sup>*\<^sup>* (sys_init md kvs) s"

text \<open>
  A pending operation waits for a lock its transaction does not hold, and left the holders it
  collided with in the waits-for graph.
\<close>

fun pend_ok :: "int \<Rightarrow> tm \<Rightarrow> pend \<Rightarrow> bool" where
  "pend_ok i m (PRead k) = (k \<notin> set (held_x m i) \<and> succs (waits m) i \<noteq> [])"
| "pend_ok i m (PWrite k v) = (k \<notin> set (held_x m i) \<and> succs (waits m) i \<noteq> [])"

definition sys_inv :: "sys \<Rightarrow> bool" where
  "sys_inv s \<longleftrightarrow> tm_inv (mgr s)
     \<and> (\<forall>i t. active s i = Some t \<longrightarrow> txid t = i \<and> i < next_id (mgr s) \<and> snapshot t \<le> commit_clock (mgr s))
     \<and> (\<forall>i p. pending s i = Some p \<longrightarrow> active s i \<noteq> None \<and> pend_ok i (mgr s) p)
     \<and> (\<forall>i. active s i = None \<longrightarrow> held_x (mgr s) i = [] \<and> held_s (mgr s) i = [] \<and> writes (mgr s) i = [])"


subsection \<open>What a step of one transaction leaves of the others\<close>

definition others_kept :: "int \<Rightarrow> tm \<Rightarrow> tm \<Rightarrow> bool" where
  "others_kept i m m' \<longleftrightarrow> (\<forall>j. j \<noteq> i \<longrightarrow> held_x m' j = held_x m j \<and> held_s m' j = held_s m j \<and> writes m' j = writes m j
       \<and> succs (waits m') j = succs (waits m) j)
     \<and> next_id m' = next_id m \<and> commit_clock m \<le> commit_clock m'"

lemma acquire_loop_others: "acquire_loop t key md m = (r, m') \<Longrightarrow> others_kept t m m'"
  by (auto simp: acquire_loop_def grant_def Let_def others_kept_def split: if_splits)

lemma acquire_loop_wait: "acquire_loop t key md m = (Wait, m') \<Longrightarrow> held_x m' = held_x m \<and> succs (waits m') t \<noteq> []"
  by (auto simp: acquire_loop_def Let_def split: if_splits)

lemma acquire_others: "acquire t key md m = (r, m') \<Longrightarrow> others_kept t m m'"
  using acquire_loop_others by (auto simp: acquire_def others_kept_def split: if_splits)

lemma acquire_wait: "acquire t key md m = (Wait, m') \<Longrightarrow> key \<notin> set (held_x m' t) \<and> succs (waits m') t \<noteq> []"
  using acquire_loop_wait by (auto simp: acquire_def split: if_splits)

lemma finish_read_fst: "finish_read key (r, m) = (x, m') \<Longrightarrow> m' = m \<and> (x = Wait \<longleftrightarrow> r = Wait)"
  by (cases r) auto

lemma finish_write_fst:
  "finish_write t key v (r, m) = (x, m') \<Longrightarrow> x = r \<and> others_kept t m m' \<and> history m' = history m
    \<and> held_x m' = held_x m \<and> held_s m' = held_s m \<and> (r = Wait \<longrightarrow> m' = m)"
  by (cases r) (auto simp: others_kept_def)

lemma others_kept_trans: "others_kept i a b \<Longrightarrow> others_kept i b c \<Longrightarrow> others_kept i a c"
  by (simp add: others_kept_def)

lemma others_kept_refl: "others_kept i m m"
  by (simp add: others_kept_def)

lemma tm_read_step:
  assumes "tm_read t k m = (r, m')"
  shows "others_kept (txid t) m m' \<and> history m' = history m \<and> (r = Wait \<longrightarrow> pend_ok (txid t) m' (PRead k))"
proof (cases "map_of (writes m (txid t)) k = None \<and> tmode m = TWO_PL")
  case True
  obtain x m1 where a: "acquire (txid t) k SHARED m = (x, m1)" by (cases "acquire (txid t) k SHARED m")
  then have "finish_read k (x, m1) = (r, m')" using assms True by (simp add: tm_read_def)
  from finish_read_fst [OF this] show ?thesis
    using acquire_others [OF a] acquire_frame(1) [OF a] acquire_wait a by auto
next
  case False
  then have "m' = m \<and> r \<noteq> Wait" using assms by (auto simp: tm_read_def split: option.splits if_splits)
  then show ?thesis by (simp add: others_kept_refl)
qed

lemma resume_read_step:
  assumes "resume_read t k m = (r, m')" "k \<notin> set (held_x m (txid t))"
  shows "others_kept (txid t) m m' \<and> history m' = history m \<and> (r = Wait \<longrightarrow> pend_ok (txid t) m' (PRead k))"
proof -
  obtain x m1 where a: "acquire_loop (txid t) k SHARED m = (x, m1)" by (cases "acquire_loop (txid t) k SHARED m")
  then have "finish_read k (x, m1) = (r, m')" using assms by (simp add: resume_read_def)
  from finish_read_fst [OF this] show ?thesis
    using acquire_loop_others [OF a] acquire_loop_frame(1) [OF a] acquire_loop_wait a assms(2) by auto
qed

lemma tm_write_step:
  assumes "tm_write t k v m = (r, m')"
  shows "others_kept (txid t) m m' \<and> history m' = history m \<and> (r = Wait \<longrightarrow> pend_ok (txid t) m' (PWrite k v))"
proof -
  obtain x m1 where a: "acquire (txid t) k EXCLUSIVE m = (x, m1)" by (cases "acquire (txid t) k EXCLUSIVE m")
  then have "finish_write (txid t) k v (x, m1) = (r, m')" using assms by (simp add: tm_write_def)
  from finish_write_fst [OF this] show ?thesis
    using acquire_others [OF a] acquire_frame(1) [OF a] acquire_wait a others_kept_trans by auto
qed

lemma resume_write_step:
  assumes "resume_write t k v m = (r, m')" "k \<notin> set (held_x m (txid t))"
  shows "others_kept (txid t) m m' \<and> history m' = history m \<and> (r = Wait \<longrightarrow> pend_ok (txid t) m' (PWrite k v))"
proof -
  obtain x m1 where a: "acquire_loop (txid t) k EXCLUSIVE m = (x, m1)" by (cases "acquire_loop (txid t) k EXCLUSIVE m")
  then have "finish_write (txid t) k v (x, m1) = (r, m')" using assms by (simp add: resume_write_def)
  from finish_write_fst [OF this] show ?thesis
    using acquire_loop_others [OF a] acquire_loop_frame(1) [OF a] acquire_loop_wait a assms(2) others_kept_trans by auto
qed

lemma tm_commit_step:
  assumes "tm_commit t m = (r, m')"
  shows "others_kept (txid t) m m'" "held_x m' (txid t) = []" "held_s m' (txid t) = []" "writes m' (txid t) = []"
    "history m' = history m \<or> history m' = install (commit_clock m + 1) (writes m (txid t)) (history m)"
  using assms by (auto simp: tm_commit_def Let_def others_kept_def split: if_splits)

lemma tm_abort_step:
  "others_kept (txid t) m (tm_abort t m)" "held_x (tm_abort t m) (txid t) = []" "held_s (tm_abort t m) (txid t) = []"
  "writes (tm_abort t m) (txid t) = []" "history (tm_abort t m) = history m"
  by (simp_all add: tm_abort_def others_kept_def)

lemma pend_ok_cong: "held_x m' i = held_x m i \<Longrightarrow> succs (waits m') i = succs (waits m) i \<Longrightarrow> pend_ok i m' p = pend_ok i m p"
  by (cases p) auto

lemma sys_inv_op:
  assumes inv: "sys_inv s" and t: "active s i = Some t" and m': "tm_inv m'" "others_kept i (mgr s) m'"
    and w: "r = Wait \<Longrightarrow> pend_ok i m' p"
  shows "sys_inv (s\<lparr>mgr := m', pending := set_pending i r p s\<rparr>)"
proof -
  have k: "held_x m' j = held_x (mgr s) j" "held_s m' j = held_s (mgr s) j" "writes m' j = writes (mgr s) j"
    "succs (waits m') j = succs (waits (mgr s)) j" if "j \<noteq> i" for j
    using m'(2) that by (auto simp: others_kept_def)
  have n: "next_id m' = next_id (mgr s)" "commit_clock (mgr s) \<le> commit_clock m'" using m'(2) by (auto simp: others_kept_def)
  have "active s j \<noteq> None \<and> pend_ok j m' q" if "set_pending i r p s j = Some q" for j q
  proof (cases "j = i")
    case True
    then show ?thesis using that t w by (auto simp: set_pending_def split: outcome.splits)
  next
    case False
    then have "pending s j = Some q" using that by (simp add: set_pending_def)
    then show ?thesis using inv pend_ok_cong [OF k(1) [OF False] k(4) [OF False]] by (auto simp: sys_inv_def)
  qed
  moreover have "held_x m' j = [] \<and> held_s m' j = [] \<and> writes m' j = []" if "active s j = None" for j
  proof -
    have "j \<noteq> i" using that t by auto
    then show ?thesis using k inv that by (auto simp: sys_inv_def)
  qed
  ultimately show ?thesis using inv m'(1) n by (fastforce simp: sys_inv_def)
qed

lemma sys_inv_end:
  assumes inv: "sys_inv s" and t: "active s i = Some t" "pending s i = None" and m': "tm_inv m'" "others_kept i (mgr s) m'"
    "held_x m' i = []" "held_s m' i = []" "writes m' i = []"
  shows "sys_inv (s\<lparr>mgr := m', active := (active s)(i := None)\<rparr>)"
proof -
  have k: "held_x m' j = held_x (mgr s) j" "held_s m' j = held_s (mgr s) j" "writes m' j = writes (mgr s) j"
    "succs (waits m') j = succs (waits (mgr s)) j" if "j \<noteq> i" for j
    using m'(2) that by (auto simp: others_kept_def)
  have n: "next_id m' = next_id (mgr s)" "commit_clock (mgr s) \<le> commit_clock m'" using m'(2) by (auto simp: others_kept_def)
  have "j \<noteq> i \<and> active s j \<noteq> None \<and> pend_ok j m' q" if "pending s j = Some q" for j q
  proof -
    have "j \<noteq> i" using that t by auto
    then show ?thesis using inv that pend_ok_cong [OF k(1) k(4)] by (auto simp: sys_inv_def)
  qed
  moreover have "held_x m' j = [] \<and> held_s m' j = [] \<and> writes m' j = []" if "((active s)(i := None)) j = None" for j
    using that k inv m'(3-5) by (cases "j = i") (auto simp: sys_inv_def)
  ultimately show ?thesis using inv m'(1) n by (fastforce simp: sys_inv_def)
qed

lemma sys_invD:
  assumes "sys_inv s"
  shows "tm_inv (mgr s)" "active s i = Some t \<Longrightarrow> txid t = i" "active s i = Some t \<Longrightarrow> snapshot t \<le> commit_clock (mgr s)"
    "pending s i = Some p \<Longrightarrow> pend_ok i (mgr s) p" "pending s i = Some p \<Longrightarrow> active s i \<noteq> None"
    "active s i = None \<Longrightarrow> held_x (mgr s) i = [] \<and> held_s (mgr s) i = [] \<and> writes (mgr s) i = []"
    "active s i = Some t \<Longrightarrow> i < next_id (mgr s)"
  using assms by (auto simp: sys_inv_def)

lemma sys_inv_step:
  assumes "sys_step s s'" "sys_inv s"
  shows "sys_inv s'"
  using assms
proof (cases rule: sys_step.cases)
  case (st_begin t m)
  have "m = (mgr s)\<lparr>next_id := next_id (mgr s) + 1\<rparr>" using st_begin(2) by (simp add: tm_begin_def)
  then have "tm_inv m" using sys_invD(1) [OF assms(2)]
    by (simp add: tm_inv_def lock_inv_def hist_inv_def wait_inv_def)
  moreover have "active s (next_id (mgr s)) = None" using sys_invD(7) [OF assms(2), of "next_id (mgr s)"] by (cases "active s (next_id (mgr s))") auto
  moreover have "pend_ok j m q = pend_ok j (mgr s) q" for j q
    using st_begin(2) by (intro pend_ok_cong) (auto simp: tm_begin_def)
  ultimately show ?thesis using st_begin assms(2) by (fastforce simp: sys_inv_def tm_begin_def)
next
  case (st_read i t k r m)
  have id: "txid t = i" using sys_invD(2) [OF assms(2) st_read(2)] .
  have "tm_inv m" using tm_read_inv [OF sys_invD(1) [OF assms(2)], of t k] st_read(4) by simp
  then show ?thesis using sys_inv_op [OF assms(2) st_read(2)] tm_read_step [OF st_read(4)] st_read(1) id by auto
next
  case (st_write i t k v w m)
  have id: "txid t = i" using sys_invD(2) [OF assms(2) st_write(2)] .
  have "tm_inv m" using tm_write_inv [OF sys_invD(1) [OF assms(2)], of t k v] st_write(4) by simp
  then show ?thesis using sys_inv_op [OF assms(2) st_write(2)] tm_write_step [OF st_write(4)] st_write(1) id by auto
next
  case (st_wake_read i t k r m)
  have id: "txid t = i" using sys_invD(2) [OF assms(2) st_wake_read(2)] .
  have nx: "k \<notin> set (held_x (mgr s) (txid t))" using sys_invD(4) [OF assms(2) st_wake_read(3)] id by simp
  have "tm_inv m" using resume_read_inv [OF sys_invD(1) [OF assms(2)] nx] st_wake_read(4) by simp
  then show ?thesis
    using sys_inv_op [OF assms(2) st_wake_read(2)] resume_read_step [OF st_wake_read(4) nx] st_wake_read(1) id by auto
next
  case (st_wake_write i t k v w m)
  have id: "txid t = i" using sys_invD(2) [OF assms(2) st_wake_write(2)] .
  have nx: "k \<notin> set (held_x (mgr s) (txid t))" using sys_invD(4) [OF assms(2) st_wake_write(3)] id by simp
  have "tm_inv m" using resume_write_inv [OF sys_invD(1) [OF assms(2)] nx, of v] st_wake_write(4) by simp
  then show ?thesis
    using sys_inv_op [OF assms(2) st_wake_write(2)] resume_write_step [OF st_wake_write(4) nx] st_wake_write(1) id by auto
next
  case (st_commit i t w m)
  have id: "txid t = i" using sys_invD(2) [OF assms(2) st_commit(2)] .
  have "tm_inv m" using tm_commit_inv [OF sys_invD(1) [OF assms(2)], of t] st_commit(4) by simp
  then show ?thesis
    using sys_inv_end [OF assms(2) st_commit(2,3)] tm_commit_step(1-4) [OF st_commit(4)] st_commit(1) id by simp
next
  case (st_abort i t)
  have id: "txid t = i" using sys_invD(2) [OF assms(2) st_abort(2)] .
  show ?thesis
    using sys_inv_end [OF assms(2) st_abort(2,3) tm_abort_inv [OF sys_invD(1) [OF assms(2)]]]
      tm_abort_step(1-4) [of t "mgr s"] st_abort(1) id by simp
qed

lemma sys_inv_init: "sys_inv (sys_init md kvs)"
proof -
  have new: "tm_inv (tm_new md)"
    by (simp add: tm_new_def tm_inv_def lock_inv_def hist_inv_def wait_inv_def waits_rel_def succs_def acyclic_def)
  have set1: "tm_inv (setInitial k v m) \<and> commit_clock (setInitial k v m) = 0 \<and> held_x (setInitial k v m) = held_x m
      \<and> held_s (setInitial k v m) = held_s m \<and> writes (setInitial k v m) = writes m"
    if "tm_inv m" "commit_clock m = 0" for k v m
    using that by (auto simp: setInitial_def tm_inv_def lock_inv_def hist_inv_def wait_inv_def sorted_append)
  have "tm_inv (fold (\<lambda>(k, v). setInitial k v) kvs m) \<and> held_x (fold (\<lambda>(k, v). setInitial k v) kvs m) = held_x m
      \<and> held_s (fold (\<lambda>(k, v). setInitial k v) kvs m) = held_s m \<and> writes (fold (\<lambda>(k, v). setInitial k v) kvs m) = writes m"
    if "tm_inv m" "commit_clock m = 0" for m
    using that by (induction kvs arbitrary: m) (auto simp: set1)
  from this [OF new] show ?thesis by (simp add: sys_inv_def sys_init_def tm_new_def)
qed

lemma sys_inv_reachable: "reachable md kvs s \<Longrightarrow> sys_inv s"
  unfolding reachable_def
  by (induction rule: rtranclp_induct) (auto intro: sys_inv_init sys_inv_step)


section \<open>Properties\<close>

text \<open>
  C6. Lock safety in every reachable state of any interleaving, in both modes: the lock tables
  and the per-transaction lists agree, an exclusively locked key has no other holder of any
  kind, and a buffered write is covered by its writer's exclusive lock.
\<close>

theorem reachable_lock_safety:
  assumes "reachable md kvs s"
  shows "(\<forall>t k. xlock (mgr s) k = Some t \<longleftrightarrow> k \<in> set (held_x (mgr s) t))
    \<and> (\<forall>t k. t \<in> set (slock (mgr s) k) \<longleftrightarrow> k \<in> set (held_s (mgr s) t))
    \<and> (\<forall>t k. xlock (mgr s) k = Some t \<longrightarrow> slock (mgr s) k = [])
    \<and> (\<forall>t k v. (k, v) \<in> set (writes (mgr s) t) \<longrightarrow> xlock (mgr s) k = Some t)"
proof -
  have "lock_inv (mgr s)" using sys_invD(1) [OF sys_inv_reachable [OF assms]] by (simp add: tm_inv_def)
  note d = lock_invD [OF this]
  show ?thesis using d(1-3) d(4) by (metis fst_conv image_eqI)
qed

text \<open>One transaction that has begun, written key 1 and read key 2.\<close>

definition sample_sys :: sys where
  "sample_sys = (let s = sys_init TWO_PL [(1, 10), (2, 20)];
      (t, m) = tm_begin (mgr s); (_, m1) = tm_write t 1 11 m; (_, m2) = tm_read t 2 m1
    in s\<lparr>mgr := m2, active := (active s)(1 \<mapsto> t)\<rparr>)"

lemma sample_sys_eval:
  "sample_sys = \<lparr>mgr = snd (tm_read \<lparr>txid = 1, snapshot = 0\<rparr> 2 (snd (tm_write \<lparr>txid = 1, snapshot = 0\<rparr> 1 11
      ((mgr (sys_init TWO_PL [(1, 10), (2, 20)]))\<lparr>next_id := 2\<rparr>)))),
    active = [1 \<mapsto> \<lparr>txid = 1, snapshot = 0\<rparr>], pending = (\<lambda>_. None)\<rparr>"
  by (simp add: sample_sys_def sys_init_def tm_begin_def tm_new_def setInitial_def split_def Let_def)

lemma sample_sys_mgr:
  "xlock (mgr sample_sys) = [1 \<mapsto> 1]" "slock (mgr sample_sys) = (\<lambda>_. [])(1 := [], 2 := [1])"
  "held_s (mgr sample_sys) 1 = [2]" "writes (mgr sample_sys) 1 = [(1, 11)]" "tmode (mgr sample_sys) = TWO_PL"
  "history (mgr sample_sys) 1 = [\<lparr>commit_ts = 0, ver_value = 10\<rparr>]" "commit_clock (mgr sample_sys) = 0"
  by (simp_all add: sample_sys_eval sys_init_def tm_new_def setInitial_def tm_write_def tm_read_def acquire_def
      acquire_loop_def blockers_def grant_def Let_def fun_eq_iff insort_insert_key_def)

lemma three_steps: "R a b \<Longrightarrow> R b c \<Longrightarrow> R c d \<Longrightarrow> R\<^sup>*\<^sup>* a d"
  by (meson rtranclp.rtrancl_into_rtrancl rtranclp.rtrancl_refl)

lemma sample_sys_reachable: "reachable TWO_PL [(1, 10), (2, 20)] sample_sys"
proof -
  let ?s0 = "sys_init TWO_PL [(1, 10), (2, 20)]" and ?t = "\<lparr>txid = 1, snapshot = 0\<rparr>"
  let ?m0 = "(mgr ?s0)\<lparr>next_id := 2\<rparr>"
  let ?s1 = "?s0\<lparr>mgr := ?m0, active := (active ?s0)(txid ?t \<mapsto> ?t)\<rparr>"
  have b: "tm_begin (mgr ?s0) = (?t, ?m0)"
    by (simp add: tm_begin_def sys_init_def tm_new_def setInitial_def)
  obtain w m1 where w: "tm_write ?t 1 11 (mgr ?s1) = (w, m1)" by (cases "tm_write ?t 1 11 (mgr ?s1)")
  let ?s2 = "?s1\<lparr>mgr := m1, pending := set_pending 1 w (PWrite 1 11) ?s1\<rparr>"
  obtain r m2 where r: "tm_read ?t 2 (mgr ?s2) = (r, m2)" by (cases "tm_read ?t 2 (mgr ?s2)")
  let ?s3 = "?s2\<lparr>mgr := m2, pending := set_pending 1 r (PRead 2) ?s2\<rparr>"
  have wd: "w = Done ()" using w
    by (simp add: tm_write_def acquire_def acquire_loop_def blockers_def sys_init_def tm_new_def setInitial_def Let_def grant_def insort_insert_key_def)
  have p: "set_pending 1 w q x = (pending x)(1 := None)" for q x
    unfolding wd by (simp add: set_pending_def)
  have rd: "\<exists>v. r = Done v" using r w
    by (auto simp: tm_read_def tm_write_def acquire_def acquire_loop_def blockers_def sys_init_def tm_new_def
        setInitial_def Let_def grant_def insort_insert_key_def)
  have s1: "sys_step ?s0 ?s1" by (rule st_begin [OF b])
  have s2: "sys_step ?s1 ?s2" by (rule st_write [OF _ _ w]) (simp_all add: sys_init_def)
  have s3: "sys_step ?s2 ?s3" by (rule st_read [OF _ _ r]) (simp_all add: p sys_init_def)
  have pr: "set_pending 1 r q x = (pending x)(1 := None)" for q x
    using rd by (auto simp: set_pending_def)
  from w have m1: "snd (tm_write ?t 1 11 ?m0) = m1" by simp
  from r have m2: "snd (tm_read ?t 2 m1) = m2" by simp
  have "?s3 = sample_sys"
    unfolding sample_sys_eval m1 m2 by (simp add: p pr sys_init_def fun_eq_iff)
  moreover have "sys_step\<^sup>*\<^sup>* ?s0 ?s3"
    by (rule three_steps) (rule s1 s2 s3)+
  ultimately show ?thesis by (simp add: reachable_def)
qed

theorem reachable_lock_safety_witness:
  "xlock (mgr sample_sys) 1 = Some 1 \<and> slock (mgr sample_sys) 1 = [] \<and> 1 \<in> set (slock (mgr sample_sys) 2)"
  using reachable_lock_safety [OF sample_sys_reachable] by (auto simp: sample_sys_mgr)

text \<open>
  C8. The depth-first search of \<open>hasCycle\<close> terminates and is exact: it answers true if and only if
  the waits-for graph has a cycle through the requesting transaction.
\<close>

theorem hasCycle_correct:
  "hasCycle t w \<longleftrightarrow> (t, t) \<in> {(a, b). \<exists>ns. map_of w a = Some ns \<and> b \<in> set ns}\<^sup>+"
proof -
  have "waits_rel w = {(a, b). \<exists>ns. map_of w a = Some ns \<and> b \<in> set ns}"
    by (force simp: waits_rel_def succs_def split: option.splits)
  then show ?thesis by (simp add: hasCycle_iff)
qed

theorem hasCycle_correct_witness:
  "hasCycle 1 [(1, [2]), (2, [3]), (3, [1])] \<and> \<not> hasCycle 1 [(1, [2]), (2, [3])]"
proof -
  let ?w = "[(1::int, [2::int]), (2, [3])]"
  have "(1::int, 1) \<notin> {(a, b). \<exists>ns. map_of ?w a = Some ns \<and> b \<in> set ns}\<^sup>+"
  proof
    assume "(1::int, 1) \<in> {(a, b). \<exists>ns. map_of ?w a = Some ns \<and> b \<in> set ns}\<^sup>+"
    then obtain a where "(a, 1::int) \<in> {(a, b). \<exists>ns. map_of ?w a = Some ns \<and> b \<in> set ns}"
      by (meson tranclE)
    then show False by (auto split: if_splits)
  qed
  then have "\<not> hasCycle 1 ?w" unfolding hasCycle_correct .
  moreover have "hasCycle 1 [(1, [2]), (2, [3]), (3, [1])]"
    by (simp add: hasCycle_def succs_def insort_insert_key_def)
  ultimately show ?thesis by blast
qed

lemma finite_waits_rel: "finite (waits_rel w)"
proof (rule finite_subset)
  show "waits_rel w \<subseteq> (\<Union>p \<in> set w. {fst p} \<times> set (snd p))"
  proof (rule subrelI)
    fix a b
    assume "(a, b) \<in> waits_rel w"
    then obtain ns where "map_of w a = Some ns" "b \<in> set ns"
      by (cases "map_of w a") (auto simp: waits_rel_def succs_def)
    then show "(a, b) \<in> (\<Union>p \<in> set w. {fst p} \<times> set (snd p))" using map_of_SomeD by force
  qed
qed auto

lemma waits_sink:
  fixes i :: int
  assumes "acyclic R" "finite R" "P i" "\<And>j. P j \<Longrightarrow> \<exists>k. (j, k) \<in> R"
  shows "\<exists>r. (i, r) \<in> R\<^sup>+ \<and> \<not> P r"
proof (rule ccontr)
  assume n: "\<not> (\<exists>r. (i, r) \<in> R\<^sup>+ \<and> \<not> P r)"
  have "wf (R\<inverse>)" by (rule finite_acyclic_wf_converse [OF assms(2,1)])
  moreover have "i \<in> {r. (i, r) \<in> R\<^sup>*}" by simp
  ultimately obtain z where z: "(i, z) \<in> R\<^sup>*" "\<And>y. (y, z) \<in> R\<inverse> \<Longrightarrow> y \<notin> {r. (i, r) \<in> R\<^sup>*}"
    by (rule wfE_min) blast
  have "P z" using z(1) n assms(3) by (metis rtranclD)
  then obtain k where "(z, k) \<in> R" using assms(4) by blast
  with z show False by (meson converseI mem_Collect_eq rtrancl.rtrancl_into_rtrancl)
qed

text \<open>
  C7. Deadlock freedom: in every reachable state of every interleaving the waits-for graph is
  acyclic, and from each sleeping transaction a chain of waits-for edges leads to a transaction
  that is not asleep; so the transactions never all wait for each other.
\<close>

theorem reachable_no_deadlock:
  assumes "reachable md kvs s" "pending s i = Some p"
  shows "acyclic (waits_rel (waits (mgr s))) \<and> (\<exists>r. (i, r) \<in> (waits_rel (waits (mgr s)))\<^sup>+ \<and> pending s r = None)"
proof
  have inv: "sys_inv s" by (rule sys_inv_reachable [OF assms(1)])
  show ac: "acyclic (waits_rel (waits (mgr s)))" using sys_invD(1) [OF inv] by (simp add: tm_inv_def wait_inv_def)
  have "\<exists>k. (j, k) \<in> waits_rel (waits (mgr s))" if "\<exists>q. pending s j = Some q" for j
  proof -
    from that obtain q where "pending s j = Some q" ..
    from sys_invD(4) [OF inv this] have "succs (waits (mgr s)) j \<noteq> []" by (cases q) auto
    then show ?thesis by (cases "succs (waits (mgr s)) j") (auto simp: waits_rel_def)
  qed
  then have "\<exists>r. (i, r) \<in> (waits_rel (waits (mgr s)))\<^sup>+ \<and> \<not> (\<exists>q. pending s r = Some q)"
    using assms(2) by (intro waits_sink [OF ac finite_waits_rel]) blast+
  then show "\<exists>r. (i, r) \<in> (waits_rel (waits (mgr s)))\<^sup>+ \<and> pending s r = None" by (metis option.exhaust)
qed

text \<open>A second transaction that wants to write key 2, which the first one has read, and sleeps.\<close>

definition sample_wait :: sys where
  "sample_wait = (let (t, m) = tm_begin (mgr sample_sys); (w, m1) = tm_write t 2 21 m
    in sample_sys\<lparr>mgr := m1, active := (active sample_sys)(2 \<mapsto> t), pending := set_pending 2 w (PWrite 2 21) sample_sys\<rparr>)"

lemma sample_wait_reachable: "reachable TWO_PL [(1, 10), (2, 20)] sample_wait" "pending sample_wait 2 = Some (PWrite 2 21)"
proof -
  have n: "next_id (mgr sample_sys) = 2" "waits (mgr sample_sys) = []" "held_x (mgr sample_sys) 2 = []" "pending sample_sys = (\<lambda>_. None)"
    by (simp_all add: sample_sys_eval sys_init_def tm_new_def setInitial_def tm_write_def tm_read_def acquire_def
        acquire_loop_def blockers_def grant_def Let_def insort_insert_key_def)
  let ?t = "\<lparr>txid = 2, snapshot = 0\<rparr>" and ?m = "(mgr sample_sys)\<lparr>next_id := 3\<rparr>"
  let ?s1 = "sample_sys\<lparr>mgr := ?m, active := (active sample_sys)(txid ?t \<mapsto> ?t)\<rparr>"
  have b: "tm_begin (mgr sample_sys) = (?t, ?m)" by (simp add: tm_begin_def n sample_sys_mgr)
  obtain w m1 where w: "tm_write ?t 2 21 ?m = (w, m1)" by (cases "tm_write ?t 2 21 ?m")
  have wait: "w = Wait" using w
    by (simp add: tm_write_def acquire_def acquire_loop_def blockers_def n sample_sys_mgr hasCycle_def succs_def Let_def
        insort_insert_key_def)
  let ?s2 = "?s1\<lparr>mgr := m1, pending := set_pending 2 w (PWrite 2 21) ?s1\<rparr>"
  have s1: "sys_step sample_sys ?s1" by (rule st_begin [OF b])
  have s2: "sys_step ?s1 ?s2" by (rule st_write, simp, simp add: n) (use w in simp)
  have eq: "sample_wait = ?s2" by (simp add: sample_wait_def b w set_pending_def)
  show "reachable TWO_PL [(1, 10), (2, 20)] sample_wait"
    using sample_sys_reachable s1 s2 unfolding eq reachable_def by (meson rtranclp.rtrancl_into_rtrancl)
  show "pending sample_wait 2 = Some (PWrite 2 21)" unfolding eq by (simp add: set_pending_def wait)
qed

theorem reachable_no_deadlock_witness:
  "\<exists>r. (2, r) \<in> (waits_rel (waits (mgr sample_wait)))\<^sup>+ \<and> pending sample_wait r = None"
  using reachable_no_deadlock [OF sample_wait_reachable] by blast

subsection \<open>Snapshots\<close>

text \<open>The only step that changes a history is a successful commit, which appends versions of a new timestamp.\<close>

lemma visible_from_append:
  assumes "snap < ts"
  shows "visible_from snap val (vs @ [\<lparr>commit_ts = ts, ver_value = v\<rparr>]) = visible_from snap val vs"
  using assms by (induction vs arbitrary: val) auto

lemma visible_install:
  assumes "distinct (map fst ws)" "snapshot t < ts"
  shows "visible_from (snapshot t) 0 (install ts ws h k) = visible_from (snapshot t) 0 (h k)"
  by (simp add: install_key [OF assms(1)] visible_from_append [OF assms(2)] split: option.split)

lemma sys_step_history:
  assumes "sys_step s s'" "sys_inv s"
  shows "history (mgr s') = history (mgr s) \<or> (\<exists>i t m w. active s i = Some t \<and> pending s i = None \<and>
    tm_commit t (mgr s) = (w, m) \<and> s' = s\<lparr>mgr := m, active := (active s)(i := None)\<rparr>)"
  using assms(1)
proof (cases rule: sys_step.cases)
  case (st_wake_read i t k r m)
  then have "k \<notin> set (held_x (mgr s) (txid t))" using sys_invD(2,4) [OF assms(2)] by fastforce
  then show ?thesis using resume_read_step [OF st_wake_read(4)] st_wake_read(1) by simp
next
  case (st_wake_write i t k v w m)
  then have "k \<notin> set (held_x (mgr s) (txid t))" using sys_invD(2,4) [OF assms(2)] by fastforce
  then show ?thesis using resume_write_step [OF st_wake_write(4)] st_wake_write(1) by simp
next
  case (st_commit i t w m)
  then show ?thesis by blast
qed (use tm_read_step tm_write_step tm_abort_step(5) in \<open>auto simp: tm_begin_def\<close>)

text \<open>
  C4. Snapshot isolation: whatever the other transactions do in between, the value a running
  transaction's snapshot shows for a key never changes.
\<close>

theorem snapshot_stable:
  assumes "reachable md kvs s" "sys_step s s'" "active s i = Some t"
  shows "visibleValue t k (mgr s') = visibleValue t k (mgr s)"
proof -
  have inv: "sys_inv s" by (rule sys_inv_reachable [OF assms(1)])
  from sys_step_history [OF assms(2) inv] show ?thesis
  proof
    assume "\<exists>j u m w. active s j = Some u \<and> pending s j = None \<and>
      tm_commit u (mgr s) = (w, m) \<and> s' = s\<lparr>mgr := m, active := (active s)(j := None)\<rparr>"
    then obtain j u m w where c: "tm_commit u (mgr s) = (w, m)" "mgr s' = m" by auto
    have "distinct (map fst (writes (mgr s) (txid u)))"
      using sys_invD(1) [OF inv] by (simp add: tm_inv_def lock_inv_def)
    moreover have "snapshot t < commit_clock (mgr s) + 1" using sys_invD(3) [OF inv assms(3)] by simp
    ultimately show ?thesis using tm_commit_step(5) [OF c(1)] c(2)
      by (auto simp: visibleValue_def visible_install)
  qed (simp add: visibleValue_def)
qed

lemma visible_all:
  assumes "vs \<noteq> []" "\<forall>v \<in> set vs. commit_ts v \<le> snap"
  shows "visible_from snap val vs = ver_value (last vs)"
  using assms by (induction vs arbitrary: val) auto

lemma not_conflict_iff:
  assumes "hist_inv m"
  shows "\<not> conflict t m \<longleftrightarrow> (\<forall>k \<in> fst ` set (writes m (txid t)). \<forall>v \<in> set (history m k). commit_ts v \<le> snapshot t)"
proof -
  have top: "vs = [] \<or> \<not> snap < commit_ts (last vs) \<longleftrightarrow> (\<forall>v \<in> set vs. commit_ts v \<le> snap)"
    if "sorted (map commit_ts vs)" for vs snap
  proof (cases vs rule: rev_cases)
    case (snoc ys y)
    then show ?thesis using that by (auto simp: sorted_append)
  qed simp
  have "\<not> conflict t m \<longleftrightarrow> (\<forall>k \<in> fst ` set (writes m (txid t)). history m k = [] \<or> \<not> snapshot t < commit_ts (last (history m k)))"
    by (force simp: conflict_def)
  also have "\<dots> \<longleftrightarrow> (\<forall>k \<in> fst ` set (writes m (txid t)). \<forall>v \<in> set (history m k). commit_ts v \<le> snapshot t)"
    using assms by (intro ball_cong refl top) (simp add: hist_inv_def)
  finally show ?thesis .
qed

lemma tm_commit_ok:
  assumes "tm_commit t m = (r, m')" "tmode m = MVCC" "distinct (map fst (writes m (txid t)))"
  shows "r = Done () \<longleftrightarrow> \<not> conflict t m"
    "r = Done () \<Longrightarrow> history m' k = history m k @ (case map_of (writes m (txid t)) k of None \<Rightarrow> []
       | Some v \<Rightarrow> [\<lparr>commit_ts = commit_clock m + 1, ver_value = v\<rparr>])"
    "r \<noteq> Done () \<Longrightarrow> r = Raise (TxnConflict (txid t)) \<and> history m' = history m"
  using assms by (auto simp: tm_commit_def Let_def install_key split: if_splits option.split)

text \<open>
  C3. First committer wins, so no update is lost: in MVCC mode the commit of a running
  transaction succeeds if and only if no key it wrote has a version newer than its snapshot. It
  then appends exactly one version, of the next timestamp, to the history of each written key,
  on top of the very value the transaction's snapshot shows for that key, and leaves all other
  histories alone; otherwise it throws \<open>TxnConflict\<close> and no history changes. Either way the
  transaction's write buffer is gone and it holds no lock.
\<close>

theorem first_committer_wins:
  assumes "reachable md kvs s" "tmode (mgr s) = MVCC" "active s i = Some t" "pending s i = None"
    and "tm_commit t (mgr s) = (r, m)"
  shows "(r = Done () \<longleftrightarrow> (\<forall>k \<in> fst ` set (writes (mgr s) i). \<forall>v \<in> set (history (mgr s) k). commit_ts v \<le> snapshot t))
    \<and> (r = Done () \<longrightarrow> (\<forall>k. history m k = history (mgr s) k @ (case map_of (writes (mgr s) i) k of None \<Rightarrow> []
          | Some v \<Rightarrow> [\<lparr>commit_ts = commit_clock (mgr s) + 1, ver_value = v\<rparr>]))
        \<and> (\<forall>k \<in> fst ` set (writes (mgr s) i). latest k (mgr s) = visibleValue t k (mgr s)))
    \<and> (r \<noteq> Done () \<longrightarrow> r = Raise (TxnConflict i) \<and> history m = history (mgr s))
    \<and> writes m i = [] \<and> (\<forall>k. xlock m k \<noteq> Some i \<and> i \<notin> set (slock m k))"
proof -
  have inv: "sys_inv s" by (rule sys_inv_reachable [OF assms(1)])
  have id: "txid t = i" by (rule sys_invD(2) [OF inv assms(3)])
  have tmi: "tm_inv (mgr s)" by (rule sys_invD(1) [OF inv])
  have d: "distinct (map fst (writes (mgr s) (txid t)))" using tmi by (simp add: tm_inv_def lock_inv_def)
  have nc: "\<not> conflict t (mgr s) \<longleftrightarrow> (\<forall>k \<in> fst ` set (writes (mgr s) i). \<forall>v \<in> set (history (mgr s) k). commit_ts v \<le> snapshot t)"
    using not_conflict_iff [of "mgr s" t] tmi by (simp add: tm_inv_def id)
  have seen: "\<forall>k \<in> fst ` set (writes (mgr s) i). latest k (mgr s) = visibleValue t k (mgr s)" if "r = Done ()"
  proof
    fix k
    assume "k \<in> fst ` set (writes (mgr s) i)"
    then have "\<forall>v \<in> set (history (mgr s) k). commit_ts v \<le> snapshot t"
      using that tm_commit_ok(1) [OF assms(5,2) d] nc by blast
    then show "latest k (mgr s) = visibleValue t k (mgr s)"
      by (cases "history (mgr s) k = []") (simp_all add: latest_def visibleValue_def visible_all)
  qed
  have "lock_inv m" using tm_commit_inv [OF tmi, of t] assms(5) by (simp add: tm_inv_def)
  from lock_invD(1,2) [OF this] have free: "\<forall>k. xlock m k \<noteq> Some i \<and> i \<notin> set (slock m k)"
    using tm_commit_step(2,3) [OF assms(5)] by (simp add: id)
  show ?thesis
    using tm_commit_ok [OF assms(5,2) d] nc seen free tm_commit_step(4) [OF assms(5)] unfolding id by blast
qed

lemma grant_grows:
  "set (held_s m j) \<union> set (held_x m j) \<subseteq> set (held_s (grant t key md m) j) \<union> set (held_x (grant t key md m) j)"
  by (auto simp: grant_def Let_def set_insort_insert)

lemma acquire_loop_grows:
  "acquire_loop t key md m = (r, m') \<Longrightarrow> set (held_s m j) \<union> set (held_x m j) \<subseteq> set (held_s m' j) \<union> set (held_x m' j)"
  using grant_grows [of m j t key md] by (auto simp: acquire_loop_def Let_def split: if_splits)

lemma acquire_grows:
  "acquire t key md m = (r, m') \<Longrightarrow> set (held_s m j) \<union> set (held_x m j) \<subseteq> set (held_s m' j) \<union> set (held_x m' j)"
  using acquire_loop_grows [of t key md m r m' j] by (auto simp: acquire_def split: if_splits)

lemma finish_read_grows: "finish_read key (r, m) = (x, m') \<Longrightarrow> held_s m' = held_s m \<and> held_x m' = held_x m"
  by (cases r) auto

lemma op_grows:
  "tm_read t k m = (r, m') \<Longrightarrow> set (held_s m j) \<union> set (held_x m j) \<subseteq> set (held_s m' j) \<union> set (held_x m' j)"
  "resume_read t k m = (r, m') \<Longrightarrow> set (held_s m j) \<union> set (held_x m j) \<subseteq> set (held_s m' j) \<union> set (held_x m' j)"
  "tm_write t k v m = (w, m') \<Longrightarrow> set (held_s m j) \<union> set (held_x m j) \<subseteq> set (held_s m' j) \<union> set (held_x m' j)"
  "resume_write t k v m = (w, m') \<Longrightarrow> set (held_s m j) \<union> set (held_x m j) \<subseteq> set (held_s m' j) \<union> set (held_x m' j)"
proof goal_cases
  case 1
  obtain x m1 where a: "acquire (txid t) k SHARED m = (x, m1)" by (cases "acquire (txid t) k SHARED m")
  from 1 acquire_grows [OF a] finish_read_grows [of k x m1] show ?case
    by (fastforce simp: tm_read_def a split: option.splits if_splits)
next
  case 2
  obtain x m1 where a: "acquire_loop (txid t) k SHARED m = (x, m1)" by (cases "acquire_loop (txid t) k SHARED m")
  then have "finish_read k (x, m1) = (r, m')" using 2 by (simp add: resume_read_def)
  from finish_read_grows [OF this] acquire_loop_grows [OF a] show ?case by simp
next
  case 3
  obtain x m1 where a: "acquire (txid t) k EXCLUSIVE m = (x, m1)" by (cases "acquire (txid t) k EXCLUSIVE m")
  then have "finish_write (txid t) k v (x, m1) = (w, m')" using 3 by (simp add: tm_write_def)
  from finish_write_fst [OF this] acquire_grows [OF a] show ?case by simp
next
  case 4
  obtain x m1 where a: "acquire_loop (txid t) k EXCLUSIVE m = (x, m1)" by (cases "acquire_loop (txid t) k EXCLUSIVE m")
  then have "finish_write (txid t) k v (x, m1) = (w, m')" using 4 by (simp add: resume_write_def)
  from finish_write_fst [OF this] acquire_loop_grows [OF a] show ?case by simp
qed

lemma sys_step_grows:
  assumes "sys_step s s'" "sys_inv s" "active s' i \<noteq> None"
  shows "set (held_s (mgr s) i) \<union> set (held_x (mgr s) i) \<subseteq> set (held_s (mgr s') i) \<union> set (held_x (mgr s') i)"
  using assms(1)
proof (cases rule: sys_step.cases)
  case (st_commit j t w m)
  then have "i \<noteq> txid t" using assms(3) sys_invD(2) [OF assms(2) st_commit(2)] by auto
  then show ?thesis using tm_commit_step(1) [OF st_commit(4)] st_commit(1) by (simp add: others_kept_def)
next
  case (st_abort j t)
  then have "i \<noteq> txid t" using assms(3) sys_invD(2) [OF assms(2) st_abort(2)] by auto
  then show ?thesis using tm_abort_step(1) [of t "mgr s"] st_abort(1) by (simp add: others_kept_def)
next
  case (st_begin t m)
  then show ?thesis by (auto simp: tm_begin_def)
next
  case (st_read j t k r m)
  then show ?thesis using op_grows(1) by simp
next
  case (st_write j t k v w m)
  then show ?thesis using op_grows(3) by simp
next
  case (st_wake_read j t k r m)
  then show ?thesis using op_grows(2) by simp
next
  case (st_wake_write j t k v w m)
  then show ?thesis using op_grows(4) by simp
qed

lemma locked_history:
  assumes "sys_step s s'" "sys_inv s" "active s' i \<noteq> None" "k \<in> set (held_s (mgr s) i) \<union> set (held_x (mgr s) i)"
  shows "history (mgr s') k = history (mgr s) k"
  using sys_step_history [OF assms(1,2)]
proof
  assume "\<exists>j u m w. active s j = Some u \<and> pending s j = None \<and>
    tm_commit u (mgr s) = (w, m) \<and> s' = s\<lparr>mgr := m, active := (active s)(j := None)\<rparr>"
  then obtain j u m w where c: "active s j = Some u" "tm_commit u (mgr s) = (w, m)"
    "s' = s\<lparr>mgr := m, active := (active s)(j := None)\<rparr>" by blast
  have ne: "txid u \<noteq> i" using c assms(3) sys_invD(2) [OF assms(2) c(1)] by auto
  have li: "lock_inv (mgr s)" using sys_invD(1) [OF assms(2)] by (simp add: tm_inv_def)
  have "k \<notin> fst ` set (writes (mgr s) (txid u))"
  proof
    assume "k \<in> fst ` set (writes (mgr s) (txid u))"
    then have x: "xlock (mgr s) k = Some (txid u)" by (rule lock_invD(4) [OF li])
    then have "slock (mgr s) k = []" by (rule lock_invD(3) [OF li])
    then have "k \<notin> set (held_s (mgr s) i)" using lock_invD(2) [OF li, of i k] by simp
    moreover have "k \<notin> set (held_x (mgr s) i)" using lock_invD(1) [OF li, of k i] x ne by simp
    ultimately show False using assms(4) by simp
  qed
  then show ?thesis using tm_commit_step(5) [OF c(2)] c(3) by (auto simp: install_other)
qed simp

text \<open>
  C5. Strict two-phase locking: while a transaction runs, no step of any transaction takes a lock
  away from it or changes the committed history of a key it holds a lock on, so its locked
  reads repeat and what it locked is what its commit overwrites.
\<close>

theorem locked_reads_repeat:
  assumes "reachable md kvs s" "sys_step s s'" "active s' i \<noteq> None"
    and "k \<in> set (held_s (mgr s) i) \<union> set (held_x (mgr s) i)"
  shows "k \<in> set (held_s (mgr s') i) \<union> set (held_x (mgr s') i) \<and> latest k (mgr s') = latest k (mgr s)"
proof -
  have inv: "sys_inv s" by (rule sys_inv_reachable [OF assms(1)])
  show ?thesis using sys_step_grows [OF assms(2) inv assms(3)] locked_history [OF assms(2) inv assms(3,4)] assms(4)
    by (auto simp: latest_def)
qed

theorem locked_reads_repeat_witness:
  "\<exists>s'. sys_step sample_sys s' \<and> 2 \<in> set (held_s (mgr s') 1) \<union> set (held_x (mgr s') 1) \<and> latest 2 (mgr s') = latest 2 (mgr sample_sys)"
proof -
  obtain t m where b: "tm_begin (mgr sample_sys) = (t, m)" by (cases "tm_begin (mgr sample_sys)")
  have st: "sys_step sample_sys (sample_sys\<lparr>mgr := m, active := (active sample_sys)(txid t \<mapsto> t)\<rparr>)" (is "sys_step _ ?s")
    by (rule st_begin [OF b])
  have "active ?s 1 \<noteq> None" by (simp add: sample_sys_eval)
  moreover have "2 \<in> set (held_s (mgr sample_sys) 1) \<union> set (held_x (mgr sample_sys) 1)" by (simp add: sample_sys_mgr)
  ultimately have "2 \<in> set (held_s (mgr ?s) 1) \<union> set (held_x (mgr ?s) 1) \<and> latest 2 (mgr ?s) = latest 2 (mgr sample_sys)"
    by (rule locked_reads_repeat [OF sample_sys_reachable st])
  with st show ?thesis by blast
qed

text \<open>Two transactions of the MVCC engine, of which the first has written key 1.\<close>

definition sample_mvcc :: sys where
  "sample_mvcc = (let s = sys_init MVCC [(1, 10)]; (t1, m1) = tm_begin (mgr s); (t2, m2) = tm_begin m1;
      (w, m3) = tm_write t1 1 11 m2
    in s\<lparr>mgr := m3, active := (active s)(1 \<mapsto> t1, 2 \<mapsto> t2)\<rparr>)"

lemma sample_mvcc_eval:
  "mgr sample_mvcc = snd (tm_write \<lparr>txid = 1, snapshot = 0\<rparr> 1 11 ((mgr (sys_init MVCC [(1, 10)]))\<lparr>next_id := 3\<rparr>))"
  "active sample_mvcc = [1 \<mapsto> \<lparr>txid = 1, snapshot = 0\<rparr>, 2 \<mapsto> \<lparr>txid = 2, snapshot = 0\<rparr>]"
  "pending sample_mvcc = (\<lambda>_. None)"
  by (simp_all add: sample_mvcc_def sys_init_def tm_begin_def tm_new_def setInitial_def split_def Let_def)

lemma sample_mvcc_mgr:
  "tmode (mgr sample_mvcc) = MVCC" "history (mgr sample_mvcc) 1 = [\<lparr>commit_ts = 0, ver_value = 10\<rparr>]"
  "writes (mgr sample_mvcc) 1 = [(1, 11)]" "commit_clock (mgr sample_mvcc) = 0"
  by (simp_all add: sample_mvcc_eval sys_init_def tm_new_def setInitial_def tm_write_def acquire_def
      acquire_loop_def blockers_def grant_def Let_def)

lemma sample_mvcc_reachable: "reachable MVCC [(1, 10)] sample_mvcc"
proof -
  let ?s0 = "sys_init MVCC [(1, 10)]" and ?t1 = "\<lparr>txid = 1, snapshot = 0\<rparr>" and ?t2 = "\<lparr>txid = 2, snapshot = 0\<rparr>"
  let ?s1 = "?s0\<lparr>mgr := (mgr ?s0)\<lparr>next_id := 2\<rparr>, active := (active ?s0)(txid ?t1 \<mapsto> ?t1)\<rparr>"
  let ?s2 = "?s1\<lparr>mgr := (mgr ?s1)\<lparr>next_id := 3\<rparr>, active := (active ?s1)(txid ?t2 \<mapsto> ?t2)\<rparr>"
  obtain w m where w: "tm_write ?t1 1 11 (mgr ?s2) = (w, m)" by (cases "tm_write ?t1 1 11 (mgr ?s2)")
  have wd: "w = Done ()" using w
    by (simp add: tm_write_def acquire_def acquire_loop_def blockers_def sys_init_def tm_new_def setInitial_def Let_def)
  let ?s3 = "?s2\<lparr>mgr := m, pending := set_pending 1 w (PWrite 1 11) ?s2\<rparr>"
  have p: "set_pending 1 w q x = (pending x)(1 := None)" for q x
    unfolding wd by (simp add: set_pending_def)
  have s1: "sys_step ?s0 ?s1" by (rule st_begin) (simp add: tm_begin_def sys_init_def tm_new_def setInitial_def)
  have s2: "sys_step ?s1 ?s2" by (rule st_begin) (simp add: tm_begin_def sys_init_def tm_new_def setInitial_def)
  have s3: "sys_step ?s2 ?s3" by (rule st_write [OF _ _ w]) (simp_all add: sys_init_def)
  from w have m: "snd (tm_write ?t1 1 11 ((mgr ?s0)\<lparr>next_id := 3\<rparr>)) = m" by simp
  have "?s3 = sample_mvcc"
    by (rule sys.equality) (simp_all add: sample_mvcc_eval m p, simp_all add: sys_init_def fun_eq_iff)
  moreover have "sys_step\<^sup>*\<^sup>* ?s0 ?s3" by (rule three_steps) (rule s1 s2 s3)+
  ultimately show ?thesis by (simp add: reachable_def)
qed

theorem snapshot_stable_witness:
  "\<exists>s'. sys_step sample_mvcc s' \<and> latest 1 (mgr s') = 11 \<and> visibleValue \<lparr>txid = 2, snapshot = 0\<rparr> 1 (mgr s') = 10"
proof -
  let ?t = "\<lparr>txid = 1, snapshot = 0\<rparr>"
  obtain r m where c: "tm_commit ?t (mgr sample_mvcc) = (r, m)" by (cases "tm_commit ?t (mgr sample_mvcc)")
  have st: "sys_step sample_mvcc (sample_mvcc\<lparr>mgr := m, active := (active sample_mvcc)(1 := None)\<rparr>)" (is "sys_step _ ?s")
    by (rule st_commit [OF _ _ c]) (simp_all add: sample_mvcc_eval)
  have "latest 1 (mgr ?s) = 11" using c
    by (auto simp: tm_commit_def conflict_def sample_mvcc_mgr install_def latest_def Let_def)
  moreover have "visibleValue \<lparr>txid = 2, snapshot = 0\<rparr> 1 (mgr sample_mvcc) = 10"
    by (simp add: visibleValue_def sample_mvcc_mgr)
  moreover have "visibleValue \<lparr>txid = 2, snapshot = 0\<rparr> 1 (mgr ?s) = visibleValue \<lparr>txid = 2, snapshot = 0\<rparr> 1 (mgr sample_mvcc)"
    by (rule snapshot_stable [OF sample_mvcc_reachable st, of 2]) (simp add: sample_mvcc_eval)
  ultimately show ?thesis using st by metis
qed

theorem first_committer_wins_witness:
  "\<exists>m. tm_commit \<lparr>txid = 1, snapshot = 0\<rparr> (mgr sample_mvcc) = (Done (), m)
     \<and> history m 1 = [\<lparr>commit_ts = 0, ver_value = 10\<rparr>, \<lparr>commit_ts = 1, ver_value = 11\<rparr>] \<and> writes m 1 = []"
proof -
  let ?t = "\<lparr>txid = 1, snapshot = 0\<rparr>"
  obtain r m where c: "tm_commit ?t (mgr sample_mvcc) = (r, m)" by (cases "tm_commit ?t (mgr sample_mvcc)")
  have a: "active sample_mvcc 1 = Some ?t" "pending sample_mvcc 1 = None" by (simp_all add: sample_mvcc_eval)
  note f = first_committer_wins [OF sample_mvcc_reachable sample_mvcc_mgr(1) a c]
  from f have "r = Done ()" by (simp add: sample_mvcc_mgr)
  moreover from f this have "history m 1 = [\<lparr>commit_ts = 0, ver_value = 10\<rparr>, \<lparr>commit_ts = 1, ver_value = 11\<rparr>]" "writes m 1 = []"
    by (simp_all add: sample_mvcc_mgr)
  ultimately show ?thesis using c by simp
qed

end
