(* ===== verification/Benchmark.thy ===== *)
theory Benchmark
  imports TransactionManager
begin

text \<open>
  \<open>benchmarks/bench_mvcc_vs_2pl.cpp\<close>: reader and writer threads around one transaction manager. A
  step of a thread is one call of the manager up to its return or its wait, with the thread's own
  computation behind it; the numbers of \<open>std::mt19937\<close> are arguments, so every sequence of them is
  covered. The wall clock is the step that sets \<open>stop\<close>, which can happen at any time.

  The threads together refine \<open>sys_step\<close> (\<open>bench_simulated\<close>), so what holds of every reachable
  system of transactions holds of the benchmark. On that rest the two properties: what a mode
  rules out (\<open>bench_modes\<close>, spurious wake-ups included), and that a stopped run ends without any
  spurious wake-up (\<open>bench_returns\<close>): a sleeper that was not notified waits for running
  transactions only (\<open>waits_live\<close>), the waits-for entries have no cycle, so some thread can run,
  and each step lowers \<open>work\<close>.
\<close>

section \<open>Threads\<close>

definition KEYS :: int where "KEYS = 64"
definition READERS :: nat where "READERS = 8"
definition WRITERS :: nat where "WRITERS = 4"
definition KEYS_PER_TXN :: nat where "KEYS_PER_TXN = 4"

text \<open>
  Where a thread is: at the head of its loop; before call \<open>j\<close> of a transaction, or asleep in it;
  in the handler of a deadlock or of a write conflict; returned; ended by an exception that no
  handler catches.
\<close>

datatype phase =
    Idle
  | Reading txn nat
  | ReadWait txn nat int
  | Writing txn nat int
  | WriteWait txn nat int int
  | Aborting txn
  | Refused txn
  | Ended
  | Crashed tm_error

text \<open>
  Threads \<open>0 ..< WRITERS\<close> are the writers, the others the readers. \<open>woken\<close> holds the threads for which
  \<open>cv_.notify_all\<close> was called after they last ran.
\<close>

record bench =
  b_mgr :: tm
  phases :: "phase list"
  stopped :: bool
  woken :: "nat set"
  n_reads :: int
  n_writes :: int
  n_rdl :: int
  n_wconf :: int

text \<open>
  \<open>commit\<close> (refused or not) and \<open>abort\<close> end with \<open>cv_.notify_all()\<close>, under the manager's mutex. \<open>tm\<close>
  has no sleepers, the threads do, so the call is modelled here, at each commit and abort of a thread.
\<close>

definition notify_all :: "bench \<Rightarrow> bench" where
  "notify_all b = b\<lparr>woken := {..<length (phases b)}\<rparr>"

text \<open>The catch clauses of a reader and of a writer.\<close>

fun reader_catch :: "txn \<Rightarrow> tm_error \<Rightarrow> phase" where
  "reader_catch t (DeadlockAbort x) = Aborting t"
| "reader_catch t (TxnConflict x) = Crashed (TxnConflict x)"

fun writer_catch :: "txn \<Rightarrow> tm_error \<Rightarrow> phase" where
  "writer_catch t (DeadlockAbort x) = Aborting t"
| "writer_catch t (TxnConflict x) = Refused t"

fun after_read :: "txn \<Rightarrow> nat \<Rightarrow> int \<Rightarrow> int outcome \<times> tm \<Rightarrow> bench \<Rightarrow> phase \<times> bench" where
  "after_read t j key (Done v, m) b = (Reading t (Suc j), b\<lparr>b_mgr := m, n_reads := n_reads b + 1\<rparr>)"
| "after_read t j key (Wait, m) b = (ReadWait t j key, b\<lparr>b_mgr := m\<rparr>)"
| "after_read t j key (Raise e, m) b = (reader_catch t e, b\<lparr>b_mgr := m\<rparr>)"

fun after_write :: "txn \<Rightarrow> nat \<Rightarrow> int \<Rightarrow> int \<Rightarrow> unit outcome \<times> tm \<Rightarrow> bench \<Rightarrow> phase \<times> bench" where
  "after_write t j base v (Done _, m) b = (Writing t (Suc j) base, b\<lparr>b_mgr := m\<rparr>)"
| "after_write t j base v (Wait, m) b = (WriteWait t j base v, b\<lparr>b_mgr := m\<rparr>)"
| "after_write t j base v (Raise e, m) b = (writer_catch t e, b\<lparr>b_mgr := m\<rparr>)"

text \<open>\<open>tm_commit\<close> never waits.\<close>

fun after_commit :: "(tm_error \<Rightarrow> phase) \<Rightarrow> unit outcome \<times> tm \<Rightarrow> bench \<Rightarrow> phase \<times> bench" where
  "after_commit catch (Raise e, m) b = (catch e, notify_all (b\<lparr>b_mgr := m\<rparr>))"
| "after_commit catch (_, m) b = (Idle, notify_all (b\<lparr>b_mgr := m\<rparr>))"

definition key_of_write :: "int \<Rightarrow> nat \<Rightarrow> int" where
  "key_of_write base j = (base + int j) mod KEYS"

text \<open>A step of a reader, with \<open>r\<close> as the next number of its generator, if it draws one.\<close>

fun reader_step :: "int \<Rightarrow> phase \<Rightarrow> bench \<Rightarrow> phase \<times> bench" where
  "reader_step r Idle b =
     (if stopped b then (Ended, b)
      else let (t, m) = tm_begin (b_mgr b) in (Reading t 0, b\<lparr>b_mgr := m\<rparr>))"
| "reader_step r (Reading t j) b =
     (if j < KEYS_PER_TXN then after_read t j (r mod KEYS) (tm_read t (r mod KEYS) (b_mgr b)) b
      else after_commit (reader_catch t) (tm_commit t (b_mgr b)) b)"
| "reader_step r (ReadWait t j key) b = after_read t j key (resume_read t key (b_mgr b)) b"
| "reader_step r (Aborting t) b = (Idle, (notify_all (b\<lparr>b_mgr := tm_abort t (b_mgr b)\<rparr>))\<lparr>n_rdl := n_rdl b + 1\<rparr>)"
| "reader_step r p b = (p, b)"

fun writer_step :: "int \<Rightarrow> phase \<Rightarrow> bench \<Rightarrow> phase \<times> bench" where
  "writer_step r Idle b =
     (if stopped b then (Ended, b)
      else let (t, m) = tm_begin (b_mgr b) in (Writing t 0 (r mod KEYS), b\<lparr>b_mgr := m\<rparr>))"
| "writer_step r (Writing t j base) b =
     (if j < KEYS_PER_TXN then after_write t j base r (tm_write t (key_of_write base j) r (b_mgr b)) b
      else case tm_commit t (b_mgr b) of
             (Done u, m) \<Rightarrow> (Idle, (notify_all (b\<lparr>b_mgr := m\<rparr>))\<lparr>n_writes := n_writes b + 1\<rparr>)
           | res \<Rightarrow> after_commit (writer_catch t) res b)"
| "writer_step r (WriteWait t j base v) b = after_write t j base v (resume_write t (key_of_write base j) v (b_mgr b)) b"
| "writer_step r (Aborting t) b = (Idle, notify_all (b\<lparr>b_mgr := tm_abort t (b_mgr b)\<rparr>))"
| "writer_step r (Refused t) b = (Idle, (notify_all (b\<lparr>b_mgr := tm_abort t (b_mgr b)\<rparr>))\<lparr>n_wconf := n_wconf b + 1\<rparr>)"
| "writer_step r p b = (p, b)"

text \<open>A notification counts for a thread until it runs; what it sleeps in after that is a new wait.\<close>

definition thread_step :: "nat \<Rightarrow> int \<Rightarrow> bench \<Rightarrow> bench" where
  "thread_step k r b =
     (let (p, b') = (if k < WRITERS then writer_step else reader_step) r (phases b ! k) b
      in b'\<lparr>phases := (phases b)[k := p], woken := woken b' - {k}\<rparr>)"

section \<open>Running a mode\<close>

definition bench_init :: "tm_mode \<Rightarrow> bench" where
  "bench_init md = \<lparr>b_mgr = fold (\<lambda>k. setInitial (int k) 0) [0..<nat KEYS] (tm_new md),
     phases = replicate (WRITERS + READERS) Idle, stopped = False, woken = {},
     n_reads = 0, n_writes = 0, n_rdl = 0, n_wconf = 0\<rparr>"

text \<open>
  Any thread takes a step with any output of its generator, or the main thread wakes up and stops
  them. A sleeper may step without a notification, as \<open>std::condition_variable\<close> allows.
\<close>

inductive bench_step :: "bench \<Rightarrow> bench \<Rightarrow> bool" where
  b_thread: "k < length (phases b) \<Longrightarrow> 0 \<le> r \<Longrightarrow> r < 2 ^ 32 \<Longrightarrow> bench_step b (thread_step k r b)"
| b_stop: "bench_step b (b\<lparr>stopped := True\<rparr>)"

inductive_cases bench_stepE: "bench_step b b'"

text \<open>
  The steps of threads that have not ended, without spurious wake-ups: a sleeper runs only if it
  was notified.
\<close>

fun asleep :: "phase \<Rightarrow> bool" where
  "asleep (ReadWait t j key) = True"
| "asleep (WriteWait t j base v) = True"
| "asleep p = False"

inductive notified_step :: "bench \<Rightarrow> bench \<Rightarrow> bool" where
  n_thread: "k < length (phases b) \<Longrightarrow> phases b ! k \<noteq> Ended \<Longrightarrow> (asleep (phases b ! k) \<Longrightarrow> k \<in> woken b)
     \<Longrightarrow> 0 \<le> r \<Longrightarrow> r < 2 ^ 32 \<Longrightarrow> notified_step b (thread_step k r b)"

inductive_cases notified_stepE: "notified_step b b'"

definition bench_reachable :: "tm_mode \<Rightarrow> bench \<Rightarrow> bool" where
  "bench_reachable md b \<longleftrightarrow> bench_step\<^sup>*\<^sup>* (bench_init md) b"

text \<open>What \<open>runMode\<close> returns when all threads have been joined.\<close>

record bench_result =
  r_reads :: int
  r_writes :: int
  read_deadlocks :: int
  r_deadlocks :: nat
  write_conflicts :: int

definition run_result :: "bench \<Rightarrow> bench_result option" where
  "run_result b =
     (if list_all (\<lambda>p. p = Ended) (phases b)
      then Some \<lparr>r_reads = n_reads b, r_writes = n_writes b, read_deadlocks = n_rdl b,
        r_deadlocks = deadlocks (b_mgr b), write_conflicts = n_wconf b\<rparr>
      else None)"

section \<open>Calls of the manager, seen from the threads\<close>

text \<open>
  What a call of transaction \<open>i\<close> does to the mode, the write buffers of others and the waits-for
  entries of others.
\<close>

definition call_frame :: "int \<Rightarrow> tm \<Rightarrow> tm \<Rightarrow> bool" where
  "call_frame i m m' \<longleftrightarrow> tmode m' = tmode m \<and> next_id m' = next_id m
     \<and> (\<forall>j. j \<noteq> i \<longrightarrow> writes m' j = writes m j \<and> map_of (waits m') j = map_of (waits m) j)"

lemma acquire_loop_call: "acquire_loop t key md m = (r, m') \<Longrightarrow> call_frame t m m' \<and> writes m' = writes m"
  by (auto simp: acquire_loop_def grant_def Let_def call_frame_def delete_conv' update_conv' split: if_splits)

lemma acquire_call: "acquire t key md m = (r, m') \<Longrightarrow> call_frame t m m' \<and> writes m' = writes m"
  using acquire_loop_call by (auto simp: acquire_def call_frame_def split: if_splits)

lemma acquire_loop_error: "acquire_loop t key md m = (Raise e, m') \<Longrightarrow> e = DeadlockAbort t"
  by (auto simp: acquire_loop_def Let_def split: if_splits)

lemma acquire_error: "acquire t key md m = (Raise e, m') \<Longrightarrow> e = DeadlockAbort t"
  using acquire_loop_error by (auto simp: acquire_def split: if_splits)

lemma finish_read_call: "finish_read key (x, m) = (r, m') \<Longrightarrow> m' = m \<and> (\<forall>e. r = Raise e \<longrightarrow> x = Raise e)"
  by (cases x) auto

lemma finish_write_call:
  "finish_write t key v (x, m) = (r, m') \<Longrightarrow> call_frame t m m' \<and> (\<forall>e. r = Raise e \<longrightarrow> x = Raise e)"
  by (cases x) (auto simp: call_frame_def)

lemma call_frame_trans: "call_frame i a b \<Longrightarrow> call_frame i b c \<Longrightarrow> call_frame i a c"
  by (simp add: call_frame_def)

lemma tm_read_call:
  assumes "tm_read t key m = (r, m')"
  shows "call_frame (txid t) m m'" "writes m' = writes m" "r = Raise e \<Longrightarrow> e = DeadlockAbort (txid t)"
    "tmode m = MVCC \<Longrightarrow> \<exists>v. r = Done v"
proof -
  have "call_frame (txid t) m m' \<and> writes m' = writes m \<and> (r = Raise e \<longrightarrow> e = DeadlockAbort (txid t)) \<and> (tmode m = MVCC \<longrightarrow> (\<exists>v. r = Done v))"
  proof (cases "map_of (writes m (txid t)) key = None \<and> tmode m = TWO_PL")
    case True
    obtain x m1 where a: "acquire (txid t) key SHARED m = (x, m1)" by (cases "acquire (txid t) key SHARED m")
    then have "finish_read key (x, m1) = (r, m')" using assms True by (simp add: tm_read_def)
    from finish_read_call [OF this] show ?thesis using acquire_call [OF a] acquire_error a True by auto
  next
    case False
    then have "m' = m \<and> (\<exists>v. r = Done v)" using assms by (auto simp: tm_read_def split: option.splits if_splits)
    then show ?thesis by (auto simp: call_frame_def)
  qed
  then show "call_frame (txid t) m m'" "writes m' = writes m" "r = Raise e \<Longrightarrow> e = DeadlockAbort (txid t)"
    "tmode m = MVCC \<Longrightarrow> \<exists>v. r = Done v" by blast+
qed

lemma resume_read_call:
  assumes "resume_read t key m = (r, m')"
  shows "call_frame (txid t) m m'" "writes m' = writes m" "r = Raise e \<Longrightarrow> e = DeadlockAbort (txid t)"
proof -
  obtain x m1 where a: "acquire_loop (txid t) key SHARED m = (x, m1)" by (cases "acquire_loop (txid t) key SHARED m")
  then have "finish_read key (x, m1) = (r, m')" using assms by (simp add: resume_read_def)
  note f = finish_read_call [OF this]
  show "call_frame (txid t) m m'" "writes m' = writes m" using f acquire_loop_call [OF a] by simp_all
  show "r = Raise e \<Longrightarrow> e = DeadlockAbort (txid t)" using f acquire_loop_error a by blast
qed

lemma tm_write_call:
  assumes "tm_write t key v m = (r, m')"
  shows "call_frame (txid t) m m'" "r = Raise e \<Longrightarrow> e = DeadlockAbort (txid t)"
proof -
  obtain x m1 where a: "acquire (txid t) key EXCLUSIVE m = (x, m1)" by (cases "acquire (txid t) key EXCLUSIVE m")
  then have "finish_write (txid t) key v (x, m1) = (r, m')" using assms by (simp add: tm_write_def)
  note f = finish_write_call [OF this]
  show "call_frame (txid t) m m'" using call_frame_trans acquire_call [OF a] f by blast
  show "r = Raise e \<Longrightarrow> e = DeadlockAbort (txid t)" using f acquire_error a by blast
qed

lemma resume_write_call:
  assumes "resume_write t key v m = (r, m')"
  shows "call_frame (txid t) m m'" "r = Raise e \<Longrightarrow> e = DeadlockAbort (txid t)"
proof -
  obtain x m1 where a: "acquire_loop (txid t) key EXCLUSIVE m = (x, m1)" by (cases "acquire_loop (txid t) key EXCLUSIVE m")
  then have "finish_write (txid t) key v (x, m1) = (r, m')" using assms by (simp add: resume_write_def)
  note f = finish_write_call [OF this]
  show "call_frame (txid t) m m'" using call_frame_trans acquire_loop_call [OF a] f by blast
  show "r = Raise e \<Longrightarrow> e = DeadlockAbort (txid t)" using f acquire_loop_error a by blast
qed

lemma tm_commit_call:
  assumes "tm_commit t m = (r, m')"
  shows "call_frame (txid t) m m'" "map_of (waits m') (txid t) = None" "r \<noteq> Wait"
    "r = Raise e \<Longrightarrow> e = TxnConflict (txid t) \<and> tmode m = MVCC \<and> writes m (txid t) \<noteq> []"
  using assms by (auto simp: tm_commit_def Let_def call_frame_def delete_conv' conflict_def split: if_splits)

lemma tm_abort_call: "call_frame (txid t) m (tm_abort t m)" "map_of (waits (tm_abort t m)) (txid t) = None"
  by (auto simp: tm_abort_def call_frame_def delete_conv')

text \<open>A transaction that has ended has no waits-for entry, so aborting it again changes nothing.\<close>

definition waits_clean :: "sys \<Rightarrow> bool" where
  "waits_clean s \<longleftrightarrow> (\<forall>i. active s i = None \<longrightarrow> map_of (waits (mgr s)) i = None)"

lemma waits_clean_call:
  assumes "waits_clean s" "active s i = Some t" "call_frame i (mgr s) m'"
  shows "waits_clean (s\<lparr>mgr := m', pending := p\<rparr>)"
  using assms unfolding waits_clean_def call_frame_def by (simp, metis option.distinct(1))

lemma waits_clean_end:
  assumes "waits_clean s" "call_frame i (mgr s) m'" "map_of (waits m') i = None"
  shows "waits_clean (s\<lparr>mgr := m', active := (active s)(i := None)\<rparr>)"
  using assms unfolding waits_clean_def call_frame_def by auto

lemma waits_clean_step:
  assumes "sys_step s s'" "sys_inv s" "waits_clean s"
  shows "waits_clean s'"
  using assms(1)
proof (cases rule: sys_step.cases)
  case (st_begin t m)
  then show ?thesis using assms(3) by (auto simp: waits_clean_def tm_begin_def)
next
  case (st_read i t k r m)
  then show ?thesis using waits_clean_call [OF assms(3) st_read(2)] tm_read_call(1) [OF st_read(4)] sys_invD(2) [OF assms(2)] by simp
next
  case (st_write i t k v w m)
  then show ?thesis using waits_clean_call [OF assms(3) st_write(2)] tm_write_call(1) [OF st_write(4)] sys_invD(2) [OF assms(2)] by simp
next
  case (st_wake_read i t k r m)
  then show ?thesis using waits_clean_call [OF assms(3) st_wake_read(2)] resume_read_call(1) [OF st_wake_read(4)] sys_invD(2) [OF assms(2)] by simp
next
  case (st_wake_write i t k v w m)
  then show ?thesis using waits_clean_call [OF assms(3) st_wake_write(2)] resume_write_call(1) [OF st_wake_write(4)] sys_invD(2) [OF assms(2)] by simp
next
  case (st_commit i t w m)
  then show ?thesis using waits_clean_end [OF assms(3)] tm_commit_call(1,2) [OF st_commit(4)] sys_invD(2) [OF assms(2)] by fastforce
next
  case (st_abort i t)
  then show ?thesis using waits_clean_end [OF assms(3)] tm_abort_call [of t "mgr s"] sys_invD(2) [OF assms(2)] by fastforce
qed

lemma fold_setInitial_waits: "waits (fold (\<lambda>(k, v). setInitial k v) kvs m) = waits m"
  by (induction kvs arbitrary: m) (auto simp: setInitial_def)

lemma reachable_waits_clean: "reachable md kvs s \<Longrightarrow> waits_clean s"
proof -
  have init: "waits_clean (sys_init md kvs)" by (simp add: waits_clean_def sys_init_def fold_setInitial_waits tm_new_def)
  have "sys_step\<^sup>*\<^sup>* (sys_init md kvs) s \<Longrightarrow> sys_inv s \<and> waits_clean s"
    by (induction rule: rtranclp_induct) (auto intro: init sys_inv_init sys_inv_step waits_clean_step)
  then show "reachable md kvs s \<Longrightarrow> waits_clean s" by (simp add: reachable_def)
qed

lemma fun_upd_same: "f x = y \<Longrightarrow> f(x := y) = f"
  by auto

lemma abort_ended:
  assumes "sys_inv s" "waits_clean s" "active s (txid t) = None"
  shows "tm_abort t (mgr s) = mgr s"
proof -
  have h: "held_x (mgr s) (txid t) = []" "held_s (mgr s) (txid t) = []" "writes (mgr s) (txid t) = []"
    using sys_invD(6) [OF assms(1,3)] by simp_all
  have "txid t \<notin> fst ` set (waits (mgr s))" using assms(2,3) by (auto simp: waits_clean_def map_of_eq_None_iff)
  then have "AList.delete (txid t) (waits (mgr s)) = waits (mgr s)" by (simp add: delete_id)
  then show ?thesis using h by (simp add: tm_abort_def releaseAll_def fun_upd_same)
qed

section \<open>The threads refine the system of transactions\<close>

definition running :: "sys \<Rightarrow> txn \<Rightarrow> pend option \<Rightarrow> bool" where
  "running s t p \<longleftrightarrow> active s (txid t) = Some t \<and> pending s (txid t) = p"

text \<open>The transaction of a thread, and what the system says of it.\<close>

fun txn_of :: "phase \<Rightarrow> txn option" where
  "txn_of (Reading t j) = Some t"
| "txn_of (ReadWait t j key) = Some t"
| "txn_of (Writing t j base) = Some t"
| "txn_of (WriteWait t j base v) = Some t"
| "txn_of (Aborting t) = Some t"
| "txn_of (Refused t) = Some t"
| "txn_of _ = None"

fun phase_ok :: "sys \<Rightarrow> phase \<Rightarrow> bool" where
  "phase_ok s (Reading t j) = running s t None"
| "phase_ok s (ReadWait t j key) = running s t (Some (PRead key))"
| "phase_ok s (Writing t j base) = running s t None"
| "phase_ok s (WriteWait t j base v) = running s t (Some (PWrite (key_of_write base j) v))"
| "phase_ok s (Aborting t) = running s t None"
| "phase_ok s (Refused t) = (active s (txid t) = None \<and> txid t < next_id (mgr s))"
| "phase_ok s _ = True"

definition sim :: "tm \<Rightarrow> phase list \<Rightarrow> sys \<Rightarrow> bool" where
  "sim m ps s \<longleftrightarrow> mgr s = m \<and> (\<forall>k < length ps. phase_ok s (ps ! k))
     \<and> (\<forall>k < length ps. \<forall>l < length ps. \<forall>t u. k \<noteq> l \<longrightarrow> txn_of (ps ! k) = Some t \<longrightarrow> txn_of (ps ! l) = Some u \<longrightarrow> txid t \<noteq> txid u)
     \<and> (\<forall>i t. active s i = Some t \<longrightarrow> (\<exists>k < length ps. txn_of (ps ! k) = Some t))"

lemma phase_ok_old: "phase_ok s p \<Longrightarrow> sys_inv s \<Longrightarrow> txn_of p = Some t \<Longrightarrow> txid t < next_id (mgr s)"
  using sys_invD(7) by (cases p) (auto simp: running_def)

lemma phase_ok_frame:
  assumes "phase_ok s p" "next_id (mgr s) \<le> next_id (mgr s')"
    and "\<And>t. txn_of p = Some t \<Longrightarrow> active s' (txid t) = active s (txid t) \<and> pending s' (txid t) = pending s (txid t)"
  shows "phase_ok s' p"
  using assms by (cases p) (auto simp: running_def)

text \<open>A move of one thread: at most one step of the system, on the thread's own or a new transaction.\<close>

definition own :: "sys \<Rightarrow> phase \<Rightarrow> int" where
  "own s p = (case txn_of p of Some t \<Rightarrow> txid t | None \<Rightarrow> next_id (mgr s))"

definition moves :: "sys \<Rightarrow> phase \<Rightarrow> phase \<Rightarrow> sys \<Rightarrow> bool" where
  "moves s p p' s' \<longleftrightarrow> sys_step\<^sup>=\<^sup>= s s' \<and> next_id (mgr s) \<le> next_id (mgr s') \<and> phase_ok s' p'
     \<and> (\<forall>t. txn_of p' = Some t \<longrightarrow> txid t = own s p) \<and> (\<forall>t. active s' (own s p) = Some t \<longrightarrow> txn_of p' = Some t)
     \<and> (\<forall>j. j \<noteq> own s p \<longrightarrow> active s' j = active s j \<and> pending s' j = pending s j)"

lemma sim_move:
  assumes sm: "sim m ps s" and inv: "sys_inv s" and k: "k < length ps" and mv: "moves s (ps ! k) p' s'"
  shows "sim (mgr s') (ps[k := p']) s'"
proof -
  let ?i = "own s (ps ! k)"
  have i: "\<And>t. txn_of p' = Some t \<Longrightarrow> txid t = ?i" "\<And>t. active s' ?i = Some t \<Longrightarrow> txn_of p' = Some t"
      "\<And>j. j \<noteq> ?i \<Longrightarrow> active s' j = active s j \<and> pending s' j = pending s j"
    and n: "next_id (mgr s) \<le> next_id (mgr s')" and p': "phase_ok s' p'"
    using mv unfolding moves_def by blast+
  have ok: "phase_ok s (ps ! l)" if "l < length ps" for l using sm that by (simp add: sim_def)
  have other: "txid u \<noteq> ?i" if "l < length ps" "l \<noteq> k" "txn_of (ps ! l) = Some u" for l u
  proof (cases "txn_of (ps ! k)")
    case (Some t)
    then show ?thesis using sm k that unfolding sim_def own_def by (metis option.simps(5))
  next
    case None
    then show ?thesis using phase_ok_old [OF ok [OF that(1)] inv that(3)] by (simp add: own_def)
  qed
  have "phase_ok s' (ps[k := p'] ! l)" if "l < length ps" for l
  proof (cases "l = k")
    case True
    then show ?thesis using k p' by simp
  next
    case False
    then show ?thesis using phase_ok_frame [OF ok [OF that] n] i(3) other [OF that False] by simp
  qed
  moreover have "txid t \<noteq> txid u"
    if "a < length ps" "l < length ps" "a \<noteq> l" "txn_of (ps[k := p'] ! a) = Some t" "txn_of (ps[k := p'] ! l) = Some u" for a l t u
  proof (cases "a = k \<or> l = k")
    case True
    then show ?thesis using that k i(1) other by (metis nth_list_update_eq nth_list_update_neq)
  next
    case False
    then show ?thesis using sm that unfolding sim_def by simp
  qed
  moreover have "\<exists>l < length ps. txn_of (ps[k := p'] ! l) = Some t" if "active s' j = Some t" for j t
  proof (cases "j = ?i")
    case True
    then show ?thesis using i(2) that k by (intro exI [of _ k]) simp
  next
    case False
    then have a: "active s j = Some t" using i(3) that by simp
    then obtain l where l: "l < length ps" "txn_of (ps ! l) = Some t" using sm unfolding sim_def by blast
    have "l \<noteq> k" using False l(2) sys_invD(2) [OF inv a] by (auto simp: own_def)
    then show ?thesis using l by auto
  qed
  ultimately show ?thesis by (simp add: sim_def)
qed

subsection \<open>The calls as moves\<close>

lemma moves_pending:
  assumes st: "sys_step s (s\<lparr>mgr := m, pending := set_pending (txid t) r q s\<rparr>)" and t: "running s t x" "txn_of p = Some t"
    and n: "next_id m = next_id (mgr s)"
    and p': "phase_ok (s\<lparr>mgr := m, pending := set_pending (txid t) r q s\<rparr>) p'" "txn_of p' = Some t"
  shows "moves s p p' (s\<lparr>mgr := m, pending := set_pending (txid t) r q s\<rparr>)"
  using st t n p' by (auto simp: moves_def own_def set_pending_def running_def)

lemma moves_read:
  assumes t: "running s t None" "txn_of p = Some t" and r: "tm_read t key (mgr s) = (r, m)"
  shows "\<exists>s'. mgr s' = m \<and> moves s p (fst (after_read t j key (r, m) b)) s'"
proof -
  let ?s = "s\<lparr>mgr := m, pending := set_pending (txid t) r (PRead key) s\<rparr>"
  have "sys_step s ?s" using st_read [OF _ _ r] t(1) by (simp add: running_def)
  moreover have "next_id m = next_id (mgr s)" using tm_read_call(1) [OF r] by (simp add: call_frame_def)
  moreover have "r = Raise e \<Longrightarrow> e = DeadlockAbort (txid t)" for e using tm_read_call(3) [OF r] .
  ultimately have "moves s p (fst (after_read t j key (r, m) b)) ?s" using t
    by (intro moves_pending) (cases r; auto simp: running_def set_pending_def)+
  then show ?thesis by (intro exI [of _ ?s]) simp
qed

lemma moves_wake_read:
  assumes t: "running s t (Some (PRead key))" "txn_of p = Some t" and r: "resume_read t key (mgr s) = (r, m)"
  shows "\<exists>s'. mgr s' = m \<and> moves s p (fst (after_read t j key (r, m) b)) s'"
proof -
  let ?s = "s\<lparr>mgr := m, pending := set_pending (txid t) r (PRead key) s\<rparr>"
  have "sys_step s ?s" using st_wake_read [OF _ _ r] t(1) by (simp add: running_def)
  moreover have "next_id m = next_id (mgr s)" using resume_read_call(1) [OF r] by (simp add: call_frame_def)
  moreover have "r = Raise e \<Longrightarrow> e = DeadlockAbort (txid t)" for e using resume_read_call(3) [OF r] .
  ultimately have "moves s p (fst (after_read t j key (r, m) b)) ?s" using t
    by (intro moves_pending) (cases r; auto simp: running_def set_pending_def)+
  then show ?thesis by (intro exI [of _ ?s]) simp
qed

lemma moves_write:
  assumes t: "running s t None" "txn_of p = Some t" and r: "tm_write t (key_of_write base j) v (mgr s) = (r, m)"
  shows "\<exists>s'. mgr s' = m \<and> moves s p (fst (after_write t j base v (r, m) b)) s'"
proof -
  let ?s = "s\<lparr>mgr := m, pending := set_pending (txid t) r (PWrite (key_of_write base j) v) s\<rparr>"
  have "sys_step s ?s" using st_write [OF _ _ r] t(1) by (simp add: running_def)
  moreover have "next_id m = next_id (mgr s)" using tm_write_call(1) [OF r] by (simp add: call_frame_def)
  moreover have "r = Raise e \<Longrightarrow> e = DeadlockAbort (txid t)" for e using tm_write_call(2) [OF r] .
  ultimately have "moves s p (fst (after_write t j base v (r, m) b)) ?s" using t
    by (intro moves_pending) (cases r; auto simp: running_def set_pending_def)+
  then show ?thesis by (intro exI [of _ ?s]) simp
qed

lemma moves_wake_write:
  assumes t: "running s t (Some (PWrite (key_of_write base j) v))" "txn_of p = Some t"
    and r: "resume_write t (key_of_write base j) v (mgr s) = (r, m)"
  shows "\<exists>s'. mgr s' = m \<and> moves s p (fst (after_write t j base v (r, m) b)) s'"
proof -
  let ?s = "s\<lparr>mgr := m, pending := set_pending (txid t) r (PWrite (key_of_write base j) v) s\<rparr>"
  have "sys_step s ?s" using st_wake_write [OF _ _ r] t(1) by (simp add: running_def)
  moreover have "next_id m = next_id (mgr s)" using resume_write_call(1) [OF r] by (simp add: call_frame_def)
  moreover have "r = Raise e \<Longrightarrow> e = DeadlockAbort (txid t)" for e using resume_write_call(2) [OF r] .
  ultimately have "moves s p (fst (after_write t j base v (r, m) b)) ?s" using t
    by (intro moves_pending) (cases r; auto simp: running_def set_pending_def)+
  then show ?thesis by (intro exI [of _ ?s]) simp
qed

lemma moves_begin:
  assumes inv: "sys_inv s" and b: "tm_begin (mgr s) = (t, m)" and p: "txn_of p = None" "p' = Reading t 0 \<or> p' = Writing t 0 base"
  shows "\<exists>s'. mgr s' = m \<and> moves s p p' s'"
proof -
  let ?s = "s\<lparr>mgr := m, active := (active s)(txid t \<mapsto> t)\<rparr>"
  have t: "txid t = next_id (mgr s)" "next_id m = next_id (mgr s) + 1" using b by (auto simp: tm_begin_def)
  have "active s (txid t) = None" using sys_invD(7) [OF inv, of "txid t"] t(1) by (cases "active s (txid t)") auto
  then have "pending s (txid t) = None" using sys_invD(5) [OF inv, of "txid t"] by (cases "pending s (txid t)") auto
  then have "moves s p p' ?s" using st_begin [OF b] t p unfolding moves_def own_def by (auto simp: running_def)
  then show ?thesis by (intro exI [of _ ?s]) simp
qed

lemma moves_end:
  assumes st: "sys_step s (s\<lparr>mgr := m, active := (active s)(txid t := None)\<rparr>)" and t: "txn_of p = Some t"
    and n: "next_id m = next_id (mgr s)" and p': "txn_of p' = None \<or> p' = Refused t" "txid t < next_id (mgr s)"
  shows "\<exists>s'. mgr s' = m \<and> moves s p p' s'"
proof -
  let ?s = "s\<lparr>mgr := m, active := (active s)(txid t := None)\<rparr>"
  have "phase_ok ?s p'" using p' n by (cases p') auto
  then have "moves s p p' ?s" using st t n p' unfolding moves_def own_def by auto
  then show ?thesis by (intro exI [of _ ?s]) simp
qed

lemma moves_commit:
  assumes inv: "sys_inv s" and t: "running s t None" "txn_of p = Some t" and r: "tm_commit t (mgr s) = (r, m)"
    and catch: "\<And>x. txn_of (catch (TxnConflict x)) = None \<or> catch (TxnConflict x) = Refused t"
  shows "\<exists>s'. mgr s' = m \<and> moves s p (fst (after_commit catch (r, m) b)) s'"
proof (rule moves_end)
  show "sys_step s (s\<lparr>mgr := m, active := (active s)(txid t := None)\<rparr>)"
    using st_commit [OF _ _ r] t(1) by (simp add: running_def)
  show "next_id m = next_id (mgr s)" using tm_commit_call(1) [OF r] by (simp add: call_frame_def)
  show "txn_of (fst (after_commit catch (r, m) b)) = None \<or> fst (after_commit catch (r, m) b) = Refused t"
    using tm_commit_call(4) [OF r] catch by (cases r) auto
  show "txid t < next_id (mgr s)" using sys_invD(7) [OF inv] t(1) by (simp add: running_def)
qed (rule t(2))

lemma moves_abort:
  assumes inv: "sys_inv s" and t: "running s t None" "txn_of p = Some t"
  shows "\<exists>s'. mgr s' = tm_abort t (mgr s) \<and> moves s p Idle s'"
proof (rule moves_end)
  show "sys_step s (s\<lparr>mgr := tm_abort t (mgr s), active := (active s)(txid t := None)\<rparr>)"
    using st_abort t(1) by (simp add: running_def)
  show "next_id (tm_abort t (mgr s)) = next_id (mgr s)" using tm_abort_call(1) by (simp add: call_frame_def)
  show "txid t < next_id (mgr s)" using sys_invD(7) [OF inv] t(1) by (simp add: running_def)
qed (use t(2) in simp_all)

lemma moves_stay:
  assumes inv: "sys_inv s" and p': "txn_of p' = None" "phase_ok s p'" and p: "\<And>t. txn_of p = Some t \<Longrightarrow> active s (txid t) = None"
  shows "moves s p p' s"
proof -
  have "active s (next_id (mgr s)) = None"
    using sys_invD(7) [OF inv, of "next_id (mgr s)"] by (cases "active s (next_id (mgr s))") auto
  then have "active s (own s p) = None" using p by (cases "txn_of p") (auto simp: own_def)
  then show ?thesis using p' by (simp add: moves_def)
qed

lemma moves_same:
  assumes inv: "sys_inv s" and ok: "phase_ok s p"
  shows "moves s p p s"
proof -
  have "active s (next_id (mgr s)) = None"
    using sys_invD(7) [OF inv, of "next_id (mgr s)"] by (cases "active s (next_id (mgr s))") auto
  then show ?thesis using ok by (cases p) (auto simp: moves_def own_def running_def)
qed

lemma notify_all_fields [simp]:
  "b_mgr (notify_all b) = b_mgr b" "phases (notify_all b) = phases b" "stopped (notify_all b) = stopped b"
  "n_rdl (notify_all b) = n_rdl b" "n_wconf (notify_all b) = n_wconf b" "woken (notify_all b) = {..<length (phases b)}"
  by (simp_all add: notify_all_def)

lemma after_mgr [simp]:
  "b_mgr (snd (after_read t j key (r, m) b)) = m" "b_mgr (snd (after_write t j base v (x, m) b)) = m"
  "b_mgr (snd (after_commit catch (x, m) b)) = m"
  by (cases r; cases x; simp)+

lemma reader_moves:
  assumes inv: "sys_inv s" "waits_clean s" and ok: "phase_ok s p" and m: "mgr s = b_mgr b"
  shows "\<exists>s'. mgr s' = b_mgr (snd (reader_step r p b)) \<and> moves s p (fst (reader_step r p b)) s'"
proof (cases p)
  case Idle
  obtain t m' where t: "tm_begin (b_mgr b) = (t, m')" by fastforce
  show ?thesis
  proof (cases "stopped b")
    case False
    then show ?thesis using moves_begin [OF inv(1), of t m' p "Reading t 0"] t m Idle by simp
  qed (use Idle m moves_stay [OF inv(1), of Ended p] in auto)
next
  case (Reading t j)
  obtain x m' where x: "tm_read t (r mod KEYS) (mgr s) = (x, m')" by fastforce
  obtain y n where y: "tm_commit t (mgr s) = (y, n)" by fastforce
  have "txn_of (reader_catch t (TxnConflict i)) = None" for i by simp
  then show ?thesis using moves_read [OF _ _ x, of p j b] moves_commit [OF inv(1) _ _ y, of p "reader_catch t" b] ok x y m Reading by auto
next
  case (ReadWait t j key)
  obtain x m' where x: "resume_read t key (mgr s) = (x, m')" by fastforce
  then show ?thesis using moves_wake_read [OF _ _ x, of p j b] ok m ReadWait by auto
next
  case (Aborting t)
  then show ?thesis using moves_abort [OF inv(1), of t p] ok m by simp
qed (use ok m moves_same [OF inv(1) ok] in auto)

lemma writer_moves:
  assumes inv: "sys_inv s" "waits_clean s" and ok: "phase_ok s p" and m: "mgr s = b_mgr b"
  shows "\<exists>s'. mgr s' = b_mgr (snd (writer_step r p b)) \<and> moves s p (fst (writer_step r p b)) s'"
proof (cases p)
  case Idle
  obtain t m' where t: "tm_begin (b_mgr b) = (t, m')" by fastforce
  show ?thesis
  proof (cases "stopped b")
    case False
    then show ?thesis using moves_begin [OF inv(1), of t m' p "Writing t 0 (r mod KEYS)"] t m Idle by simp
  qed (use Idle m moves_stay [OF inv(1), of Ended p] in auto)
next
  case (Writing t j base)
  obtain x m' where x: "tm_write t (key_of_write base j) r (mgr s) = (x, m')" by fastforce
  obtain y n where y: "tm_commit t (mgr s) = (y, n)" by fastforce
  have "writer_catch t (TxnConflict i) = Refused t" for i by simp
  then have "\<exists>s'. mgr s' = n \<and> moves s p (fst (after_commit (writer_catch t) (y, n) b)) s'"
    using moves_commit [OF inv(1) _ _ y, of p "writer_catch t" b] ok Writing by auto
  moreover have "\<exists>s'. mgr s' = m' \<and> moves s p (fst (after_write t j base r (x, m') b)) s'"
    using moves_write [OF _ _ x, of p b] ok Writing by auto
  ultimately show ?thesis using x y m Writing by (cases y) auto
next
  case (WriteWait t j base v)
  obtain x m' where x: "resume_write t (key_of_write base j) v (mgr s) = (x, m')" by fastforce
  then show ?thesis using moves_wake_write [OF _ _ x, of p b] ok m WriteWait by auto
next
  case (Aborting t)
  then show ?thesis using moves_abort [OF inv(1), of t p] ok m by simp
next
  case (Refused t)
  then have "tm_abort t (mgr s) = mgr s" using abort_ended [OF inv] ok by simp
  then show ?thesis using Refused m moves_stay [OF inv(1), of Idle p] using ok by (intro exI [of _ s]) simp
qed (use ok m moves_same [OF inv(1) ok] in auto)

text \<open>A call changes neither the other threads nor the \<open>stop\<close> flag.\<close>

definition own_part :: "bench \<Rightarrow> phase list \<times> bool" where
  "own_part b = (phases b, stopped b)"

lemma after_own [simp]:
  "own_part (snd (after_read t j key x b)) = own_part b" "own_part (snd (after_write t j base v y b)) = own_part b"
  "own_part (snd (after_commit catch y b)) = own_part b"
  by (cases x; cases "fst x"; simp add: own_part_def) (cases y; cases "fst y"; simp add: own_part_def)+

lemma own_part_upd [simp]:
  "own_part (b\<lparr>b_mgr := m\<rparr>) = own_part b" "own_part (b\<lparr>n_rdl := c\<rparr>) = own_part b"
  "own_part (notify_all b) = own_part b" "own_part (b\<lparr>n_writes := c\<rparr>) = own_part b" "own_part (b\<lparr>n_wconf := c\<rparr>) = own_part b"
  by (simp_all add: own_part_def)

lemma own_part_of_call:
  "own_part (snd (reader_step r p b)) = own_part b" "own_part (snd (writer_step r p b)) = own_part b"
proof -
  show "own_part (snd (reader_step r p b)) = own_part b" by (cases p) (auto split: prod.split)
  show "own_part (snd (writer_step r p b)) = own_part b"
  proof (cases p)
    case (Writing t j base)
    then show ?thesis by (cases "tm_commit t (b_mgr b)"; cases "fst (tm_commit t (b_mgr b))") auto
  qed (auto split: prod.split)
qed

text \<open>What \<open>thread_step\<close> does, with the step of its role written as one function.\<close>

definition role_step :: "nat \<Rightarrow> int \<Rightarrow> phase \<Rightarrow> bench \<Rightarrow> phase \<times> bench" where
  "role_step k = (if k < WRITERS then writer_step else reader_step)"

lemma thread_step_role:
  "role_step k r (phases b ! k) b = (p, b') \<Longrightarrow> thread_step k r b = b'\<lparr>phases := (phases b)[k := p], woken := woken b' - {k}\<rparr>"
  by (auto simp: thread_step_def role_step_def split: if_splits)

lemma role_step_stop: "role_step k r p b = (p', b') \<Longrightarrow> stopped b' = stopped b"
  using own_part_of_call [of r p b] by (auto simp: role_step_def own_part_def split: if_splits)

lemma thread_sim:
  assumes sm: "sim (b_mgr b) (phases b) s" and inv: "sys_inv s" "waits_clean s" and k: "k < length (phases b)"
  shows "\<exists>s'. sys_step\<^sup>=\<^sup>= s s' \<and> sim (b_mgr (thread_step k r b)) (phases (thread_step k r b)) s'"
proof -
  obtain p' b' where st: "role_step k r (phases b ! k) b = (p', b')" by fastforce
  have ok: "phase_ok s (phases b ! k)" and m: "mgr s = b_mgr b" using sm k by (simp_all add: sim_def)
  obtain s' where s': "mgr s' = b_mgr b'" "moves s (phases b ! k) p' s'"
    using reader_moves [OF inv ok m, of r] writer_moves [OF inv ok m, of r] st
    by (cases "k < WRITERS") (auto simp: role_step_def)
  have "sim (mgr s') ((phases b)[k := p']) s'" by (rule sim_move [OF sm inv(1) k s'(2)])
  moreover have "sys_step\<^sup>=\<^sup>= s s'" using s'(2) by (simp only: moves_def)
  ultimately show ?thesis using s'(1) by (intro exI [of _ s']) (simp add: thread_step_role [OF st])
qed

definition initial_values :: "(int \<times> int) list" where
  "initial_values = map (\<lambda>k. (int k, 0)) [0..<nat KEYS]"

lemma bench_init_mgr: "mgr (sys_init md initial_values) = b_mgr (bench_init md)"
  by (simp add: sys_init_def bench_init_def initial_values_def fold_map comp_def)

lemma bench_init_sim: "sim (b_mgr (bench_init md)) (phases (bench_init md)) (sys_init md initial_values)"
  using bench_init_mgr by (auto simp: sim_def bench_init_def sys_init_def)

lemma bench_simulated:
  assumes "bench_step\<^sup>*\<^sup>* (bench_init md) b"
  shows "\<exists>s. reachable md initial_values s \<and> sim (b_mgr b) (phases b) s"
  using assms
proof (induction rule: rtranclp_induct)
  case base
  then show ?case using bench_init_sim by (auto simp: reachable_def)
next
  case (step b c)
  then obtain s where s: "reachable md initial_values s" "sim (b_mgr b) (phases b) s" by blast
  note inv = sys_inv_reachable [OF s(1)] reachable_waits_clean [OF s(1)]
  from step.hyps(2) show ?case
  proof (cases rule: bench_step.cases)
    case (b_thread k r)
    obtain s' where s': "sys_step\<^sup>=\<^sup>= s s'" "sim (b_mgr c) (phases c) s'"
      using thread_sim [OF s(2) inv b_thread(2), of r] b_thread(1) by blast
    then have "reachable md initial_values s'" using s(1) by (auto simp: reachable_def intro: rtranclp.rtrancl_into_rtrancl)
    then show ?thesis using s'(2) by blast
  next
    case b_stop
    then show ?thesis using s by auto
  qed
qed

section \<open>What the modes promise\<close>

fun writer_ok :: "tm_mode \<Rightarrow> phase \<Rightarrow> bool" where
  "writer_ok md (Refused t) = (md = MVCC)"
| "writer_ok md (Crashed e) = False"
| "writer_ok md (Reading t j) = False"
| "writer_ok md (ReadWait t j key) = False"
| "writer_ok md (WriteWait t j base v) = (j < KEYS_PER_TXN)"
| "writer_ok md _ = True"

fun reader_ok :: "tm_mode \<Rightarrow> tm \<Rightarrow> phase \<Rightarrow> bool" where
  "reader_ok md m Idle = True"
| "reader_ok md m Ended = True"
| "reader_ok md m (Reading t j) = (writes m (txid t) = [])"
| "reader_ok md m (ReadWait t j key) = (writes m (txid t) = [] \<and> md = TWO_PL \<and> j < KEYS_PER_TXN)"
| "reader_ok md m (Aborting t) = (md = TWO_PL)"
| "reader_ok md m _ = False"

definition role_ok :: "tm_mode \<Rightarrow> tm \<Rightarrow> nat \<Rightarrow> phase \<Rightarrow> bool" where
  "role_ok md m k p = (if k < WRITERS then writer_ok md p else reader_ok md m p)"

definition roles :: "tm_mode \<Rightarrow> bench \<Rightarrow> bool" where
  "roles md b \<longleftrightarrow> tmode (b_mgr b) = md \<and> (\<forall>k < length (phases b). role_ok md (b_mgr b) k (phases b ! k))
     \<and> (md = MVCC \<longrightarrow> n_rdl b = 0) \<and> (md = TWO_PL \<longrightarrow> n_wconf b = 0)"

text \<open>What a step of a thread leaves: the mode, and the writes and waits-for entries of other transactions.\<close>

definition kept :: "phase \<Rightarrow> tm \<Rightarrow> tm \<Rightarrow> bool" where
  "kept p m m' \<longleftrightarrow> tmode m' = tmode m \<and> (\<forall>j. (\<forall>t. txn_of p = Some t \<longrightarrow> txid t \<noteq> j)
     \<longrightarrow> writes m' j = writes m j \<and> succs (waits m') j = succs (waits m) j)"

lemma kept_call: "call_frame (txid t) m m' \<Longrightarrow> txn_of p = Some t \<Longrightarrow> kept p m m'"
  by (simp add: kept_def call_frame_def succs_def)

lemma reader_ok_kept:
  assumes "reader_ok md m p" "kept q m m'" "\<And>t u. txn_of p = Some t \<Longrightarrow> txn_of q = Some u \<Longrightarrow> txid t \<noteq> txid u"
  shows "reader_ok md m' p"
proof -
  have "writes m' (txid t) = writes m (txid t)" if "txn_of p = Some t" for t
    using assms(2,3) that unfolding kept_def by metis
  then show ?thesis using assms(1) by (cases p) auto
qed

lemma reader_keeps:
  assumes inv: "sys_inv s" and m: "mgr s = b_mgr b" "tmode (b_mgr b) = md" and ok: "reader_ok md (b_mgr b) p"
    and st: "reader_step r p b = (p', b')"
  shows "kept p (b_mgr b) (b_mgr b')" "reader_ok md (b_mgr b') p'" "md = MVCC \<longrightarrow> n_rdl b' = n_rdl b" "n_wconf b' = n_wconf b"
proof -
  have "kept p (b_mgr b) (b_mgr b') \<and> reader_ok md (b_mgr b') p' \<and> (md = MVCC \<longrightarrow> n_rdl b' = n_rdl b) \<and> n_wconf b' = n_wconf b"
  proof (cases p)
    case Idle
    have "writes (b_mgr b) (next_id (b_mgr b)) = []"
      using sys_invD(6,7) [OF inv, of "next_id (mgr s)"] m(1) by (cases "active s (next_id (mgr s))") auto
    then show ?thesis using Idle st by (auto simp: kept_def tm_begin_def split: if_splits)
  next
    case (Reading t j)
    obtain x n where x: "tm_read t (r mod KEYS) (b_mgr b) = (x, n)" by fastforce
    obtain y l where y: "tm_commit t (b_mgr b) = (y, l)" by fastforce
    note cx = tm_read_call [OF x] and cy = tm_commit_call [OF y]
    have w: "writes (b_mgr b) (txid t) = []" using ok Reading by simp
    have k: "kept p (b_mgr b) n" "kept p (b_mgr b) l" using kept_call cx(1) cy(1) Reading by auto
    show ?thesis
    proof (cases "j < KEYS_PER_TXN")
      case True
      then show ?thesis using st Reading x k(1) w cx(2,3,4) m(2) by (cases x; cases md) auto
    next
      case False
      then show ?thesis using st Reading y k(2) w cy(3,4) by (cases y) auto
    qed
  next
    case (ReadWait t j key)
    obtain x n where x: "resume_read t key (b_mgr b) = (x, n)" by fastforce
    note cx = resume_read_call [OF x]
    have "kept p (b_mgr b) n" using kept_call cx(1) ReadWait by auto
    then show ?thesis using st ReadWait x ok cx(2,3) by (cases x) auto
  next
    case (Aborting t)
    then show ?thesis using st ok kept_call [OF tm_abort_call(1) [of t "b_mgr b"], of p] by auto
  qed (use ok st in \<open>auto simp: kept_def\<close>)
  then show "kept p (b_mgr b) (b_mgr b')" "reader_ok md (b_mgr b') p'" "md = MVCC \<longrightarrow> n_rdl b' = n_rdl b" "n_wconf b' = n_wconf b"
    by blast+
qed

lemma writer_keeps:
  assumes m: "tmode (b_mgr b) = md" and ok: "writer_ok md p" and st: "writer_step r p b = (p', b')"
  shows "kept p (b_mgr b) (b_mgr b')" "writer_ok md p'" "n_rdl b' = n_rdl b" "md = TWO_PL \<longrightarrow> n_wconf b' = n_wconf b"
proof -
  have "kept p (b_mgr b) (b_mgr b') \<and> writer_ok md p' \<and> n_rdl b' = n_rdl b \<and> (md = TWO_PL \<longrightarrow> n_wconf b' = n_wconf b)"
  proof (cases p)
    case Idle
    then show ?thesis using st by (auto simp: kept_def tm_begin_def split: if_splits)
  next
    case (Writing t j base)
    obtain x n where x: "tm_write t (key_of_write base j) r (b_mgr b) = (x, n)" by fastforce
    obtain y l where y: "tm_commit t (b_mgr b) = (y, l)" by fastforce
    note cx = tm_write_call [OF x] and cy = tm_commit_call [OF y]
    have k: "kept p (b_mgr b) n" "kept p (b_mgr b) l" using kept_call cx(1) cy(1) Writing by auto
    show ?thesis
    proof (cases "j < KEYS_PER_TXN")
      case True
      then show ?thesis using st Writing x k(1) cx(2) by (cases x) auto
    next
      case False
      then show ?thesis using st Writing y k(2) cy(3,4) m by (cases y) auto
    qed
  next
    case (WriteWait t j base v)
    obtain x n where x: "resume_write t (key_of_write base j) v (b_mgr b) = (x, n)" by fastforce
    note cx = resume_write_call [OF x]
    have "kept p (b_mgr b) n" using kept_call cx(1) WriteWait by auto
    then show ?thesis using st ok WriteWait x cx(2) by (cases x) auto
  next
    case (Aborting t)
    then show ?thesis using st kept_call [OF tm_abort_call(1) [of t "b_mgr b"], of p] by auto
  next
    case (Refused t)
    then show ?thesis using st ok kept_call [OF tm_abort_call(1) [of t "b_mgr b"], of p] by auto
  qed (use ok st in \<open>auto simp: kept_def\<close>)
  then show "kept p (b_mgr b) (b_mgr b')" "writer_ok md p'" "n_rdl b' = n_rdl b" "md = TWO_PL \<longrightarrow> n_wconf b' = n_wconf b"
    by blast+
qed

lemma role_keeps:
  assumes inv: "sys_inv s" and m: "mgr s = b_mgr b" "tmode (b_mgr b) = md" and ok: "role_ok md (b_mgr b) k p"
    and st: "role_step k r p b = (p', b')"
  shows "kept p (b_mgr b) (b_mgr b')" "role_ok md (b_mgr b') k p'" "md = MVCC \<longrightarrow> n_rdl b' = n_rdl b"
    "md = TWO_PL \<longrightarrow> n_wconf b' = n_wconf b"
proof -
  have "kept p (b_mgr b) (b_mgr b') \<and> role_ok md (b_mgr b') k p' \<and> (md = MVCC \<longrightarrow> n_rdl b' = n_rdl b)
      \<and> (md = TWO_PL \<longrightarrow> n_wconf b' = n_wconf b)"
  proof (cases "k < WRITERS")
    case True
    then have "writer_ok md p" "writer_step r p b = (p', b')" using ok st by (simp_all add: role_step_def role_ok_def)
    from writer_keeps [OF m(2) this] show ?thesis using True by (simp add: role_ok_def)
  next
    case False
    then have "reader_ok md (b_mgr b) p" "reader_step r p b = (p', b')" using ok st by (simp_all add: role_step_def role_ok_def)
    from reader_keeps [OF inv m this] show ?thesis using False by (simp add: role_ok_def)
  qed
  then show "kept p (b_mgr b) (b_mgr b')" "role_ok md (b_mgr b') k p'" "md = MVCC \<longrightarrow> n_rdl b' = n_rdl b"
    "md = TWO_PL \<longrightarrow> n_wconf b' = n_wconf b" by blast+
qed

lemma thread_roles:
  assumes sm: "sim (b_mgr b) (phases b) s" and inv: "sys_inv s" and k: "k < length (phases b)" and rl: "roles md b"
  shows "roles md (thread_step k r b)"
proof -
  obtain p' b' where st: "role_step k r (phases b ! k) b = (p', b')" by fastforce
  have m: "mgr s = b_mgr b" "tmode (b_mgr b) = md" and ok: "\<And>l. l < length (phases b) \<Longrightarrow> role_ok md (b_mgr b) l (phases b ! l)"
    using sm rl by (simp_all add: sim_def roles_def)
  note kp = role_keeps [OF inv m ok [OF k] st]
  have other: "role_ok md (b_mgr b') l (phases b ! l)" if l: "l < length (phases b)" "l \<noteq> k" for l
  proof (cases "l < WRITERS")
    case True
    then show ?thesis using ok [OF l(1)] by (simp add: role_ok_def)
  next
    case False
    have "txid t \<noteq> txid u" if "txn_of (phases b ! l) = Some t" "txn_of (phases b ! k) = Some u" for t u
      using sm k l that unfolding sim_def by blast
    then show ?thesis using reader_ok_kept [OF _ kp(1)] ok [OF l(1)] False by (simp add: role_ok_def)
  qed
  have "tmode (b_mgr b') = md" using kp(1) m(2) by (simp add: kept_def)
  then show ?thesis using other kp(2,3,4) rl k
    by (auto simp: roles_def thread_step_role [OF st] nth_list_update)
qed

lemma roles_init: "roles md (bench_init md)"
proof -
  have "tmode (fold (\<lambda>k. setInitial (int k) 0) ks m) = tmode m" for ks m
    by (induction ks arbitrary: m) (auto simp: setInitial_def)
  then show ?thesis by (auto simp: roles_def role_ok_def bench_init_def tm_new_def)
qed

lemma roles_reachable:
  assumes "bench_step\<^sup>*\<^sup>* (bench_init md) b"
  shows "roles md b"
  using assms
proof (induction rule: rtranclp_induct)
  case base
  then show ?case by (rule roles_init)
next
  case (step b c)
  obtain s where s: "reachable md initial_values s" "sim (b_mgr b) (phases b) s" using bench_simulated [OF step.hyps(1)] by blast
  from step.hyps(2) show ?case
  proof (cases rule: bench_step.cases)
    case (b_thread k r)
    then show ?thesis using thread_roles [OF s(2) sys_inv_reachable [OF s(1)] _ step.IH] by simp
  next
    case b_stop
    then show ?thesis using step.IH by (simp add: roles_def)
  qed
qed

section \<open>Sleepers and notifications\<close>

text \<open>The waits-for entry of a sleeping thread names those that block it now.\<close>

fun entry_current :: "tm \<Rightarrow> phase \<Rightarrow> bool" where
  "entry_current m (ReadWait t j key) = (succs (waits m) (txid t) = blockers (txid t) key SHARED m)"
| "entry_current m (WriteWait t j base v) = (succs (waits m) (txid t) = blockers (txid t) (key_of_write base j) EXCLUSIVE m)"
| "entry_current m p = True"

lemma blockers_waits [simp]: "blockers t key md (m\<lparr>waits := w\<rparr>) = blockers t key md m"
  by (cases md) (simp_all add: blockers_def)

lemma acquire_sleeps: "acquire_loop t key md m = (Wait, m') \<Longrightarrow> m' = m\<lparr>waits := AList.update t (blockers t key md m) (waits m)\<rparr>"
  by (auto simp: acquire_loop_def Let_def split: if_splits)

lemma finish_wait: "finish_read key x = (Wait, m) \<longleftrightarrow> x = (Wait, m)" "finish_write t key v x = (Wait, m) \<longleftrightarrow> x = (Wait, m)"
  by (cases x; cases "fst x"; auto)+

lemma wait_entry:
  "tm_read t key m = (Wait, m') \<Longrightarrow> succs (waits m') (txid t) = blockers (txid t) key SHARED m'"
  "resume_read t key m = (Wait, m') \<Longrightarrow> succs (waits m') (txid t) = blockers (txid t) key SHARED m'"
  "tm_write t key v m = (Wait, m') \<Longrightarrow> succs (waits m') (txid t) = blockers (txid t) key EXCLUSIVE m'"
  "resume_write t key v m = (Wait, m') \<Longrightarrow> succs (waits m') (txid t) = blockers (txid t) key EXCLUSIVE m'"
  using acquire_sleeps
  by (fastforce simp: tm_read_def tm_write_def resume_read_def resume_write_def acquire_def finish_wait split: option.splits if_splits)+

text \<open>
  A step either ends with a notification, and not asleep, or it ends no transaction: its own
  transaction, if it had one, goes on.
\<close>

lemma role_wakes:
  assumes ok: "role_ok md m0 k p" and st: "role_step k r p b = (p', b')"
  shows "(asleep p' \<longrightarrow> entry_current (b_mgr b') p')
    \<and> (woken b' = {..<length (phases b)} \<and> \<not> asleep p'
      \<or> woken b' = woken b \<and> (\<forall>t. txn_of p = Some t \<longrightarrow> p \<noteq> Refused t \<longrightarrow> txn_of p' = Some t \<and> p' \<noteq> Refused t))"
proof (cases p)
  case (Reading t j)
  obtain x n where x: "tm_read t (r mod KEYS) (b_mgr b) = (x, n)" by fastforce
  obtain y l where y: "tm_commit t (b_mgr b) = (y, l)" by fastforce
  have e: "(if j < KEYS_PER_TXN then after_read t j (r mod KEYS) (x, n) b else after_commit (reader_catch t) (y, l) b) = (p', b')"
    using st ok Reading x y by (auto simp: role_step_def role_ok_def split: if_splits)
  show ?thesis
  proof (cases "j < KEYS_PER_TXN")
    case True
    show ?thesis using e True Reading wait_entry(1) x tm_read_call(3) [OF x] by (cases x) auto
  next
    case False
    show ?thesis using e False tm_commit_call(4) [OF y] by (cases y) auto
  qed
next
  case (ReadWait t j key)
  obtain x n where x: "resume_read t key (b_mgr b) = (x, n)" by fastforce
  have "after_read t j key (x, n) b = (p', b')"
    using st ok ReadWait x by (auto simp: role_step_def role_ok_def split: if_splits)
  then show ?thesis using ReadWait wait_entry(2) x resume_read_call(3) [OF x] by (cases x) auto
next
  case (Writing t j base)
  obtain x n where x: "tm_write t (key_of_write base j) r (b_mgr b) = (x, n)" by fastforce
  obtain y l where y: "tm_commit t (b_mgr b) = (y, l)" by fastforce
  have st': "writer_step r p b = (p', b')" using st ok Writing by (auto simp: role_step_def role_ok_def split: if_splits)
  show ?thesis
  proof (cases "j < KEYS_PER_TXN")
    case True
    then show ?thesis using st' Writing wait_entry(3) x tm_write_call(2) [OF x] by (cases x) auto
  next
    case False
    then show ?thesis using st' Writing y tm_commit_call(4) [OF y] by (cases y) auto
  qed
next
  case (WriteWait t j base v)
  obtain x n where x: "resume_write t (key_of_write base j) v (b_mgr b) = (x, n)" by fastforce
  have "after_write t j base v (x, n) b = (p', b')"
    using st ok WriteWait x by (auto simp: role_step_def role_ok_def split: if_splits)
  then show ?thesis using WriteWait wait_entry(4) x resume_write_call(2) [OF x] by (cases x) auto
qed (use ok st in \<open>auto simp: role_step_def role_ok_def tm_begin_def split: if_splits\<close>)

text \<open>The transactions that hold their locks still: those of a thread, unless refused.\<close>

definition live :: "phase list \<Rightarrow> int \<Rightarrow> bool" where
  "live ps i \<longleftrightarrow> (\<exists>k < length ps. \<exists>t. txn_of (ps ! k) = Some t \<and> txid t = i \<and> ps ! k \<noteq> Refused t)"

lemma live_active:
  assumes "sim m ps s" "sys_inv s"
  shows "live ps i \<longleftrightarrow> active s i \<noteq> None"
proof
  assume "live ps i"
  then obtain k t where k: "k < length ps" "txn_of (ps ! k) = Some t" "txid t = i" "ps ! k \<noteq> Refused t" by (auto simp: live_def)
  then have "phase_ok s (ps ! k)" using assms(1) by (simp add: sim_def)
  then show "active s i \<noteq> None" using k by (cases "ps ! k") (auto simp: running_def)
next
  assume "active s i \<noteq> None"
  then obtain t where t: "active s i = Some t" by blast
  then obtain k where k: "k < length ps" "txn_of (ps ! k) = Some t" "phase_ok s (ps ! k)" using assms(1) unfolding sim_def by blast
  then have "txid t = i" "ps ! k \<noteq> Refused t" using sys_invD(2) [OF assms(2) t] t by auto
  then show "live ps i" using k by (auto simp: live_def)
qed

text \<open>Nobody outside the threads holds a lock.\<close>

lemma blockers_live:
  assumes sm: "sim m ps s" and inv: "sys_inv s" and h: "h \<in> set (blockers u key md m)"
  shows "live ps h"
proof (rule ccontr)
  assume "\<not> live ps h"
  then have "active s h = None" using live_active [OF sm inv] by blast
  then have "held_x (mgr s) h = []" "held_s (mgr s) h = []" using sys_invD(6) [OF inv] by blast+
  moreover have "lock_inv (mgr s)" using sys_invD(1) [OF inv] by (simp add: tm_inv_def)
  moreover have "mgr s = m" using sm by (simp add: sim_def)
  ultimately show False using h by (auto simp: set_blockers lock_invD split: if_splits)
qed

text \<open>A sleeper that was not notified since it fell asleep waits for running transactions only.\<close>

definition waits_live :: "bench \<Rightarrow> bool" where
  "waits_live b \<longleftrightarrow> (\<forall>k < length (phases b). \<forall>t. asleep (phases b ! k) \<longrightarrow> k \<notin> woken b \<longrightarrow> txn_of (phases b ! k) = Some t
     \<longrightarrow> (\<forall>h \<in> set (succs (waits (b_mgr b)) (txid t)). live (phases b) h))"

lemma waits_live_step:
  assumes b: "bench_reachable md b" and wl: "waits_live b" and k: "k < length (phases b)" and c: "c = thread_step k r b"
  shows "waits_live c"
proof -
  obtain p' b' where st: "role_step k r (phases b ! k) b = (p', b')" by fastforce
  have c: "c = b'\<lparr>phases := (phases b)[k := p'], woken := woken b' - {k}\<rparr>" by (simp add: c thread_step_role [OF st])
  obtain s where s: "reachable md initial_values s" "sim (b_mgr b) (phases b) s"
    using bench_simulated b unfolding bench_reachable_def by blast
  note inv = sys_inv_reachable [OF s(1)] reachable_waits_clean [OF s(1)]
  obtain s' where s': "sys_step\<^sup>=\<^sup>= s s'" "sim (b_mgr c) (phases c) s'"
    using thread_sim [OF s(2) inv k, of r] by (auto simp: thread_step_role [OF st] c)
  have inv': "sys_inv s'" using s'(1) inv(1) sys_inv_step by auto
  have rl: "role_ok md (b_mgr b) k (phases b ! k)" "tmode (b_mgr b) = md"
    using roles_reachable b k by (auto simp: bench_reachable_def roles_def)
  have m: "mgr s = b_mgr b" using s(2) by (simp add: sim_def)
  note w = role_wakes [OF rl(1) st] and kp = role_keeps(1) [OF inv(1) m rl(2,1) st]
  show ?thesis unfolding waits_live_def
  proof (intro allI impI ballI)
    fix l t h
    assume l: "l < length (phases c)" "asleep (phases c ! l)" "l \<notin> woken c" "txn_of (phases c ! l) = Some t"
      and h: "h \<in> set (succs (waits (b_mgr c)) (txid t))"
    show "live (phases c) h"
    proof (cases "l = k")
      case True
      then have "asleep p'" "txn_of p' = Some t" "entry_current (b_mgr c) p'" using l w k by (simp_all add: c)
      then obtain key md where "h \<in> set (blockers (txid t) key md (b_mgr c))" using h by (cases p') auto
      then show ?thesis by (rule blockers_live [OF s'(2) inv'])
    next
      case False
      then have same: "phases b ! l = phases c ! l" "l < length (phases b)" using l(1) by (simp_all add: c)
      have keep: "woken b' = woken b" "\<And>u. txn_of (phases b ! k) = Some u \<Longrightarrow> phases b ! k \<noteq> Refused u \<Longrightarrow> txn_of p' = Some u \<and> p' \<noteq> Refused u"
        using w l(3) same(2) False by (auto simp: c)
      have "txid u \<noteq> txid t" if "txn_of (phases b ! k) = Some u" for u
        using s(2) k same l(4) False that unfolding sim_def by metis
      then have "h \<in> set (succs (waits (b_mgr b)) (txid t))" using kp h by (simp add: kept_def c)
      then have "live (phases b) h" using wl same l False keep(1) by (auto simp: waits_live_def c)
      then obtain q u where q: "q < length (phases b)" "txn_of (phases b ! q) = Some u" "txid u = h" "phases b ! q \<noteq> Refused u"
        by (auto simp: live_def)
      have "txn_of (phases c ! q) = Some u \<and> phases c ! q \<noteq> Refused u" using q keep(2) [of u] by (cases "q = k") (simp_all add: c)
      then show ?thesis using q by (auto simp: live_def c)
    qed
  qed
qed

lemma waits_live_reachable:
  assumes "bench_reachable md b"
  shows "waits_live b"
  using assms unfolding bench_reachable_def
proof (induction rule: rtranclp_induct)
  case base
  then show ?case by (auto simp: waits_live_def bench_init_def nth_append)
next
  case (step b c)
  then have "bench_reachable md b" by (simp add: bench_reachable_def)
  from step.hyps(2) show ?case
  proof (cases rule: bench_step.cases)
    case (b_thread k r)
    then show ?thesis using waits_live_step [OF \<open>bench_reachable md b\<close> step.IH] by blast
  next
    case b_stop
    then show ?thesis using step.IH by (simp add: waits_live_def)
  qed
qed

text \<open>
  If every thread inside a transaction slept without a notification, the waits-for entries would
  lead from running transaction to running transaction for ever, but they have no cycle.
\<close>

lemma some_thread_can_run:
  assumes b: "bench_reachable md b" and n: "\<not> list_all (\<lambda>p. p = Ended) (phases b)"
  shows "\<exists>k < length (phases b). phases b ! k \<noteq> Ended \<and> (asleep (phases b ! k) \<longrightarrow> k \<in> woken b)"
proof (rule ccontr)
  assume no: "\<not> ?thesis"
  obtain s where s: "reachable md initial_values s" and sm: "sim (b_mgr b) (phases b) s"
    using bench_simulated b unfolding bench_reachable_def by blast
  note inv = sys_inv_reachable [OF s]
  have ok: "phase_ok s (phases b ! k)" if "k < length (phases b)" for k using sm that by (simp add: sim_def)
  have m: "mgr s = b_mgr b" using sm by (simp add: sim_def)
  obtain k where k: "k < length (phases b)" "phases b ! k \<noteq> Ended" using n by (auto simp: list_all_length)
  then have "asleep (phases b ! k)" using no by blast
  then obtain i where i: "active s i \<noteq> None" using ok [OF k(1)] by (cases "phases b ! k") (auto simp: running_def)
  let ?R = "waits_rel (waits (mgr s))" and ?P = "\<lambda>i. active s i \<noteq> None"
  have step: "(\<exists>h. (j, h) \<in> ?R) \<and> (\<forall>h. (j, h) \<in> ?R \<longrightarrow> ?P h)" if a: "?P j" for j
  proof -
    from a obtain t k where t: "active s j = Some t" "k < length (phases b)" "txn_of (phases b ! k) = Some t"
      using sm unfolding sim_def by blast
    then have k: "asleep (phases b ! k)" "k \<notin> woken b" "txid t = j" using no sys_invD(2) [OF inv t(1)] by auto
    obtain q where q: "pending s j = Some q" using k ok [OF t(2)] t(3) by (cases "phases b ! k") (auto simp: running_def)
    have "succs (waits (mgr s)) j \<noteq> []" using sys_invD(4) [OF inv q] by (cases q) auto
    then have "\<exists>h. (j, h) \<in> ?R" by (cases "succs (waits (mgr s)) j") (auto simp: waits_rel_def)
    moreover have "?P h" if "(j, h) \<in> ?R" for h
      using waits_live_reachable [OF b] t k that live_active [OF sm inv] by (auto simp: waits_live_def waits_rel_def m)
    ultimately show ?thesis by blast
  qed
  have "acyclic ?R" using sys_invD(1) [OF inv] by (simp add: tm_inv_def wait_inv_def)
  then obtain r where r: "(i, r) \<in> ?R\<^sup>+" "\<not> ?P r" using waits_sink [of ?R ?P i] finite_waits_rel i step by blast
  from r(1) have "?P r" using i step by (induction rule: trancl_induct) blast+
  with r(2) show False by blast
qed

section \<open>The benchmark comes to its end\<close>

text \<open>How many steps that change its phase a thread has left after \<open>stop\<close> is set, at most.\<close>

fun rank :: "phase \<Rightarrow> nat" where
  "rank (Reading t j) = 2 * (KEYS_PER_TXN - j) + 4"
| "rank (ReadWait t j key) = 2 * (KEYS_PER_TXN - j) + 3"
| "rank (Writing t j base) = 2 * (KEYS_PER_TXN - j) + 4"
| "rank (WriteWait t j base v) = 2 * (KEYS_PER_TXN - j) + 3"
| "rank (Aborting t) = 2"
| "rank (Refused t) = 2"
| "rank Idle = 1"
| "rank _ = 0"

definition ranks :: "bench \<Rightarrow> nat" where
  "ranks b = sum_list (map rank (phases b))"

lemma rank_after_read:
  "j < KEYS_PER_TXN \<Longrightarrow> rank (fst (after_read t j key (x, m) b)) < 2 * (KEYS_PER_TXN - j) + 3 \<or> x = Wait"
  "j < KEYS_PER_TXN \<Longrightarrow> rank (fst (after_write t j base v (y, m) b)) < 2 * (KEYS_PER_TXN - j) + 3 \<or> y = Wait"
  by (cases x; cases "case x of Raise e \<Rightarrow> e"; simp) (cases y; cases "case y of Raise e \<Rightarrow> e"; simp)

lemma rank_after_commit:
  "rank (fst (after_commit (reader_catch t) (x, m) b)) < 4" "rank (fst (after_commit (writer_catch t) (x, m) b)) < 4"
  by (cases x; cases "case x of Raise e \<Rightarrow> e"; simp)+

lemma rank_step:
  assumes stop: "stopped b" and ok: "role_ok md m k p" and st: "role_step k r p b = (p', b')"
  shows "rank p' < rank p \<or> p' = p \<and> (p = Ended \<or> asleep p)"
proof -
  have role: "if k < WRITERS then writer_step r p b = (p', b') \<and> writer_ok md p else reader_step r p b = (p', b') \<and> reader_ok md m p"
    using ok st by (simp add: role_step_def role_ok_def split: if_splits)
  show ?thesis
  proof (cases p)
    case (Reading t j)
    obtain x n where x: "tm_read t (r mod KEYS) (b_mgr b) = (x, n)" by fastforce
    obtain y l where y: "tm_commit t (b_mgr b) = (y, l)" by fastforce
    show ?thesis using role Reading x y rank_after_read(1) [of j t "r mod KEYS" x n b] rank_after_commit(1) [of t y l b]
      by (cases x) (auto split: if_splits)
  next
    case (ReadWait t j key)
    obtain x n where x: "resume_read t key (b_mgr b) = (x, n)" by fastforce
    show ?thesis using role ReadWait x rank_after_read(1) [of j t key x n b]
      by (cases x) (auto split: if_splits)
  next
    case (Writing t j base)
    obtain x n where x: "tm_write t (key_of_write base j) r (b_mgr b) = (x, n)" by fastforce
    obtain y l where y: "tm_commit t (b_mgr b) = (y, l)" by fastforce
    show ?thesis using role Writing x y rank_after_read(2) [of j t base r x n b] rank_after_commit(2) [of t y l b]
      by (cases x; cases y) (auto split: if_splits)
  next
    case (WriteWait t j base v)
    obtain x n where x: "resume_write t (key_of_write base j) v (b_mgr b) = (x, n)" by fastforce
    show ?thesis using role WriteWait x rank_after_read(2) [of j t base v x n b]
      by (cases x) (auto split: if_splits)
  qed (use role stop in \<open>auto split: if_splits\<close>)
qed

lemma phases_length: "bench_reachable md b \<Longrightarrow> length (phases b) = 12"
  unfolding bench_reachable_def
  by (induction rule: rtranclp_induct) (auto simp: bench_init_def WRITERS_def READERS_def thread_step_def split_beta Let_def elim!: bench_stepE)

lemma rank_bound: "rank p \<le> 12"
  by (cases p) (auto simp: KEYS_PER_TXN_def)

text \<open>The steps left: a sleeper may use up its notification between two steps that lower the ranks.\<close>

definition work :: "bench \<Rightarrow> nat" where
  "work b = 13 * ranks b + card (woken b \<inter> {..<12})"

lemma work_bound:
  assumes "length (phases b) = 12"
  shows "work b \<le> 1884"
proof -
  have "ranks b \<le> sum_list (map (\<lambda>p. 12) (phases b))" unfolding ranks_def by (rule sum_list_mono) (rule rank_bound)
  then have "ranks b \<le> 144" using assms by (simp add: sum_list_triv)
  moreover have "card (woken b \<inter> {..<12}) \<le> 12" using card_mono [of "{..<12::nat}" "woken b \<inter> {..<12}"] by simp
  ultimately show ?thesis unfolding work_def by linarith
qed

lemma work_step:
  assumes b: "bench_reachable md b" "stopped b" and st: "notified_step b c"
  shows "bench_reachable md c \<and> stopped c \<and> work c < work b"
proof -
  obtain k r where k: "k < length (phases b)" "phases b ! k \<noteq> Ended" "asleep (phases b ! k) \<longrightarrow> k \<in> woken b"
    "0 \<le> r" "r < 2 ^ 32" and c: "c = thread_step k r b"
  proof (rule notified_step.cases [OF st])
    fix b0 k r
    assume a: "b = b0" "c = thread_step k r b0" "k < length (phases b0)" "phases b0 ! k \<noteq> Ended" "asleep (phases b0 ! k) \<Longrightarrow> k \<in> woken b0"
      "0 \<le> r" "r < 2 ^ 32"
    show thesis by (rule that [of k r]) (use a in blast)+
  qed
  obtain p' b' where role: "role_step k r (phases b ! k) b = (p', b')" by fastforce
  have t: "c = b'\<lparr>phases := (phases b)[k := p'], woken := woken b' - {k}\<rparr>" by (simp add: c thread_step_role [OF role])
  have ok: "role_ok md (b_mgr b) k (phases b ! k)" using roles_reachable b(1) k by (auto simp: bench_reachable_def roles_def)
  have r: "bench_reachable md c" using b(1) b_thread [OF k(1,4,5)] unfolding bench_reachable_def c by simp
  have len: "length (phases b) = 12" by (rule phases_length [OF b(1)])
  have le: "card (woken c \<inter> {..<12}) \<le> 12" using card_mono [of "{..<12::nat}" "woken c \<inter> {..<12}"] by simp
  consider "rank p' < rank (phases b ! k)" | "p' = phases b ! k" "asleep p'"
    using rank_step [OF b(2) ok role] k(2) by auto
  then have "work c < work b"
  proof cases
    case 1
    then have "ranks c < ranks b"
      using k elem_le_sum_list [of k "map rank (phases b)"] by (simp add: ranks_def t map_update sum_list_update)
    then show ?thesis using le unfolding work_def by linarith
  next
    case 2
    then have "woken c = woken b - {k}" using role_wakes [OF ok role] by (auto simp: t)
    then have "woken c \<inter> {..<12} = woken b \<inter> {..<12} - {k}" by blast
    moreover have "k \<in> woken b \<inter> {..<12}" using 2 k len by auto
    ultimately have "card (woken c \<inter> {..<12}) < card (woken b \<inter> {..<12})" by (metis card_Diff1_less finite_Int finite_lessThan)
    then show ?thesis using 2(1) by (simp add: work_def ranks_def t)
  qed
  then show ?thesis using r role_step_stop [OF role] b(2) by (simp add: t)
qed

lemma work_steps:
  "(notified_step ^^ n) b c \<Longrightarrow> bench_reachable md b \<Longrightarrow> stopped b \<Longrightarrow> bench_reachable md c \<and> stopped c \<and> n + work c \<le> work b"
proof (induction n arbitrary: c)
  case (Suc n)
  then obtain d where d: "(notified_step ^^ n) b d" "notified_step d c" by auto
  with Suc show ?case using work_step [of md d c] by fastforce
qed simp

section \<open>Properties\<close>

text \<open>
  C24. The modes: no exception leaves a thread. In MVCC mode a reader never sleeps and is never
  aborted, so the run reports no reader deadlocks; under strict 2PL no commit is refused, so it
  reports no write conflicts. This holds in every interleaving of the threads.
\<close>

theorem bench_modes:
  assumes "bench_reachable md b" "k < length (phases b)"
  shows "(\<forall>e. phases b ! k \<noteq> Crashed e)
    \<and> (md = MVCC \<longrightarrow> (WRITERS \<le> k \<longrightarrow> \<not> asleep (phases b ! k) \<and> (\<forall>t. phases b ! k \<noteq> Aborting t))
         \<and> (\<forall>res. run_result b = Some res \<longrightarrow> read_deadlocks res = 0))
    \<and> (md = TWO_PL \<longrightarrow> (\<forall>t. phases b ! k \<noteq> Refused t)
         \<and> (\<forall>res. run_result b = Some res \<longrightarrow> write_conflicts res = 0))"
proof -
  have rl: "roles md b" using assms(1) roles_reachable by (simp add: bench_reachable_def)
  then have "role_ok md (b_mgr b) k (phases b ! k)" using assms(2) by (simp add: roles_def)
  then have "(\<forall>e. phases b ! k \<noteq> Crashed e) \<and> (md = TWO_PL \<longrightarrow> (\<forall>t. phases b ! k \<noteq> Refused t))"
    "md = MVCC \<Longrightarrow> WRITERS \<le> k \<Longrightarrow> \<not> asleep (phases b ! k) \<and> (\<forall>t. phases b ! k \<noteq> Aborting t)"
    by (cases "phases b ! k"; auto simp: role_ok_def split: if_splits)+
  moreover have "md = MVCC \<Longrightarrow> n_rdl b = 0" "md = TWO_PL \<Longrightarrow> n_wconf b = 0" using rl by (simp_all add: roles_def)
  ultimately show ?thesis by (auto simp: run_result_def split: if_splits)
qed

text \<open>
  C25. The benchmark comes to its end, in both modes and from every state of every interleaving,
  once \<open>stop\<close> is set: without a single spurious wake-up, the threads can take at most 1884 more
  steps, in whatever order they are scheduled, and as long as a thread has not ended some thread
  can step that is awake or was notified after it fell asleep. So every complete run ends with
  all threads joined and \<open>runMode\<close> returning its counters; no sleeper misses the
  \<open>cv_.notify_all\<close> it needs.
\<close>

theorem bench_returns:
  assumes "bench_reachable md b" "stopped b"
  shows "(\<forall>n c. (notified_step ^^ n) b c \<longrightarrow> n \<le> 1884)
    \<and> (\<forall>c. notified_step\<^sup>*\<^sup>* b c \<longrightarrow> (\<exists>d. notified_step c d) \<or> (\<exists>res. run_result c = Some res))"
proof (intro conjI allI impI)
  show "n \<le> 1884" if "(notified_step ^^ n) b c" for n c
    using work_steps [OF that assms] work_bound [OF phases_length [OF assms(1)]] by linarith
  show "(\<exists>d. notified_step c d) \<or> (\<exists>res. run_result c = Some res)" if steps: "notified_step\<^sup>*\<^sup>* b c" for c
  proof (cases "list_all (\<lambda>p. p = Ended) (phases c)")
    case False
    obtain n where "(notified_step ^^ n) b c" using steps by (auto simp: rtranclp_power)
    then have "bench_reachable md c" using work_steps assms by blast
    then obtain k where k: "k < length (phases c)" "phases c ! k \<noteq> Ended" "asleep (phases c ! k) \<longrightarrow> k \<in> woken c"
      using some_thread_can_run False by blast
    have "notified_step c (thread_step k 0 c)" by (rule n_thread) (use k in auto)
    then show ?thesis by blast
  qed (simp add: run_result_def)
qed

subsection \<open>A run\<close>

text \<open>Writer 0 begins and writes key 0; reader 4 begins and reads key 0: under 2PL it sleeps.\<close>

definition sample_bench :: "tm_mode \<Rightarrow> bench" where
  "sample_bench md = thread_step 4 0 (thread_step 4 0 (thread_step 0 5 (thread_step 0 0 (bench_init md))))"

lemma thread_step_length [simp]: "length (phases (thread_step k r b)) = length (phases b)"
  by (simp add: thread_step_def split_beta Let_def)

lemma reachable_thread_step:
  "bench_reachable md b \<Longrightarrow> k < length (phases b) \<Longrightarrow> 0 \<le> r \<Longrightarrow> r < 10 \<Longrightarrow> bench_reachable md (thread_step k r b)"
  unfolding bench_reachable_def by (erule rtranclp.rtrancl_into_rtrancl) (rule b_thread, simp_all)

lemma bench_init_length [simp]: "length (phases (bench_init md)) = 12"
  by (simp add: bench_init_def WRITERS_def READERS_def)

lemma sample_bench_reachable: "bench_reachable md (sample_bench md)"
proof -
  have "bench_reachable md (bench_init md)" by (simp add: bench_reachable_def)
  then show ?thesis unfolding sample_bench_def by (intro reachable_thread_step) simp_all
qed

lemma bench_init_fields:
  "tmode (b_mgr (bench_init md)) = md" "next_id (b_mgr (bench_init md)) = 1" "commit_clock (b_mgr (bench_init md)) = 0"
  "writes (b_mgr (bench_init md)) = (\<lambda>_. [])" "xlock (b_mgr (bench_init md)) = (\<lambda>_. None)"
  "slock (b_mgr (bench_init md)) = (\<lambda>_. [])" "held_x (b_mgr (bench_init md)) = (\<lambda>_. [])"
  "held_s (b_mgr (bench_init md)) = (\<lambda>_. [])" "waits (b_mgr (bench_init md)) = []"
proof -
  have "tmode (fold (\<lambda>k. setInitial (int k) 0) ks m) = tmode m \<and> next_id (fold (\<lambda>k. setInitial (int k) 0) ks m) = next_id m
    \<and> commit_clock (fold (\<lambda>k. setInitial (int k) 0) ks m) = commit_clock m \<and> writes (fold (\<lambda>k. setInitial (int k) 0) ks m) = writes m
    \<and> xlock (fold (\<lambda>k. setInitial (int k) 0) ks m) = xlock m \<and> slock (fold (\<lambda>k. setInitial (int k) 0) ks m) = slock m
    \<and> held_x (fold (\<lambda>k. setInitial (int k) 0) ks m) = held_x m \<and> held_s (fold (\<lambda>k. setInitial (int k) 0) ks m) = held_s m
    \<and> waits (fold (\<lambda>k. setInitial (int k) 0) ks m) = waits m" for ks m
    by (induction ks arbitrary: m) (auto simp: setInitial_def)
  then show "tmode (b_mgr (bench_init md)) = md" "next_id (b_mgr (bench_init md)) = 1" "commit_clock (b_mgr (bench_init md)) = 0"
  "writes (b_mgr (bench_init md)) = (\<lambda>_. [])" "xlock (b_mgr (bench_init md)) = (\<lambda>_. None)"
  "slock (b_mgr (bench_init md)) = (\<lambda>_. [])" "held_x (b_mgr (bench_init md)) = (\<lambda>_. [])"
  "held_s (b_mgr (bench_init md)) = (\<lambda>_. [])" "waits (b_mgr (bench_init md)) = []"
    by (simp_all add: bench_init_def tm_new_def)
qed

lemma sample_bench_length [simp]: "length (phases (sample_bench md)) = 12"
  by (simp add: sample_bench_def)

lemma sample_bench_phase:
  "phases (sample_bench md) ! 4 = (if md = MVCC then Reading \<lparr>txid = 2, snapshot = 0\<rparr> 1 else ReadWait \<lparr>txid = 2, snapshot = 0\<rparr> 0 0)"
proof -
  let ?t = "\<lparr>txid = 1, snapshot = 0\<rparr>" and ?u = "\<lparr>txid = 2, snapshot = 0\<rparr>"
  let ?b = "bench_init md"
  let ?m1 = "(b_mgr ?b)\<lparr>next_id := 2\<rparr>"
  have ph: "phases ?b = replicate 12 Idle" "stopped ?b = False" "woken ?b = {}" by (simp_all add: bench_init_def WRITERS_def READERS_def)
  have w: "0 < WRITERS" "\<not> 4 < WRITERS" "0 < KEYS_PER_TXN" "key_of_write 0 0 = 0"
    by (simp_all add: WRITERS_def KEYS_PER_TXN_def key_of_write_def)
  let ?b1 = "?b\<lparr>b_mgr := ?m1, phases := (replicate 12 Idle)[0 := Writing ?t 0 0], woken := {}\<rparr>"
  have b1: "thread_step 0 0 ?b = ?b1" by (simp add: thread_step_def w ph tm_begin_def bench_init_fields)
  obtain m2 where m2: "tm_write ?t 0 5 ?m1 = (Done (), m2)" "xlock m2 0 = Some 1" "next_id m2 = 2" "commit_clock m2 = 0"
      "tmode m2 = md" "writes m2 2 = []" "held_x m2 2 = []" "held_s m2 2 = []" "waits m2 = []"
    by (simp add: tm_write_def acquire_def acquire_loop_def blockers_def grant_def Let_def bench_init_fields)
  let ?b2 = "?b1\<lparr>b_mgr := m2, phases := (replicate 12 Idle)[0 := Writing ?t 1 0]\<rparr>"
  have b2: "thread_step 0 5 ?b1 = ?b2" by (simp add: thread_step_def w m2)
  let ?m3 = "m2\<lparr>next_id := 3\<rparr>"
  let ?b3 = "?b2\<lparr>b_mgr := ?m3, phases := (replicate 12 Idle)[0 := Writing ?t 1 0, 4 := Reading ?u 0]\<rparr>"
  have b3: "thread_step 4 0 ?b2 = ?b3" by (simp add: thread_step_def w ph tm_begin_def m2 Let_def)
  have "fst (tm_read ?u 0 ?m3) = (if md = MVCC then Done (visibleValue ?u 0 ?m3) else Wait)"
    by (cases md) (simp_all add: tm_read_def m2 acquire_def acquire_loop_def blockers_def hasCycle_def succs_def Let_def)
  then obtain m4 where m4: "tm_read ?u 0 ?m3 = (if md = MVCC then Done (visibleValue ?u 0 ?m3) else Wait, m4)"
    by (cases "tm_read ?u 0 ?m3") auto
  have "phases (thread_step 4 0 ?b3) ! 4 = (if md = MVCC then Reading ?u 1 else ReadWait ?u 0 0)"
    by (cases md) (simp_all add: thread_step_def w m4)
  then show ?thesis unfolding sample_bench_def b1 b2 b3 .
qed

theorem bench_modes_witness:
  "\<not> asleep (phases (sample_bench MVCC) ! 4) \<and> phases (sample_bench TWO_PL) ! 4 \<noteq> Refused \<lparr>txid = 2, snapshot = 0\<rparr>
    \<and> asleep (phases (sample_bench TWO_PL) ! 4)"
  using bench_modes [OF sample_bench_reachable, of 4 MVCC] bench_modes [OF sample_bench_reachable, of 4 TWO_PL]
  by (simp add: sample_bench_phase WRITERS_def)

theorem bench_returns_witness:
  "asleep (phases (sample_bench TWO_PL) ! 4) \<and> (\<exists>d. notified_step (sample_bench TWO_PL\<lparr>stopped := True\<rparr>) d)"
proof -
  let ?b = "sample_bench TWO_PL\<lparr>stopped := True\<rparr>"
  have "bench_reachable TWO_PL ?b"
    using sample_bench_reachable [of TWO_PL] b_stop unfolding bench_reachable_def by (meson rtranclp.rtrancl_into_rtrancl)
  then have "(\<exists>d. notified_step ?b d) \<or> (\<exists>res. run_result ?b = Some res)" using bench_returns [of TWO_PL ?b] by simp
  moreover have "phases ?b ! 4 \<noteq> Ended" "asleep (phases ?b ! 4)" by (simp_all add: sample_bench_phase)
  moreover then have "run_result ?b = None" by (auto simp: run_result_def list_all_length intro!: exI [of _ 4])
  ultimately show ?thesis by simp
qed

end
