(* ===== verification/Lexer.thy ===== *)
theory Lexer
  imports Common
begin

text \<open>
  \<open>query/token.hpp\<close> and \<open>query/lexer.cpp\<close>: the token stream of a SQL string. The position \<open>pos_\<close>
  is the rest of the string that is still unread; \<open>peek\<close> past the end is the NUL character, so an
  embedded NUL ends a string literal as the end of the input does. The lexer's only exceptions
  are the two \<open>runtime_error\<close>s and the \<open>out_of_range\<close> of \<open>std::stoll\<close>.

  The properties are stated in the theory \<open>Parser\<close>, for lexer and parser together.
\<close>

datatype tok = TK_END
  | TK_IDENT | TK_INT_LIT | TK_STR_LIT
  | TK_LPAREN | TK_RPAREN | TK_COMMA | TK_SEMI | TK_STAR | TK_DOT
  | TK_EQ | TK_NE | TK_LT | TK_LE | TK_GT | TK_GE
  | TK_CREATE | TK_TABLE | TK_INSERT | TK_INTO | TK_VALUES | TK_SELECT | TK_FROM | TK_WHERE | TK_AND | TK_OR
  | TK_DELETE | TK_JOIN | TK_ON | TK_BEGIN | TK_COMMIT | TK_ROLLBACK | TK_COUNT | TK_KW_INT | TK_KW_TEXT

record Token =
  t_type :: tok
  t_text :: string
  t_ival :: int

abbreviation mk_tok :: "tok \<Rightarrow> string \<Rightarrow> Token" where
  "mk_tok k s \<equiv> \<lparr>t_type = k, t_text = s, t_ival = 0\<rparr>"

definition kw_table :: "(string \<times> tok) list" where
  "kw_table = [
    (''CREATE'', TK_CREATE), (''TABLE'', TK_TABLE), (''INSERT'', TK_INSERT),
    (''INTO'', TK_INTO), (''VALUES'', TK_VALUES), (''SELECT'', TK_SELECT),
    (''FROM'', TK_FROM), (''WHERE'', TK_WHERE), (''AND'', TK_AND),
    (''OR'', TK_OR), (''DELETE'', TK_DELETE), (''JOIN'', TK_JOIN),
    (''ON'', TK_ON), (''BEGIN'', TK_BEGIN), (''COMMIT'', TK_COMMIT),
    (''ROLLBACK'', TK_ROLLBACK), (''COUNT'', TK_COUNT),
    (''INT'', TK_KW_INT), (''TEXT'', TK_KW_TEXT)]"

definition is_word :: "char \<Rightarrow> bool" where
  "is_word c \<longleftrightarrow> is_alpha c \<or> is_digit c \<or> c = CHR ''_''"

text \<open>\<open>toupper\<close> of the "C" locale.\<close>

definition to_upper :: "char \<Rightarrow> char" where
  "to_upper c = (if 97 \<le> (of_char c :: nat) \<and> (of_char c :: nat) \<le> 122 then char_of ((of_char c :: nat) - 32) else c)"

definition word_token :: "string \<Rightarrow> Token" where
  "word_token word = (case map_of kw_table (map to_upper word) of
     Some k \<Rightarrow> mk_tok k (map to_upper word)
   | None \<Rightarrow> mk_tok TK_IDENT word)"

text \<open>\<open>std::stoll\<close> of an optional minus sign and digits.\<close>

definition stoll :: "string \<Rightarrow> db_error + int" where
  "stoll s = (let v = (case s of [] \<Rightarrow> 0 | c # ds \<Rightarrow>
       if c = CHR ''-'' then - int (nat_of_dec ds) else int (nat_of_dec s))
     in if in_int64 v then Inr v else Inl OutOfRange)"

definition peek_char :: "string \<Rightarrow> char" where
  "peek_char s = (case s of [] \<Rightarrow> CHR 0x00 | c # _ \<Rightarrow> c)"

text \<open>Punctuation and operators: the token for \<open>c\<close> and what is left of the rest.\<close>

definition punct :: "char \<Rightarrow> string \<Rightarrow> db_error + (Token \<times> string)" where
  "punct c cs =
     (if c = CHR ''('' then Inr (mk_tok TK_LPAREN ''('', cs)
      else if c = CHR '')'' then Inr (mk_tok TK_RPAREN '')'', cs)
      else if c = CHR '','' then Inr (mk_tok TK_COMMA '','', cs)
      else if c = CHR '';'' then Inr (mk_tok TK_SEMI '';'', cs)
      else if c = CHR ''*'' then Inr (mk_tok TK_STAR ''*'', cs)
      else if c = CHR ''.'' then Inr (mk_tok TK_DOT ''.'', cs)
      else if c = CHR ''='' then Inr (mk_tok TK_EQ ''='', cs)
      else if c = CHR ''<'' then
        (if peek_char cs = CHR ''='' then Inr (mk_tok TK_LE ''<='', tl cs)
         else if peek_char cs = CHR ''>'' then Inr (mk_tok TK_NE ''<>'', tl cs)
         else Inr (mk_tok TK_LT ''<'', cs))
      else if c = CHR ''>'' then
        (if peek_char cs = CHR ''='' then Inr (mk_tok TK_GE ''>='', tl cs)
         else Inr (mk_tok TK_GT ''>'', cs))
      else if c = CHR ''!'' then
        (if peek_char cs = CHR ''='' then Inr (mk_tok TK_NE ''!='', tl cs)
         else Inl (RuntimeError (''unexpected '' @ [CHR 0x27, CHR ''!'', CHR 0x27])))
      else Inl (RuntimeError (''unexpected character: '' @ [c])))"

abbreviation quote :: char where "quote \<equiv> CHR 0x27"

definition in_string :: "char \<Rightarrow> bool" where
  "in_string c \<longleftrightarrow> c \<noteq> quote \<and> c \<noteq> CHR 0x00"

lemma punct_length: "punct c cs = Inr (t, rest) \<Longrightarrow> length rest \<le> length cs"
  by (auto simp: punct_def split: if_splits)

function tokenize :: "string \<Rightarrow> db_error + Token list" where
  "tokenize [] = Inr [mk_tok TK_END []]"
| "tokenize (c # cs) =
     (if is_space c then tokenize cs
      else if is_alpha c \<or> c = CHR ''_'' then
        bindE (tokenize (dropWhile is_word cs)) (\<lambda>ts. Inr (word_token (c # takeWhile is_word cs) # ts))
      else if is_digit c \<or> (c = CHR ''-'' \<and> is_digit (peek_char cs)) then
        let num = c # takeWhile is_digit cs
        in bindE (stoll num) (\<lambda>v. bindE (tokenize (dropWhile is_digit cs)) (\<lambda>ts.
             Inr (\<lparr>t_type = TK_INT_LIT, t_text = num, t_ival = v\<rparr> # ts)))
      else if c = quote then
        let s = takeWhile in_string cs; rest = dropWhile in_string cs
        in if peek_char rest \<noteq> quote then Inl (RuntimeError ''unterminated string literal'')
           else bindE (tokenize (tl rest)) (\<lambda>ts. Inr (mk_tok TK_STR_LIT s # ts))
      else bindE (punct c cs) (\<lambda>(t, rest). bindE (tokenize rest) (\<lambda>ts. Inr (t # ts))))"
  by pat_completeness auto
termination
  by (relation "measure length")
    (auto simp: less_Suc_eq_le length_dropWhile_le punct_length intro: le_trans [OF diff_le_self length_dropWhile_le])

declare tokenize.simps(2) [simp del]

section \<open>Printing tokens\<close>

text \<open>The source text of a token, and the tokens whose text the lexer reads back.\<close>

definition tok_src :: "Token \<Rightarrow> string" where
  "tok_src t = (if t_type t = TK_STR_LIT then quote # t_text t @ [quote] else t_text t)"

definition sql_ident :: "string \<Rightarrow> bool" where
  "sql_ident w \<longleftrightarrow> w \<noteq> [] \<and> (is_alpha (hd w) \<or> hd w = CHR ''_'') \<and> list_all is_word w
     \<and> map_of kw_table (map to_upper w) = None"

definition symbols :: "(string \<times> tok) list" where
  "symbols = [(''('', TK_LPAREN), ('')'', TK_RPAREN), ('','', TK_COMMA), ('';'', TK_SEMI), (''*'', TK_STAR),
     (''.'', TK_DOT), (''='', TK_EQ), (''<>'', TK_NE), (''<'', TK_LT), (''<='', TK_LE), (''>'', TK_GT), (''>='', TK_GE)]"

definition lexable :: "Token \<Rightarrow> bool" where
  "lexable t \<longleftrightarrow>
     (if t_type t = TK_IDENT then sql_ident (t_text t) \<and> t_ival t = 0
      else if t_type t = TK_STR_LIT then list_all in_string (t_text t) \<and> t_ival t = 0
      else if t_type t = TK_INT_LIT then t_text t = dec_of_int (t_ival t) \<and> in_int64 (t_ival t)
      else t_ival t = 0 \<and> (t_text t, t_type t) \<in> set (kw_table @ symbols))"

lemma takeWhile_stop: "list_all P xs \<Longrightarrow> \<not> P y \<Longrightarrow> takeWhile P (xs @ y # ys) = xs \<and> dropWhile P (xs @ y # ys) = y # ys"
  by (induction xs) auto

abbreviation blank :: char where "blank \<equiv> CHR '' ''"

lemma blank_class: "is_space blank" "\<not> is_word blank" "\<not> is_digit blank" "\<not> is_alpha blank"
  by (simp_all add: is_space_def is_word_def is_digit_def is_alpha_def)

lemma alpha_not_space: "is_alpha c \<or> c = CHR ''_'' \<Longrightarrow> \<not> is_space c"
  by (auto simp: is_alpha_def is_space_def)

lemma digit_class: "is_digit c \<Longrightarrow> \<not> is_space c \<and> \<not> is_alpha c \<and> c \<noteq> CHR ''_'' \<and> c \<noteq> CHR ''-''"
  by (auto simp: is_digit_def is_alpha_def is_space_def)

lemma tokenize_blank: "tokenize (blank # rest) = tokenize rest"
  by (simp add: tokenize.simps blank_class)

lemma tokenize_word:
  assumes "is_alpha c \<or> c = CHR ''_''" "list_all is_word w"
  shows "tokenize (c # w @ blank # rest) = bindE (tokenize rest) (\<lambda>ts. Inr (word_token (c # w) # ts))"
  using assms alpha_not_space [OF assms(1)] takeWhile_stop [OF assms(2) blank_class(2), of rest]
  by (simp add: tokenize.simps(2) [of c] tokenize_blank)

lemma dec_digits: "dec_of_nat n = d # ds \<Longrightarrow> is_digit d \<and> list_all is_digit ds"
  using dec_of_nat_digits [of n] by simp

lemma tokenize_int:
  assumes "in_int64 i"
  shows "tokenize (dec_of_int i @ blank # rest) =
    bindE (tokenize rest) (\<lambda>ts. Inr (\<lparr>t_type = TK_INT_LIT, t_text = dec_of_int i, t_ival = i\<rparr> # ts))"
proof -
  define n where "n = nat \<bar>i\<bar>"
  obtain d ds where d: "dec_of_nat n = d # ds" using dec_of_nat_digits [of n] by (cases "dec_of_nat n") auto
  note dd = dec_digits [OF d] and dc = digit_class [OF dec_digits [OF d, THEN conjunct1]]
  have nat: "nat_of_dec (d # ds) = n" using nat_of_dec_of_nat [of n] d by simp
  have tw: "takeWhile is_digit (ds @ blank # rest) = ds \<and> dropWhile is_digit (ds @ blank # rest) = blank # rest"
    using dd blank_class(3) by (intro takeWhile_stop) auto
  show ?thesis
  proof (cases "i < 0")
    case True
    then have t: "dec_of_int i = CHR ''-'' # d # ds" using d by (simp add: dec_of_int_def n_def)
    have "- int n = i" using True by (simp add: n_def)
    then have "stoll (dec_of_int i) = Inr i" using assms by (simp add: stoll_def t nat)
    moreover have "\<not> is_space (CHR ''-'')" "\<not> is_alpha (CHR ''-'')" "\<not> is_digit (CHR ''-'')"
      by (simp_all add: is_space_def is_alpha_def is_digit_def)
    ultimately show ?thesis using dd tw
      by (simp add: t tokenize.simps(2) [of "CHR ''-''"] peek_char_def tokenize_blank)
  next
    case False
    then have t: "dec_of_int i = d # ds" using d by (simp add: dec_of_int_def n_def)
    have "int n = i" using False by (simp add: n_def)
    then have "stoll (dec_of_int i) = Inr i" using assms dc by (simp add: stoll_def t nat)
    then show ?thesis using dd dc tw by (simp add: t tokenize.simps(2) [of d] tokenize_blank)
  qed
qed

lemma tokenize_str:
  assumes "list_all in_string s"
  shows "tokenize (quote # s @ quote # blank # rest) = bindE (tokenize rest) (\<lambda>ts. Inr (mk_tok TK_STR_LIT s # ts))"
proof -
  have "takeWhile in_string (s @ quote # blank # rest) = s \<and> dropWhile in_string (s @ quote # blank # rest) = quote # blank # rest"
    using assms by (intro takeWhile_stop) (simp_all add: in_string_def)
  moreover have "\<not> is_space quote" "\<not> is_alpha quote" "\<not> is_digit quote"
    by (simp_all add: is_space_def is_alpha_def is_digit_def)
  ultimately show ?thesis by (simp add: tokenize.simps(2) [of quote] peek_char_def tokenize_blank)
qed

lemma kw_word: "(w, k) \<in> set kw_table \<Longrightarrow> w \<noteq> [] \<and> is_alpha (hd w) \<and> list_all is_word w \<and> map to_upper w = w
    \<and> map_of kw_table w = Some k"
  by (simp add: kw_table_def) (elim disjE conjE; simp add: is_alpha_def is_word_def to_upper_def)

lemma symbol_lex: "(w, k) \<in> set symbols \<Longrightarrow> tokenize (w @ blank # rest) = bindE (tokenize rest) (\<lambda>ts. Inr (mk_tok k w # ts))"
  by (simp add: symbols_def)
    (elim disjE conjE; simp add: tokenize.simps(2) is_space_def is_alpha_def is_digit_def punct_def peek_char_def)

lemma tokenize_token:
  assumes "lexable t"
  shows "tokenize (tok_src t @ blank # rest) = bindE (tokenize rest) (\<lambda>ts. Inr (t # ts))"
proof -
  have eta: "t = \<lparr>t_type = t_type t, t_text = t_text t, t_ival = t_ival t\<rparr>" by simp
  consider "t_type t = TK_IDENT" | "t_type t = TK_STR_LIT" | "t_type t = TK_INT_LIT"
    | "t_type t \<notin> {TK_IDENT, TK_STR_LIT, TK_INT_LIT}" by blast
  then show ?thesis
  proof cases
    case 1
    then obtain c w where cw: "t_text t = c # w" using assms by (cases "t_text t") (auto simp: lexable_def sql_ident_def)
    have "word_token (c # w) = t" using 1 assms cw by (simp add: word_token_def lexable_def sql_ident_def)
    then show ?thesis using 1 assms cw tokenize_word [of c w rest] by (simp add: tok_src_def lexable_def sql_ident_def)
  next
    case 2
    then have "mk_tok TK_STR_LIT (t_text t) = t" using assms by (simp add: lexable_def)
    then show ?thesis using 2 assms tokenize_str [of "t_text t" rest] by (simp add: tok_src_def lexable_def)
  next
    case 3
    then have "\<lparr>t_type = TK_INT_LIT, t_text = dec_of_int (t_ival t), t_ival = t_ival t\<rparr> = t"
      using assms by (simp add: lexable_def)
    then show ?thesis using 3 assms tokenize_int [of "t_ival t" rest] by (simp add: tok_src_def lexable_def)
  next
    case 4
    then have t: "t_ival t = 0" "(t_text t, t_type t) \<in> set kw_table \<or> (t_text t, t_type t) \<in> set symbols"
      using assms by (auto simp: lexable_def)
    have m: "mk_tok (t_type t) (t_text t) = t" using t(1) by simp
    from t(2) show ?thesis
    proof
      assume k: "(t_text t, t_type t) \<in> set kw_table"
      obtain c w where cw: "t_text t = c # w" using kw_word [OF k] by (cases "t_text t") auto
      have "word_token (c # w) = t" using kw_word [OF k] m cw by (simp add: word_token_def)
      then show ?thesis using 4 kw_word [OF k] cw tokenize_word [of c w rest] by (simp add: tok_src_def)
    next
      assume "(t_text t, t_type t) \<in> set symbols"
      from symbol_lex [OF this] show ?thesis using 4 m by (simp add: tok_src_def)
    qed
  qed
qed

definition toks_src :: "Token list \<Rightarrow> string" where
  "toks_src ts = concat (map (\<lambda>t. tok_src t @ [blank]) ts)"

lemma tokenize_print: "list_all lexable ts \<Longrightarrow> tokenize (toks_src ts) = Inr (ts @ [mk_tok TK_END []])"
  by (induction ts) (simp_all add: toks_src_def tokenize_token)

end
