(* ===== verification/Parser.thy ===== *)
theory Parser
  imports Lexer Schema
begin

text \<open>
  \<open>query/ast.hpp\<close> and \<open>query/parser.cpp\<close>: the recursive-descent parser. The position in the token
  vector is the list of tokens not yet consumed; reading past its end, which C++ leaves
  undefined, is \<open>MemFault\<close> (and shown impossible below). The nesting counter \<open>depth_\<close> is an
  argument: the guard in \<open>parseCmp\<close> raises it for the time of one call.

  The loops \<open>do ... while (accept(COMMA))\<close> and \<open>while (accept(OR))\<close> are \<open>sep_list\<close> and
  \<open>chain_loop\<close>. Both test that the parser they call has consumed something, which makes their
  recursion terminate; the calculus of \<open>parser_ok\<close> shows that every parser of the program does, so
  the test is never false (\<open>sep_list_ok\<close>, \<open>chain_loop_ok\<close>).

  The properties: parsing the text of any statement gives the statement back, so precedence and
  associativity are as documented; the depth limit is exact; no input makes the parser read
  past the end of its tokens.
\<close>

section \<open>Abstract syntax\<close>

datatype cmp_op = OP_EQ | OP_NE | OP_LT | OP_LE | OP_GT | OP_GE

datatype expr = ECmp string cmp_op val | EAnd expr expr | EOr expr expr

record join_clause =
  j_table :: string
  left_col :: string
  right_col :: string

record select =
  star :: bool
  count_star :: bool
  sel_cols :: "string list"
  sel_table :: string
  sel_join :: "join_clause option"
  sel_where :: "expr option"

datatype statement =
    StCreate string schema
  | StInsert string "val list"
  | StSelect select
  | StDelete string "expr option"
  | StBegin | StCommit | StRollback

section \<open>The token cursor\<close>

type_synonym 'a parser = "Token list \<Rightarrow> db_error + ('a \<times> Token list)"

definition peek_tok :: "Token list \<Rightarrow> db_error + Token" where
  "peek_tok ts = (case ts of [] \<Rightarrow> Inl MemFault | t # _ \<Rightarrow> Inr t)"

definition check :: "tok \<Rightarrow> Token list \<Rightarrow> db_error + bool" where
  "check k ts = bindE (peek_tok ts) (\<lambda>t. Inr (t_type t = k))"

definition accept :: "tok \<Rightarrow> bool parser" where
  "accept k ts = bindE (check k ts) (\<lambda>b. if b then Inr (True, tl ts) else Inr (False, ts))"

definition expect :: "tok \<Rightarrow> string \<Rightarrow> Token parser" where
  "expect k what ts = bindE (peek_tok ts) (\<lambda>t.
     if t_type t \<noteq> k
     then Inl (RuntimeError (''parse error: expected '' @ what @ '' but got '' @ [quote] @ t_text t @ [quote]))
     else Inr (t, tl ts))"

text \<open>\<open>do x.push_back(p()) while (accept(COMMA))\<close>.\<close>

function sep_list :: "'a parser \<Rightarrow> 'a list parser" where
  "sep_list p ts = bindE (p ts) (\<lambda>(x, r). bindE (accept TK_COMMA r) (\<lambda>(more, r').
     if more
     then if length r' < length ts then bindE (sep_list p r') (\<lambda>(xs, r''). Inr (x # xs, r'')) else Inl MemFault
     else Inr ([x], r')))"
  by pat_completeness auto
termination by (relation "measure (\<lambda>(p, ts). length ts)") auto

declare sep_list.simps [simp del]

section \<open>Expressions\<close>

definition parseColRef :: "string parser" where
  "parseColRef ts =
     bindE (expect TK_IDENT ''column name'' ts) (\<lambda>(t, r).
     bindE (accept TK_DOT r) (\<lambda>(dot, r').
     if dot then bindE (expect TK_IDENT (''column name after '' @ [quote] @ ''.'' @ [quote]) r') (\<lambda>(t', r'').
       Inr (t_text t @ ''.'' @ t_text t', r''))
     else Inr (t_text t, r')))"

definition parseLiteral :: "val parser" where
  "parseLiteral ts = bindE (peek_tok ts) (\<lambda>t.
     if t_type t = TK_INT_LIT then Inr (makeInt (t_ival t), tl ts)
     else if t_type t = TK_STR_LIT then Inr (makeText (t_text t), tl ts)
     else Inl (RuntimeError ''parse error: expected a literal value''))"

fun cmp_of_tok :: "tok \<Rightarrow> cmp_op option" where
  "cmp_of_tok TK_EQ = Some OP_EQ"
| "cmp_of_tok TK_NE = Some OP_NE"
| "cmp_of_tok TK_LT = Some OP_LT"
| "cmp_of_tok TK_LE = Some OP_LE"
| "cmp_of_tok TK_GT = Some OP_GT"
| "cmp_of_tok TK_GE = Some OP_GE"
| "cmp_of_tok _ = None"

definition parse_comparison :: "expr parser" where
  "parse_comparison ts =
     bindE (parseColRef ts) (\<lambda>(col, r).
     bindE (peek_tok r) (\<lambda>t. case cmp_of_tok (t_type t) of
       None \<Rightarrow> Inl (RuntimeError ''parse error: expected a comparison operator'')
     | Some op \<Rightarrow> bindE (parseLiteral (tl r)) (\<lambda>(v, r'). Inr (ECmp col op v, r'))))"

text \<open>\<open>while (accept(op)) left = mk(left, p())\<close>.\<close>

function chain_loop :: "tok \<Rightarrow> (expr \<Rightarrow> expr \<Rightarrow> expr) \<Rightarrow> expr parser \<Rightarrow> expr \<Rightarrow> expr parser" where
  "chain_loop k mk p left ts = bindE (accept k ts) (\<lambda>(more, r).
     if more
     then bindE (p r) (\<lambda>(e, r').
            if length r' < length ts then chain_loop k mk p (mk left e) r' else Inl MemFault)
     else Inr (left, r))"
  by pat_completeness auto
termination by (relation "measure (\<lambda>(k, mk, p, left, ts). length ts)") auto

declare chain_loop.simps [simp del]

definition parse_chain :: "tok \<Rightarrow> (expr \<Rightarrow> expr \<Rightarrow> expr) \<Rightarrow> expr parser \<Rightarrow> expr parser" where
  "parse_chain k mk p ts = bindE (p ts) (\<lambda>(left, r). chain_loop k mk p left r)"

definition MAX_DEPTH :: nat where "MAX_DEPTH = 500"

definition too_deep :: db_error where
  "too_deep = RuntimeError ''parse error: expression nested too deeply''"

text \<open>\<open>parseCmp d\<close> is the call with \<open>depth_ = d\<close>; the call in parentheses has \<open>depth_ = d + 1\<close>.\<close>

function parseCmp :: "nat \<Rightarrow> expr parser" where
  "parseCmp d ts =
     (if d + 1 > MAX_DEPTH then Inl too_deep
      else bindE (accept TK_LPAREN ts) (\<lambda>(paren, r).
        if paren
        then bindE (parse_chain TK_OR EOr (parse_chain TK_AND EAnd (parseCmp (d + 1))) r) (\<lambda>(e, r').
             bindE (expect TK_RPAREN '')'' r') (\<lambda>(_, r''). Inr (e, r'')))
        else parse_comparison r))"
  by pat_completeness auto
termination by (relation "measure (\<lambda>(d, ts). MAX_DEPTH - d)") auto

declare parseCmp.simps [simp del]

definition parseAnd :: "nat \<Rightarrow> expr parser" where
  "parseAnd d = parse_chain TK_AND EAnd (parseCmp d)"

definition parseExpr :: "nat \<Rightarrow> expr parser" where
  "parseExpr d = parse_chain TK_OR EOr (parseAnd d)"

lemma parseCmp_unfold:
  "parseCmp d ts =
     (if d + 1 > MAX_DEPTH then Inl too_deep
      else bindE (accept TK_LPAREN ts) (\<lambda>(paren, r).
        if paren
        then bindE (parseExpr (d + 1) r) (\<lambda>(e, r').
             bindE (expect TK_RPAREN '')'' r') (\<lambda>(_, r''). Inr (e, r'')))
        else parse_comparison r))"
  unfolding parseExpr_def parseAnd_def by (rule parseCmp.simps)

section \<open>Statements\<close>

definition parse_column :: "column parser" where
  "parse_column ts =
     bindE (expect TK_IDENT ''column name'' ts) (\<lambda>(t, r).
     bindE (accept TK_KW_INT r) (\<lambda>(int, r1).
     if int then Inr (\<lparr>cname = t_text t, ctyp = T_INT\<rparr>, r1)
     else bindE (accept TK_KW_TEXT r1) (\<lambda>(txt, r2).
     if txt then Inr (\<lparr>cname = t_text t, ctyp = T_TEXT\<rparr>, r2)
     else Inl (RuntimeError (''parse error: expected INT or TEXT for column '' @ t_text t)))))"

definition parseCreate :: "statement parser" where
  "parseCreate ts =
     bindE (expect TK_CREATE ''CREATE'' ts) (\<lambda>(_, ts).
     bindE (expect TK_TABLE ''TABLE'' ts) (\<lambda>(_, ts).
     bindE (expect TK_IDENT ''table name'' ts) (\<lambda>(t, ts).
     bindE (expect TK_LPAREN ''('' ts) (\<lambda>(_, ts).
     bindE (sep_list parse_column ts) (\<lambda>(cols, ts).
     bindE (expect TK_RPAREN '')'' ts) (\<lambda>(_, ts).
     bindE (accept TK_SEMI ts) (\<lambda>(_, ts).
       Inr (StCreate (t_text t) cols, ts))))))))"

definition parseInsert :: "statement parser" where
  "parseInsert ts =
     bindE (expect TK_INSERT ''INSERT'' ts) (\<lambda>(_, ts).
     bindE (expect TK_INTO ''INTO'' ts) (\<lambda>(_, ts).
     bindE (expect TK_IDENT ''table name'' ts) (\<lambda>(t, ts).
     bindE (expect TK_VALUES ''VALUES'' ts) (\<lambda>(_, ts).
     bindE (expect TK_LPAREN ''('' ts) (\<lambda>(_, ts).
     bindE (sep_list parseLiteral ts) (\<lambda>(vals, ts).
     bindE (expect TK_RPAREN '')'' ts) (\<lambda>(_, ts).
     bindE (accept TK_SEMI ts) (\<lambda>(_, ts).
       Inr (StInsert (t_text t) vals, ts)))))))))"

text \<open>The optional \<open>WHERE\<close> clause.\<close>

definition parse_where :: "expr option parser" where
  "parse_where ts = bindE (accept TK_WHERE ts) (\<lambda>(w, ts).
     if w then bindE (parseExpr 0 ts) (\<lambda>(e, ts). Inr (Some e, ts)) else Inr (None, ts))"

definition parse_join :: "join_clause option parser" where
  "parse_join ts = bindE (accept TK_JOIN ts) (\<lambda>(j, ts).
     if j then
       bindE (expect TK_IDENT ''joined table name'' ts) (\<lambda>(t, ts).
       bindE (expect TK_ON ''ON'' ts) (\<lambda>(_, ts).
       bindE (parseColRef ts) (\<lambda>(lc, ts).
       bindE (expect TK_EQ ''= (only equi-joins are supported)'' ts) (\<lambda>(_, ts).
       bindE (parseColRef ts) (\<lambda>(rc, ts).
         Inr (Some \<lparr>j_table = t_text t, left_col = lc, right_col = rc\<rparr>, ts))))))
     else Inr (None, ts))"

text \<open>The select list: \<open>star\<close>, \<open>count_star\<close> and the columns.\<close>

definition parse_select_list :: "(bool \<times> bool \<times> string list) parser" where
  "parse_select_list ts = bindE (accept TK_STAR ts) (\<lambda>(st, ts).
     if st then Inr ((True, False, []), ts)
     else bindE (check TK_COUNT ts) (\<lambda>cnt.
     if cnt then
       bindE (expect TK_LPAREN ''('' (tl ts)) (\<lambda>(_, ts).
       bindE (expect TK_STAR ''*'' ts) (\<lambda>(_, ts).
       bindE (expect TK_RPAREN '')'' ts) (\<lambda>(_, ts).
         Inr ((False, True, []), ts))))
     else bindE (sep_list parseColRef ts) (\<lambda>(cs, ts). Inr ((False, False, cs), ts))))"

definition parseSelect :: "statement parser" where
  "parseSelect ts =
     bindE (expect TK_SELECT ''SELECT'' ts) (\<lambda>(_, ts).
     bindE (parse_select_list ts) (\<lambda>((st, cnt, cs), ts).
     bindE (expect TK_FROM ''FROM'' ts) (\<lambda>(_, ts).
     bindE (expect TK_IDENT ''table name'' ts) (\<lambda>(t, ts).
     bindE (parse_join ts) (\<lambda>(j, ts).
     bindE (parse_where ts) (\<lambda>(w, ts).
     bindE (accept TK_SEMI ts) (\<lambda>(_, ts).
       Inr (StSelect \<lparr>star = st, count_star = cnt, sel_cols = cs, sel_table = t_text t,
              sel_join = j, sel_where = w\<rparr>, ts))))))))"

definition parseDelete :: "statement parser" where
  "parseDelete ts =
     bindE (expect TK_DELETE ''DELETE'' ts) (\<lambda>(_, ts).
     bindE (expect TK_FROM ''FROM'' ts) (\<lambda>(_, ts).
     bindE (expect TK_IDENT ''table name'' ts) (\<lambda>(t, ts).
     bindE (parse_where ts) (\<lambda>(w, ts).
     bindE (accept TK_SEMI ts) (\<lambda>(_, ts).
       Inr (StDelete (t_text t) w, ts))))))"

definition parseStatement :: "statement parser" where
  "parseStatement ts = bindE (peek_tok ts) (\<lambda>t.
     if t_type t = TK_CREATE then parseCreate ts
     else if t_type t = TK_INSERT then parseInsert ts
     else if t_type t = TK_SELECT then parseSelect ts
     else if t_type t = TK_DELETE then parseDelete ts
     else if t_type t = TK_BEGIN then Inr (StBegin, tl ts)
     else if t_type t = TK_COMMIT then Inr (StCommit, tl ts)
     else if t_type t = TK_ROLLBACK then Inr (StRollback, tl ts)
     else Inl (RuntimeError (''parse error: unexpected token '' @ [quote] @ t_text t @ [quote])))"

definition parse :: "Token list \<Rightarrow> db_error + statement" where
  "parse ts =
     bindE (parseStatement ts) (\<lambda>(s, r).
     bindE (accept TK_SEMI r) (\<lambda>(_, r').
     bindE (peek_tok r') (\<lambda>t.
     if t_type t \<noteq> TK_END
     then Inl (RuntimeError (''parse error: unexpected trailing token '' @ [quote] @ t_text t @ [quote]))
     else Inr s)))"

text \<open>Lexer and parser as \<open>main.cpp\<close> calls them on one statement.\<close>

definition parse_sql :: "string \<Rightarrow> db_error + statement" where
  "parse_sql src = bindE (tokenize src) parse"


section \<open>The cursor stays inside the tokens\<close>

text \<open>A token vector as the lexer makes it: it ends with \<open>END\<close>.\<close>

definition ends :: "Token list \<Rightarrow> bool" where
  "ends ts \<longleftrightarrow> ts \<noteq> [] \<and> t_type (last ts) = TK_END"

text \<open>
  On such a vector the parser raises no \<open>MemFault\<close>, leaves such a vector, and has consumed at
  least \<open>n\<close> tokens.
\<close>

definition parser_ok :: "nat \<Rightarrow> 'a parser \<Rightarrow> bool" where
  "parser_ok n p \<longleftrightarrow> (\<forall>ts. ends ts \<longrightarrow>
     (case p ts of Inl e \<Rightarrow> e \<noteq> MemFault | Inr (x, r) \<Rightarrow> ends r \<and> length r + n \<le> length ts))"

lemma parser_okI:
  assumes "\<And>t ts. ends (t # ts) \<Longrightarrow>
    (case p (t # ts) of Inl e \<Rightarrow> e \<noteq> MemFault | Inr (x, r) \<Rightarrow> ends r \<and> length r + n \<le> length (t # ts))"
  shows "parser_ok n p"
  unfolding parser_ok_def
proof (intro allI impI)
  fix ts
  assume e: "ends ts"
  then obtain t us where ts: "ts = t # us" by (auto simp: ends_def neq_Nil_conv)
  show "case p ts of Inl e \<Rightarrow> e \<noteq> MemFault | Inr (x, r) \<Rightarrow> ends r \<and> length r + n \<le> length ts"
    unfolding ts by (rule assms) (use e ts in simp)
qed

lemma ends_tl: "ends (t # ts) \<Longrightarrow> t_type t \<noteq> TK_END \<Longrightarrow> ends ts"
  by (auto simp: ends_def split: if_splits)

named_theorems parser_ok_rules

lemma parser_okD:
  assumes "parser_ok n p" "ends ts"
  shows "p ts \<noteq> Inl MemFault" "p ts = Inr (x, r) \<Longrightarrow> ends r \<and> length r + n \<le> length ts"
  using assms by (auto simp: parser_ok_def split: sum.splits)

lemma parser_ok_weaken: "parser_ok n p \<Longrightarrow> m \<le> n \<Longrightarrow> parser_ok m p"
  by (fastforce simp: parser_ok_def split: sum.splits)

lemma parser_ok_bind:
  assumes "parser_ok n p" "\<And>x. parser_ok 0 (f x)"
  shows "parser_ok n (\<lambda>ts. bindE (p ts) (case_prod f))"
  unfolding parser_ok_def
proof (intro allI impI)
  fix ts
  assume e: "ends ts"
  show "case bindE (p ts) (case_prod f) of Inl e \<Rightarrow> e \<noteq> MemFault | Inr (x, r) \<Rightarrow> ends r \<and> length r + n \<le> length ts"
  proof (cases "p ts")
    case (Inl err)
    then show ?thesis using parser_okD(1) [OF assms(1) e] by simp
  next
    case (Inr xr)
    obtain x r where xr: "xr = (x, r)" by (cases xr)
    have r: "ends r" "length r + n \<le> length ts" using parser_okD(2) [OF assms(1) e] Inr xr by auto
    show ?thesis using parser_okD [OF assms(2) r(1), of x] r(2) Inr xr
      by (auto split: sum.split)
  qed
qed

lemma parser_ok_ret [parser_ok_rules]: "parser_ok 0 (\<lambda>ts. Inr (x, ts))"
  by (simp add: parser_ok_def)

lemma parser_ok_fail [parser_ok_rules]: "e \<noteq> MemFault \<Longrightarrow> parser_ok n (\<lambda>ts. Inl e)"
  by (simp add: parser_ok_def)

lemma parser_ok_if [parser_ok_rules]:
  "(b \<Longrightarrow> parser_ok n p) \<Longrightarrow> (\<not> b \<Longrightarrow> parser_ok n q) \<Longrightarrow> parser_ok n (\<lambda>ts. if b then p ts else q ts)"
  by (cases b) simp_all

lemma accept_ok [parser_ok_rules]: "k \<noteq> TK_END \<Longrightarrow> parser_ok 0 (accept k)"
  by (rule parser_okI) (auto simp: accept_def check_def peek_tok_def ends_tl)

lemma expect_ok [parser_ok_rules]: "k \<noteq> TK_END \<Longrightarrow> parser_ok 1 (expect k what)"
  by (rule parser_okI) (auto simp: expect_def peek_tok_def ends_tl)

lemma parseLiteral_ok [parser_ok_rules]: "parser_ok 1 parseLiteral"
  by (rule parser_okI) (auto simp: parseLiteral_def peek_tok_def ends_tl)

lemma sep_list_ok [parser_ok_rules]:
  assumes "parser_ok 1 p"
  shows "parser_ok 1 (sep_list p)"
  unfolding parser_ok_def
proof (intro allI impI)
  fix ts
  assume "ends ts"
  then show "case sep_list p ts of Inl e \<Rightarrow> e \<noteq> MemFault | Inr (xs, r) \<Rightarrow> ends r \<and> length r + 1 \<le> length ts"
  proof (induction "length ts" arbitrary: ts rule: less_induct)
    case less
    show ?case
    proof (cases "p ts")
      case (Inl e)
      then show ?thesis using parser_okD(1) [OF assms less.prems] by (simp add: sep_list.simps [of p ts])
    next
      case (Inr xr)
      then obtain x r where p: "p ts = Inr (x, r)" by (cases xr) auto
      have r: "ends r" "length r + 1 \<le> length ts" using parser_okD(2) [OF assms less.prems p] by auto
      obtain t us where tu: "r = t # us" using r(1) by (cases r) (auto simp: ends_def)
      show ?thesis
      proof (cases "t_type t = TK_COMMA")
        case True
        then have us: "ends us" "length us < length ts" using ends_tl [of t us] r tu by auto
        then show ?thesis using less.hyps [OF us(2,1)] True p tu
          by (auto simp: sep_list.simps [of p ts] accept_def check_def peek_tok_def split: sum.splits)
      next
        case False
        then show ?thesis using r p tu
          by (simp add: sep_list.simps [of p ts] accept_def check_def peek_tok_def)
      qed
    qed
  qed
qed

lemma chain_loop_ok [parser_ok_rules]:
  assumes "parser_ok 1 p" "k \<noteq> TK_END"
  shows "parser_ok 0 (chain_loop k mk p left)"
  unfolding parser_ok_def
proof (intro allI impI)
  fix ts
  assume "ends ts"
  then show "case chain_loop k mk p left ts of Inl e \<Rightarrow> e \<noteq> MemFault | Inr (xs, r) \<Rightarrow> ends r \<and> length r + 0 \<le> length ts"
  proof (induction "length ts" arbitrary: ts left rule: less_induct)
    case less
    obtain t us where tu: "ts = t # us" using less.prems by (cases ts) (auto simp: ends_def)
    show ?case
    proof (cases "t_type t = k")
      case True
      then have us: "ends us" using ends_tl [of t us] less.prems tu assms(2) by simp
      show ?thesis
      proof (cases "p us")
        case (Inl e)
        then show ?thesis using parser_okD(1) [OF assms(1) us] True tu
          by (simp add: chain_loop.simps [of k mk p left] accept_def check_def peek_tok_def)
      next
        case (Inr xr)
        then obtain x r where p: "p us = Inr (x, r)" by (cases xr) auto
        have r: "ends r" "length r + 1 \<le> length us" using parser_okD(2) [OF assms(1) us p] by auto
        then show ?thesis using less.hyps [of r "mk left x"] True p tu
          by (auto simp: chain_loop.simps [of k mk p left] accept_def check_def peek_tok_def split: sum.splits)
      qed
    next
      case False
      then show ?thesis using less.prems tu
        by (simp add: chain_loop.simps [of k mk p left] accept_def check_def peek_tok_def)
    qed
  qed
qed

lemma parse_chain_ok [parser_ok_rules]: "parser_ok 1 p \<Longrightarrow> k \<noteq> TK_END \<Longrightarrow> parser_ok 1 (parse_chain k mk p)"
  unfolding parse_chain_def [abs_def] by (intro parser_ok_bind parser_ok_rules) auto

lemma parseColRef_ok [parser_ok_rules]: "parser_ok 1 parseColRef"
  unfolding parseColRef_def [abs_def]
  by (intro parser_ok_bind parser_ok_rules parser_ok_weaken [OF expect_ok]) auto

lemma parser_ok_tl:
  assumes "parser_ok n p" "ends (t # ts)" "t_type t \<noteq> TK_END"
  shows "case p ts of Inl e \<Rightarrow> e \<noteq> MemFault | Inr (x, r) \<Rightarrow> ends r \<and> length r + n \<le> length ts"
  using assms(1) ends_tl [OF assms(2,3)] by (simp add: parser_ok_def)

definition compare_tail :: "string \<Rightarrow> expr parser" where
  "compare_tail col r = bindE (peek_tok r) (\<lambda>t. case cmp_of_tok (t_type t) of
       None \<Rightarrow> Inl (RuntimeError ''parse error: expected a comparison operator'')
     | Some op \<Rightarrow> bindE (parseLiteral (tl r)) (\<lambda>(v, r'). Inr (ECmp col op v, r')))"

lemma compare_tail_ok [parser_ok_rules]: "parser_ok 0 (compare_tail col)"
proof (rule parser_okI)
  fix t ts
  assume e: "ends (t # ts)"
  show "case compare_tail col (t # ts) of Inl e \<Rightarrow> e \<noteq> MemFault | Inr (x, r) \<Rightarrow> ends r \<and> length r + 0 \<le> length (t # ts)"
  proof (cases "cmp_of_tok (t_type t)")
    case (Some op)
    then have "t_type t \<noteq> TK_END" by auto
    from parser_ok_tl [OF parseLiteral_ok e this] Some show ?thesis
      by (auto simp: compare_tail_def peek_tok_def bindE_def split: sum.splits)
  qed (simp add: compare_tail_def peek_tok_def)
qed

lemma parse_comparison_ok [parser_ok_rules]: "parser_ok 1 parse_comparison"
  unfolding parse_comparison_def [abs_def] compare_tail_def [symmetric]
  by (intro parser_ok_bind parser_ok_rules)

lemma parseCmp_ok: "parser_ok 1 (parseCmp d)"
proof (induction "MAX_DEPTH - d" arbitrary: d rule: less_induct)
  case less
  show ?case
  proof (cases "d + 1 > MAX_DEPTH")
    case True
    then show ?thesis by (simp add: parser_ok_def parseCmp.simps too_deep_def)
  next
    case False
    then have "parser_ok 1 (parseCmp (d + 1))" by (intro less) simp
    then have e: "parser_ok 1 (parseExpr (d + 1))"
      unfolding parseExpr_def parseAnd_def by (intro parse_chain_ok) auto
    then have b: "parser_ok 0 (\<lambda>ts. bindE (parseExpr (d + 1) ts) (\<lambda>(e, r).
        bindE (expect TK_RPAREN '')'' r) (\<lambda>(_, r'). Inr (e, r'))))"
      by (intro parser_ok_bind parser_ok_rules parser_ok_weaken [OF expect_ok] parser_ok_weaken [OF e]) auto
    show ?thesis
    proof (rule parser_okI)
      fix t ts
      assume es: "ends (t # ts)"
      show "case parseCmp d (t # ts) of Inl e \<Rightarrow> e \<noteq> MemFault | Inr (x, r) \<Rightarrow> ends r \<and> length r + 1 \<le> length (t # ts)"
      proof (cases "t_type t = TK_LPAREN")
        case True
        with parser_ok_tl [OF b es] False show ?thesis
          by (auto simp: parseCmp_unfold [of d] accept_def check_def peek_tok_def split: sum.splits)
      next
        case False
        with parse_comparison_ok es \<open>\<not> d + 1 > MAX_DEPTH\<close> show ?thesis
          by (auto simp: parser_ok_def parseCmp_unfold [of d] accept_def check_def peek_tok_def split: sum.splits)
      qed
    qed
  qed
qed

lemma parseAnd_ok: "parser_ok 1 (parseAnd d)"
  unfolding parseAnd_def by (intro parse_chain_ok parseCmp_ok) simp

lemma parseExpr_ok [parser_ok_rules]: "parser_ok 1 (parseExpr d)"
  unfolding parseExpr_def by (intro parse_chain_ok parseAnd_ok) simp

lemmas parser_ok_0 [parser_ok_rules] =
  parser_ok_weaken [OF expect_ok, of _ 0] parser_ok_weaken [OF parseExpr_ok, of 0]
  parser_ok_weaken [OF parseColRef_ok, of 0] parser_ok_weaken [OF parseLiteral_ok, of 0]
  parser_ok_weaken [OF sep_list_ok, of _ 0]

lemma parse_column_ok [parser_ok_rules]: "parser_ok 1 parse_column"
  unfolding parse_column_def [abs_def] by (intro parser_ok_bind parser_ok_rules) simp_all

lemma parse_where_ok [parser_ok_rules]: "parser_ok 0 parse_where"
  unfolding parse_where_def [abs_def] by (intro parser_ok_bind parser_ok_rules) simp_all

lemma parse_join_ok [parser_ok_rules]: "parser_ok 0 parse_join"
  unfolding parse_join_def [abs_def] by (intro parser_ok_bind parser_ok_rules) simp_all

lemma parseCreate_ok: "parser_ok 1 parseCreate"
  unfolding parseCreate_def [abs_def] by (intro parser_ok_bind parser_ok_rules) simp_all

lemma parseInsert_ok: "parser_ok 1 parseInsert"
  unfolding parseInsert_def [abs_def] by (intro parser_ok_bind parser_ok_rules) simp_all

lemma parseDelete_ok: "parser_ok 1 parseDelete"
  unfolding parseDelete_def [abs_def] by (intro parser_ok_bind parser_ok_rules) simp_all

text \<open>The select list behind \<open>STAR\<close>.\<close>

definition select_items :: "(bool \<times> bool \<times> string list) parser" where
  "select_items ts = bindE (check TK_COUNT ts) (\<lambda>cnt.
     if cnt then
       bindE (expect TK_LPAREN ''('' (tl ts)) (\<lambda>(_, ts).
       bindE (expect TK_STAR ''*'' ts) (\<lambda>(_, ts).
       bindE (expect TK_RPAREN '')'' ts) (\<lambda>(_, ts).
         Inr ((False, True, []), ts))))
     else bindE (sep_list parseColRef ts) (\<lambda>(cs, ts). Inr ((False, False, cs), ts)))"

lemma select_items_ok [parser_ok_rules]: "parser_ok 0 select_items"
proof (rule parser_okI)
  fix t ts
  assume e: "ends (t # ts)"
  have c: "parser_ok 0 (\<lambda>ts. bindE (expect TK_LPAREN ''('' ts) (\<lambda>(_, ts).
       bindE (expect TK_STAR ''*'' ts) (\<lambda>(_, ts).
       bindE (expect TK_RPAREN '')'' ts) (\<lambda>(_, ts). Inr ((False, True, []::string list), ts)))))"
    by (intro parser_ok_bind parser_ok_rules) simp_all
  have l: "parser_ok 0 (\<lambda>ts. bindE (sep_list parseColRef ts) (\<lambda>(cs, ts). Inr ((False, False, cs), ts)))"
    by (intro parser_ok_bind parser_ok_rules) simp_all
  show "case select_items (t # ts) of Inl e \<Rightarrow> e \<noteq> MemFault | Inr (x, r) \<Rightarrow> ends r \<and> length r + 0 \<le> length (t # ts)"
  proof (cases "t_type t = TK_COUNT")
    case True
    with parser_ok_tl [OF c e] show ?thesis
      by (auto simp: select_items_def check_def peek_tok_def split: sum.splits)
  next
    case False
    with l e show ?thesis by (simp add: parser_ok_def select_items_def check_def peek_tok_def)
  qed
qed

lemma parse_select_list_ok [parser_ok_rules]: "parser_ok 0 parse_select_list"
  unfolding parse_select_list_def [abs_def] select_items_def [symmetric]
  by (intro parser_ok_bind parser_ok_rules) simp_all

lemma parser_ok_triple: "(\<And>a b c. parser_ok n (f a b c)) \<Longrightarrow> parser_ok n (case x of (a, b, c) \<Rightarrow> f a b c)"
  by (cases x) simp

lemma parseSelect_ok: "parser_ok 1 parseSelect"
  unfolding parseSelect_def [abs_def] by (intro parser_ok_bind parser_ok_rules parser_ok_triple) simp_all

lemma parseStatement_ok: "parser_ok 0 parseStatement"
proof (rule parser_okI)
  fix t ts
  assume e: "ends (t # ts)"
  show "case parseStatement (t # ts) of Inl e \<Rightarrow> e \<noteq> MemFault | Inr (x, r) \<Rightarrow> ends r \<and> length r + 0 \<le> length (t # ts)"
    using e parser_ok_weaken [OF parseCreate_ok, of 0] parser_ok_weaken [OF parseInsert_ok, of 0] parser_ok_weaken [OF parseSelect_ok, of 0] parser_ok_weaken [OF parseDelete_ok, of 0]
    by (auto simp: parseStatement_def peek_tok_def parser_ok_def ends_tl)
qed

lemma parse_no_fault:
  assumes "ends ts"
  shows "parse ts \<noteq> Inl MemFault"
proof -
  have 1: "parser_ok 0 (\<lambda>ts. bindE (parseStatement ts) (\<lambda>(s, r). bindE (accept TK_SEMI r) (\<lambda>(_, r'). Inr (s, r'))))"
    by (intro parser_ok_bind parseStatement_ok parser_ok_rules) simp
  from parser_okD [OF this assms] show ?thesis
    by (auto simp: parse_def bindE_Inl_iff peek_tok_def ends_def split: list.splits)
qed

lemma tokenize_ends: "tokenize s = Inr ts \<Longrightarrow> ends ts"
proof (induction s arbitrary: ts rule: tokenize.induct)
  case (2 c cs)
  have step: "ends (t # us)" if "ends us" for t us using that by (simp add: ends_def)
  show ?case using "2.prems"
    by (auto simp: tokenize.simps(2) [of c cs] bindE_Inr_iff Let_def intro: 2 intro!: step split: if_splits)
qed (simp add: ends_def)

lemma tokenize_no_fault: "tokenize s \<noteq> Inl MemFault"
proof (induction s rule: tokenize.induct)
  case (2 c cs)
  have p: "punct c cs \<noteq> Inl MemFault" by (simp add: punct_def)
  have q: "stoll x \<noteq> Inl MemFault" for x by (simp add: stoll_def Let_def)
  show ?case using 2 p q
    by (auto simp: tokenize.simps(2) [of c cs] bindE_Inl_iff Let_def split: if_splits)
qed simp

section \<open>Printing\<close>

text \<open>
  The concrete syntax of a statement, with parentheses only where precedence or left
  associativity demands them. Level 0 is an operand of \<open>OR\<close>, 1 of \<open>AND\<close>, 2 a comparison.
\<close>

abbreviation ident :: "string \<Rightarrow> Token" where "ident s \<equiv> mk_tok TK_IDENT s"
abbreviation dot :: char where "dot \<equiv> CHR ''.''"

definition col_toks :: "string \<Rightarrow> Token list" where
  "col_toks c = (if dot \<in> set c
     then [ident (takeWhile (\<lambda>x. x \<noteq> dot) c), mk_tok TK_DOT ''.'', ident (tl (dropWhile (\<lambda>x. x \<noteq> dot) c))]
     else [ident c])"

definition lit_tok :: "val \<Rightarrow> Token" where
  "lit_tok v = (if v_type v = T_INT then \<lparr>t_type = TK_INT_LIT, t_text = dec_of_int (v_i v), t_ival = v_i v\<rparr>
     else mk_tok TK_STR_LIT (v_s v))"

fun op_tok :: "cmp_op \<Rightarrow> Token" where
  "op_tok OP_EQ = mk_tok TK_EQ ''=''"
| "op_tok OP_NE = mk_tok TK_NE ''<>''"
| "op_tok OP_LT = mk_tok TK_LT ''<''"
| "op_tok OP_LE = mk_tok TK_LE ''<=''"
| "op_tok OP_GT = mk_tok TK_GT ''>''"
| "op_tok OP_GE = mk_tok TK_GE ''>=''"

definition parens :: "bool \<Rightarrow> Token list \<Rightarrow> Token list" where
  "parens b ts = (if b then mk_tok TK_LPAREN ''('' # ts @ [mk_tok TK_RPAREN '')''] else ts)"

fun expr_toks :: "nat \<Rightarrow> expr \<Rightarrow> Token list" where
  "expr_toks l (ECmp c op v) = col_toks c @ [op_tok op, lit_tok v]"
| "expr_toks l (EAnd a b) = parens (l > 1) (expr_toks 1 a @ mk_tok TK_AND ''AND'' # expr_toks 2 b)"
| "expr_toks l (EOr a b) = parens (l > 0) (expr_toks 0 a @ mk_tok TK_OR ''OR'' # expr_toks 1 b)"

text \<open>The nesting of parentheses in that text.\<close>

fun nesting :: "nat \<Rightarrow> expr \<Rightarrow> nat" where
  "nesting l (ECmp c op v) = 0"
| "nesting l (EAnd a b) = (if l > 1 then 1 else 0) + max (nesting 1 a) (nesting 2 b)"
| "nesting l (EOr a b) = (if l > 0 then 1 else 0) + max (nesting 0 a) (nesting 1 b)"

fun expr_vals :: "expr \<Rightarrow> val list" where
  "expr_vals (ECmp c op v) = [v]"
| "expr_vals (EAnd a b) = expr_vals a @ expr_vals b"
| "expr_vals (EOr a b) = expr_vals a @ expr_vals b"

fun sep_toks :: "('a \<Rightarrow> Token list) \<Rightarrow> 'a list \<Rightarrow> Token list" where
  "sep_toks f [] = []"
| "sep_toks f [x] = f x"
| "sep_toks f (x # xs) = f x @ mk_tok TK_COMMA '','' # sep_toks f xs"

definition where_toks :: "expr option \<Rightarrow> Token list" where
  "where_toks w = (case w of None \<Rightarrow> [] | Some e \<Rightarrow> mk_tok TK_WHERE ''WHERE'' # expr_toks 0 e)"

definition join_toks :: "join_clause option \<Rightarrow> Token list" where
  "join_toks j = (case j of None \<Rightarrow> [] | Some j \<Rightarrow>
     [mk_tok TK_JOIN ''JOIN'', ident (j_table j), mk_tok TK_ON ''ON''] @ col_toks (left_col j)
       @ mk_tok TK_EQ ''='' # col_toks (right_col j))"

definition column_toks :: "column \<Rightarrow> Token list" where
  "column_toks c = [ident (cname c), if ctyp c = T_INT then mk_tok TK_KW_INT ''INT'' else mk_tok TK_KW_TEXT ''TEXT'']"

definition items_toks :: "select \<Rightarrow> Token list" where
  "items_toks s = (if star s then [mk_tok TK_STAR ''*'']
     else if count_star s
     then [mk_tok TK_COUNT ''COUNT'', mk_tok TK_LPAREN ''('', mk_tok TK_STAR ''*'', mk_tok TK_RPAREN '')'']
     else sep_toks col_toks (sel_cols s))"

fun stmt_toks :: "statement \<Rightarrow> Token list" where
  "stmt_toks (StCreate t cols) = [mk_tok TK_CREATE ''CREATE'', mk_tok TK_TABLE ''TABLE'', ident t, mk_tok TK_LPAREN ''('']
     @ sep_toks column_toks cols @ [mk_tok TK_RPAREN '')'']"
| "stmt_toks (StInsert t vals) = [mk_tok TK_INSERT ''INSERT'', mk_tok TK_INTO ''INTO'', ident t, mk_tok TK_VALUES ''VALUES'',
     mk_tok TK_LPAREN ''(''] @ sep_toks (\<lambda>v. [lit_tok v]) vals @ [mk_tok TK_RPAREN '')'']"
| "stmt_toks (StSelect s) = mk_tok TK_SELECT ''SELECT'' # items_toks s
     @ [mk_tok TK_FROM ''FROM'', ident (sel_table s)] @ join_toks (sel_join s) @ where_toks (sel_where s)"
| "stmt_toks (StDelete t w) = [mk_tok TK_DELETE ''DELETE'', mk_tok TK_FROM ''FROM'', ident t] @ where_toks w"
| "stmt_toks StBegin = [mk_tok TK_BEGIN ''BEGIN'']"
| "stmt_toks StCommit = [mk_tok TK_COMMIT ''COMMIT'']"
| "stmt_toks StRollback = [mk_tok TK_ROLLBACK ''ROLLBACK'']"

text \<open>
  The statements the grammar can produce: lists are not empty, a select list is a star, a count
  or columns, and expressions nest within the limit.
\<close>

definition where_ok :: "expr option \<Rightarrow> bool" where
  "where_ok w = (case w of None \<Rightarrow> True | Some e \<Rightarrow> nesting 0 e < MAX_DEPTH \<and> list_all val_ok (expr_vals e))"

fun stmt_wf :: "statement \<Rightarrow> bool" where
  "stmt_wf (StCreate t cols) = (cols \<noteq> [])"
| "stmt_wf (StInsert t vals) = (vals \<noteq> [] \<and> list_all val_ok vals)"
| "stmt_wf (StSelect s) = ((if star s then \<not> count_star s \<and> sel_cols s = []
     else if count_star s then sel_cols s = [] else sel_cols s \<noteq> []) \<and> where_ok (sel_where s))"
| "stmt_wf (StDelete t w) = where_ok w"
| "stmt_wf _ = True"

section \<open>Parsing what was printed\<close>

lemma cursor_simps [simp]:
  "peek_tok (t # ts) = Inr t"
  "check k (t # ts) = Inr (t_type t = k)"
  "accept k (t # ts) = (if t_type t = k then Inr (True, ts) else Inr (False, t # ts))"
  "t_type t = k \<Longrightarrow> expect k what (t # ts) = Inr (t, ts)"
  by (simp_all add: peek_tok_def check_def accept_def expect_def)

lemma col_parts:
  assumes "dot \<in> set c"
  shows "takeWhile (\<lambda>x. x \<noteq> dot) c @ dot # tl (dropWhile (\<lambda>x. x \<noteq> dot) c) = c"
  using assms by (induction c) auto

lemma parseColRef_print:
  assumes "t_type t \<noteq> TK_DOT"
  shows "parseColRef (col_toks c @ t # ts) = Inr (c, t # ts)"
  using assms col_parts [of c] by (auto simp: parseColRef_def col_toks_def)

lemma parseLiteral_print: "val_ok v \<Longrightarrow> parseLiteral (lit_tok v # ts) = Inr (v, ts)"
  using val_ok_cases [of v] by (auto simp: parseLiteral_def lit_tok_def)

lemma cmp_of_op_tok [simp]: "cmp_of_tok (t_type (op_tok op)) = Some op" "t_type (op_tok op) \<noteq> TK_DOT"
  by (cases op; simp)+

lemma parse_comparison_print:
  "val_ok v \<Longrightarrow> parse_comparison (col_toks c @ op_tok op # lit_tok v # ts) = Inr (ECmp c op v, ts)"
  by (simp add: parse_comparison_def parseColRef_print parseLiteral_print)

lemma col_toks_head: "\<exists>t r. col_toks c = t # r \<and> t_type t = TK_IDENT"
  by (simp add: col_toks_def)

lemma chain_loop_stop: "t_type t \<noteq> k \<Longrightarrow> chain_loop k mk p e (t # ts) = Inr (e, t # ts)"
  by (simp add: chain_loop.simps)

lemma chain_loop_go: "t_type t = k \<Longrightarrow> p (us @ r) = Inr (e', r) \<Longrightarrow> chain_loop k mk p e (t # us @ r) = chain_loop k mk p (mk e e') r"
  by (subst chain_loop.simps) simp

text \<open>Each level parses its text, whatever follows it that does not continue it.\<close>

definition prints :: "expr \<Rightarrow> bool" where
  "prints e \<longleftrightarrow> (\<forall>d ts. d + nesting 2 e < MAX_DEPTH \<longrightarrow> parseCmp d (expr_toks 2 e @ ts) = Inr (e, ts))
     \<and> (\<forall>d ts. d + nesting 1 e < MAX_DEPTH \<longrightarrow>
          parse_chain TK_AND EAnd (parseCmp d) (expr_toks 1 e @ ts) = chain_loop TK_AND EAnd (parseCmp d) e ts)
     \<and> (\<forall>d t ts. d + nesting 0 e < MAX_DEPTH \<longrightarrow> t_type t \<noteq> TK_AND \<longrightarrow>
          parse_chain TK_OR EOr (parseAnd d) (expr_toks 0 e @ t # ts) = chain_loop TK_OR EOr (parseAnd d) e (t # ts))"

lemma printsD:
  assumes "prints e"
  shows "d + nesting 2 e < MAX_DEPTH \<Longrightarrow> parseCmp d (expr_toks 2 e @ ts) = Inr (e, ts)"
    "d + nesting 1 e < MAX_DEPTH \<Longrightarrow> parse_chain TK_AND EAnd (parseCmp d) (expr_toks 1 e @ ts) = chain_loop TK_AND EAnd (parseCmp d) e ts"
    "d + nesting 0 e < MAX_DEPTH \<Longrightarrow> t_type t \<noteq> TK_AND \<Longrightarrow> parse_chain TK_OR EOr (parseAnd d) (expr_toks 0 e @ t # ts) = chain_loop TK_OR EOr (parseAnd d) e (t # ts)"
    "d + nesting 1 e < MAX_DEPTH \<Longrightarrow> t_type t \<noteq> TK_AND \<Longrightarrow> parseAnd d (expr_toks 1 e @ t # ts) = Inr (e, t # ts)"
    "d + nesting 0 e < MAX_DEPTH \<Longrightarrow> t_type t \<noteq> TK_AND \<Longrightarrow> t_type t \<noteq> TK_OR \<Longrightarrow> parseExpr d (expr_toks 0 e @ t # ts) = Inr (e, t # ts)"
  using assms by (simp_all add: prints_def parseExpr_def) (simp_all add: parseAnd_def chain_loop_stop)

lemma parseCmp_paren:
  assumes "d + 1 < MAX_DEPTH" "parseExpr (d + 1) (us @ mk_tok TK_RPAREN '')'' # ts) = Inr (e, mk_tok TK_RPAREN '')'' # ts)"
  shows "parseCmp d (parens True us @ ts) = Inr (e, ts)"
  using assms by (simp add: parseCmp_unfold [of d] parens_def)

lemma prints_ECmp:
  assumes "val_ok v"
  shows "prints (ECmp c op v)"
proof -
  obtain t r where t: "col_toks c = t # r" "t_type t = TK_IDENT" using col_toks_head by blast
  have a: "parseCmp d (expr_toks l (ECmp c op v) @ ts) = Inr (ECmp c op v, ts)" if "d < MAX_DEPTH" for d l ts
    using that parse_comparison_print [of v c op ts] assms t by (simp add: parseCmp_unfold [of d])
  have "parse_chain TK_AND EAnd (parseCmp d) (expr_toks 0 (ECmp c op v) @ ts) = chain_loop TK_AND EAnd (parseCmp d) (ECmp c op v) ts"
    if "d < MAX_DEPTH" for d ts using a [OF that, of 0] by (simp add: parse_chain_def)
  then have "parseAnd d (expr_toks 0 (ECmp c op v) @ t # ts) = Inr (ECmp c op v, t # ts)"
    if "d < MAX_DEPTH" "t_type t \<noteq> TK_AND" for d t ts using that by (simp add: parseAnd_def chain_loop_stop)
  then show ?thesis using a by (simp add: prints_def parse_chain_def)
qed

lemma prints_EAnd:
  assumes pa: "prints a" and pb: "prints b"
  shows "prints (EAnd a b)"
proof -
  let ?e = "EAnd a b"
  have 1: "parse_chain TK_AND EAnd (parseCmp d) (expr_toks 1 ?e @ ts) = chain_loop TK_AND EAnd (parseCmp d) ?e ts"
    if "d + nesting 1 ?e < MAX_DEPTH" for d ts
  proof -
    have "chain_loop TK_AND EAnd (parseCmp d) a (mk_tok TK_AND ''AND'' # expr_toks 2 b @ ts)
        = chain_loop TK_AND EAnd (parseCmp d) ?e ts"
      by (rule chain_loop_go) (use printsD(1) [OF pb, of d ts] that in simp_all)
    then show ?thesis
      using that printsD(2) [OF pa, of d "mk_tok TK_AND ''AND'' # expr_toks 2 b @ ts"] by (simp add: parens_def)
  qed
  have A: "parseAnd d (expr_toks 1 ?e @ t # ts) = Inr (?e, t # ts)"
    if "d + nesting 1 ?e < MAX_DEPTH" "t_type t \<noteq> TK_AND" for d t ts
    using 1 [OF that(1)] that(2) by (simp add: parseAnd_def chain_loop_stop)
  have 0: "parse_chain TK_OR EOr (parseAnd d) (expr_toks 0 ?e @ t # ts) = chain_loop TK_OR EOr (parseAnd d) ?e (t # ts)"
    if "d + nesting 0 ?e < MAX_DEPTH" "t_type t \<noteq> TK_AND" for d t ts
    using A [of d t ts] that by (simp add: parse_chain_def parens_def)
  have 2: "parseCmp d (expr_toks 2 ?e @ ts) = Inr (?e, ts)" if "d + nesting 2 ?e < MAX_DEPTH" for d ts
  proof -
    have "parseExpr (d + 1) (expr_toks 0 ?e @ mk_tok TK_RPAREN '')'' # ts) = Inr (?e, mk_tok TK_RPAREN '')'' # ts)"
      using 0 [of "d + 1" "mk_tok TK_RPAREN '')''" ts] that by (simp add: parseExpr_def chain_loop_stop)
    then show ?thesis using parseCmp_paren [of d "expr_toks 0 ?e" ts ?e] that by (simp add: parens_def)
  qed
  show ?thesis unfolding prints_def using 0 1 2 by blast
qed

lemma prints_EOr:
  assumes pa: "prints a" and pb: "prints b"
  shows "prints (EOr a b)"
proof -
  let ?e = "EOr a b"
  have 0: "parse_chain TK_OR EOr (parseAnd d) (expr_toks 0 ?e @ t # ts) = chain_loop TK_OR EOr (parseAnd d) ?e (t # ts)"
    if "d + nesting 0 ?e < MAX_DEPTH" "t_type t \<noteq> TK_AND" for d t ts
  proof -
    have "chain_loop TK_OR EOr (parseAnd d) a (mk_tok TK_OR ''OR'' # expr_toks 1 b @ t # ts)
        = chain_loop TK_OR EOr (parseAnd d) ?e (t # ts)"
      by (rule chain_loop_go) (use printsD(4) [OF pb, of d t ts] that in simp_all)
    then show ?thesis
      using that printsD(3) [OF pa, of d "mk_tok TK_OR ''OR''" "expr_toks 1 b @ t # ts"] by (simp add: parens_def)
  qed
  have 2: "parseCmp d (expr_toks l ?e @ ts) = Inr (?e, ts)" if "d + nesting 2 ?e < MAX_DEPTH" "l > 0" for d l ts
  proof -
    have "parseExpr (d + 1) (expr_toks 0 ?e @ mk_tok TK_RPAREN '')'' # ts) = Inr (?e, mk_tok TK_RPAREN '')'' # ts)"
      using 0 [of "d + 1" "mk_tok TK_RPAREN '')''" ts] that by (simp add: parseExpr_def chain_loop_stop)
    then show ?thesis using parseCmp_paren [of d "expr_toks 0 ?e" ts ?e] that by (simp add: parens_def)
  qed
  have 1: "parse_chain TK_AND EAnd (parseCmp d) (expr_toks 1 ?e @ ts) = chain_loop TK_AND EAnd (parseCmp d) ?e ts"
    if "d + nesting 1 ?e < MAX_DEPTH" for d ts
    using 2 [of d 1 ts] that by (simp add: parse_chain_def)
  show ?thesis unfolding prints_def using 0 1 2 [of _ 2] by simp
qed

lemma prints_all: "list_all val_ok (expr_vals e) \<Longrightarrow> prints e"
  by (induction e) (simp_all add: prints_ECmp prints_EAnd prints_EOr)

lemma sep_list_print:
  assumes "xs \<noteq> []" "t_type t \<noteq> TK_COMMA" "t_type t \<noteq> TK_DOT"
    and "\<And>x u us. x \<in> set xs \<Longrightarrow> t_type u \<noteq> TK_DOT \<Longrightarrow> p (f x @ u # us) = Inr (x, u # us)"
  shows "sep_list p (sep_toks f xs @ t # ts) = Inr (xs, t # ts)"
  using assms(1,4)
proof (induction f xs rule: sep_toks.induct)
  case (2 f x)
  then show ?case using assms(2,3) by (simp add: sep_list.simps)
next
  case (3 f x y ys)
  have "sep_list p (sep_toks f (y # ys) @ t # ts) = Inr (y # ys, t # ts)" using 3 by simp
  then show ?case using "3.prems"(2) [of x "mk_tok TK_COMMA '',''" "sep_toks f (y # ys) @ t # ts"]
    by (subst sep_list.simps) simp
qed simp

lemma parse_where_print:
  assumes "where_ok w" "t_type t \<notin> {TK_AND, TK_OR, TK_WHERE}"
  shows "parse_where (where_toks w @ t # ts) = Inr (w, t # ts)"
  using assms printsD(5) [OF prints_all, of _ 0 t ts]
  by (auto simp: parse_where_def where_toks_def where_ok_def split: option.splits)

lemma where_toks_head: "\<exists>u us. where_toks w @ t # ts = u # us \<and> (t_type u = TK_WHERE \<or> u = t)"
  by (cases w) (auto simp: where_toks_def)

lemma parse_join_print:
  assumes "t_type t \<notin> {TK_DOT, TK_JOIN}"
  shows "parse_join (join_toks j @ t # ts) = Inr (j, t # ts)"
  using assms parseColRef_print [of t _ ts] parseColRef_print [of "mk_tok TK_EQ ''=''"]
  by (cases j) (auto simp: parse_join_def join_toks_def)

lemma join_toks_head: "\<exists>u us. join_toks j @ t # ts = u # us \<and> (t_type u = TK_JOIN \<or> u = t)"
  by (cases j) (auto simp: join_toks_def)

lemma sep_toks_head: "xs \<noteq> [] \<Longrightarrow> \<exists>t r. sep_toks col_toks xs @ us = t # r \<and> t_type t = TK_IDENT"
  using col_toks_head [of "hd xs"] by (cases "(col_toks, xs)" rule: sep_toks.cases) auto

lemma parse_select_list_print:
  assumes "stmt_wf (StSelect s)" "t_type t = TK_FROM"
  shows "parse_select_list (items_toks s @ t # ts) = Inr ((star s, count_star s, sel_cols s), t # ts)"
proof -
  consider "star s" | "\<not> star s" "count_star s" | "\<not> star s" "\<not> count_star s" by blast
  then show ?thesis
  proof cases
    case 3
    then have ne: "sel_cols s \<noteq> []" using assms by simp
    obtain u us where u: "sep_toks col_toks (sel_cols s) @ t # ts = u # us" "t_type u = TK_IDENT"
      using sep_toks_head [OF ne] by blast
    have "sep_list parseColRef (sep_toks col_toks (sel_cols s) @ t # ts) = Inr (sel_cols s, t # ts)"
      using assms(2) by (intro sep_list_print ne parseColRef_print) simp_all
    then show ?thesis using 3 u by (simp add: parse_select_list_def items_toks_def)
  qed (use assms in \<open>simp_all add: parse_select_list_def items_toks_def\<close>)
qed

abbreviation end_tok :: Token where "end_tok \<equiv> mk_tok TK_END []"
abbreviation semi_tok :: Token where "semi_tok \<equiv> mk_tok TK_SEMI '';''"

lemma parse_column_print: "parse_column (column_toks c @ ts) = Inr (c, ts)"
  by (cases c; cases "ctyp c") (simp_all add: parse_column_def column_toks_def)

lemma parse_print:
  assumes "stmt_wf s"
  shows "parse (stmt_toks s @ [semi_tok, end_tok]) = Inr s"
  using assms
proof (cases s)
  case (StCreate t cols)
  have "sep_list parse_column (sep_toks column_toks cols @ mk_tok TK_RPAREN '')'' # ts) = Inr (cols, mk_tok TK_RPAREN '')'' # ts)" for ts
    using assms StCreate by (intro sep_list_print parse_column_print) simp_all
  then show ?thesis by (simp add: StCreate parse_def parseStatement_def parseCreate_def)
next
  case (StInsert t vals)
  have "sep_list parseLiteral (sep_toks (\<lambda>v. [lit_tok v]) vals @ mk_tok TK_RPAREN '')'' # ts) = Inr (vals, mk_tok TK_RPAREN '')'' # ts)" for ts
    using assms StInsert by (intro sep_list_print) (simp_all add: parseLiteral_print list_all_iff)
  then show ?thesis by (simp add: StInsert parse_def parseStatement_def parseInsert_def)
next
  case (StSelect q)
  have w: "parse_where (where_toks (sel_where q) @ [semi_tok, end_tok]) = Inr (sel_where q, [semi_tok, end_tok])"
    using assms StSelect by (intro parse_where_print) simp_all
  obtain u us where u: "where_toks (sel_where q) @ [semi_tok, end_tok] = u # us" "t_type u = TK_WHERE \<or> u = semi_tok"
    using where_toks_head by metis
  have j: "parse_join (join_toks (sel_join q) @ where_toks (sel_where q) @ [semi_tok, end_tok])
      = Inr (sel_join q, where_toks (sel_where q) @ [semi_tok, end_tok])"
    unfolding u(1) using u(2) by (intro parse_join_print) auto
  show ?thesis using parse_select_list_print [of q "mk_tok TK_FROM ''FROM''"] assms w j
    by (simp add: StSelect parse_def parseStatement_def parseSelect_def)
next
  case (StDelete t w)
  have w: "parse_where (where_toks w @ [semi_tok, end_tok]) = Inr (w, [semi_tok, end_tok])"
    using assms StDelete by (intro parse_where_print) simp_all
  then show ?thesis by (simp add: StDelete parse_def parseStatement_def parseDelete_def)
qed (simp_all add: parse_def parseStatement_def)

section \<open>Properties\<close>

text \<open>The SQL text of a statement, and the statements that have one.\<close>

definition sql_text :: "statement \<Rightarrow> string" where
  "sql_text s = toks_src (stmt_toks s @ [semi_tok])"

definition printable :: "statement \<Rightarrow> bool" where
  "printable s \<longleftrightarrow> stmt_wf s \<and> list_all lexable (stmt_toks s)"

lemma parse_sql_print: "printable s \<Longrightarrow> parse_sql (sql_text s) = Inr s"
proof -
  assume p: "printable s"
  have "lexable semi_tok" by (simp add: lexable_def symbols_def)
  then have "tokenize (sql_text s) = Inr (stmt_toks s @ [semi_tok, end_tok])"
    using p tokenize_print [of "stmt_toks s @ [semi_tok]"] by (simp add: sql_text_def printable_def)
  then show ?thesis using parse_print p by (simp add: parse_sql_def printable_def)
qed

text \<open>
  C9. Round trip from text to syntax tree: for every statement of the grammar whose identifiers,
  numbers and strings can be written in SQL, lexing and parsing its text gives the statement
  back. The text has parentheses only where \<open>OR\<close> < \<open>AND\<close> < comparison and left associativity
  demand them, so it also states the precedence the parser implements.
\<close>

theorem sql_roundtrip:
  assumes "printable s"
  shows "parse_sql (sql_text s) = Inr s"
  using assms by (rule parse_sql_print)

definition sample_select :: statement where
  "sample_select = StSelect \<lparr>star = False, count_star = False, sel_cols = [''u.name'', ''total''], sel_table = ''u'',
     sel_join = Some \<lparr>j_table = ''o'', left_col = ''u.id'', right_col = ''o.uid''\<rparr>,
     sel_where = Some (EAnd (ECmp ''id'' OP_GE (makeInt (-7)))
       (EOr (ECmp ''name'' OP_EQ (makeText ''x;y'')) (ECmp ''total'' OP_NE (makeInt 0))))\<rparr>"

lemma sample_select_printable: "printable sample_select"
  by (code_simp)

theorem sql_roundtrip_witness:
  "parse_sql (sql_text sample_select) = Inr sample_select"
  by (rule sql_roundtrip [OF sample_select_printable])

text \<open>
  C18. No input makes lexer or parser access memory outside its buffers: whatever the text, the
  result is a statement or one of the exceptions the REPL catches. In particular the cursor
  never moves past the final \<open>END\<close> token, and every loop consumes a token in each round.
\<close>

theorem parse_sql_no_fault: "parse_sql src \<noteq> Inl MemFault"
  using tokenize_no_fault [of src] parse_no_fault tokenize_ends
  by (auto simp: parse_sql_def bindE_Inl_iff)

text \<open>Each level rejects its text when the parentheses go too deep, whatever follows.\<close>

definition rejects :: "expr \<Rightarrow> bool" where
  "rejects e \<longleftrightarrow> (\<forall>d ts. MAX_DEPTH \<le> d + nesting 2 e \<longrightarrow> parseCmp d (expr_toks 2 e @ ts) = Inl too_deep)
     \<and> (\<forall>d ts. MAX_DEPTH \<le> d + nesting 1 e \<longrightarrow> parse_chain TK_AND EAnd (parseCmp d) (expr_toks 1 e @ ts) = Inl too_deep)
     \<and> (\<forall>d ts. MAX_DEPTH \<le> d + nesting 0 e \<longrightarrow> parse_chain TK_OR EOr (parseAnd d) (expr_toks 0 e @ ts) = Inl too_deep)"

lemma parseCmp_too_deep: "MAX_DEPTH \<le> d \<Longrightarrow> parseCmp d ts = Inl too_deep"
  by (simp add: parseCmp.simps [of d])

lemma parseCmp_paren_rejects:
  assumes "parse_chain TK_OR EOr (parseAnd (d + 1)) (us @ mk_tok TK_RPAREN '')'' # ts) = Inl too_deep"
  shows "parseCmp d (parens True us @ ts) = Inl too_deep"
  using assms by (simp add: parseCmp_unfold [of d] parens_def parseExpr_def)

lemma chain_loop_rejects: "t_type t = k \<Longrightarrow> p r = Inl e' \<Longrightarrow> chain_loop k mk p e (t # r) = Inl e'"
  by (subst chain_loop.simps) simp

lemma rejects_EAnd:
  assumes ra: "rejects a" and rb: "rejects b" and pa: "prints a"
  shows "rejects (EAnd a b)"
proof -
  let ?e = "EAnd a b"
  have 1: "parse_chain TK_AND EAnd (parseCmp d) (expr_toks 1 ?e @ ts) = Inl too_deep"
    if "MAX_DEPTH \<le> d + nesting 1 ?e" for d ts
  proof (cases "MAX_DEPTH \<le> d + nesting 1 a")
    case True
    then show ?thesis using ra by (simp add: rejects_def parens_def)
  next
    case False
    have "parseCmp d (expr_toks 2 b @ ts) = Inl too_deep" using rb that False by (simp add: rejects_def)
    then show ?thesis
      using False printsD(2) [OF pa, of d "mk_tok TK_AND ''AND'' # expr_toks 2 b @ ts"] by (simp add: parens_def chain_loop_rejects)
  qed
  have 0: "parse_chain TK_OR EOr (parseAnd d) (expr_toks 0 ?e @ ts) = Inl too_deep" if "MAX_DEPTH \<le> d + nesting 0 ?e" for d ts
    using 1 [of d ts] that by (simp add: parse_chain_def [of TK_OR] parseAnd_def parens_def)
  have 2: "parseCmp d (expr_toks 2 ?e @ ts) = Inl too_deep" if "MAX_DEPTH \<le> d + nesting 2 ?e" for d ts
    using parseCmp_paren_rejects [of d "expr_toks 0 ?e" ts] 0 [of "d + 1"] that by (simp add: parens_def)
  show ?thesis unfolding rejects_def using 0 1 2 by blast
qed

lemma rejects_EOr:
  assumes ra: "rejects a" and rb: "rejects b" and pa: "prints a"
  shows "rejects (EOr a b)"
proof -
  let ?e = "EOr a b"
  have 0: "parse_chain TK_OR EOr (parseAnd d) (expr_toks 0 ?e @ ts) = Inl too_deep" if "MAX_DEPTH \<le> d + nesting 0 ?e" for d ts
  proof (cases "MAX_DEPTH \<le> d + nesting 0 a")
    case True
    then show ?thesis using ra by (simp add: rejects_def parens_def)
  next
    case False
    have "parseAnd d (expr_toks 1 b @ ts) = Inl too_deep" using rb that False by (simp add: rejects_def parseAnd_def)
    then show ?thesis
      using False printsD(3) [OF pa, of d "mk_tok TK_OR ''OR''" "expr_toks 1 b @ ts"] by (simp add: parens_def chain_loop_rejects)
  qed
  have 2: "parseCmp d (expr_toks l ?e @ ts) = Inl too_deep" if "MAX_DEPTH \<le> d + nesting l ?e" "l > 0" for d l ts
    using parseCmp_paren_rejects [of d "expr_toks 0 ?e" ts] 0 [of "d + 1"] that by (simp add: parens_def)
  have 1: "parse_chain TK_AND EAnd (parseCmp d) (expr_toks 1 ?e @ ts) = Inl too_deep" if "MAX_DEPTH \<le> d + nesting 1 ?e" for d ts
    using 2 [of d 1 ts] that by (simp add: parse_chain_def)
  show ?thesis unfolding rejects_def using 0 1 2 [of _ 2] by simp
qed

lemma rejects_all: "list_all val_ok (expr_vals e) \<Longrightarrow> rejects e"
proof (induction e)
  case (ECmp c op v)
  then show ?case by (simp add: rejects_def parse_chain_def parseAnd_def parseCmp_too_deep)
qed (simp_all add: rejects_EAnd rejects_EOr prints_all)

lemma nested_parens:
  assumes e: "list_all val_ok (expr_vals e)" and t: "t_type t \<noteq> TK_AND" "t_type t \<noteq> TK_OR"
  shows "parseExpr d (replicate n (mk_tok TK_LPAREN ''('') @ expr_toks 0 e @ replicate n (mk_tok TK_RPAREN '')'') @ t # ts) =
    (if d + n + nesting 0 e < MAX_DEPTH then Inr (e, t # ts) else Inl too_deep)"
  using t
proof (induction n arbitrary: d t ts)
  case 0
  show ?case using printsD(5) [OF prints_all [OF e], of d t ts] rejects_all [OF e] 0
    by (simp add: rejects_def parseExpr_def)
next
  case (Suc n)
  show ?case
  proof (cases "MAX_DEPTH \<le> d")
    case True
    then show ?thesis by (simp add: parseExpr_def parseAnd_def parse_chain_def parseCmp_too_deep)
  next
    case False
    have "parseExpr (d + 1) (replicate n (mk_tok TK_LPAREN ''('') @ expr_toks 0 e
        @ replicate n (mk_tok TK_RPAREN '')'') @ mk_tok TK_RPAREN '')'' # t # ts)
      = (if d + 1 + n + nesting 0 e < MAX_DEPTH then Inr (e, mk_tok TK_RPAREN '')'' # t # ts) else Inl too_deep)"
      using Suc.IH [of "mk_tok TK_RPAREN '')''" "d + 1" "t # ts"] by simp
    then have "parseCmp d (replicate (Suc n) (mk_tok TK_LPAREN ''('') @ expr_toks 0 e
        @ replicate (Suc n) (mk_tok TK_RPAREN '')'') @ t # ts)
      = (if d + Suc n + nesting 0 e < MAX_DEPTH then Inr (e, t # ts) else Inl too_deep)"
      using False by (simp add: parseCmp_unfold [of d] replicate_app_Cons_same)
    then show ?thesis using Suc.prems by (simp add: parseExpr_def parseAnd_def parse_chain_def chain_loop_stop)
  qed
qed

text \<open>
  C19. The depth guard is exact: any expression in \<open>n\<close> further pairs of parentheses, printed
  with only the parentheses it needs (\<open>nesting\<close> of them deep) and literals that a token can
  carry, is parsed if \<open>n\<close> and its own nesting are together below 500, and rejected with the nesting
  error otherwise.
\<close>

theorem nesting_limit_exact:
  assumes "list_all val_ok (expr_vals e)"
  shows "parseExpr 0 (replicate n (mk_tok TK_LPAREN ''('') @ expr_toks 0 e
      @ replicate n (mk_tok TK_RPAREN '')'') @ [end_tok]) =
    (if n + nesting 0 e < 500 then Inr (e, [end_tok]) else Inl too_deep)"
  using nested_parens [OF assms, of end_tok 0 n "[]"] by (simp add: MAX_DEPTH_def)

definition sample_nested :: expr where
  "sample_nested = EAnd (ECmp ''a'' OP_EQ (makeInt 1)) (EOr (ECmp ''b'' OP_LT (makeInt 2)) (ECmp ''c'' OP_GT (makeText ''x'')))"

theorem nesting_limit_exact_witness:
  "parseExpr 0 (replicate 498 (mk_tok TK_LPAREN ''('') @ expr_toks 0 sample_nested
      @ replicate 498 (mk_tok TK_RPAREN '')'') @ [end_tok]) = Inr (sample_nested, [end_tok])
    \<and> parseExpr 0 (replicate 499 (mk_tok TK_LPAREN ''('') @ expr_toks 0 sample_nested
      @ replicate 499 (mk_tok TK_RPAREN '')'') @ [end_tok]) = Inl too_deep"
proof -
  have v: "list_all val_ok (expr_vals sample_nested)" and n: "nesting 0 sample_nested = 1" by (simp_all add: sample_nested_def)
  have "498 + nesting 0 sample_nested < 500 \<longleftrightarrow> True" "499 + nesting 0 sample_nested < 500 \<longleftrightarrow> False" using n by simp_all
  then show ?thesis by (simp only: nesting_limit_exact [OF v] if_True if_False simp_thms)
qed

end
