(* ===== verification/Optimizer.thy ===== *)
theory Optimizer
  imports Complex_Main Parser Database
begin

text \<open>
  \<open>query/optimizer.cpp\<close>: selectivity estimates, the choice between a sequential scan and a
  primary-key lookup, and the choice of the inner relation of a join. The lines printed to
  \<open>stderr\<close> are left out. A \<open>double\<close> is a \<^typ>\<open>real\<close>; the only comparison that decides anything,
  \<open>1 + log2(n + 1) < n\<close>, has both sides equal at \<open>n = 3\<close>, where the logarithm is an exact power,
  and far apart elsewhere, so rounding does not change its outcome.
\<close>

text \<open>The tail of a reference behind its first dot.\<close>

definition unqualified :: "string \<Rightarrow> string" where
  "unqualified col = (if dot \<in> set col then tl (dropWhile (\<lambda>c. c \<noteq> dot) col) else col)"

fun findPkEquality :: "expr \<Rightarrow> string \<Rightarrow> int option" where
  "findPkEquality (ECmp col op v) pk =
     (if op = OP_EQ \<and> v_type v = T_INT \<and> unqualified col = pk then Some (v_i v) else None)"
| "findPkEquality (EAnd a b) pk = (case findPkEquality a pk of Some k \<Rightarrow> Some k | None \<Rightarrow> findPkEquality b pk)"
| "findPkEquality (EOr a b) pk = None"

text \<open>\<open>t->index->size()\<close> and \<open>t->schema.column(0).name\<close>.\<close>

definition table_size :: "table \<Rightarrow> nat" where
  "table_size t = bcount (tindex t)"

definition pk_name :: "table \<Rightarrow> db_error + string" where
  "pk_name t = (case tschema t of [] \<Rightarrow> Inl MemFault | c # _ \<Rightarrow> Inr (cname c))"

fun expr_selectivity :: "string \<Rightarrow> nat \<Rightarrow> expr \<Rightarrow> real" where
  "expr_selectivity pk n (ECmp col op v) =
     (if op = OP_EQ then (if unqualified col = pk then 1 / real n else 0.1)
      else if op = OP_NE then 0.9 else 0.33)"
| "expr_selectivity pk n (EAnd a b) = expr_selectivity pk n a * expr_selectivity pk n b"
| "expr_selectivity pk n (EOr a b) =
     (let x = expr_selectivity pk n a; y = expr_selectivity pk n b in x + y - x * y)"

definition selectivity :: "expr option \<Rightarrow> table \<Rightarrow> db_error + real" where
  "selectivity e t = (case e of None \<Rightarrow> Inr 1
     | Some e \<Rightarrow> bindE (pk_name t) (\<lambda>pk. Inr (expr_selectivity pk (max (table_size t) 1) e)))"

record scan_choice =
  use_index :: bool
  choice_key :: int

definition est_rows :: "nat \<Rightarrow> real \<Rightarrow> real" where
  "est_rows n sel = max 1 (real n * sel)"

definition idx_cost :: "nat \<Rightarrow> real" where
  "idx_cost n = max 1 (real n * (1 / real (max n 1))) + log 2 (real (max n 1 + 1))"

text \<open>The estimated number of rows goes into the message; it is returned beside the choice.\<close>

definition chooseScan :: "table \<Rightarrow> expr option \<Rightarrow> db_error + (scan_choice \<times> real)" where
  "chooseScan t e =
     bindE (selectivity e t) (\<lambda>sel.
     bindE (pk_name t) (\<lambda>pk.
     let n = table_size t; est = est_rows n sel; seq = (\<lparr>use_index = False, choice_key = 0\<rparr>, est)
     in case Option.bind e (\<lambda>e. findPkEquality e pk) of
          None \<Rightarrow> Inr seq
        | Some key \<Rightarrow> if idx_cost n < real n then Inr (\<lparr>use_index = True, choice_key = key\<rparr>, est) else Inr seq))"

definition rightIsInner :: "table \<Rightarrow> table \<Rightarrow> bool" where
  "rightIsInner left right \<longleftrightarrow> table_size right \<le> table_size left"

section \<open>The cost model\<close>

lemma idx_cost_less: "idx_cost n < real n \<longleftrightarrow> 4 \<le> n"
proof (cases "n < 4")
  case True
  then have "n = 0 \<or> n = 1 \<or> n = 2 \<or> n = 3" by auto
  moreover have "log 2 (4::real) = 2" using log_pow_cancel [of 2 2] by simp
  moreover have "1 \<le> log 2 (3::real)" by (subst le_log_iff) simp_all
  ultimately show ?thesis by (auto simp: idx_cost_def)
next
  case False
  have "n + 1 < 2 ^ (n - 1)" if "4 \<le> n" for n :: nat
  proof -
    have "m + 5 < 8 * 2 ^ m" for m :: nat by (induction m) auto
    then have m: "m + 5 < 2 ^ (3 + m)" for m :: nat by (simp add: power_add)
    from le_Suc_ex [OF that] obtain m where n: "n = 4 + m" ..
    have "4 + m - 1 = 3 + m" "4 + m + 1 = m + 5" by simp_all
    then show ?thesis unfolding n using m [of m] by (simp only:)
  qed
  then have "real (n + 1) < 2 ^ (n - 1)" using False by (metis linorder_not_less of_nat_less_iff of_nat_numeral of_nat_power)
  then have "log 2 (real (n + 1)) < real (n - 1)"
    by (subst log_less_iff) (simp_all add: powr_realpow)
  then show ?thesis using False by (simp add: idx_cost_def)
qed

lemma expr_selectivity_bounds: "0 < n \<Longrightarrow> 0 < expr_selectivity pk n e \<and> expr_selectivity pk n e \<le> 1"
proof (induction e)
  case (EAnd a b)
  then show ?case by (simp add: mult_le_one less_imp_le)
next
  case (EOr a b)
  then have a: "0 < expr_selectivity pk n a" "expr_selectivity pk n a \<le> 1"
    and b: "0 < expr_selectivity pk n b" "expr_selectivity pk n b \<le> 1" by auto
  have "0 \<le> (1 - expr_selectivity pk n a) * (1 - expr_selectivity pk n b)" using a b by simp
  moreover have "expr_selectivity pk n a * expr_selectivity pk n b \<le> expr_selectivity pk n a" using a b by simp
  ultimately show ?case using b by (simp add: Let_def algebra_simps)
qed simp

text \<open>
  The plan choice, exactly: a table of at least four rows whose WHERE clause has an equality of the
  primary key with an integer under \<open>AND\<close>s only is scanned through the index, with the first
  such integer as key, and every other one sequentially. The estimate is between 1 row and the
  size of the table.
\<close>

theorem chooseScan_exact:
  assumes "tschema t = c # cs"
  shows "\<exists>est. 1 \<le> est \<and> est \<le> max 1 (real (table_size t)) \<and>
    chooseScan t e = Inr (case Option.bind e (\<lambda>e. findPkEquality e (cname c)) of
        Some key \<Rightarrow> if 4 \<le> table_size t then \<lparr>use_index = True, choice_key = key\<rparr> else \<lparr>use_index = False, choice_key = 0\<rparr>
      | None \<Rightarrow> \<lparr>use_index = False, choice_key = 0\<rparr>, est)"
proof -
  have b: "est_rows n sel \<le> max 1 (real n) \<and> 1 \<le> est_rows n sel" if "0 < sel" "sel \<le> 1" for n sel
    using that mult_left_le [of sel "real n"] by (auto simp: est_rows_def max_def)
  obtain sel where s: "selectivity e t = Inr sel" "0 < sel" "sel \<le> 1"
    using expr_selectivity_bounds [of "max (table_size t) 1" "cname c"] assms
    by (cases e) (auto simp: selectivity_def pk_name_def)
  show ?thesis using b [OF s(2,3)]
    by (intro exI [of _ "est_rows (table_size t) sel"])
      (auto simp: chooseScan_def s(1) pk_name_def assms Let_def idx_cost_less split: option.split)
qed

definition sample_indexed :: table where
  "sample_indexed = \<lparr>tname = ''t'', tschema = sample_cols, tpages = [], tindex = bp_empty\<lparr>bcount := 4\<rparr>\<rparr>"

theorem chooseScan_exact_witness:
  "\<exists>est. chooseScan sample_indexed (Some (EAnd (ECmp ''x'' OP_NE (makeText ''a'')) (ECmp ''t.id'' OP_EQ (makeInt 7))))
    = Inr (\<lparr>use_index = True, choice_key = 7\<rparr>, est)"
  using chooseScan_exact [of sample_indexed "\<lparr>cname = ''id'', ctyp = T_INT\<rparr>" "[\<lparr>cname = ''x'', ctyp = T_TEXT\<rparr>]"
      "Some (EAnd (ECmp ''x'' OP_NE (makeText ''a'')) (ECmp ''t.id'' OP_EQ (makeInt 7)))"]
  by (auto simp: sample_indexed_def sample_cols_def table_size_def unqualified_def makeInt_def makeText_def)

end
