(* ===== verification/Executor.thy ===== *)
theory Executor
  imports Optimizer
begin

text \<open>
  \<open>query/executor.cpp\<close>: planning and running one statement. A plan is the tree of operators with
  the values their constructors store; \<open>columns\<close> is the field of that name. Only \<open>open\<close> touches
  the buffer pool. What \<open>next\<close> does after \<open>open\<close> is described by \<open>pulls\<close>: the rows that successive
  calls deliver and the exception, if any, that the call after the last of them throws. Every
  consumer in the program (\<open>runSelect\<close>, \<open>runDelete\<close>, \<open>CountStar\<close>, the inner side of a join) calls
  \<open>next\<close> until it returns false, so nothing else of an operator can be observed.
\<close>

section \<open>Columns and expressions\<close>

definition tail_name :: "string \<Rightarrow> string" where
  "tail_name c = (if dot \<in> set c then tl (dropWhile (\<lambda>x. x \<noteq> dot) c) else c)"

definition col_match :: "string \<Rightarrow> string \<Rightarrow> bool" where
  "col_match name c \<longleftrightarrow> (if dot \<in> set name then c = name else tail_name c = name)"

fun resolve_loop :: "string \<Rightarrow> nat \<Rightarrow> nat option \<Rightarrow> string list \<Rightarrow> db_error + nat" where
  "resolve_loop name i found [] = (case found of
     None \<Rightarrow> Inl (RuntimeError (''unknown column: '' @ name)) | Some j \<Rightarrow> Inr j)"
| "resolve_loop name i found (c # cs) =
     (if col_match name c
      then (if found \<noteq> None then Inl (RuntimeError (''ambiguous column: '' @ name))
            else resolve_loop name (Suc i) (Some i) cs)
      else resolve_loop name (Suc i) found cs)"

definition resolveCol :: "string list \<Rightarrow> string \<Rightarrow> db_error + nat" where
  "resolveCol cols name = resolve_loop name 0 None cols"

definition row_at :: "val list \<Rightarrow> nat \<Rightarrow> db_error + val" where
  "row_at row i = (if i < length row then Inr (row ! i) else Inl MemFault)"

fun cmp_holds :: "cmp_op \<Rightarrow> int \<Rightarrow> bool" where
  "cmp_holds OP_EQ c = (c = 0)"
| "cmp_holds OP_NE c = (c \<noteq> 0)"
| "cmp_holds OP_LT c = (c < 0)"
| "cmp_holds OP_LE c = (c \<le> 0)"
| "cmp_holds OP_GT c = (c > 0)"
| "cmp_holds OP_GE c = (c \<ge> 0)"

fun evalExpr :: "string list \<Rightarrow> val list \<Rightarrow> expr \<Rightarrow> db_error + bool" where
  "evalExpr cols row (EAnd a b) = bindE (evalExpr cols row a) (\<lambda>x. if x then evalExpr cols row b else Inr False)"
| "evalExpr cols row (EOr a b) = bindE (evalExpr cols row a) (\<lambda>x. if x then Inr True else evalExpr cols row b)"
| "evalExpr cols row (ECmp col op v) =
     bindE (resolveCol cols col) (\<lambda>i.
     bindE (row_at row i) (\<lambda>w.
     bindE (val_compare w v) (\<lambda>c. Inr (cmp_holds op c))))"

definition qualifiedCols :: "table \<Rightarrow> string list" where
  "qualifiedCols t = map (\<lambda>c. tname t @ ''.'' @ cname c) (tschema t)"

section \<open>Operators\<close>

datatype plan =
    SeqScan table
  | IndexScan table int
  | Filter plan expr
  | Project plan "nat list"
  | NestedLoopJoin plan plan nat nat
  | CountStar plan

fun columns :: "plan \<Rightarrow> string list" where
  "columns (SeqScan t) = qualifiedCols t"
| "columns (IndexScan t key) = qualifiedCols t"
| "columns (Filter c e) = columns c"
| "columns (Project c idx) = map (\<lambda>i. columns c ! i) idx"
| "columns (NestedLoopJoin a b p1 p2) = columns a @ columns b"
| "columns (CountStar c) = [''count'']"

text \<open>The constructors that can throw.\<close>

definition mk_project :: "plan \<Rightarrow> string list \<Rightarrow> db_error + plan" where
  "mk_project c names = bindE (mapE (resolveCol (columns c)) names) (\<lambda>idx. Inr (Project c idx))"

definition mk_join :: "plan \<Rightarrow> plan \<Rightarrow> string \<Rightarrow> string \<Rightarrow> db_error + plan" where
  "mk_join a b c1 c2 =
     bindE (resolveCol (columns a @ columns b) c1) (\<lambda>p1.
     bindE (resolveCol (columns a @ columns b) c2) (\<lambda>p2. Inr (NestedLoopJoin a b p1 p2)))"

type_synonym pulls = "val list list \<times> db_error option"

text \<open>An operator that answers each row of its child with some rows of its own.\<close>

fun pull_each :: "(val list \<Rightarrow> pulls) \<Rightarrow> val list list \<Rightarrow> db_error option \<Rightarrow> pulls" where
  "pull_each f [] x = ([], x)"
| "pull_each f (r # rs) x = (case f r of
     (out, Some e) \<Rightarrow> (out, Some e)
   | (out, None) \<Rightarrow> (let (more, y) = pull_each f rs x in (out @ more, y)))"

definition filter_row :: "string list \<Rightarrow> expr \<Rightarrow> val list \<Rightarrow> pulls" where
  "filter_row cols e row = (case evalExpr cols row e of
     Inl err \<Rightarrow> ([], Some err) | Inr b \<Rightarrow> (if b then [row] else [], None))"

definition project_row :: "nat list \<Rightarrow> val list \<Rightarrow> pulls" where
  "project_row idx row = (case mapE (row_at row) idx of
     Inl err \<Rightarrow> ([], Some err) | Inr out \<Rightarrow> ([out], None))"

text \<open>One outer row against one inner row, and against the materialised inner relation.\<close>

definition join_pair :: "nat \<Rightarrow> nat \<Rightarrow> val list \<Rightarrow> val list \<Rightarrow> pulls" where
  "join_pair p1 p2 outer inner =
     (let combined = outer @ inner
      in case bindE (row_at combined p1) (\<lambda>v. bindE (row_at combined p2) (\<lambda>w. val_compare v w)) of
           Inl err \<Rightarrow> ([], Some err) | Inr c \<Rightarrow> (if c = 0 then [combined] else [], None))"

definition join_row :: "nat \<Rightarrow> nat \<Rightarrow> val list list \<Rightarrow> val list \<Rightarrow> pulls" where
  "join_row p1 p2 inner_rows outer = pull_each (join_pair p1 p2 outer) inner_rows None"

text \<open>\<open>while (op->next(row)) rows.push_back(row)\<close>.\<close>

definition drain :: "pulls \<Rightarrow> db_error + val list list" where
  "drain p = (case snd p of None \<Rightarrow> Inr (fst p) | Some e \<Rightarrow> Inl e)"

text \<open>The callback of the index scan, on the entries in range. A leaf chain without end is excluded by the tree's invariant.\<close>

fun fetch_entries :: "schema \<Rightarrow> (int \<times> rowid) list \<Rightarrow> (pool, val list list) stm" where
  "fetch_entries cols [] = retS []"
| "fetch_entries cols ((k, rid) # es) =
     bindS (heap_get rid) (\<lambda>b.
     bindS (liftS (case b of None \<Rightarrow> Inr [] | Some bytes \<Rightarrow> bindE (deserialize cols bytes) (\<lambda>row. Inr [row]))) (\<lambda>out.
     bindS (fetch_entries cols es) (\<lambda>more. retS (out @ more))))"

definition index_entries :: "table \<Rightarrow> int \<Rightarrow> db_error + (int \<times> rowid) list" where
  "index_entries t key = (case bp_rangeScan key key (tindex t) of None \<Rightarrow> Inl MemFault | Some r \<Rightarrow> r)"

primrec open_plan :: "plan \<Rightarrow> (pool, pulls) stm" where
  "open_plan (SeqScan t) =
     bindS (heap_visit (\<lambda>(rid, b). deserialize (tschema t) b) (tpages t)) (\<lambda>rows. retS (rows, None))"
| "open_plan (IndexScan t key) =
     bindS (liftS (index_entries t key)) (\<lambda>es.
     bindS (fetch_entries (tschema t) es) (\<lambda>rows. retS (rows, None)))"
| "open_plan (Filter c e) =
     bindS (open_plan c) (\<lambda>(rows, x). retS (pull_each (filter_row (columns c) e) rows x))"
| "open_plan (Project c idx) =
     bindS (open_plan c) (\<lambda>(rows, x). retS (pull_each (project_row idx) rows x))"
| "open_plan (NestedLoopJoin a b p1 p2) =
     bindS (open_plan a) (\<lambda>(rows, x).
     bindS (open_plan b) (\<lambda>inner.
     bindS (liftS (drain inner)) (\<lambda>inner_rows.
       retS (pull_each (join_row p1 p2 inner_rows) rows x))))"
| "open_plan (CountStar c) =
     bindS (open_plan c) (\<lambda>p. retS (case drain p of
       Inl e \<Rightarrow> ([], Some e) | Inr rows \<Rightarrow> ([[makeInt (int (length rows))]], None)))"

definition run_plan :: "plan \<Rightarrow> (pool, val list list) stm" where
  "run_plan op = bindS (open_plan op) (\<lambda>p. liftS (drain p))"

definition buildScan :: "table \<Rightarrow> expr option \<Rightarrow> db_error + plan" where
  "buildScan t e = bindE (chooseScan t e) (\<lambda>(ch, est).
     Inr (if use_index ch then IndexScan t (choice_key ch) else SeqScan t))"

definition add_filter :: "expr option \<Rightarrow> plan \<Rightarrow> plan" where
  "add_filter e op = (case e of None \<Rightarrow> op | Some e \<Rightarrow> Filter op e)"

section \<open>Statements\<close>

record exec_result =
  is_query :: bool
  res_columns :: "string list"
  res_rows :: "val list list"
  message :: string

definition msg_result :: "string \<Rightarrow> exec_result" where
  "msg_result m = \<lparr>is_query = False, res_columns = [], res_rows = [], message = m\<rparr>"

text \<open>\<open>getTable\<close> and the exception for a missing table.\<close>

definition find_table :: "string \<Rightarrow> (db, table) stm" where
  "find_table n = (\<lambda>d. case get_table n (dtables d) of
     None \<Rightarrow> (Inl (RuntimeError (''no such table: '' @ n)), d) | Some t \<Rightarrow> (Inr t, d))"

definition select_source :: "select \<Rightarrow> table \<Rightarrow> (db, plan) stm" where
  "select_source s t = (case sel_join s of
     None \<Rightarrow> liftS (bindE (buildScan t (sel_where s)) (\<lambda>op. Inr (add_filter (sel_where s) op)))
   | Some j \<Rightarrow> bindS (find_table (j_table j)) (\<lambda>r.
       let right_inner = rightIsInner t r;
           outer = SeqScan (if right_inner then t else r);
           inner = SeqScan (if right_inner then r else t)
       in liftS (bindE (mk_join outer inner (left_col j) (right_col j)) (\<lambda>op.
            Inr (add_filter (sel_where s) op)))))"

definition select_output :: "select \<Rightarrow> plan \<Rightarrow> db_error + plan" where
  "select_output s op = (if count_star s then Inr (CountStar op)
     else if \<not> star s then mk_project op (sel_cols s) else Inr op)"

definition runSelect :: "select \<Rightarrow> (db, exec_result) stm" where
  "runSelect s =
     bindS (find_table (sel_table s)) (\<lambda>t.
     bindS (select_source s t) (\<lambda>src.
     bindS (liftS (select_output s src)) (\<lambda>op.
     bindS (on_pool (run_plan op)) (\<lambda>rows.
       retS \<lparr>is_query = True, res_columns = columns op, res_rows = rows, message = []\<rparr>))))"

definition runCreate :: "string \<Rightarrow> schema \<Rightarrow> (db, exec_result) stm" where
  "runCreate n cols =
     (if cols = [] \<or> ctyp (hd cols) \<noteq> T_INT
      then failS (RuntimeError ''column 0 must be an INT primary key'')
      else bindS (createTable n cols) (\<lambda>_. retS (msg_result (''CREATE TABLE '' @ n))))"

fun type_check :: "schema \<Rightarrow> val list \<Rightarrow> db_error + unit" where
  "type_check (c # cs) (v # vs) = (if v_type v \<noteq> ctyp c
     then Inl (RuntimeError (''type mismatch for column '' @ cname c)) else type_check cs vs)"
| "type_check _ _ = Inr ()"

definition runInsert :: "string \<Rightarrow> val list \<Rightarrow> (db, exec_result) stm" where
  "runInsert n values =
     bindS (find_table n) (\<lambda>t.
     if length values \<noteq> length (tschema t) then failS (RuntimeError ''INSERT column count mismatch'')
     else bindS (liftS (type_check (tschema t) values)) (\<lambda>_.
          bindS (insertRow n values) (\<lambda>_. retS (msg_result ''INSERT 1''))))"

text \<open>The keys of the matching rows, then their deletion one by one.\<close>

definition row_key :: "val list \<Rightarrow> db_error + int" where
  "row_key row = bindE (row_at row 0) (\<lambda>v. Inr (v_i v))"

fun delete_keys :: "string \<Rightarrow> int list \<Rightarrow> (db, nat) stm" where
  "delete_keys n [] = retS 0"
| "delete_keys n (k # ks) =
     bindS (deleteByKey n k) (\<lambda>hit. bindS (delete_keys n ks) (\<lambda>m. retS (if hit then Suc m else m)))"

definition runDelete :: "string \<Rightarrow> expr option \<Rightarrow> (db, exec_result) stm" where
  "runDelete n e =
     bindS (find_table n) (\<lambda>t.
     bindS (liftS (buildScan t e)) (\<lambda>scan.
     bindS (on_pool (run_plan (add_filter e scan))) (\<lambda>rows.
     bindS (liftS (mapE row_key rows)) (\<lambda>keys.
     bindS (delete_keys n keys) (\<lambda>deleted.
       retS (msg_result (''DELETE '' @ dec_of_nat deleted)))))))"

fun execute :: "statement \<Rightarrow> (db, exec_result) stm" where
  "execute (StCreate n cols) = runCreate n cols"
| "execute (StInsert n vals) = runInsert n vals"
| "execute (StSelect s) = runSelect s"
| "execute (StDelete n e) = runDelete n e"
| "execute StBegin = bindS db_begin (\<lambda>_. retS (msg_result ''BEGIN''))"
| "execute StCommit = bindS db_commit (\<lambda>_. retS (msg_result ''COMMIT''))"
| "execute StRollback = bindS db_rollback (\<lambda>_. retS (msg_result ''ROLLBACK''))"

end
