(* ===== verification/Query.thy ===== *)
theory Query
  imports Executor
begin

text \<open>
  What the executor's plans compute, stated on the abstract database: rows are those the contents
  of a table hold, whichever way they are scanned. The properties say that SELECT, joins and
  DELETE mean what their relational reading says, with WHERE read as \<open>where_holds\<close> over the order of
  values, that the index scan and the sequential scan are interchangeable, and that a WHERE
  clause that passes a static check never throws.
\<close>

section \<open>Resolving columns\<close>

lemma resolve_some: "resolve_loop name k (Some f) cols = Inr j \<Longrightarrow> j = f \<and> (\<forall>c \<in> set cols. \<not> col_match name c)"
  by (induction cols arbitrary: k) (auto split: if_splits)

lemma resolve_none:
  "resolve_loop name k None cols = Inr j \<Longrightarrow> k \<le> j \<and> j < k + length cols \<and> col_match name (cols ! (j - k))
    \<and> (\<forall>m < length cols. col_match name (cols ! m) \<longrightarrow> m = j - k)"
proof (induction cols arbitrary: k)
  case (Cons c cs)
  show ?case
  proof (cases "col_match name c")
    case True
    then have "j = k" "\<forall>c \<in> set cs. \<not> col_match name c" using Cons.prems resolve_some by (auto dest!: resolve_some)
    then have "\<not> col_match name (cs ! (m - 1))" if "0 < m" "m < Suc (length cs)" for m
      using that nth_mem [of "m - 1" cs] by auto
    then show ?thesis using True \<open>j = k\<close> by (auto simp: nth_Cons')
  next
    case False
    then have r: "resolve_loop name (Suc k) None cs = Inr j" using Cons.prems by simp
    have "m = j - k" if m: "m < length (c # cs)" "col_match name ((c # cs) ! m)" for m
    proof -
      obtain m' where m': "m = Suc m'" using m(2) False by (cases m) auto
      then have "m' = j - Suc k" using Cons.IH [OF r] m by simp
      then show ?thesis using conjunct1 [OF Cons.IH [OF r]] m' by simp
    qed
    then show ?thesis using Cons.IH [OF r] by (auto simp: nth_Cons' Suc_le_eq)
  qed
qed simp

lemma resolveCol_Inr:
  assumes "resolveCol cols name = Inr j"
  shows "j < length cols" "col_match name (cols ! j)" "\<And>m. m < length cols \<Longrightarrow> col_match name (cols ! m) \<Longrightarrow> m = j"
  using resolve_none [of name 0 cols j] assms by (auto simp: resolveCol_def)

lemma tail_qualified: "dot \<notin> set n \<Longrightarrow> tail_name (n @ dot # c) = c"
  by (induction n) (auto simp: tail_name_def)

lemma unqualified_tail: "unqualified = tail_name"
  by (rule ext) (simp add: unqualified_def tail_name_def)

text \<open>The primary-key test the optimizer looks for speaks of column 0.\<close>

lemma resolve_pk:
  assumes t: "tschema t = c # cs" "dot \<notin> set (tname t)"
    and r: "resolveCol (qualifiedCols t) col = Inr i" and u: "unqualified col = cname c"
  shows "i = 0"
proof -
  have q: "qualifiedCols t ! m = tname t @ dot # cname (tschema t ! m)" if "m < length (tschema t)" for m
    using that by (simp add: qualifiedCols_def)
  have i: "i < length (tschema t)" using resolveCol_Inr(1) [OF r] by (simp add: qualifiedCols_def)
  have m: "col_match col (qualifiedCols t ! i)" by (rule resolveCol_Inr(2) [OF r])
  have "col_match col (qualifiedCols t ! 0)"
  proof (cases "dot \<in> set col")
    case True
    then have "col = tname t @ dot # cname (tschema t ! i)" using m q [OF i] by (simp add: col_match_def)
    moreover have "cname (tschema t ! i) = cname c" using u calculation tail_qualified [OF t(2)] by (simp add: unqualified_tail)
    ultimately show ?thesis using True t q [of 0] by (simp add: col_match_def)
  next
    case False
    then show ?thesis using u t q [of 0] tail_qualified [OF t(2)]
      by (simp add: col_match_def) (simp add: unqualified_def)
  qed
  then show ?thesis using resolveCol_Inr(3) [OF r, of 0] t by (simp add: qualifiedCols_def)
qed

section \<open>What an expression means\<close>

text \<open>
  The meaning of WHERE, apart from the code that evaluates it: the comparison operators are the
  relations of the linear order of values, AND and OR the logical operations.
\<close>

definition col_index :: "string list \<Rightarrow> string \<Rightarrow> nat" where
  "col_index cols n = (case resolveCol cols n of Inr i \<Rightarrow> i | Inl _ \<Rightarrow> 0)"

fun cmp_rel :: "cmp_op \<Rightarrow> sqlval \<Rightarrow> sqlval \<Rightarrow> bool" where
  "cmp_rel OP_EQ x y = (x = y)"
| "cmp_rel OP_NE x y = (x \<noteq> y)"
| "cmp_rel OP_LT x y = (x < y)"
| "cmp_rel OP_LE x y = (x \<le> y)"
| "cmp_rel OP_GT x y = (x > y)"
| "cmp_rel OP_GE x y = (x \<ge> y)"

fun where_holds :: "string list \<Rightarrow> val list \<Rightarrow> expr \<Rightarrow> bool" where
  "where_holds cols row (EAnd a b) = (where_holds cols row a \<and> where_holds cols row b)"
| "where_holds cols row (EOr a b) = (where_holds cols row a \<or> where_holds cols row b)"
| "where_holds cols row (ECmp col op v) = cmp_rel op (sem (row ! col_index cols col)) (sem v)"

lemma cmp_holds_rel: "cmp_holds op (if x < y then -1 else if y < x then 1 else 0) = cmp_rel op x y"
  by (cases op) auto

lemma sem_Num: "sem v = Num i \<Longrightarrow> v_i v = i"
  by (simp add: sem_def split: if_splits)

lemma findPkEquality_sound:
  assumes "tschema t = c # cs" "dot \<notin> set (tname t)" "primaryKey row = Inr pk"
  shows "findPkEquality e (cname c) = Some key \<Longrightarrow> where_holds (qualifiedCols t) row e \<Longrightarrow> pk = key"
proof (induction e)
  case (ECmp col op v)
  then have f: "op = OP_EQ" "v_type v = T_INT" "unqualified col = cname c" "key = v_i v" by (auto split: if_splits)
  have "col_index (qualifiedCols t) col = 0"
    using resolve_pk [OF assms(1,2) _ f(3)] by (auto simp: col_index_def split: sum.split)
  then have "sem (row ! 0) = Num key" using ECmp.prems(2) f by (simp add: sem_def)
  then show ?case using assms(3) sem_Num [of "row ! 0"] by (cases row) (auto simp: primaryKey_def)
next
  case (EAnd a b)
  then show ?case by (auto split: option.splits)
qed simp

section \<open>Checked expressions\<close>

text \<open>Every comparison names exactly one column, of the literal's type.\<close>

fun expr_typed :: "string list \<Rightarrow> ctype list \<Rightarrow> expr \<Rightarrow> bool" where
  "expr_typed cols ts (ECmp col op v) = (case resolveCol cols col of
     Inl _ \<Rightarrow> False | Inr i \<Rightarrow> i < length ts \<and> ts ! i = v_type v)"
| "expr_typed cols ts (EAnd a b) = (expr_typed cols ts a \<and> expr_typed cols ts b)"
| "expr_typed cols ts (EOr a b) = (expr_typed cols ts a \<and> expr_typed cols ts b)"

lemma evalExpr_typed: "expr_typed cols (map v_type row) e \<Longrightarrow> evalExpr cols row e = Inr (where_holds cols row e)"
proof (induction e)
  case (ECmp col op v)
  then obtain i where "resolveCol cols col = Inr i" "i < length row" "v_type (row ! i) = v_type v"
    by (auto split: sum.splits)
  then show ?case by (simp add: row_at_def val_compare_sem col_index_def cmp_holds_rel)
qed auto

lemma deser_from_types: "deser_from cols off b = Inr row \<Longrightarrow> map v_type row = map ctyp cols"
proof (induction cols off b arbitrary: row rule: deser_from.induct)
  case (2 c cs off b)
  then show ?case by (cases "ctyp c") (auto simp: bindE_Inr_iff makeInt_def makeText_def)
qed simp

lemma deserialize_types: "deserialize cols b = Inr row \<Longrightarrow> map v_type row = map ctyp cols"
  by (simp add: deserialize_def deser_from_types)

section \<open>Reading a table\<close>

text \<open>The rows of a table in scan order.\<close>

definition row_of :: "schema \<Rightarrow> string \<Rightarrow> val list" where
  "row_of cols b = (case deserialize cols b of Inr r \<Rightarrow> r | Inl _ \<Rightarrow> [])"

definition t_vals :: "pool \<Rightarrow> table \<Rightarrow> val list list" where
  "t_vals bp t = map (\<lambda>(rid, b). row_of (tschema t) b) (t_rows bp t)"

lemma t_rows_distinct: "t_ok bp t \<Longrightarrow> distinct (map fst (t_rows bp t))"
  unfolding t_rows_def by (rule distinct_heap_rows) (use t_okD(1) in \<open>auto simp: heap_ok_def\<close>)

lemma t_row_key:
  assumes ok: "t_ok bp t" and m: "(rid, b) \<in> set (t_rows bp t)"
  obtains pk where "deserialize (tschema t) b = Inr (row_of (tschema t) b)"
    "primaryKey (row_of (tschema t) b) = Inr pk" "map_of (bp_entries (tindex t)) pk = Some rid" "t_map bp t pk = Some b"
proof -
  have r: "map_of (t_rows bp t) rid = Some b" using m t_rows_distinct [OF ok] by simp
  obtain pk where pk: "key_of (tschema t) b = Inr pk" using t_okD(4) [OF ok r] by auto
  then obtain row where row: "deserialize (tschema t) b = Inr row" "primaryKey row = Inr pk"
    by (auto simp: key_of_def bindE_Inr_iff)
  have "map_of (bp_entries (tindex t)) pk = Some rid" using t_okD(3) [OF ok, of pk rid] r pk by blast
  then show thesis using that row r by (simp add: row_of_def t_map_Some [OF ok])
qed

lemma t_map_row:
  assumes ok: "t_ok bp t" and m: "t_map bp t pk = Some b"
  obtains rid where "(rid, b) \<in> set (t_rows bp t)" "map_of (bp_entries (tindex t)) pk = Some rid"
    "primaryKey (row_of (tschema t) b) = Inr pk"
proof -
  obtain rid where r: "map_of (bp_entries (tindex t)) pk = Some rid" "map_of (t_rows bp t) rid = Some b"
    using m t_map_Some [OF ok] by auto
  then have "key_of (tschema t) b = Inr pk" using t_okD(3) [OF ok, of pk rid] by auto
  then have "primaryKey (row_of (tschema t) b) = Inr pk" by (auto simp: key_of_def bindE_Inr_iff row_of_def)
  then show thesis using that [of rid] r map_of_SomeD by fastforce
qed

lemma set_t_vals:
  assumes ok: "t_ok bp t"
  shows "set (t_vals bp t) = {row. \<exists>pk b. t_map bp t pk = Some b \<and> row = row_of (tschema t) b}"
proof (intro equalityI subsetI)
  fix row
  assume "row \<in> set (t_vals bp t)"
  then obtain rid b where b: "(rid, b) \<in> set (t_rows bp t)" "row = row_of (tschema t) b"
    by (auto simp: t_vals_def)
  from t_row_key [OF ok b(1)] obtain pk where "t_map bp t pk = Some b" .
  then show "row \<in> {row. \<exists>pk b. t_map bp t pk = Some b \<and> row = row_of (tschema t) b}" using b(2) by blast
next
  fix row
  assume "row \<in> {row. \<exists>pk b. t_map bp t pk = Some b \<and> row = row_of (tschema t) b}"
  then obtain pk b where b: "t_map bp t pk = Some b" "row = row_of (tschema t) b" by blast
  from t_map_row [OF ok b(1)] obtain rid where "(rid, b) \<in> set (t_rows bp t)" .
  then show "row \<in> set (t_vals bp t)" using b(2) by (force simp: t_vals_def)
qed

lemma distinct_t_vals:
  assumes ok: "t_ok bp t"
  shows "distinct (t_vals bp t)"
proof -
  have "inj_on (\<lambda>(rid, b). row_of (tschema t) b) (set (t_rows bp t))"
  proof (rule inj_onI, clarify)
    fix r b r' b'
    assume m: "(r, b) \<in> set (t_rows bp t)" "(r', b') \<in> set (t_rows bp t)" and e: "row_of (tschema t) b = row_of (tschema t) b'"
    obtain k where k: "primaryKey (row_of (tschema t) b) = Inr k" "map_of (bp_entries (tindex t)) k = Some r" "t_map bp t k = Some b"
      by (rule t_row_key [OF ok m(1)]) (rule that)
    obtain k' where k': "primaryKey (row_of (tschema t) b') = Inr k'" "map_of (bp_entries (tindex t)) k' = Some r'" "t_map bp t k' = Some b'"
      by (rule t_row_key [OF ok m(2)]) (rule that)
    show "r = r' \<and> b = b'" using k k' e by simp
  qed
  moreover have "distinct (t_rows bp t)" using t_rows_distinct [OF ok] by (simp add: distinct_map)
  ultimately show ?thesis by (simp add: t_vals_def distinct_map)
qed

lemma t_vals_types: "t_ok bp t \<Longrightarrow> row \<in> set (t_vals bp t) \<Longrightarrow> map v_type row = map ctyp (tschema t)"
  by (auto simp: t_vals_def elim!: t_row_key intro: deserialize_types)

text \<open>Both scans read without changing what the pool holds.\<close>

definition reads :: "pool \<Rightarrow> pool \<Rightarrow> bool" where
  "reads bp bq \<longleftrightarrow> same_outside {} bp bq \<and> cache_inv bq"

lemma reads_refl: "cache_inv bp \<Longrightarrow> reads bp bp"
  by (simp add: reads_def same_outside_def)

lemma reads_trans: "reads a b \<Longrightarrow> reads b c \<Longrightarrow> reads a c"
  by (simp add: reads_def same_outside_def)

lemma reads_table: "t_ok bp t \<Longrightarrow> reads bp bq \<Longrightarrow> t_ok bq t \<and> t_map bq t = t_map bp t"
  using t_ok_frame by (auto simp: reads_def)

lemma reads_vals: "t_ok bp t \<Longrightarrow> reads bp bq \<Longrightarrow> t_vals bq t = t_vals bp t"
  using same_outside_rows [of "{}" bp bq "tpages t"] t_okD(1)
  by (auto simp: t_vals_def t_rows_def reads_def heap_ok_def)

lemma seq_open:
  assumes ok: "t_ok bp t"
  shows "\<exists>bq. open_plan (SeqScan t) bp = (Inr (t_vals bp t, None), bq) \<and> reads bp bq"
proof -
  obtain bq where bq: "heap_scan (tpages t) bp = (Inr (t_rows bp t), bq)" "heap_ok bq (tpages t)" "same_view bp bq"
    using heap_scan_ok [OF t_okD(1) [OF ok]] unfolding t_rows_def by metis
  have "mapE (\<lambda>(rid, b). deserialize (tschema t) b) (t_rows bp t) = Inr (t_vals bp t)"
    unfolding t_vals_def by (rule mapE_Inr) (auto elim: t_row_key [OF ok])
  from heap_visit_scan [OF bq(1) this] bq(2,3) same_view_outside show ?thesis
    by (auto simp: bindS_def reads_def heap_ok_def)
qed

lemma key_entries:
  fixes k :: int
  assumes "distinct (map fst es)"
  shows "filter (\<lambda>e. k \<le> fst e \<and> fst e \<le> k) es = (case map_of es k of None \<Rightarrow> [] | Some v \<Rightarrow> [(k, v)])"
  using assms
proof (induction es)
  case (Cons e es)
  obtain a v where e: "e = (a, v)" by (cases e)
  have "map_of es k = None" if "a = k" using Cons.prems that by (simp add: e map_of_eq_None_iff)
  then show ?case using Cons by (auto simp: e)
qed (simp)

lemma index_open:
  fixes key :: int
  assumes ok: "t_ok bp t"
  shows "\<exists>bq. open_plan (IndexScan t key) bp
    = (Inr ((case t_map bp t key of None \<Rightarrow> [] | Some b \<Rightarrow> [row_of (tschema t) b]), None), bq) \<and> reads bp bq"
proof -
  have inv: "bp_inv (tindex t)" by (rule t_okD(2) [OF ok])
  have "distinct (map fst (bp_entries (tindex t)))" using pk_index.sorted [OF inv] by (simp add: strict_sorted_iff)
  then have es: "index_entries t key = Inr (case map_of (bp_entries (tindex t)) key of None \<Rightarrow> [] | Some v \<Rightarrow> [(key, v)])"
    using pk_index.range_ok [OF inv, of key key] by (simp add: index_entries_def key_entries)
  have ci: "cache_inv bp" using t_okD(1) [OF ok] by (simp add: heap_ok_def)
  show ?thesis
  proof (cases "map_of (bp_entries (tindex t)) key")
    case None
    then have "t_map bp t key = None" by (simp add: t_map_def)
    then show ?thesis using None es reads_refl [OF ci] by (simp add: bindS_def)
  next
    case (Some rid)
    obtain b where b: "map_of (t_rows bp t) rid = Some b" "key_of (tschema t) b = Inr key"
      using t_okD(3) [OF ok, of key rid] Some by auto
    then have tm: "t_map bp t key = Some b" using Some by (simp add: t_map_def)
    have d: "deserialize (tschema t) b = Inr (row_of (tschema t) b)"
      using b(2) by (auto simp: key_of_def bindE_Inr_iff row_of_def)
    obtain bq where bq: "heap_get rid bp = (Inr (Some b), bq)" "heap_ok bq (tpages t)" "same_outside {} bp bq"
      using heap.look_ok [OF t_okD(1) [OF ok]] b(1) unfolding t_rows_def by blast
    then show ?thesis using Some es tm d by (auto simp: bindS_def reads_def heap_ok_def)
  qed
qed

section \<open>Filters and plans\<close>

definition matches :: "string list \<Rightarrow> expr option \<Rightarrow> val list \<Rightarrow> bool" where
  "matches cols w row \<longleftrightarrow> (case w of None \<Rightarrow> True | Some e \<Rightarrow> where_holds cols row e)"

definition where_typed :: "string list \<Rightarrow> ctype list \<Rightarrow> expr option \<Rightarrow> bool" where
  "where_typed cols ts w \<longleftrightarrow> (case w of None \<Rightarrow> True | Some e \<Rightarrow> expr_typed cols ts e)"

lemma pull_each_map: "(\<And>r. r \<in> set rs \<Longrightarrow> f r = (g r, None)) \<Longrightarrow> pull_each f rs x = (concat (map g rs), x)"
  by (induction rs) auto

lemma concat_filter: "concat (map (\<lambda>r. if P r then [r] else []) rs) = filter P rs"
  by (induction rs) auto

lemma filter_pulls:
  assumes "\<And>row. row \<in> set rows \<Longrightarrow> expr_typed cols (map v_type row) e"
  shows "pull_each (filter_row cols e) rows x = (filter (matches cols (Some e)) rows, x)"
proof -
  have "filter_row cols e row = (if matches cols (Some e) row then [row] else [], None)" if "row \<in> set rows" for row
    using evalExpr_typed [OF assms [OF that]] by (auto simp: filter_row_def matches_def)
  then have "pull_each (filter_row cols e) rows x = (concat (map (\<lambda>r. if matches cols (Some e) r then [r] else []) rows), x)"
    by (rule pull_each_map)
  then show ?thesis by (simp add: concat_filter)
qed

lemma add_filter_open:
  assumes o: "open_plan op bp = (Inr (rows, None), bq)"
    and ty: "\<And>row. row \<in> set rows \<Longrightarrow> where_typed (columns op) (map v_type row) w"
  shows "open_plan (add_filter w op) bp = (Inr (filter (matches (columns op) w) rows, None), bq)"
proof (cases w)
  case None
  then show ?thesis using o by (simp add: add_filter_def matches_def)
next
  case (Some e)
  then have "pull_each (filter_row (columns op) e) rows None = (filter (matches (columns op) w) rows, None)"
    using filter_pulls [of rows "columns op" e None] ty by (simp add: where_typed_def)
  then show ?thesis using o Some by (simp add: add_filter_def bindS_def)
qed

lemma filter_one:
  assumes "distinct xs" "x \<in> set xs" "\<And>y. y \<in> set xs \<Longrightarrow> P y \<Longrightarrow> y = x"
  shows "filter P xs = (if P x then [x] else [])"
  using assms
proof (induction xs)
  case (Cons a xs)
  show ?case
  proof (cases "a = x")
    case True
    have "\<not> P y" if "y \<in> set xs" for y
      using Cons.prems(1) Cons.prems(3) [of y] that True by auto
    then have "filter P xs = []" by (simp add: filter_empty_conv)
    then show ?thesis using True by simp
  next
    case False
    then have "\<not> P a" using Cons.prems(3) [of a] by auto
    moreover have "filter P xs = (if P x then [x] else [])" using Cons False by simp
    ultimately show ?thesis by simp
  qed
qed simp

text \<open>A filter that pins the key down sees the same rows through the index.\<close>

lemma index_filter:
  assumes ok: "t_ok bp t" and P: "\<And>row pk. primaryKey row = Inr pk \<Longrightarrow> P row \<Longrightarrow> pk = key"
  shows "filter P (t_vals bp t) = filter P (case t_map bp t key of None \<Rightarrow> [] | Some b \<Rightarrow> [row_of (tschema t) b])"
proof (cases "t_map bp t key")
  case None
  have "\<not> P row" if "row \<in> set (t_vals bp t)" for row
  proof
    assume p: "P row"
    obtain pk b where b: "t_map bp t pk = Some b" "row = row_of (tschema t) b" using \<open>row \<in> set (t_vals bp t)\<close> set_t_vals [OF ok] by auto
    obtain rid where k: "primaryKey (row_of (tschema t) b) = Inr pk" by (rule t_map_row [OF ok b(1)])
    have "pk = key" using P [OF k] p b(2) by simp
    then show False using b(1) None by simp
  qed
  then show ?thesis using None by (simp add: filter_empty_conv)
next
  case (Some b)
  have m: "row_of (tschema t) b \<in> set (t_vals bp t)" using Some set_t_vals [OF ok] by auto
  have "row = row_of (tschema t) b" if r: "row \<in> set (t_vals bp t)" "P row" for row
  proof -
    obtain pk b' where b': "t_map bp t pk = Some b'" "row = row_of (tschema t) b'" using r(1) set_t_vals [OF ok] by auto
    obtain rid where k: "primaryKey (row_of (tschema t) b') = Inr pk" by (rule t_map_row [OF ok b'(1)])
    have "pk = key" using P [OF k] r(2) b'(2) by simp
    then show ?thesis using b' Some by simp
  qed
  from filter_one [OF distinct_t_vals [OF ok] m this] Some show ?thesis by simp
qed

lemma scan_filter_open:
  assumes ok: "t_ok bp t" and nd: "dot \<notin> set (tname t)"
    and ty: "where_typed (qualifiedCols t) (map ctyp (tschema t)) w"
    and sc: "buildScan t w = Inr op"
  shows "\<exists>bq. open_plan (add_filter w op) bp = (Inr (filter (matches (qualifiedCols t) w) (t_vals bp t), None), bq) \<and> reads bp bq"
proof -
  have types: "where_typed (qualifiedCols t) (map v_type row) w" if "row \<in> set (t_vals bp t)" for row
    using t_vals_types [OF ok that] ty by simp
  obtain c cs where c: "tschema t = c # cs"
    using sc by (cases "tschema t") (auto simp: buildScan_def chooseScan_def pk_name_def bindE_def split: sum.splits)
  obtain ch est where ch: "chooseScan t w = Inr (ch, est)" using sc by (auto simp: buildScan_def bindE_Inr_iff)
  then have op: "op = (if use_index ch then IndexScan t (choice_key ch) else SeqScan t)" using sc by (simp add: buildScan_def)
  show ?thesis
  proof (cases "use_index ch")
    case False
    obtain bq where bq: "open_plan (SeqScan t) bp = (Inr (t_vals bp t, None), bq)" "reads bp bq" using seq_open [OF ok] by blast
    have "open_plan (add_filter w (SeqScan t)) bp = (Inr (filter (matches (columns (SeqScan t)) w) (t_vals bp t), None), bq)"
      by (rule add_filter_open [OF bq(1)]) (use types in simp)
    then show ?thesis using False op bq(2) by simp
  next
    case True
    obtain e where e: "w = Some e" "findPkEquality e (cname c) = Some (choice_key ch)"
      using ch True c by (auto simp: chooseScan_def pk_name_def bindE_Inr_iff Let_def bind_eq_Some_conv split: option.splits if_splits)
    let ?key = "choice_key ch"
    let ?rows = "case t_map bp t ?key of None \<Rightarrow> [] | Some b \<Rightarrow> [row_of (tschema t) b]"
    have "set ?rows \<subseteq> set (t_vals bp t)" by (cases "t_map bp t ?key") (auto simp: set_t_vals [OF ok])
    then have "\<And>row. row \<in> set ?rows \<Longrightarrow> where_typed (columns op) (map v_type row) w" using types op True by auto
    moreover obtain bq where o: "open_plan op bp = (Inr (?rows, None), bq)" "reads bp bq"
      using index_open [OF ok, of ?key] op True by auto
    ultimately have "open_plan (add_filter w op) bp = (Inr (filter (matches (columns op) w) ?rows, None), bq)"
      by (intro add_filter_open [OF o(1)]) blast
    then have bq: "open_plan (add_filter w op) bp = (Inr (filter (matches (qualifiedCols t) w) ?rows, None), bq)"
      using op True by simp
    have "pk = ?key" if "primaryKey row = Inr pk" "matches (qualifiedCols t) w row" for row pk
      using findPkEquality_sound [OF c nd that(1) e(2)] that(2) by (simp add: matches_def e(1))
    from index_filter [OF ok this] bq o(2) show ?thesis by auto
  qed
qed

section \<open>SELECT\<close>

text \<open>The select list applied to the rows of its source.\<close>

definition output_ok :: "string list \<Rightarrow> select \<Rightarrow> bool" where
  "output_ok cols s \<longleftrightarrow> star s \<or> count_star s \<or> list_all (\<lambda>n. resolveCol cols n = Inr (col_index cols n)) (sel_cols s)"

definition output_rows :: "string list \<Rightarrow> select \<Rightarrow> val list list \<Rightarrow> val list list" where
  "output_rows cols s rows =
     (if count_star s then [[makeInt (int (length rows))]]
      else if star s then rows
      else map (\<lambda>row. map (\<lambda>n. row ! col_index cols n) (sel_cols s)) rows)"

definition output_columns :: "string list \<Rightarrow> select \<Rightarrow> string list" where
  "output_columns cols s = (if count_star s then [''count''] else if star s then cols
     else map (\<lambda>n. cols ! col_index cols n) (sel_cols s))"

lemma select_output_run:
  assumes ok: "output_ok (columns src) s" and o: "open_plan src bp = (Inr (rows, None), bq)"
    and len: "\<And>row. row \<in> set rows \<Longrightarrow> length row = length (columns src)"
  obtains op where "select_output s src = Inr op" "columns op = output_columns (columns src) s"
    "run_plan op bp = (Inr (output_rows (columns src) s rows), bq)"
proof -
  consider "count_star s" | "\<not> count_star s" "star s" | "\<not> count_star s" "\<not> star s" by blast
  then show thesis
  proof cases
    case 3
    let ?cols = "columns src" and ?idx = "map (col_index (columns src)) (sel_cols s)"
    have r: "resolveCol ?cols n = Inr (col_index ?cols n)" if "n \<in> set (sel_cols s)" for n
      using ok 3 that by (auto simp: output_ok_def list_all_iff)
    have "mapE (resolveCol ?cols) (sel_cols s) = Inr ?idx" by (rule mapE_Inr) (rule r)
    then have out: "select_output s src = Inr (Project src ?idx)" using 3 by (simp add: select_output_def mk_project_def)
    have "project_row ?idx row = ([map (\<lambda>n. row ! col_index ?cols n) (sel_cols s)], None)" if "row \<in> set rows" for row
    proof -
      have "mapE (row_at row) ?idx = Inr (map ((!) row) ?idx)"
        using resolveCol_Inr(1) [OF r] len [OF that] by (intro mapE_Inr) (auto simp: row_at_def)
      then show ?thesis by (simp add: project_row_def comp_def)
    qed
    then have "pull_each (project_row ?idx) rows None = (concat (map (\<lambda>row. [map (\<lambda>n. row ! col_index ?cols n) (sel_cols s)]) rows), None)"
      by (rule pull_each_map)
    then have "run_plan (Project src ?idx) bp = (Inr (output_rows ?cols s rows), bq)"
      using o 3 by (simp add: run_plan_def bindS_def drain_def output_rows_def)
    then show thesis using that out 3 by (simp add: output_columns_def comp_def)
  qed (use o that [of "CountStar src"] that [of src] in
      \<open>simp_all add: select_output_def run_plan_def bindS_def drain_def output_rows_def output_columns_def\<close>)
qed

lemma db_reads:
  assumes d: "db_ok d" and r: "reads (dpool d) bq"
  shows "db_ok (d\<lparr>dpool := bq\<rparr>)" "db_contents (d\<lparr>dpool := bq\<rparr>) = db_contents d"
    "db_schemas (d\<lparr>dpool := bq\<rparr>) = db_schemas d" "session (d\<lparr>dpool := bq\<rparr>) = session d"
proof -
  have reg: "reg_ok (dpool d) (dtables d)" using d by (simp add: db_ok_def)
  then show "db_ok (d\<lparr>dpool := bq\<rparr>)" using reads_table [OF _ r] r by (auto simp: db_ok_def reg_ok_def reads_def)
  show "db_contents (d\<lparr>dpool := bq\<rparr>) = db_contents d"
  proof (rule ext)
    fix m show "db_contents (d\<lparr>dpool := bq\<rparr>) m = db_contents d m"
      using reads_table [OF _ r] db_table_ok [OF d, of m]
      by (cases "map_of (dtables d) m") (auto simp: db_contents_def contents_def)
  qed
qed (simp_all add: db_schemas_def session_def fun_eq_iff)

text \<open>The rows a table holds, on the abstract database.\<close>

definition stored_rows :: "adb \<Rightarrow> string \<Rightarrow> schema \<Rightarrow> val list set" where
  "stored_rows A n cols = {row. \<exists>pk img. a_get A n pk = Some img \<and> deserialize cols img = Inr row}"

lemma stored_rows_vals:
  assumes d: "db_ok d" and n: "map_of (dtables d) n = Some t"
  shows "stored_rows (db_contents d) n (tschema t) = set (t_vals (dpool d) t)"
proof -
  have ok: "t_ok (dpool d) t" using db_table_ok [OF d n] by simp
  have "deserialize (tschema t) img = Inr (row_of (tschema t) img)" if "t_map (dpool d) t pk = Some img" for pk img
    using t_map_row [OF ok that] t_row_key [OF ok] by metis
  then show ?thesis by (fastforce simp: stored_rows_def set_t_vals [OF ok] a_get_table [OF n])
qed

lemma buildScan_ok: "tschema t \<noteq> [] \<Longrightarrow> \<exists>op. buildScan t w = Inr op \<and> columns op = qualifiedCols t"
  by (cases "tschema t"; cases w) (auto simp: buildScan_def chooseScan_def selectivity_def pk_name_def Let_def split: option.split)

lemma columns_add_filter [simp]: "columns (add_filter w op) = columns op"
  by (cases w) (simp_all add: add_filter_def)

lemma runSelect_single:
  assumes d: "db_ok d" and n: "map_of (dtables d) (sel_table s) = Some t" and j: "sel_join s = None"
    and sch: "tschema t \<noteq> []" "dot \<notin> set (sel_table s)"
    and ty: "where_typed (qualifiedCols t) (map ctyp (tschema t)) (sel_where s)" and out: "output_ok (qualifiedCols t) s"
  obtains bq where "reads (dpool d) bq" "runSelect s d = (Inr \<lparr>is_query = True, res_columns = output_columns (qualifiedCols t) s,
      res_rows = output_rows (qualifiedCols t) s (filter (matches (qualifiedCols t) (sel_where s)) (t_vals (dpool d) t)),
      message = []\<rparr>, d\<lparr>dpool := bq\<rparr>)"
proof -
  have ok: "t_ok (dpool d) t" and tn: "tname t = sel_table s" using db_table_ok [OF d n] by auto
  obtain op where op: "buildScan t (sel_where s) = Inr op" "columns op = qualifiedCols t" using buildScan_ok [OF sch(1)] by blast
  let ?rows = "filter (matches (qualifiedCols t) (sel_where s)) (t_vals (dpool d) t)"
  obtain bq where bq: "open_plan (add_filter (sel_where s) op) (dpool d) = (Inr (?rows, None), bq)" "reads (dpool d) bq"
    using scan_filter_open [OF ok _ ty op(1)] sch(2) tn by auto
  have len: "length row = length (columns (add_filter (sel_where s) op))" if "row \<in> set ?rows" for row
    using t_vals_types [OF ok, of row] that op(2) by (auto simp: qualifiedCols_def dest: map_eq_imp_length_eq)
  have out': "output_ok (columns (add_filter (sel_where s) op)) s" using out op(2) by simp
  obtain q where q: "select_output s (add_filter (sel_where s) op) = Inr q"
      "columns q = output_columns (qualifiedCols t) s" "run_plan q (dpool d) = (Inr (output_rows (qualifiedCols t) s ?rows), bq)"
    using select_output_run [OF out' bq(1) len] op(2) by auto
  have "find_table (sel_table s) d = (Inr t, d)" using n by (simp add: find_table_def get_table_def)
  moreover have "select_source s t d = (Inr (add_filter (sel_where s) op), d)"
    using j op(1) by (simp add: select_source_def)
  ultimately show thesis using that [OF bq(2)] q by (simp add: runSelect_def bindS_def on_pool_def)
qed

section \<open>Joins\<close>

definition joined_cols :: "table \<Rightarrow> table \<Rightarrow> string list" where
  "joined_cols t r = (if rightIsInner t r then qualifiedCols t @ qualifiedCols r else qualifiedCols r @ qualifiedCols t)"

definition joined_types :: "table \<Rightarrow> table \<Rightarrow> ctype list" where
  "joined_types t r = (if rightIsInner t r then map ctyp (tschema t) @ map ctyp (tschema r)
     else map ctyp (tschema r) @ map ctyp (tschema t))"

text \<open>Both join columns resolve, to columns of one type.\<close>

definition join_typed :: "table \<Rightarrow> table \<Rightarrow> join_clause \<Rightarrow> bool" where
  "join_typed t r j \<longleftrightarrow> (case (resolveCol (joined_cols t r) (left_col j), resolveCol (joined_cols t r) (right_col j)) of
     (Inr p1, Inr p2) \<Rightarrow> joined_types t r ! p1 = joined_types t r ! p2 | _ \<Rightarrow> False)"

definition join_equal :: "string list \<Rightarrow> join_clause \<Rightarrow> val list \<Rightarrow> bool" where
  "join_equal cols j row \<longleftrightarrow> sem (row ! col_index cols (left_col j)) = sem (row ! col_index cols (right_col j))"

definition pair_row :: "table \<Rightarrow> table \<Rightarrow> val list \<Rightarrow> val list \<Rightarrow> val list" where
  "pair_row t r x y = (if rightIsInner t r then x @ y else y @ x)"

lemma join_pulls:
  assumes "\<And>u v. u \<in> set os \<Longrightarrow> v \<in> set is \<Longrightarrow> p1 < length (u @ v) \<and> p2 < length (u @ v) \<and> v_type ((u @ v) ! p1) = v_type ((u @ v) ! p2)"
  shows "pull_each (join_row p1 p2 is) os x =
    (filter (\<lambda>row. sem (row ! p1) = sem (row ! p2)) (map (\<lambda>(u, v). u @ v) (List.product os is)), x)"
proof -
  let ?P = "\<lambda>row. sem (row ! p1) = sem (row ! p2)"
  have pair: "join_pair p1 p2 u v = (if ?P (u @ v) then [u @ v] else [], None)" if "u \<in> set os" "v \<in> set is" for u v
    using assms [OF that] by (auto simp: join_pair_def Let_def row_at_def val_compare_sem)
  have "join_row p1 p2 is u = (filter ?P (map (\<lambda>v. u @ v) is), None)" if "u \<in> set os" for u
  proof -
    have "join_row p1 p2 is u = (concat (map (\<lambda>v. if ?P (u @ v) then [u @ v] else []) is), None)"
      unfolding join_row_def by (rule pull_each_map) (rule pair [OF that])
    also have "concat (map (\<lambda>v. if ?P (u @ v) then [u @ v] else []) is) = filter ?P (map (\<lambda>v. u @ v) is)"
      by (induction "is") auto
    finally show ?thesis .
  qed
  then have "pull_each (join_row p1 p2 is) os x = (concat (map (\<lambda>u. filter ?P (map (\<lambda>v. u @ v) is)) os), x)"
    by (rule pull_each_map)
  also have "concat (map (\<lambda>u. filter ?P (map (\<lambda>v. u @ v) is)) os) = filter ?P (map (\<lambda>(u, v). u @ v) (List.product os is))"
    by (induction os) (simp_all add: comp_def)
  finally show ?thesis .
qed

lemma distinct_pairs:
  assumes "distinct us" "distinct vs" "\<And>u u'. u \<in> set us \<Longrightarrow> u' \<in> set us \<Longrightarrow> length u = length u'"
  shows "distinct (map (\<lambda>(u, v). u @ v) (List.product us vs))"
proof -
  have "inj_on (\<lambda>(u, v). u @ v) (set (List.product us vs))"
  proof (rule inj_onI, clarify)
    fix u v u' v'
    assume m: "(u, v) \<in> set (List.product us vs)" "(u', v') \<in> set (List.product us vs)" and e: "u @ v = u' @ v'"
    have "length u = length u'" using m by (intro assms(3)) simp_all
    with e show "u = u' \<and> v = v'" by simp
  qed
  then show ?thesis using assms(1,2) by (simp add: distinct_map distinct_product)
qed

text \<open>The rows of a nested loop join: the pairs of the outer and the inner table with equal keys.\<close>

abbreviation outer_table :: "table \<Rightarrow> table \<Rightarrow> table" where
  "outer_table t r \<equiv> if rightIsInner t r then t else r"

abbreviation inner_table :: "table \<Rightarrow> table \<Rightarrow> table" where
  "inner_table t r \<equiv> if rightIsInner t r then r else t"

definition join_rows :: "pool \<Rightarrow> table \<Rightarrow> table \<Rightarrow> nat \<Rightarrow> nat \<Rightarrow> val list list" where
  "join_rows b t r p1 p2 = filter (\<lambda>row. sem (row ! p1) = sem (row ! p2))
     (map (\<lambda>(u, v). u @ v) (List.product (t_vals b (outer_table t r)) (t_vals b (inner_table t r))))"

lemma joined_outer_inner:
  "joined_cols t r = qualifiedCols (outer_table t r) @ qualifiedCols (inner_table t r)"
  "joined_types t r = map ctyp (tschema (outer_table t r)) @ map ctyp (tschema (inner_table t r))"
  "length (joined_cols t r) = length (joined_types t r)"
  by (simp_all add: joined_cols_def joined_types_def qualifiedCols_def)

lemma join_pair_types:
  assumes "t_ok b t" "t_ok b r" "u \<in> set (t_vals b (outer_table t r))" "v \<in> set (t_vals b (inner_table t r))"
  shows "map v_type (u @ v) = joined_types t r"
  using t_vals_types [OF _ assms(3)] t_vals_types [OF _ assms(4)] assms(1,2) joined_outer_inner(2) by simp

lemma join_rows_types:
  "t_ok b t \<Longrightarrow> t_ok b r \<Longrightarrow> row \<in> set (join_rows b t r p1 p2) \<Longrightarrow> map v_type row = joined_types t r"
  unfolding join_rows_def using join_pair_types by auto

lemma join_open:
  assumes ok: "t_ok b t" "t_ok b r"
    and p: "p1 < length (joined_types t r)" "p2 < length (joined_types t r)" "joined_types t r ! p1 = joined_types t r ! p2"
  obtains b' where "reads b b'"
    "open_plan (NestedLoopJoin (SeqScan (outer_table t r)) (SeqScan (inner_table t r)) p1 p2) b = (Inr (join_rows b t r p1 p2, None), b')"
proof -
  let ?o = "outer_table t r" and ?i = "inner_table t r"
  have oko: "t_ok b ?o" and oki: "t_ok b ?i" using ok by auto
  have pairs: "p1 < length (u @ v) \<and> p2 < length (u @ v) \<and> v_type ((u @ v) ! p1) = v_type ((u @ v) ! p2)"
    if "u \<in> set (t_vals b ?o)" "v \<in> set (t_vals b ?i)" for u v
  proof -
    have l: "length (u @ v) = length (joined_types t r)" using join_pair_types [OF ok that] by (metis length_map)
    then have "v_type ((u @ v) ! q) = joined_types t r ! q" if "q < length (joined_types t r)" for q
      using that join_pair_types [OF ok \<open>u \<in> set (t_vals b ?o)\<close> \<open>v \<in> set (t_vals b ?i)\<close>] by (metis nth_map)
    then show ?thesis using p l by simp
  qed
  obtain b1 where b1: "open_plan (SeqScan ?o) b = (Inr (t_vals b ?o, None), b1)" "reads b b1" using seq_open [OF oko] by blast
  have oki1: "t_ok b1 ?i" using reads_table [OF oki b1(2)] by simp
  obtain b2 where b2: "open_plan (SeqScan ?i) b1 = (Inr (t_vals b ?i, None), b2)" "reads b1 b2"
    using seq_open [OF oki1] reads_vals [OF oki b1(2)] by auto
  have "open_plan (NestedLoopJoin (SeqScan ?o) (SeqScan ?i) p1 p2) b = (Inr (join_rows b t r p1 p2, None), b2)"
    using b1(1) b2(1) join_pulls [OF pairs] by (simp add: bindS_def drain_def join_rows_def)
  then show thesis by (rule that [OF reads_trans [OF b1(2) b2(2)]])
qed

lemma join_rows_distinct:
  assumes "t_ok b t" "t_ok b r"
  shows "distinct (join_rows b t r p1 p2)"
proof -
  have ok: "t_ok b (outer_table t r)" "t_ok b (inner_table t r)" using assms by auto
  have "length u = length (tschema (outer_table t r))" if "u \<in> set (t_vals b (outer_table t r))" for u
    using arg_cong [OF t_vals_types [OF ok(1) that], of length] by simp
  then show ?thesis unfolding join_rows_def
    by (intro distinct_filter distinct_pairs distinct_t_vals [OF ok(1)] distinct_t_vals [OF ok(2)]) simp
qed

lemma join_rows_set:
  assumes p: "resolveCol (joined_cols t r) (left_col j) = Inr p1" "resolveCol (joined_cols t r) (right_col j) = Inr p2"
  shows "set (join_rows b t r p1 p2)
    = {row. \<exists>x \<in> set (t_vals b t). \<exists>y \<in> set (t_vals b r). row = pair_row t r x y \<and> join_equal (joined_cols t r) j row}"
proof (intro set_eqI iffI)
  fix row
  assume "row \<in> set (join_rows b t r p1 p2)"
  then obtain u v where "u \<in> set (t_vals b (outer_table t r))" "v \<in> set (t_vals b (inner_table t r))" "row = u @ v"
    "sem (row ! p1) = sem (row ! p2)" by (auto simp: join_rows_def)
  then show "row \<in> {row. \<exists>x \<in> set (t_vals b t). \<exists>y \<in> set (t_vals b r). row = pair_row t r x y
     \<and> join_equal (joined_cols t r) j row}"
    using p by (cases "rightIsInner t r") (auto simp: join_equal_def col_index_def pair_row_def)
next
  fix row
  assume "row \<in> {row. \<exists>x \<in> set (t_vals b t). \<exists>y \<in> set (t_vals b r). row = pair_row t r x y \<and> join_equal (joined_cols t r) j row}"
  then obtain x y where xy: "x \<in> set (t_vals b t)" "y \<in> set (t_vals b r)" "row = pair_row t r x y"
    "sem (row ! p1) = sem (row ! p2)"
    using p by (auto simp: join_equal_def col_index_def)
  show "row \<in> set (join_rows b t r p1 p2)" using xy by (cases "rightIsInner t r") (force simp: pair_row_def join_rows_def)+
qed

lemma runSelect_join:
  assumes d: "db_ok d" and n: "map_of (dtables d) (sel_table s) = Some t"
    and j: "sel_join s = Some j" "map_of (dtables d) (j_table j) = Some r" "join_typed t r j"
    and ty: "where_typed (joined_cols t r) (joined_types t r) (sel_where s)" and out: "output_ok (joined_cols t r) s"
  obtains bq base where "reads (dpool d) bq" "distinct base"
    "set base = {row. \<exists>x \<in> set (t_vals (dpool d) t). \<exists>y \<in> set (t_vals (dpool d) r). row = pair_row t r x y
       \<and> join_equal (joined_cols t r) j row \<and> matches (joined_cols t r) (sel_where s) row}"
    "runSelect s d = (Inr \<lparr>is_query = True, res_columns = output_columns (joined_cols t r) s,
      res_rows = output_rows (joined_cols t r) s base, message = []\<rparr>, d\<lparr>dpool := bq\<rparr>)"
proof -
  have ok: "t_ok (dpool d) t" "t_ok (dpool d) r" using db_table_ok [OF d n] db_table_ok [OF d j(2)] by auto
  let ?cols = "joined_cols t r"
  obtain p1 p2 where p: "resolveCol ?cols (left_col j) = Inr p1" "resolveCol ?cols (right_col j) = Inr p2"
      "joined_types t r ! p1 = joined_types t r ! p2"
    using j(3) by (auto simp: join_typed_def split: sum.splits)
  have pr: "p1 < length (joined_types t r)" "p2 < length (joined_types t r)"
    using resolveCol_Inr(1) [OF p(1)] resolveCol_Inr(1) [OF p(2)] joined_outer_inner(3) by simp_all
  let ?join = "NestedLoopJoin (SeqScan (outer_table t r)) (SeqScan (inner_table t r)) p1 p2"
  let ?rows = "join_rows (dpool d) t r p1 p2"
  let ?base = "filter (matches ?cols (sel_where s)) ?rows"
  obtain b2 where b2: "reads (dpool d) b2" "open_plan ?join (dpool d) = (Inr (?rows, None), b2)"
    by (rule join_open [OF ok pr p(3)])
  have jc: "columns ?join = ?cols" using joined_outer_inner(1) by simp
  have "open_plan (add_filter (sel_where s) ?join) (dpool d) = (Inr (filter (matches (columns ?join) (sel_where s)) ?rows, None), b2)"
    by (rule add_filter_open [OF b2(2)]) (simp only: join_rows_types [OF ok] jc ty)
  then have fo: "open_plan (add_filter (sel_where s) ?join) (dpool d) = (Inr (?base, None), b2)" by (simp only: jc)
  have out': "output_ok (columns (add_filter (sel_where s) ?join)) s" using out jc by (simp only: columns_add_filter)
  have len: "length row = length (columns (add_filter (sel_where s) ?join))" if "row \<in> set ?base" for row
  proof -
    have "map v_type row = joined_types t r" using that by (intro join_rows_types [OF ok, of _ p1 p2]) simp
    from arg_cong [OF this, of length] show ?thesis using joined_outer_inner(3) jc by simp
  qed
  obtain q where q: "select_output s (add_filter (sel_where s) ?join) = Inr q"
      "columns q = output_columns ?cols s" "run_plan q (dpool d) = (Inr (output_rows ?cols s ?base), b2)"
    by (rule select_output_run [OF out' fo len], assumption) (use jc in simp_all)
  have "find_table (sel_table s) d = (Inr t, d)" "find_table (j_table j) d = (Inr r, d)"
    using n j(2) by (simp_all add: find_table_def get_table_def)
  moreover have "mk_join (SeqScan (outer_table t r)) (SeqScan (inner_table t r)) (left_col j) (right_col j) = Inr ?join"
    using p(1,2) joined_outer_inner(1) by (simp add: mk_join_def)
  ultimately have run: "runSelect s d = (Inr \<lparr>is_query = True, res_columns = output_columns ?cols s,
      res_rows = output_rows ?cols s ?base, message = []\<rparr>, d\<lparr>dpool := b2\<rparr>)"
    using q j(1) by (simp add: runSelect_def select_source_def bindS_def on_pool_def Let_def)
  have "distinct ?base" using join_rows_distinct [OF ok] by simp
  moreover have "set ?base = {row. \<exists>x \<in> set (t_vals (dpool d) t). \<exists>y \<in> set (t_vals (dpool d) r). row = pair_row t r x y
       \<and> join_equal ?cols j row \<and> matches ?cols (sel_where s) row}"
    using join_rows_set [OF p(1,2), of "dpool d"] by auto
  ultimately show thesis using that [OF b2(1)] run by blast
qed

section \<open>Properties\<close>

text \<open>
  C10. SELECT on one table means its relational reading: if the WHERE clause and the select list
  check against the table, the statement returns without an exception, whichever scan the
  optimizer chose; the rows it selects are exactly the stored rows that satisfy the clause, each
  once, to which the star, the count or the column list is applied; and the database is
  unchanged.
\<close>

theorem select_correct:
  assumes "db_ok d" "map_of (dtables d) (sel_table s) = Some t" "sel_join s = None"
    and "tschema t \<noteq> []" "dot \<notin> set (sel_table s)"
    and "where_typed (qualifiedCols t) (map ctyp (tschema t)) (sel_where s)" "output_ok (qualifiedCols t) s"
  shows "\<exists>rows d'. runSelect s d = (Inr \<lparr>is_query = True, res_columns = output_columns (qualifiedCols t) s,
        res_rows = output_rows (qualifiedCols t) s rows, message = []\<rparr>, d')
    \<and> distinct rows \<and> set rows = {row \<in> stored_rows (db_contents d) (sel_table s) (tschema t).
        matches (qualifiedCols t) (sel_where s) row}
    \<and> db_ok d' \<and> db_contents d' = db_contents d \<and> session d' = session d"
proof -
  let ?rows = "filter (matches (qualifiedCols t) (sel_where s)) (t_vals (dpool d) t)"
  obtain bq where bq: "reads (dpool d) bq" "runSelect s d = (Inr \<lparr>is_query = True, res_columns = output_columns (qualifiedCols t) s,
      res_rows = output_rows (qualifiedCols t) s ?rows, message = []\<rparr>, d\<lparr>dpool := bq\<rparr>)"
    by (rule runSelect_single [OF assms]) (rule that)
  have ok: "t_ok (dpool d) t" using db_table_ok [OF assms(1,2)] by simp
  show ?thesis
    using bq db_reads [OF assms(1) bq(1)] distinct_t_vals [OF ok] stored_rows_vals [OF assms(1,2)] by auto
qed

text \<open>
  C13. An inner join returns, each once, exactly the pairs of stored rows whose join columns are
  equal and that satisfy the WHERE clause, without an exception when both check against the
  joined columns. The smaller table is the inner one; the order of the columns follows it.
\<close>

theorem join_correct:
  assumes "db_ok d" "map_of (dtables d) (sel_table s) = Some t"
    and "sel_join s = Some j" "map_of (dtables d) (j_table j) = Some r" "join_typed t r j"
    and "where_typed (joined_cols t r) (joined_types t r) (sel_where s)" "output_ok (joined_cols t r) s"
  shows "\<exists>rows d'. runSelect s d = (Inr \<lparr>is_query = True, res_columns = output_columns (joined_cols t r) s,
        res_rows = output_rows (joined_cols t r) s rows, message = []\<rparr>, d')
    \<and> distinct rows \<and> set rows = {row. \<exists>x \<in> stored_rows (db_contents d) (sel_table s) (tschema t).
        \<exists>y \<in> stored_rows (db_contents d) (j_table j) (tschema r). row = pair_row t r x y
          \<and> join_equal (joined_cols t r) j row \<and> matches (joined_cols t r) (sel_where s) row}
    \<and> db_ok d' \<and> db_contents d' = db_contents d \<and> session d' = session d"
proof -
  obtain bq rows where b: "reads (dpool d) bq" "distinct rows"
    "set rows = {row. \<exists>x \<in> set (t_vals (dpool d) t). \<exists>y \<in> set (t_vals (dpool d) r). row = pair_row t r x y
       \<and> join_equal (joined_cols t r) j row \<and> matches (joined_cols t r) (sel_where s) row}"
    "runSelect s d = (Inr \<lparr>is_query = True, res_columns = output_columns (joined_cols t r) s,
      res_rows = output_rows (joined_cols t r) s rows, message = []\<rparr>, d\<lparr>dpool := bq\<rparr>)"
    by (rule runSelect_join [OF assms]) (rule that)
  show ?thesis unfolding stored_rows_vals [OF assms(1,2)] stored_rows_vals [OF assms(1,4)]
    using b db_reads [OF assms(1) b(1)] by blast
qed

text \<open>
  The optimizer may choose freely: for a WHERE clause that checks against the table and has the
  equality the optimizer looks for, the filtered index scan and the filtered sequential scan
  return the same rows in the same order.
\<close>

theorem index_scan_equals_seq_scan:
  assumes "t_ok bp t" "tschema t = c # cs" "dot \<notin> set (tname t)"
    and "expr_typed (qualifiedCols t) (map ctyp (tschema t)) e" "findPkEquality e (cname c) = Some key"
  shows "\<exists>rows. fst (run_plan (Filter (IndexScan t key) e) bp) = Inr rows
    \<and> fst (run_plan (Filter (SeqScan t) e) bp) = Inr rows"
proof -
  let ?P = "matches (qualifiedCols t) (Some e)"
  let ?one = "case t_map bp t key of None \<Rightarrow> [] | Some b \<Rightarrow> [row_of (tschema t) b]"
  have ty: "expr_typed (qualifiedCols t) (map v_type row) e" if "row \<in> set (t_vals bp t)" for row
    using t_vals_types [OF assms(1) that] assms(4) by simp
  have sub: "set ?one \<subseteq> set (t_vals bp t)" by (cases "t_map bp t key") (auto simp: set_t_vals [OF assms(1)])
  have "pk = key" if "primaryKey row = Inr pk" "?P row" for row pk
    using findPkEquality_sound [OF assms(2,3) that(1) assms(5)] that(2) by (simp add: matches_def)
  note eq = index_filter [OF assms(1) this]
  obtain b1 where b1: "open_plan (SeqScan t) bp = (Inr (t_vals bp t, None), b1)" using seq_open [OF assms(1)] by blast
  obtain b2 where b2: "open_plan (IndexScan t key) bp = (Inr (?one, None), b2)" using index_open [OF assms(1)] by blast
  have f1: "pull_each (filter_row (qualifiedCols t) e) (t_vals bp t) None = (filter ?P (t_vals bp t), None)"
    by (rule filter_pulls) (rule ty)
  have f2: "pull_each (filter_row (qualifiedCols t) e) ?one None = (filter ?P ?one, None)"
    by (rule filter_pulls) (use ty sub in blast)
  have "fst (run_plan (Filter (SeqScan t) e) bp) = Inr (filter ?P (t_vals bp t))"
    using b1 f1 by (simp add: run_plan_def bindS_def drain_def del: open_plan.simps(1))
  moreover have "fst (run_plan (Filter (IndexScan t key) e) bp) = Inr (filter ?P ?one)"
    using b2 f2 by (simp add: run_plan_def bindS_def drain_def del: open_plan.simps(2))
  ultimately show ?thesis using eq by simp
qed

text \<open>
  C17. The meaning of WHERE: an expression whose comparisons each name exactly one column, of the
  literal's type, evaluates without an exception on every row of these types, to what it means:
  its operators are the relations of the order of values, AND and OR the logical operations, and
  short-circuit evaluation makes no difference.
\<close>

theorem where_type_safe:
  assumes "expr_typed cols (map v_type row) e"
  shows "evalExpr cols row e = Inr (where_holds cols row e)"
  by (rule evalExpr_typed [OF assms])

theorem where_type_safe_witness:
  "evalExpr [''t.id'', ''t.x''] [makeInt 4, makeText ''a''] (EOr (ECmp ''id'' OP_LT (makeInt 3)) (ECmp ''t.x'' OP_LE (makeText ''b''))) = Inr True"
proof -
  let ?cols = "[''t.id'', ''t.x'']" and ?e = "EOr (ECmp ''id'' OP_LT (makeInt 3)) (ECmp ''t.x'' OP_LE (makeText ''b''))"
  have r: "resolveCol ?cols ''id'' = Inr 0" "resolveCol ?cols ''t.x'' = Inr 1"
    by (simp_all add: resolveCol_def col_match_def tail_name_def)
  have "where_holds ?cols [makeInt 4, makeText ''a''] ?e"
    by (simp add: col_index_def r sem_def makeInt_def makeText_def less_eq_sqlval_def less_char_def)
  moreover have "expr_typed ?cols (map v_type [makeInt 4, makeText ''a'']) ?e" by (simp add: r makeInt_def makeText_def)
  ultimately show ?thesis using where_type_safe [of ?cols "[makeInt 4, makeText ''a'']" ?e] by simp
qed

section \<open>A database for the witnesses\<close>

text \<open>Two tables with one row each, put there by INSERT.\<close>

definition two_tables :: db where
  "two_tables = (db_start [] None [])\<lparr>dtables :=
     [(''t'', \<lparr>tname = ''t'', tschema = sample_cols, tpages = [], tindex = bp_empty\<rparr>),
      (''u'', \<lparr>tname = ''u'', tschema = sample_cols, tpages = [], tindex = bp_empty\<rparr>)]\<rparr>"

abbreviation row_a :: "val list" where "row_a \<equiv> [makeInt 7, makeText ''a'']"

lemma two_tables_ok:
  "db_ok two_tables" "cur_txn two_tables = INVALID_TXN" "next_txn two_tables = 1"
  "db_schemas two_tables ''t'' = Some sample_cols" "db_schemas two_tables ''u'' = Some sample_cols"
  "db_contents two_tables ''t'' = Some (\<lambda>_. None)" "db_contents two_tables ''u'' = Some (\<lambda>_. None)"
proof -
  have h: "heap_ok (pool_new (disk_open []) FRAMES) []"
    by (rule heap_ok_new) (simp_all add: disk_open_def disk_inv_def FRAMES_def)
  then show "db_ok two_tables"
    by (auto simp: two_tables_def db_start_def db_ok_def reg_ok_def t_ok_def t_rows_def heap_rows_def bp_inv_empty heap_ok_def)
qed (simp_all add: two_tables_def db_start_def db_schemas_def db_contents_def contents_def t_map_def fun_eq_iff)

lemma row_a_facts:
  obtains img where "row_ok sample_cols row_a" "keyed sample_cols" "primaryKey row_a = Inr 7"
    "serialize sample_cols row_a = Inr img" "deserialize sample_cols img = Inr row_a" "length img + 8 \<le> PAGE_SIZE"
proof -
  have r: "row_ok sample_cols row_a" "keyed sample_cols"
    by (simp_all add: row_ok_def sample_cols_def storable_def in_int64_def makeInt_def makeText_def val_ok_def keyed_def)
  obtain img where i: "serialize sample_cols row_a = Inr img" "deserialize sample_cols img = Inr row_a"
    by (rule serialize_ok [OF r(1)]) (rule that)
  have "length img + 8 \<le> PAGE_SIZE" using i(1)
    by (auto simp: serialize_def sample_cols_def makeInt_def makeText_def PAGE_SIZE_def)
  then show thesis using that r i by (simp add: primaryKey_def makeInt_def)
qed

lemma two_rows:
  obtains d t u where "db_ok d" "cur_txn d = INVALID_TXN" "0 < next_txn d"
    "map_of (dtables d) ''t'' = Some t" "tschema t = sample_cols" "stored_rows (db_contents d) ''t'' sample_cols = {row_a}"
    "map_of (dtables d) ''u'' = Some u" "tschema u = sample_cols" "stored_rows (db_contents d) ''u'' sample_cols = {row_a}"
    "tname t = ''t''" "tname u = ''u''" "\<exists>img. db_contents d ''t'' = Some [7 \<mapsto> img]"
proof -
  obtain img where r: "row_ok sample_cols row_a" "keyed sample_cols" "primaryKey row_a = Inr 7"
    "serialize sample_cols row_a = Inr img" "deserialize sample_cols img = Inr row_a" "length img + 8 \<le> PAGE_SIZE"
    by (rule row_a_facts) (rule that)
  obtain t0 where t0: "map_of (dtables two_tables) ''t'' = Some t0" "tschema t0 = sample_cols"
    using two_tables_ok(4) by (auto simp: db_schemas_Some)
  obtain d1 where d1: "db_ok d1" "db_contents d1 = a_put ''t'' 7 (Some img) (db_contents two_tables)"
      "db_schemas d1 = db_schemas two_tables" "cur_txn d1 = INVALID_TXN" "next_txn d1 = next_txn two_tables + 1"
    by (rule insertRow_auto [OF two_tables_ok(1) t0(1) two_tables_ok(2) _ _ _ r(3) _ _ r(6)])
      (use r t0 two_tables_ok in \<open>simp_all add: a_get_def\<close>)
  obtain u0 where u0: "map_of (dtables d1) ''u'' = Some u0" "tschema u0 = sample_cols"
    using two_tables_ok(5) unfolding d1(3) [symmetric] by (auto simp: db_schemas_Some)
  obtain d where d: "db_ok d" "db_contents d = a_put ''u'' 7 (Some img) (db_contents d1)"
      "db_schemas d = db_schemas d1" "cur_txn d = INVALID_TXN" "next_txn d = next_txn d1 + 1"
    by (rule insertRow_auto [OF d1(1) u0(1) d1(4) _ _ _ r(3) _ _ r(6)])
      (use r u0 d1 two_tables_ok in \<open>simp_all add: a_get_def a_put_def\<close>)
  have c: "db_contents d ''t'' = Some [7 \<mapsto> img]" "db_contents d ''u'' = Some [7 \<mapsto> img]"
    using d(2) d1(2) two_tables_ok by (simp_all add: a_put_def)
  obtain t u where tu: "map_of (dtables d) ''t'' = Some t" "tschema t = sample_cols" "map_of (dtables d) ''u'' = Some u" "tschema u = sample_cols"
    using two_tables_ok(4,5) unfolding d1(3) [symmetric] d(3) [symmetric] by (auto simp: db_schemas_Some)
  have "stored_rows (db_contents d) n sample_cols = {row_a}" if "n = ''t'' \<or> n = ''u''" for n
    using c that r(5) by (auto simp: stored_rows_def a_get_def split: if_splits)
  moreover have "0 < next_txn d" using d(5) d1(5) two_tables_ok(3) by simp
  moreover have "tname t = ''t''" "tname u = ''u''" using db_table_ok [OF d(1) tu(1)] db_table_ok [OF d(1) tu(3)] by auto
  moreover have "\<exists>img. db_contents d ''t'' = Some [7 \<mapsto> img]" using c(1) by blast
  ultimately show thesis using that [OF d(1,4) _ tu(1,2) _ tu(3,4)] by blast
qed

lemma singleton_list: "distinct xs \<Longrightarrow> set xs = {x} \<Longrightarrow> xs = [x]"
  by (cases xs) (auto simp: subset_singleton_iff dest: equalityD1)

lemma sample_qualified:
  "tschema t = sample_cols \<Longrightarrow> tname t = n \<Longrightarrow> qualifiedCols t = [n @ ''.id'', n @ ''.x'']"
  by (simp add: qualifiedCols_def sample_cols_def)

theorem select_correct_witness:
  "\<exists>d d' res. runSelect \<lparr>star = True, count_star = False, sel_cols = [], sel_table = ''t'', sel_join = None,
      sel_where = Some (ECmp ''id'' OP_GE (makeInt 5))\<rparr> d = (Inr res, d') \<and> res_rows res = [row_a]"
proof -
  obtain d t where d: "db_ok d" "map_of (dtables d) ''t'' = Some t" "tschema t = sample_cols"
      "stored_rows (db_contents d) ''t'' sample_cols = {row_a}" "tname t = ''t''"
    by (rule two_rows) (rule that)
  have q: "qualifiedCols t = [''t.id'', ''t.x'']" using sample_qualified [OF d(3,5)] by simp
  let ?s = "\<lparr>star = True, count_star = False, sel_cols = [], sel_table = ''t'', sel_join = None,
      sel_where = Some (ECmp ''id'' OP_GE (makeInt 5))\<rparr>"
  have ty: "where_typed (qualifiedCols t) (map ctyp (tschema t)) (sel_where ?s)"
    by (simp add: q d(3) where_typed_def sample_cols_def resolveCol_def col_match_def tail_name_def makeInt_def)
  have m: "matches (qualifiedCols t) (sel_where ?s) row_a"
    by (simp add: q matches_def col_index_def resolveCol_def col_match_def tail_name_def makeInt_def sem_def less_eq_sqlval_def)
  obtain rows d' where r: "runSelect ?s d = (Inr \<lparr>is_query = True, res_columns = output_columns (qualifiedCols t) ?s,
        res_rows = output_rows (qualifiedCols t) ?s rows, message = []\<rparr>, d')" "distinct rows"
      "set rows = {row \<in> {row_a}. matches (qualifiedCols t) (sel_where ?s) row}"
    using select_correct [of d ?s t] d ty by (auto simp: sample_cols_def output_ok_def)
  then have "set rows = {row_a}" using m by auto
  then have "rows = [row_a]" by (rule singleton_list [OF r(2)])
  with r(1) show ?thesis by (fastforce simp: output_rows_def)
qed

theorem join_correct_witness:
  "\<exists>d d' res row. runSelect \<lparr>star = True, count_star = False, sel_cols = [], sel_table = ''t'',
      sel_join = Some \<lparr>j_table = ''u'', left_col = ''t.id'', right_col = ''u.id''\<rparr>, sel_where = None\<rparr> d = (Inr res, d')
    \<and> res_rows res = [row] \<and> row = row_a @ row_a"
proof -
  obtain d t u where d: "db_ok d" "map_of (dtables d) ''t'' = Some t" "tschema t = sample_cols"
      "stored_rows (db_contents d) ''t'' sample_cols = {row_a}" "map_of (dtables d) ''u'' = Some u" "tschema u = sample_cols"
      "stored_rows (db_contents d) ''u'' sample_cols = {row_a}" "tname t = ''t''" "tname u = ''u''"
    by (rule two_rows) (rule that)
  have q: "qualifiedCols t = [''t.id'', ''t.x'']" "qualifiedCols u = [''u.id'', ''u.x'']"
    using sample_qualified [OF d(3,8)] sample_qualified [OF d(6,9)] by simp_all
  let ?j = "\<lparr>j_table = ''u'', left_col = ''t.id'', right_col = ''u.id''\<rparr>"
  let ?s = "\<lparr>star = True, count_star = False, sel_cols = [], sel_table = ''t'', sel_join = Some ?j, sel_where = None\<rparr>"
  have c: "joined_cols t u = (if rightIsInner t u then [''t.id'', ''t.x'', ''u.id'', ''u.x''] else [''u.id'', ''u.x'', ''t.id'', ''t.x''])"
    by (simp add: joined_cols_def q)
  have r: "resolveCol (joined_cols t u) ''t.id'' = Inr (if rightIsInner t u then 0 else 2)"
    "resolveCol (joined_cols t u) ''u.id'' = Inr (if rightIsInner t u then 2 else 0)"
    by (simp_all add: c resolveCol_def col_match_def)
  have ty: "join_typed t u ?j" by (auto simp: join_typed_def r joined_types_def d(3,6) sample_cols_def)
  obtain rows d' where o: "runSelect ?s d = (Inr \<lparr>is_query = True, res_columns = output_columns (joined_cols t u) ?s,
        res_rows = output_rows (joined_cols t u) ?s rows, message = []\<rparr>, d')" "distinct rows"
      "set rows = {row. \<exists>x \<in> {row_a}. \<exists>y \<in> {row_a}. row = pair_row t u x y
          \<and> join_equal (joined_cols t u) ?j row \<and> matches (joined_cols t u) (sel_where ?s) row}"
    using join_correct [of d ?s t ?j u] d ty by (auto simp: where_typed_def output_ok_def)
  have "join_equal (joined_cols t u) ?j (row_a @ row_a)"
    by (simp add: join_equal_def col_index_def r)
  then have "set rows = {row_a @ row_a}" using o(3) by (auto simp: pair_row_def matches_def)
  then have "rows = [row_a @ row_a]" by (rule singleton_list [OF o(2)])
  with o(1) show ?thesis by (fastforce simp: output_rows_def)
qed

theorem index_scan_equals_seq_scan_witness:
  "\<exists>d t rows. map_of (dtables d) ''t'' = Some t \<and> stored_rows (db_contents d) ''t'' sample_cols = {row_a}
    \<and> fst (run_plan (Filter (IndexScan t 7) (ECmp ''t.id'' OP_EQ (makeInt 7))) (dpool d)) = Inr rows
    \<and> fst (run_plan (Filter (SeqScan t) (ECmp ''t.id'' OP_EQ (makeInt 7))) (dpool d)) = Inr rows"
proof -
  obtain d t where d: "db_ok d" "map_of (dtables d) ''t'' = Some t" "tschema t = sample_cols"
      "stored_rows (db_contents d) ''t'' sample_cols = {row_a}" "tname t = ''t''"
    by (rule two_rows) (rule that)
  have q: "qualifiedCols t = [''t.id'', ''t.x'']" using sample_qualified [OF d(3,5)] by simp
  have s: "tschema t = \<lparr>cname = ''id'', ctyp = T_INT\<rparr> # [\<lparr>cname = ''x'', ctyp = T_TEXT\<rparr>]" using d(3) by (simp add: sample_cols_def)
  have "t_ok (dpool d) t" using db_table_ok [OF d(1,2)] by simp
  from index_scan_equals_seq_scan [OF this s, of "ECmp ''t.id'' OP_EQ (makeInt 7)" 7] d(2,4,5) show ?thesis
    by (auto simp: q s resolveCol_def col_match_def unqualified_def makeInt_def)
qed

end
