(* ===== verification/Statements.thy ===== *)
theory Statements
  imports Query
begin

text \<open>
  The statements that write, stated on the abstract database: what INSERT and DELETE add and
  remove, on success and on every error, inside a transaction and auto-committed; and sessions of
  parsed statements between BEGIN and ROLLBACK.
\<close>

section \<open>What the bookkeeping fields do not touch\<close>

lemma db_frame [simp]:
  "db_ok (d\<lparr>dwal := w\<rparr>) = db_ok d"
  "db_contents (d\<lparr>dwal := w\<rparr>) = db_contents d"
  "db_schemas (d\<lparr>dwal := w\<rparr>) = db_schemas d"
  "db_ok (d\<lparr>cur_txn := c\<rparr>) = db_ok d"
  "db_contents (d\<lparr>cur_txn := c\<rparr>) = db_contents d"
  "db_schemas (d\<lparr>cur_txn := c\<rparr>) = db_schemas d"
  "db_ok (d\<lparr>next_txn := c\<rparr>) = db_ok d"
  "db_contents (d\<lparr>next_txn := c\<rparr>) = db_contents d"
  "db_schemas (d\<lparr>next_txn := c\<rparr>) = db_schemas d"
  "db_ok (d\<lparr>autocommit := b\<rparr>) = db_ok d"
  "db_contents (d\<lparr>autocommit := b\<rparr>) = db_contents d"
  "db_schemas (d\<lparr>autocommit := b\<rparr>) = db_schemas d"
  "db_ok (d\<lparr>undos := us\<rparr>) = db_ok d"
  "db_contents (d\<lparr>undos := us\<rparr>) = db_contents d"
  "db_schemas (d\<lparr>undos := us\<rparr>) = db_schemas d"
  by (simp_all add: db_ok_def db_contents_def db_schemas_def fun_eq_iff)

section \<open>Deleting one key\<close>

text \<open>
  The log records of the deletion of the keys \<open>ks\<close>: one record each inside a transaction, and a
  transaction each outside.
\<close>

fun delete_log :: "bool \<Rightarrow> int \<Rightarrow> string \<Rightarrow> adb \<Rightarrow> int list \<Rightarrow> logrec list" where
  "delete_log auto txn n A [] = []"
| "delete_log auto txn n A (k # ks) =
     (let del = delete_rec txn n k (case a_get A n k of None \<Rightarrow> [] | Some img \<Rightarrow> img)
      in if auto then [begin_rec txn, del, commit_rec txn] @ delete_log auto (txn + 1) n A ks
         else del # delete_log auto txn n A ks)"

lemma deleteByKey_implicit:
  assumes n: "map_of (dtables d) n = Some t" and c: "cur_txn d = INVALID_TXN" and nx: "0 < next_txn d"
    and s: "bp_search pk (tindex t) = Inr (Some rid)" and g: "heap_get rid (dpool d) = (Inr got, dp)"
  shows "deleteByKey n pk d = bindS (deleteByKey n pk) (\<lambda>_. bindS db_commit (\<lambda>_. retS True)) (implicit_txn d)"
proof -
  have swap: "(implicit_txn d)\<lparr>dpool := dp\<rparr> = implicit_txn (d\<lparr>dpool := dp\<rparr>)" by (simp add: implicit_txn_def)
  have e1: "ensureTxn (d\<lparr>dpool := dp\<rparr>) = (Inr True, implicit_txn (d\<lparr>dpool := dp\<rparr>))"
    using c by (simp add: ensureTxn_def bindS_def db_begin_def implicit_txn_def Let_def)
  have e2: "ensureTxn (implicit_txn (d\<lparr>dpool := dp\<rparr>)) = (Inr False, implicit_txn (d\<lparr>dpool := dp\<rparr>))"
    using nx by (simp add: ensureTxn_def implicit_txn_def INVALID_TXN_def)
  have n2: "map_of (dtables (implicit_txn d)) n = Some t" "dpool (implicit_txn d) = dpool d"
    using n by (simp_all add: implicit_txn_def)
  let ?b = "case got of None \<Rightarrow> [] | Some b \<Rightarrow> b"
  let ?d0 = "implicit_txn (d\<lparr>dpool := dp\<rparr>)"
  let ?d1 = "?d0\<lparr>dwal := logDelete (cur_txn ?d0) (tname t) pk ?b (dwal ?d0)\<rparr>"
  obtain r d2 where p: "erase_row n pk rid ?d1 = (r, d2)" by (cases "erase_row n pk rid ?d1")
  show ?thesis
    using n n2 s g e1 e2 p swap
    by (cases r) (simp_all add: deleteByKey_def with_table_def bindS_def on_pool_def log_write_def push_undo_def
        maybeAutoCommit_def Let_def)
qed

lemma log_bytes_append: "log_bytes (xs @ ys) = log_bytes xs @ log_bytes ys"
  and log_bytes_Cons: "log_bytes (x # xs) = rec_bytes x @ log_bytes xs"
  by (simp_all add: log_bytes_def)

text \<open>The outcome for keys that are present, inside and outside a transaction.\<close>

definition deleted :: "string \<Rightarrow> int list \<Rightarrow> db \<Rightarrow> db \<Rightarrow> bool" where
  "deleted n ks d d' \<longleftrightarrow> db_ok d' \<and> db_contents d' = fold (\<lambda>k. a_put n k None) ks (db_contents d)
     \<and> db_schemas d' = db_schemas d \<and> cur_txn d' = cur_txn d \<and> 0 < next_txn d'
     \<and> dwal d' = dwal d @ log_bytes (if cur_txn d = INVALID_TXN then delete_log True (next_txn d) n (db_contents d) ks
          else delete_log False (cur_txn d) n (db_contents d) ks)
     \<and> next_txn d' = next_txn d + (if cur_txn d = INVALID_TXN then int (length ks) else 0)"

lemma deleteByKey_hit:
  assumes d: "db_ok d" and n: "map_of (dtables d) n = Some t" and nx: "0 < next_txn d"
    and get: "a_get (db_contents d) n pk = Some img"
  shows "\<exists>d'. deleteByKey n pk d = (Inr True, d') \<and> deleted n [pk] d d'"
proof (cases "cur_txn d = INVALID_TXN")
  case False
  from deleteByKey_open [OF d n False, of pk] get obtain dp d1 d' where
    d': "deleteByKey n pk d = (Inr True, d')"
      "phys (d\<lparr>dpool := dp, dwal := logDelete (cur_txn d) n pk img (dwal d)\<rparr>) d1 (a_put n pk None (db_contents d))"
      "db_schemas d1 = db_schemas d" "d' = d1\<lparr>undos := undos d1 @ [delete_undo n pk img]\<rparr>" by auto
  note p = physD [OF d'(2)]
  have "deleted n [pk] d d'"
    using p d'(3,4) False nx get by (simp add: deleted_def Let_def logDelete_def wal_append_def log_bytes_def)
  then show ?thesis using d'(1) by blast
next
  case True
  let ?d = "implicit_txn d"
  note f = implicit_txn_facts [OF d nx]
  obtain r where r: "bp_search pk (tindex t) = Inr r" "r = None \<longleftrightarrow> a_get (db_contents d) n pk = None"
    "r = map_of (bp_entries (tindex t)) pk" by (rule db_search [OF d n]) (rule that)
  obtain rid where rid: "r = Some rid" using r(2) get by auto
  have ok: "t_ok (dpool d) t" using db_table_ok [OF d n] by simp
  obtain b where b: "map_of (t_rows (dpool d) t) rid = Some b"
    using t_okD(3) [OF ok, of pk rid] r(3) rid by auto
  obtain dp0 where g: "heap_get rid (dpool d) = (Inr (Some b), dp0)"
    using heap.look_ok [OF t_okD(1) [OF ok]] b unfolding t_rows_def by blast
  have n1: "map_of (dtables ?d) n = Some t" using n f(3) by simp
  from deleteByKey_open [OF f(1) n1 f(6), of pk] get obtain dp d1 d2 where
    d2: "deleteByKey n pk ?d = (Inr True, d2)"
      "phys (?d\<lparr>dpool := dp, dwal := logDelete (cur_txn ?d) n pk img (dwal ?d)\<rparr>) d1 (a_put n pk None (db_contents ?d))"
      "db_schemas d1 = db_schemas ?d" "d2 = d1\<lparr>undos := undos d1 @ [delete_undo n pk img]\<rparr>" by (auto simp: f(2))
  note p = physD [OF d2(2)]
  let ?d' = "d2\<lparr>dwal := logCommit (next_txn d) (dwal d2), cur_txn := INVALID_TXN, autocommit := False, undos := []\<rparr>"
  have c2: "cur_txn d2 = next_txn d" using p d2(4) f(5) by simp
  then have "db_commit d2 = (Inr (), ?d')" using nx by (simp add: db_commit_def INVALID_TXN_def)
  then have "deleteByKey n pk d = (Inr True, ?d')"
    using deleteByKey_implicit [OF n True nx _ g] r(1) rid d2(1) by (simp add: bindS_def)
  moreover have "deleted n [pk] d ?d'"
  proof -
    have "db_contents ?d' = db_contents d1" "db_ok ?d' = db_ok d1" "db_schemas ?d' = db_schemas d1"
      using d2(4) by simp_all
    moreover have "dwal ?d' = dwal d @ log_bytes [begin_rec (next_txn d), delete_rec (next_txn d) n pk img, commit_rec (next_txn d)]"
      using p(5) d2(4) f(5,7) by (simp add: logDelete_def logCommit_def logBegin_def wal_append_def log_bytes_def)
    ultimately show ?thesis
      using p(1,2,7) d2(3,4) True nx get f(2,4,9) by (simp add: deleted_def Let_def)
  qed
  ultimately show ?thesis by blast
qed

section \<open>Deleting the matching rows\<close>

lemma a_get_put_other: "k \<noteq> pk \<Longrightarrow> a_get (a_put n pk v A) n k = a_get A n k"
  by (auto simp: a_put_def a_get_def split: option.split)

lemma delete_log_put: "k \<notin> set ks \<Longrightarrow> delete_log auto txn n (a_put n k v A) ks = delete_log auto txn n A ks"
  by (induction ks arbitrary: txn) (auto simp: a_get_put_other Let_def)

lemma deleted_Cons:
  assumes "deleted n [k] d d1" "deleted n ks d1 d2" "k \<notin> set ks"
  shows "deleted n (k # ks) d d2"
  using assms by (cases "cur_txn d = INVALID_TXN")
    (simp_all add: deleted_def delete_log_put log_bytes_append log_bytes_Cons Let_def)

lemma delete_keys_ok:
  assumes "db_ok d" "map_of (dtables d) n \<noteq> None" "0 < next_txn d" "distinct ks"
    and "\<forall>k \<in> set ks. a_get (db_contents d) n k \<noteq> None"
  shows "\<exists>d'. delete_keys n ks d = (Inr (length ks), d') \<and> deleted n ks d d'"
  using assms
proof (induction ks arbitrary: d)
  case Nil
  then show ?case by (intro exI [of _ d]) (simp add: deleted_def log_bytes_def)
next
  case (Cons k ks)
  obtain t where t: "map_of (dtables d) n = Some t" using Cons.prems(2) by blast
  obtain img where img: "a_get (db_contents d) n k = Some img" using Cons.prems(5) by auto
  obtain d1 where d1: "deleteByKey n k d = (Inr True, d1)" "deleted n [k] d d1"
    using deleteByKey_hit [OF Cons.prems(1) t Cons.prems(3) img] by blast
  have f: "db_ok d1" "0 < next_txn d1" "db_contents d1 = a_put n k None (db_contents d)" "db_schemas d1 = db_schemas d"
    using d1(2) by (simp_all add: deleted_def Let_def)
  have "map_of (dtables d1) n \<noteq> None" using fun_cong [OF f(4), of n] t by (auto simp: db_schemas_def)
  moreover have "\<forall>j \<in> set ks. a_get (db_contents d1) n j \<noteq> None"
  proof
    fix j assume "j \<in> set ks"
    moreover from this have "j \<noteq> k" using Cons.prems(4) by auto
    ultimately show "a_get (db_contents d1) n j \<noteq> None" using Cons.prems(5) by (simp add: f(3) a_get_put_other)
  qed
  ultimately obtain d2 where "delete_keys n ks d1 = (Inr (length ks), d2)" "deleted n ks d1 d2"
    using Cons.IH [OF f(1) _ f(2)] Cons.prems(4) by auto
  then show ?case using d1 deleted_Cons [OF d1(2)] Cons.prems(4) by (auto simp: bindS_def)
qed

text \<open>The keys of the rows a DELETE selects.\<close>

definition pk_of :: "val list \<Rightarrow> int" where
  "pk_of row = v_i (hd row)"

lemma row_key_typed: "row \<noteq> [] \<Longrightarrow> row_key row = Inr (pk_of row)"
  by (cases row) (auto simp: row_key_def row_at_def pk_of_def)

lemma mapE_row_key: "\<forall>row \<in> set rows. row \<noteq> [] \<Longrightarrow> mapE row_key rows = Inr (map pk_of rows)"
  by (induction rows) (auto simp: row_key_typed)

lemma t_vals_key:
  assumes ok: "t_ok bp t" and m: "row \<in> set (t_vals bp t)"
  shows "row \<noteq> []" "\<exists>img. t_map bp t (pk_of row) = Some img \<and> row = row_of (tschema t) img"
proof -
  obtain pk img where b: "t_map bp t pk = Some img" "row = row_of (tschema t) img"
    using m set_t_vals [OF ok] by auto
  obtain rid where "primaryKey row = Inr pk" by (rule t_map_row [OF ok b(1)]) (use b(2) in auto)
  then have "row \<noteq> []" "pk_of row = pk" by (auto simp: primaryKey_def pk_of_def split: list.splits if_splits)
  then show "row \<noteq> []" "\<exists>img. t_map bp t (pk_of row) = Some img \<and> row = row_of (tschema t) img"
    using b by blast+
qed

lemma inj_pk_of: "t_ok bp t \<Longrightarrow> inj_on pk_of (set (t_vals bp t))"
proof (rule inj_onI)
  fix x y
  assume ok: "t_ok bp t" and m: "x \<in> set (t_vals bp t)" "y \<in> set (t_vals bp t)" "pk_of x = pk_of y"
  obtain img where "t_map bp t (pk_of x) = Some img" "row_of (tschema t) img = x" using t_vals_key(2) [OF ok m(1)] by metis
  moreover obtain img' where "t_map bp t (pk_of y) = Some img'" "row_of (tschema t) img' = y" using t_vals_key(2) [OF ok m(2)] by metis
  ultimately show "x = y" using m(3) by simp
qed

lemma fold_put_None:
  "fold (\<lambda>k. a_put n k None) ks A m = (if m = n then map_option (\<lambda>f. f |` (- set ks)) (A n) else A m)"
proof (induction ks arbitrary: A)
  case Nil
  show ?case by (cases "A n") (auto simp: restrict_map_def)
next
  case (Cons k ks)
  have "a_put n k None A n = map_option (\<lambda>f. f(k := None)) (A n)" "m \<noteq> n \<Longrightarrow> a_put n k None A m = A m"
    by (auto simp: a_put_def split: option.split)
  then show ?case using Cons [of "a_put n k None A"]
    by (cases "A n") (auto simp: restrict_map_def fun_eq_iff)
qed

lemma runDelete_ok:
  assumes d: "db_ok d" and n: "map_of (dtables d) n = Some t" and nx: "0 < next_txn d"
    and sch: "tschema t \<noteq> []" "dot \<notin> set n"
    and ty: "where_typed (qualifiedCols t) (map ctyp (tschema t)) e"
  defines "rows \<equiv> filter (matches (qualifiedCols t) e) (t_vals (dpool d) t)"
  obtains bq d' where "runDelete n e d = (Inr (msg_result (''DELETE '' @ dec_of_nat (length rows))), d')"
    "reads (dpool d) bq" "deleted n (map pk_of rows) (d\<lparr>dpool := bq\<rparr>) d'"
    "delete_keys n (map pk_of rows) (d\<lparr>dpool := bq\<rparr>) = (Inr (length rows), d')"
proof -
  have ok: "t_ok (dpool d) t" and tn: "tname t = n" using db_table_ok [OF d n] by auto
  obtain op where op: "buildScan t e = Inr op" using buildScan_ok [OF sch(1)] by blast
  obtain bq where bq: "open_plan (add_filter e op) (dpool d) = (Inr (rows, None), bq)" "reads (dpool d) bq"
    using scan_filter_open [OF ok _ ty op] sch(2) tn unfolding rows_def by auto
  let ?d = "d\<lparr>dpool := bq\<rparr>"
  note r = db_reads [OF d bq(2)]
  have m: "row \<in> set (t_vals (dpool d) t)" if "row \<in> set rows" for row using that by (simp add: rows_def)
  have "distinct rows" using distinct_t_vals [OF ok] by (simp add: rows_def)
  moreover have "inj_on pk_of (set rows)" by (rule inj_on_subset [OF inj_pk_of [OF ok]]) (use m in blast)
  ultimately have "distinct (map pk_of rows)" by (simp add: distinct_map)
  moreover have "\<forall>k \<in> set (map pk_of rows). a_get (db_contents ?d) n k \<noteq> None"
    using t_vals_key(2) [OF ok m] by (fastforce simp: r(2) a_get_table [OF n])
  ultimately obtain d' where d': "delete_keys n (map pk_of rows) ?d = (Inr (length (map pk_of rows)), d')"
      "deleted n (map pk_of rows) ?d d'"
    using delete_keys_ok [OF r(1), of n "map pk_of rows"] n nx by auto
  have "mapE row_key rows = Inr (map pk_of rows)" using mapE_row_key t_vals_key(1) [OF ok m] by blast
  then have "runDelete n e d = (Inr (msg_result (''DELETE '' @ dec_of_nat (length rows))), d')"
    using n op bq(1) d'(1) by (simp add: runDelete_def find_table_def get_table_def bindS_def on_pool_def run_plan_def drain_def)
  then show thesis using that bq(2) d' by simp
qed

lemma t_map_pk_of:
  assumes ok: "t_ok bp t" and m: "t_map bp t pk = Some img"
  shows "row_of (tschema t) img \<in> set (t_vals bp t)" "pk_of (row_of (tschema t) img) = pk"
    "deserialize (tschema t) img = Inr (row_of (tschema t) img)"
proof -
  obtain rid where r: "(rid, img) \<in> set (t_rows bp t)" "primaryKey (row_of (tschema t) img) = Inr pk"
    by (rule t_map_row [OF ok m]) (rule that)
  show "row_of (tschema t) img \<in> set (t_vals bp t)" using m set_t_vals [OF ok] by blast
  show "pk_of (row_of (tschema t) img) = pk" using r(2) by (simp add: primaryKey_def pk_of_def split: list.splits)
  show "deserialize (tschema t) img = Inr (row_of (tschema t) img)" by (rule t_row_key [OF ok r(1)]) assumption
qed

lemma stored_rows_delete:
  assumes d: "db_ok d" and n: "map_of (dtables d) n = Some t"
  shows "stored_rows (fold (\<lambda>k. a_put n k None) (map pk_of (filter P (t_vals (dpool d) t))) (db_contents d)) n (tschema t)
    = {row \<in> stored_rows (db_contents d) n (tschema t). \<not> P row}" (is "stored_rows ?A n _ = _")
proof -
  let ?keys = "set (map pk_of (filter P (t_vals (dpool d) t)))" and ?f = "t_map (dpool d) t"
  have ok: "t_ok (dpool d) t" using db_table_ok [OF d n] by simp
  have get: "a_get ?A n pk = Some img \<longleftrightarrow> ?f pk = Some img \<and> pk \<notin> ?keys" for pk img
    by (auto simp: a_get_def fold_put_None db_contents_table [OF n] restrict_map_def simp del: set_map)
  have keys: "pk \<in> ?keys \<longleftrightarrow> P (row_of (tschema t) img)" if f: "?f pk = Some img" for pk img
  proof
    note m = t_map_pk_of [OF ok f]
    assume "pk \<in> ?keys"
    then obtain r where r: "r \<in> set (t_vals (dpool d) t)" "P r" "pk_of r = pk" by auto
    from inj_onD [OF inj_pk_of [OF ok] _ r(1) m(1)] r(2,3) m(2) show "P (row_of (tschema t) img)" by simp
  next
    assume "P (row_of (tschema t) img)"
    then show "pk \<in> ?keys" using t_map_pk_of [OF ok f] by force
  qed
  have row: "row = row_of (tschema t) img" if "?f pk = Some img" "deserialize (tschema t) img = Inr row" for pk img row
    using t_map_pk_of(3) [OF ok that(1)] that(2) by simp
  show ?thesis
    unfolding stored_rows_def get a_get_table [OF n] using keys row by blast
qed

section \<open>Properties of DELETE\<close>

text \<open>
  C11. DELETE means its relational reading, inside a transaction and outside: when the WHERE clause
  checks against the table, the statement returns without an exception, its message counts the
  rows that satisfy the clause, exactly these rows are gone, and heap and index of every table
  still agree.
\<close>

theorem delete_correct:
  assumes "db_ok d" "map_of (dtables d) n = Some t" "0 < next_txn d" "tschema t \<noteq> []" "dot \<notin> set n"
    and "where_typed (qualifiedCols t) (map ctyp (tschema t)) e"
  shows "\<exists>d'. runDelete n e d = (Inr (msg_result (''DELETE '' @ dec_of_nat (card
        {row \<in> stored_rows (db_contents d) n (tschema t). matches (qualifiedCols t) e row}))), d')
    \<and> db_ok d' \<and> db_schemas d' = db_schemas d \<and> cur_txn d' = cur_txn d
    \<and> stored_rows (db_contents d') n (tschema t)
        = {row \<in> stored_rows (db_contents d) n (tschema t). \<not> matches (qualifiedCols t) e row}
    \<and> (\<forall>m. m \<noteq> n \<longrightarrow> db_contents d' m = db_contents d m)"
proof -
  let ?rows = "filter (matches (qualifiedCols t) e) (t_vals (dpool d) t)"
  have ok: "t_ok (dpool d) t" using db_table_ok [OF assms(1,2)] by simp
  obtain bq d' where d': "runDelete n e d = (Inr (msg_result (''DELETE '' @ dec_of_nat (length ?rows))), d')"
      "reads (dpool d) bq" "deleted n (map pk_of ?rows) (d\<lparr>dpool := bq\<rparr>) d'"
    by (rule runDelete_ok [OF assms]) (rule that)
  note r = db_reads [OF assms(1) d'(2)]
  have c: "db_contents d' = fold (\<lambda>k. a_put n k None) (map pk_of ?rows) (db_contents d)"
    using d'(3) by (simp add: deleted_def r(2))
  have "length ?rows = card {row \<in> stored_rows (db_contents d) n (tschema t). matches (qualifiedCols t) e row}"
    using distinct_card [of ?rows] distinct_t_vals [OF ok]
    by (simp add: stored_rows_vals [OF assms(1,2)])
  moreover have "stored_rows (db_contents d') n (tschema t)
      = {row \<in> stored_rows (db_contents d) n (tschema t). \<not> matches (qualifiedCols t) e row}"
    unfolding c by (rule stored_rows_delete [OF assms(1,2)])
  moreover have "\<forall>m. m \<noteq> n \<longrightarrow> db_contents d' m = db_contents d m" by (simp add: c fold_put_None)
  ultimately show ?thesis using d'(1,3) r(3) by (simp add: deleted_def)
qed

theorem delete_correct_witness:
  "\<exists>d d'. runDelete ''t'' (Some (ECmp ''id'' OP_LE (makeInt 7))) d = (Inr (msg_result ''DELETE 1''), d')
    \<and> stored_rows (db_contents d) ''t'' sample_cols = {row_a} \<and> stored_rows (db_contents d') ''t'' sample_cols = {}"
proof -
  obtain d t where d: "db_ok d" "map_of (dtables d) ''t'' = Some t" "tschema t = sample_cols" "0 < next_txn d"
      "stored_rows (db_contents d) ''t'' sample_cols = {row_a}" "tname t = ''t''"
    by (rule two_rows) (rule that)
  have q: "qualifiedCols t = [''t.id'', ''t.x'']" using sample_qualified [OF d(3,6)] by simp
  let ?e = "Some (ECmp ''id'' OP_LE (makeInt 7))"
  have ty: "where_typed (qualifiedCols t) (map ctyp (tschema t)) ?e"
    by (simp add: q d(3) where_typed_def sample_cols_def resolveCol_def col_match_def tail_name_def makeInt_def)
  have m: "matches (qualifiedCols t) ?e row_a"
    by (simp add: q matches_def col_index_def resolveCol_def col_match_def tail_name_def makeInt_def sem_def less_eq_sqlval_def)
  have s: "{row \<in> stored_rows (db_contents d) ''t'' sample_cols. matches (qualifiedCols t) ?e row} = {row_a}"
    using m by (auto simp: d(5))
  have "tschema t \<noteq> []" "dot \<notin> set ''t''" using d(3) by (simp_all add: sample_cols_def)
  from delete_correct [OF d(1,2,4) this ty] obtain d' where
    "runDelete ''t'' ?e d = (Inr (msg_result (''DELETE '' @ dec_of_nat 1)), d')"
    "stored_rows (db_contents d') ''t'' sample_cols = {row \<in> {row_a}. \<not> matches (qualifiedCols t) ?e row}"
    using s d(3,5) by auto
  moreover have "dec_of_nat 1 = ''1''" by code_simp
  ultimately have "runDelete ''t'' ?e d = (Inr (msg_result ''DELETE 1''), d')" "stored_rows (db_contents d') ''t'' sample_cols = {}"
    using m by simp_all
  then show ?thesis using d(5) by blast
qed

text \<open>
  Outside a transaction a DELETE is not one transaction but one per row: the log grows by a
  BEGIN, a DELETE and a COMMIT record of a fresh transaction for each matching key in turn, so a
  crash between two rows leaves the statement half done. Inside a transaction the records all
  belong to it.
\<close>

theorem delete_logs_each_row:
  assumes "db_ok d" "map_of (dtables d) n = Some t" "0 < next_txn d" "tschema t \<noteq> []" "dot \<notin> set n"
    and "where_typed (qualifiedCols t) (map ctyp (tschema t)) e"
  shows "\<exists>keys. distinct keys \<and> set keys = {pk_of row | row. row \<in> stored_rows (db_contents d) n (tschema t)
        \<and> matches (qualifiedCols t) e row}
    \<and> dwal (snd (runDelete n e d)) = dwal d @ concat (map rec_bytes
        (if cur_txn d = INVALID_TXN then delete_log True (next_txn d) n (db_contents d) keys
         else delete_log False (cur_txn d) n (db_contents d) keys))
    \<and> next_txn (snd (runDelete n e d)) = next_txn d + (if cur_txn d = INVALID_TXN then int (length keys) else 0)"
proof -
  let ?rows = "filter (matches (qualifiedCols t) e) (t_vals (dpool d) t)"
  have ok: "t_ok (dpool d) t" using db_table_ok [OF assms(1,2)] by simp
  obtain bq d' where d': "runDelete n e d = (Inr (msg_result (''DELETE '' @ dec_of_nat (length ?rows))), d')"
      "reads (dpool d) bq" "deleted n (map pk_of ?rows) (d\<lparr>dpool := bq\<rparr>) d'"
    by (rule runDelete_ok [OF assms]) (rule that)
  note r = db_reads [OF assms(1) d'(2)]
  have "inj_on pk_of (set ?rows)" by (rule inj_on_subset [OF inj_pk_of [OF ok]]) auto
  then have "distinct (map pk_of ?rows)" using distinct_t_vals [OF ok] by (simp add: distinct_map)
  moreover have "set (map pk_of ?rows) = {pk_of row | row. row \<in> stored_rows (db_contents d) n (tschema t)
        \<and> matches (qualifiedCols t) e row}" by (auto simp: stored_rows_vals [OF assms(1,2)])
  ultimately show ?thesis using d'(1,3) by (intro exI [of _ "map pk_of ?rows"]) (simp add: deleted_def r(2) log_bytes_def)
qed

theorem delete_logs_each_row_witness:
  "\<exists>d img. stored_rows (db_contents d) ''t'' sample_cols = {row_a} \<and> dwal (snd (runDelete ''t'' None d)) = dwal d @ concat (map rec_bytes
      [begin_rec (next_txn d), delete_rec (next_txn d) ''t'' 7 img, commit_rec (next_txn d)])"
proof -
  obtain d t where d: "db_ok d" "map_of (dtables d) ''t'' = Some t" "tschema t = sample_cols" "0 < next_txn d"
      "stored_rows (db_contents d) ''t'' sample_cols = {row_a}" "cur_txn d = INVALID_TXN" "\<exists>img. db_contents d ''t'' = Some [7 \<mapsto> img]"
    by (rule two_rows) (rule that)
  obtain img where img: "db_contents d ''t'' = Some [7 \<mapsto> img]" using d(7) by blast
  have "tschema t \<noteq> []" "dot \<notin> set ''t''" "where_typed (qualifiedCols t) (map ctyp (tschema t)) None"
    using d(3) by (simp_all add: sample_cols_def where_typed_def)
  from delete_logs_each_row [OF d(1,2,4) this] obtain keys where
    k: "distinct keys" "set keys = {7}" "dwal (snd (runDelete ''t'' None d)) = dwal d @ concat (map rec_bytes
      (delete_log True (next_txn d) ''t'' (db_contents d) keys))"
    using d(3,5,6) by (auto simp: matches_def pk_of_def makeInt_def)
  have "keys = [7]" by (rule singleton_list [OF k(1,2)])
  then have "dwal (snd (runDelete ''t'' None d)) = dwal d @ concat (map rec_bytes
      [begin_rec (next_txn d), delete_rec (next_txn d) ''t'' 7 img, commit_rec (next_txn d)])"
    using k(3) img by (simp add: a_get_def Let_def)
  then show ?thesis using d(5) by blast
qed

section \<open>INSERT\<close>

text \<open>The row can be put in: its key is free and its image fits a page.\<close>

definition accepted :: "adb \<Rightarrow> string \<Rightarrow> schema \<Rightarrow> val list \<Rightarrow> bool" where
  "accepted A n cols row \<longleftrightarrow> (\<exists>pk img. primaryKey row = Inr pk \<and> a_get A n pk = None
     \<and> serialize cols row = Inr img \<and> length img + 8 \<le> PAGE_SIZE)"

definition inserted :: "string \<Rightarrow> val list \<Rightarrow> schema \<Rightarrow> db \<Rightarrow> db \<Rightarrow> bool" where
  "inserted n row cols d d' \<longleftrightarrow> (\<exists>pk img. primaryKey row = Inr pk \<and> a_get (db_contents d) n pk = None
     \<and> serialize cols row = Inr img \<and> image_ok cols pk img \<and> db_contents d' = a_put n pk (Some img) (db_contents d))"

lemma inserted_accepted: "inserted n row cols d d' \<Longrightarrow> accepted (db_contents d) n cols row"
  by (auto simp: inserted_def accepted_def image_ok_def tuple_fits_def page_consts)

lemma phys_failed:
  assumes "phys d (d'\<lparr>dwal := w\<rparr>) (db_contents d)"
  shows "db_ok d'" "db_schemas d' = db_schemas d" "db_contents d' = db_contents d"
  using physD [OF assms] by simp_all

lemma phys_undo:
  assumes "phys (d\<lparr>dwal := w\<rparr>) d' A" "d'' = d'\<lparr>undos := u\<rparr>"
  shows "db_ok d''" "db_schemas d'' = db_schemas d" "db_contents d'' = A" "cur_txn d'' = cur_txn d"
  using physD [OF assms(1)] assms(2) by simp_all

lemma insertRow_any_open:
  assumes d: "db_ok d" and n: "map_of (dtables d) n = Some t" and c: "cur_txn d \<noteq> INVALID_TXN"
    and k: "keyed (tschema t)" and r: "row_typed (tschema t) row"
    and small: "\<And>img. serialize (tschema t) row = Inr img \<Longrightarrow> length img < 65536"
  shows "\<exists>r d'. insertRow n row d = (r, d') \<and> db_ok d' \<and> db_schemas d' = db_schemas d
    \<and> (case r of Inl e \<Rightarrow> db_contents d' = db_contents d
        | Inr _ \<Rightarrow> cur_txn d' = cur_txn d \<and> inserted n row (tschema t) d d')"
proof -
  from insertRow_open [OF d n c k r small] consider
    (err) e d' where "insertRow n row d = (Inl e, d')" "phys d (d'\<lparr>dwal := dwal d\<rparr>) (db_contents d)"
  | (ok) p img d' d'' where "insertRow n row d = (Inr (), d'')" "primaryKey row = Inr p"
      "serialize (tschema t) row = Inr img" "image_ok (tschema t) p img" "a_get (db_contents d) n p = None"
      "phys (d\<lparr>dwal := logInsert (cur_txn d) n p img (dwal d)\<rparr>) d' (a_put n p (Some img) (db_contents d))"
      "d'' = d'\<lparr>undos := undos d' @ [insert_undo n p img]\<rparr>" by blast
  then show ?thesis
  proof cases
    case err
    then show ?thesis using phys_failed [OF err(2)] by simp
  next
    case ok
    then show ?thesis using phys_undo [OF ok(6,7)] by (auto simp: inserted_def)
  qed
qed

lemma insertRow_any_implicit:
  assumes d: "db_ok d" and n: "map_of (dtables d) n = Some t" and nx: "0 < next_txn d"
    and k: "keyed (tschema t)" and r: "row_typed (tschema t) row"
    and small: "\<And>img. serialize (tschema t) row = Inr img \<Longrightarrow> length img < 65536"
    and c: "cur_txn d = INVALID_TXN" and pk: "primaryKey row = Inr pk" and x: "bp_search pk (tindex t) = Inr None"
  shows "\<exists>r d'. insertRow n row d = (r, d') \<and> db_ok d' \<and> db_schemas d' = db_schemas d
    \<and> (case r of Inl e \<Rightarrow> db_contents d' = db_contents d
        | Inr _ \<Rightarrow> cur_txn d' = cur_txn d \<and> inserted n row (tschema t) d d')"
proof -
  let ?d = "implicit_txn d"
  note f = implicit_txn_facts [OF d nx]
  have n1: "map_of (dtables ?d) n = Some t" using n f(3) by simp
  have run: "insertRow n row d = bindS (insertRow n row) (\<lambda>_. db_commit) ?d"
    using insertRow_implicit [OF n c nx pk] x by simp
  from insertRow_open [OF f(1) n1 f(6) k r small] consider
    (err) e d' where "insertRow n row ?d = (Inl e, d')" "phys ?d (d'\<lparr>dwal := dwal ?d\<rparr>) (db_contents ?d)"
  | (ok) p img d' d'' where "insertRow n row ?d = (Inr (), d'')" "primaryKey row = Inr p"
      "serialize (tschema t) row = Inr img" "image_ok (tschema t) p img" "a_get (db_contents ?d) n p = None"
      "phys (?d\<lparr>dwal := logInsert (cur_txn ?d) n p img (dwal ?d)\<rparr>) d' (a_put n p (Some img) (db_contents ?d))"
      "d'' = d'\<lparr>undos := undos d' @ [insert_undo n p img]\<rparr>" by blast
  then show ?thesis
  proof cases
    case err
    then show ?thesis unfolding run using phys_failed [OF err(2)] f(2,4) by (simp add: bindS_def)
  next
    case ok
    let ?e = "d''\<lparr>dwal := logCommit (cur_txn d'') (dwal d''), cur_txn := INVALID_TXN, autocommit := False, undos := []\<rparr>"
    note u = phys_undo [OF ok(6,7)]
    have "insertRow n row d = (Inr (), ?e)" unfolding run using ok(1) u(4) f(6) by (simp add: bindS_def db_commit_def)
    moreover have "db_ok ?e" "db_schemas ?e = db_schemas d" "db_contents ?e = a_put n p (Some img) (db_contents d)"
      using u f(2,4) by simp_all
    ultimately show ?thesis using ok(2-5) c f(2) by (auto simp: inserted_def)
  qed
qed

lemma insertRow_any:
  assumes d: "db_ok d" and n: "map_of (dtables d) n = Some t" and nx: "0 < next_txn d"
    and k: "keyed (tschema t)" and r: "row_typed (tschema t) row"
    and small: "\<And>img. serialize (tschema t) row = Inr img \<Longrightarrow> length img < 65536"
  shows "\<exists>r d'. insertRow n row d = (r, d') \<and> db_ok d' \<and> db_schemas d' = db_schemas d
    \<and> (case r of Inl e \<Rightarrow> db_contents d' = db_contents d
        | Inr _ \<Rightarrow> cur_txn d' = cur_txn d \<and> inserted n row (tschema t) d d')"
proof (cases "cur_txn d = INVALID_TXN")
  case False
  then show ?thesis by (rule insertRow_any_open [OF d n _ k r small])
next
  case True
  obtain v vs where v: "row = v # vs" using r k by (cases row) (auto simp: row_typed_def keyed_def)
  have pk: "primaryKey row = Inr (v_i v)" by (simp add: v primaryKey_def)
  obtain x where x: "bp_search (v_i v) (tindex t) = Inr x" using db_search [OF d n] .
  show ?thesis
  proof (cases x)
    case None
    then show ?thesis using insertRow_any_implicit [OF d n nx k r small True pk] x by simp
  next
    case (Some rid)
    then have "insertRow n row d = (Inl (RuntimeError (''duplicate primary key: '' @ dec_of_int (v_i v))), d)"
      using n pk x by (simp add: insertRow_def with_table_def)
    then show ?thesis using d by auto
  qed
qed

lemma insertRow_accepted:
  assumes d: "db_ok d" and n: "map_of (dtables d) n = Some t" and nx: "0 < next_txn d"
    and k: "keyed (tschema t)" and r: "row_typed (tschema t) row" and a: "accepted (db_contents d) n (tschema t) row"
  shows "\<exists>d'. insertRow n row d = (Inr (), d')"
proof -
  obtain pk img where i: "primaryKey row = Inr pk" "a_get (db_contents d) n pk = None"
      "serialize (tschema t) row = Inr img" "length img + 8 \<le> PAGE_SIZE" using a by (auto simp: accepted_def)
  have ok: "row_ok (tschema t) row" using row_typed_cases [OF r] i(3) by auto
  show ?thesis
  proof (cases "cur_txn d = INVALID_TXN")
    case True
    obtain d' where "insertRow n row d = (Inr (), d')" by (rule insertRow_auto [OF d n True nx k ok i]) (rule that)
    then show ?thesis by blast
  next
    case False
    obtain d' where "insertRow n row d = (Inr (), d'\<lparr>undos := undos d' @ [insert_undo n pk img]\<rparr>)"
      by (rule insertRow_in_txn [OF d n False k ok i]) (rule that)
    then show ?thesis by blast
  qed
qed

lemma stored_rows_insert:
  assumes r: "row_ok cols row" and i: "inserted n row cols d d'" and n: "db_contents d n \<noteq> None"
  shows "stored_rows (db_contents d') n cols = insert row (stored_rows (db_contents d) n cols)"
    "\<And>m. m \<noteq> n \<Longrightarrow> db_contents d' m = db_contents d m"
proof -
  obtain pk img where c: "primaryKey row = Inr pk" "a_get (db_contents d) n pk = None" "serialize cols row = Inr img"
      "db_contents d' = a_put n pk (Some img) (db_contents d)" using i by (auto simp: inserted_def)
  obtain out where "serialize cols row = Inr out" "deserialize cols out = Inr row" by (rule serialize_ok [OF r]) (rule that)
  then have img: "deserialize cols img = Inr row" using c(3) by simp
  show "stored_rows (db_contents d') n cols = insert row (stored_rows (db_contents d) n cols)"
  proof (rule set_eqI)
    fix x
    have get: "a_get (db_contents d') n k = (if k = pk then Some img else a_get (db_contents d) n k)" for k
      using n by (simp add: c(4) a_get_put)
    have "(\<exists>k b. a_get (db_contents d') n k = Some b \<and> deserialize cols b = Inr x)
        \<longleftrightarrow> deserialize cols img = Inr x \<or> (\<exists>k b. a_get (db_contents d) n k = Some b \<and> deserialize cols b = Inr x)"
      unfolding get using c(2) by (metis option.distinct(1) option.inject)
    then show "x \<in> stored_rows (db_contents d') n cols \<longleftrightarrow> x \<in> insert row (stored_rows (db_contents d) n cols)"
      using img by (auto simp: stored_rows_def)
  qed
  show "db_contents d' m = db_contents d m" if "m \<noteq> n" for m
    using that by (simp add: c(4) a_put_def split: option.split)
qed

lemma type_check_Inr: "length cols = length row \<Longrightarrow> type_check cols row = Inr () \<longleftrightarrow> map v_type row = map ctyp cols"
  by (induction cols row rule: type_check.induct) auto

lemma type_check_cases: "type_check cols row = Inr () \<or> (\<exists>e. type_check cols row = Inl e)"
  by (cases "type_check cols row") auto

text \<open>Values as the parser makes them.\<close>

definition literal_ok :: "val \<Rightarrow> bool" where
  "literal_ok v \<longleftrightarrow> val_ok v \<and> in_int64 (v_i v)"

lemma row_typed_literals:
  "map v_type row = map ctyp cols \<Longrightarrow> \<forall>v \<in> set row. literal_ok v \<Longrightarrow> row_typed cols row"
  unfolding row_typed_def
  by (induction row arbitrary: cols) (auto simp: literal_ok_def Cons_eq_map_conv map_eq_Cons_conv)

text \<open>
  C12. INSERT into a table with a key column, of any row of literals whose image is under 64 KiB
  (longer ones are stored cut off, \<open>physInsert_truncates\<close>), whether a transaction is open or not: a
  row of the table's arity and types whose key is free and whose image fits a page is added to the
  table's rows and to nothing else; every other such row is rejected by an exception with the
  contents unchanged, and with the whole state unchanged when arity or types are wrong.
\<close>

theorem insert_correct:
  assumes "db_ok d" "map_of (dtables d) n = Some t" "0 < next_txn d" "keyed (tschema t)"
    and "\<forall>v \<in> set row. literal_ok v" "\<forall>img. serialize (tschema t) row = Inr img \<longrightarrow> length img < 65536"
  shows "\<exists>r d'. runInsert n row d = (r, d') \<and> db_ok d' \<and> db_schemas d' = db_schemas d
    \<and> (if map v_type row = map ctyp (tschema t) \<and> accepted (db_contents d) n (tschema t) row
       then r = Inr (msg_result ''INSERT 1'') \<and> cur_txn d' = cur_txn d
         \<and> stored_rows (db_contents d') n (tschema t) = insert row (stored_rows (db_contents d) n (tschema t))
         \<and> (\<forall>m. m \<noteq> n \<longrightarrow> db_contents d' m = db_contents d m)
       else (\<exists>e. r = Inl e) \<and> db_contents d' = db_contents d
         \<and> (map v_type row \<noteq> map ctyp (tschema t) \<longrightarrow> d' = d))"
proof -
  have ft: "find_table n d = (Inr t, d)" using assms(2) by (simp add: find_table_def get_table_def)
  have nc: "db_contents d n \<noteq> None" using tables_contents [OF assms(2)] .
  show ?thesis
  proof (cases "map v_type row = map ctyp (tschema t)")
    case False
    have "\<exists>e. runInsert n row d = (Inl e, d)"
    proof (cases "length row = length (tschema t)")
      case True
      then obtain e where "type_check (tschema t) row = Inl e"
        using False type_check_Inr [of "tschema t" row] type_check_cases by metis
      then show ?thesis using ft True by (simp add: runInsert_def bindS_def)
    qed (use ft in \<open>simp add: runInsert_def bindS_def\<close>)
    then show ?thesis using False assms(1) by auto
  next
    case True
    have len: "length row = length (tschema t)" by (rule map_eq_imp_length_eq [OF True])
    have tc: "type_check (tschema t) row = Inr ()" using True len type_check_Inr by metis
    have rt: "row_typed (tschema t) row" by (rule row_typed_literals [OF True assms(5)])
    have run: "runInsert n row d = bindS (insertRow n row) (\<lambda>_. retS (msg_result ''INSERT 1'')) d"
      using ft len tc by (simp add: runInsert_def bindS_def)
    obtain r d' where r: "insertRow n row d = (r, d')" "db_ok d'" "db_schemas d' = db_schemas d"
        "case r of Inl e \<Rightarrow> db_contents d' = db_contents d | Inr _ \<Rightarrow> cur_txn d' = cur_txn d \<and> inserted n row (tschema t) d d'"
      using insertRow_any [OF assms(1-4) rt] assms(6) by blast
    show ?thesis
    proof (cases r)
      case (Inl e)
      then have "\<not> accepted (db_contents d) n (tschema t) row"
        using insertRow_accepted [OF assms(1-4) rt] r(1) by auto
      then show ?thesis unfolding run using Inl r True by (simp add: bindS_def)
    next
      case (Inr u)
      then have i: "inserted n row (tschema t) d d'" "cur_txn d' = cur_txn d" using r(4) by auto
      obtain img where "serialize (tschema t) row = Inr img" using i(1) by (auto simp: inserted_def)
      then have "row_ok (tschema t) row" using row_typed_cases [OF rt] by auto
      from stored_rows_insert [OF this i(1) nc] inserted_accepted [OF i(1)] show ?thesis
        unfolding run using Inr r True i(2) by (simp add: bindS_def)
    qed
  qed
qed

theorem insert_correct_witness:
  "\<exists>d'. runInsert ''t'' row_a two_tables = (Inr (msg_result ''INSERT 1''), d')
    \<and> stored_rows (db_contents d') ''t'' sample_cols = {row_a}"
proof -
  obtain img where r: "keyed sample_cols" "primaryKey row_a = Inr 7" "serialize sample_cols row_a = Inr img" "length img + 8 \<le> PAGE_SIZE"
    by (rule row_a_facts) (rule that)
  obtain t where t: "map_of (dtables two_tables) ''t'' = Some t" "tschema t = sample_cols"
    using two_tables_ok(4) by (auto simp: db_schemas_Some)
  have a: "accepted (db_contents two_tables) ''t'' sample_cols row_a"
    using r two_tables_ok(6) by (auto simp: accepted_def a_get_def)
  have s: "stored_rows (db_contents two_tables) ''t'' sample_cols = {}"
    using two_tables_ok(6) by (simp add: stored_rows_def a_get_def)
  have m: "map v_type row_a = map ctyp sample_cols" by (simp add: sample_cols_def makeInt_def makeText_def)
  have l: "\<forall>v \<in> set row_a. literal_ok v" by (simp add: literal_ok_def in_int64_def makeInt_def makeText_def val_ok_def)
  have sz: "\<forall>img. serialize (tschema t) row_a = Inr img \<longrightarrow> length img < 65536" using r(3,4) t(2) by (simp add: PAGE_SIZE_def)
  have k: "keyed (tschema t)" "0 < next_txn two_tables" using r(1) t(2) two_tables_ok(3) by simp_all
  from insert_correct [OF two_tables_ok(1) t(1) k(2,1) l sz] show ?thesis
    unfolding t(2) s using a m by auto
qed

end
