(* ===== verification/Session.thy ===== *)
theory Session
  imports Statements
begin

text \<open>
  Sessions of parsed statements: each is executed in the state the previous one left, whether it
  returned or threw. No plan, checked or not, changes what the database holds, so a transaction
  of arbitrary SELECT, INSERT and DELETE statements is undone by ROLLBACK.
\<close>

text \<open>\<open>main\<close>: an exception is printed and the loop goes on with the next statement.\<close>

fun run_session :: "statement list \<Rightarrow> db \<Rightarrow> db" where
  "run_session [] d = d"
| "run_session (s # ss) d = run_session ss (snd (execute s d))"

section \<open>Plans only read\<close>

fun plan_tables :: "plan \<Rightarrow> table list" where
  "plan_tables (SeqScan t) = [t]"
| "plan_tables (IndexScan t key) = [t]"
| "plan_tables (Filter c e) = plan_tables c"
| "plan_tables (Project c idx) = plan_tables c"
| "plan_tables (NestedLoopJoin a b p1 p2) = plan_tables a @ plan_tables b"
| "plan_tables (CountStar c) = plan_tables c"

definition reads_only :: "(pool, 'a) stm \<Rightarrow> pool \<Rightarrow> bool" where
  "reads_only m bp \<longleftrightarrow> reads bp (snd (m bp))"

lemma reads_only_bindS:
  assumes "reads_only m bp" "\<And>x bq. m bp = (Inr x, bq) \<Longrightarrow> reads bp bq \<Longrightarrow> reads_only (f x) bq"
  shows "reads_only (bindS m f) bp"
proof (cases "m bp")
  case (Pair r bq)
  then have "reads bp bq" using assms(1) by (simp add: reads_only_def)
  then show ?thesis using Pair assms(2) reads_trans
    by (cases r) (auto simp: reads_only_def bindS_def)
qed

lemma reads_only_pure: "cache_inv bp \<Longrightarrow> reads_only (retS x) bp" "cache_inv bp \<Longrightarrow> reads_only (liftS y) bp"
  by (simp_all add: reads_only_def retS_def liftS_def reads_refl split: sum.split)

lemma reads_inv: "reads bp bq \<Longrightarrow> cache_inv bq"
  by (simp add: reads_def)

lemma open_plan_reads: "\<forall>t \<in> set (plan_tables op). t_ok bp t \<Longrightarrow> cache_inv bp \<Longrightarrow> reads_only (open_plan op) bp"
proof (induction op arbitrary: bp)
  case (SeqScan t)
  then show ?case using seq_open [of bp t] by (auto simp: reads_only_def simp del: open_plan.simps)
next
  case (IndexScan t key)
  then show ?case using index_open [of bp t key] by (auto simp: reads_only_def simp del: open_plan.simps)
next
  case (NestedLoopJoin a b p1 p2)
  have "reads_only (open_plan b) bq" if "reads bp bq" for bq
    using NestedLoopJoin.IH(2) NestedLoopJoin.prems(1) reads_table [OF _ that] reads_inv [OF that] by auto
  then show ?case using NestedLoopJoin.IH(1) NestedLoopJoin.prems
    by (auto intro!: reads_only_bindS reads_only_pure intro: reads_inv)
qed (auto intro!: reads_only_bindS reads_only_pure intro: reads_inv)

lemma run_plan_reads: "\<forall>t \<in> set (plan_tables op). t_ok bp t \<Longrightarrow> cache_inv bp \<Longrightarrow> reads_only (run_plan op) bp"
  unfolding run_plan_def by (intro reads_only_bindS open_plan_reads reads_only_pure) (auto intro: reads_inv)

text \<open>The tables of a database.\<close>

definition db_tables :: "db \<Rightarrow> table set" where
  "db_tables d = {t. \<exists>n. map_of (dtables d) n = Some t}"

lemma db_plan_reads:
  assumes "db_ok d" "set (plan_tables op) \<subseteq> db_tables d"
  obtains r bq where "on_pool (run_plan op) d = (r, d\<lparr>dpool := bq\<rparr>)" "reads (dpool d) bq"
proof -
  have "\<forall>t \<in> set (plan_tables op). t_ok (dpool d) t"
    using assms db_table_ok by (fastforce simp: db_tables_def)
  moreover have "cache_inv (dpool d)" using assms(1) by (simp add: db_ok_def reg_ok_def)
  ultimately have "reads_only (run_plan op) (dpool d)" by (rule run_plan_reads)
  then show thesis using that by (cases "run_plan op (dpool d)") (simp add: reads_only_def on_pool_def)
qed

lemma buildScan_tables: "buildScan t e = Inr op \<Longrightarrow> plan_tables op = [t]"
  by (auto simp: buildScan_def bindE_Inr_iff split: if_splits)

lemma add_filter_tables [simp]: "plan_tables (add_filter e op) = plan_tables op"
  by (cases e) (simp_all add: add_filter_def)

lemma select_output_tables: "select_output s op = Inr q \<Longrightarrow> plan_tables q = plan_tables op"
  by (auto simp: select_output_def mk_project_def bindE_Inr_iff split: if_splits)

lemma find_table_cases:
  obtains (missing) e where "find_table n d = (Inl e, d)" | (found) t where "find_table n d = (Inr t, d)" "map_of (dtables d) n = Some t"
  by (cases "get_table n (dtables d)") (auto simp: find_table_def get_table_def)

lemma select_source_cases:
  assumes "map_of (dtables d) n = Some t"
  obtains (err) e where "select_source s t d = (Inl e, d)"
    | (op) op where "select_source s t d = (Inr op, d)" "set (plan_tables op) \<subseteq> db_tables d"
proof (cases "sel_join s")
  case None
  show thesis
  proof (cases "buildScan t (sel_where s)")
    case (Inr op)
    have "t \<in> db_tables d" using assms by (auto simp only: db_tables_def)
    then show thesis using that(2) None Inr buildScan_tables [OF Inr] by (simp add: select_source_def)
  qed (use that(1) None in \<open>simp add: select_source_def\<close>)
next
  case (Some j)
  show thesis
  proof (cases rule: find_table_cases [of "j_table j" d])
    case (missing e)
    then show thesis using that(1) Some by (simp add: select_source_def bindS_def)
  next
    case (found r)
    let ?o = "SeqScan (if rightIsInner t r then t else r)" and ?i = "SeqScan (if rightIsInner t r then r else t)"
    show thesis
    proof (cases "mk_join ?o ?i (left_col j) (right_col j)")
      case (Inl e)
      then show thesis using that(1) Some found by (simp add: select_source_def bindS_def Let_def)
    next
      case (Inr op)
      have "t \<in> db_tables d" "r \<in> db_tables d" using assms found(2) by (auto simp only: db_tables_def)
      then have "set (plan_tables op) \<subseteq> db_tables d" using Inr by (auto simp: mk_join_def bindE_Inr_iff)
      then show thesis using that(2) Some found Inr by (simp add: select_source_def bindS_def Let_def)
    qed
  qed
qed

text \<open>Whatever a SELECT returns or throws, it leaves the database as it was.\<close>

lemma runSelect_reads:
  assumes d: "db_ok d"
  obtains r bq where "runSelect s d = (r, d\<lparr>dpool := bq\<rparr>)" "reads (dpool d) bq"
proof -
  have refl: "reads (dpool d) (dpool d)" using d by (simp add: db_ok_def reg_ok_def reads_refl)
  note result = that
  have stay: thesis if "runSelect s d = (Inl e, d)" for e using result [of "Inl e" "dpool d"] that refl by simp
  show thesis
  proof (cases rule: find_table_cases [of "sel_table s" d])
    case (missing e)
    then show thesis using stay by (simp add: runSelect_def bindS_def)
  next
    case (found t)
    from found(2) show thesis
    proof (cases rule: select_source_cases [where s = s])
      case (err e)
      then show thesis using stay found by (simp add: runSelect_def bindS_def)
    next
      case (op op)
      show thesis
      proof (cases "select_output s op")
        case (Inl e)
        then show thesis using stay found op by (simp add: runSelect_def bindS_def)
      next
        case (Inr q)
        have "set (plan_tables q) \<subseteq> db_tables d" using op(2) select_output_tables [OF Inr] by simp
        then obtain r bq where q: "on_pool (run_plan q) d = (r, d\<lparr>dpool := bq\<rparr>)" "reads (dpool d) bq"
          by (rule db_plan_reads [OF d])
        then show thesis using that q(2) found op(1) Inr by (cases r) (simp_all add: runSelect_def bindS_def)
      qed
    qed
  qed
qed

section \<open>Statements inside a transaction\<close>

text \<open>What a statement between BEGIN and the end of its transaction keeps.\<close>

definition in_txn :: "adb \<Rightarrow> (string \<Rightarrow> schema option) \<Rightarrow> db \<Rightarrow> bool" where
  "in_txn A sch d \<longleftrightarrow> txn_inv A d \<and> cur_txn d \<noteq> INVALID_TXN \<and> db_schemas d = sch"

lemma in_txn_reads:
  assumes "in_txn A sch d" "reads (dpool d) bq"
  shows "in_txn A sch (d\<lparr>dpool := bq\<rparr>)"
proof -
  have "db_ok d" using assms(1) by (simp add: in_txn_def txn_inv_def)
  from db_reads [OF this assms(2)] show ?thesis using assms(1) by (auto simp: in_txn_def txn_inv_def)
qed

lemma in_txn_step: "in_txn A sch d \<Longrightarrow> stmt_ok sch s \<Longrightarrow> in_txn A sch (exec_stmt s d)"
  using txn_step [of A d s] by (auto simp: in_txn_def)

lemma delete_keys_txn: "in_txn A sch d \<Longrightarrow> sch n \<noteq> None \<Longrightarrow> in_txn A sch (snd (delete_keys n ks d))"
proof (induction ks arbitrary: d)
  case (Cons k ks)
  have i: "in_txn A sch (snd (deleteByKey n k d))" using in_txn_step [OF Cons.prems(1), of "SDelete n k"] Cons.prems(2) by simp
  show ?case
  proof (cases "deleteByKey n k d")
    case (Pair r d1)
    then have d1: "in_txn A sch d1" using i by simp
    show ?thesis
    proof (cases r)
      case (Inr hit)
      then show ?thesis using Cons.IH [OF d1 Cons.prems(2)] Pair
        by (cases "delete_keys n ks d1"; cases "fst (delete_keys n ks d1)") (auto simp: bindS_def)
    qed (use Pair d1 in \<open>simp add: bindS_def\<close>)
  qed
qed simp

lemma runDelete_txn:
  assumes "in_txn A sch d"
  shows "in_txn A sch (snd (runDelete n e d))"
proof (cases rule: find_table_cases [of n d])
  case (missing err)
  then show ?thesis using assms by (simp add: runDelete_def bindS_def)
next
  case (found t)
  have d: "db_ok d" using assms by (simp add: in_txn_def txn_inv_def)
  have n: "sch n \<noteq> None" using assms found(2) by (auto simp: in_txn_def db_schemas_def)
  show ?thesis
  proof (cases "buildScan t e")
    case (Inl err)
    then show ?thesis using assms found(1) by (simp add: runDelete_def bindS_def)
  next
    case (Inr op)
    have "t \<in> db_tables d" using found(2) by (auto simp only: db_tables_def)
    then have "set (plan_tables (add_filter e op)) \<subseteq> db_tables d" using buildScan_tables [OF Inr] by simp
    then obtain r bq where q: "on_pool (run_plan (add_filter e op)) d = (r, d\<lparr>dpool := bq\<rparr>)" "reads (dpool d) bq"
      by (rule db_plan_reads [OF d]) (rule that)
    have i: "in_txn A sch (d\<lparr>dpool := bq\<rparr>)" by (rule in_txn_reads [OF assms q(2)])
    have keys: "in_txn A sch (snd (bindS (delete_keys n ks) (\<lambda>m. retS (g m)) (d\<lparr>dpool := bq\<rparr>)))" for ks g
      using delete_keys_txn [OF i n, of ks]
      by (cases "delete_keys n ks (d\<lparr>dpool := bq\<rparr>)") (auto simp: bindS_def split: sum.split)
    show ?thesis
    proof (cases r)
      case (Inr rows)
      then show ?thesis using found(1) \<open>buildScan t e = Inr op\<close> q(1) i keys
        by (cases "mapE row_key rows") (simp_all add: runDelete_def bindS_def [where m = "find_table n"]
          bindS_def [where m = "liftS (Inr op)"] bindS_def [where m = "on_pool (run_plan (add_filter e op))"])
    qed (use found(1) Inr q(1) i in \<open>simp add: runDelete_def bindS_def\<close>)
  qed
qed

text \<open>What is asked of a statement: it is not DDL or transaction control, and an INSERT has literals as the parser makes them.\<close>

fun dml_ok :: "(string \<Rightarrow> schema option) \<Rightarrow> statement \<Rightarrow> bool" where
  "dml_ok sch (StInsert n vals) = (case sch n of None \<Rightarrow> True
     | Some cols \<Rightarrow> keyed cols \<and> list_all literal_ok vals
         \<and> (case serialize cols vals of Inr img \<Rightarrow> length img < 65536 | Inl _ \<Rightarrow> True))"
| "dml_ok sch (StSelect s) = True"
| "dml_ok sch (StDelete n e) = True"
| "dml_ok sch _ = False"

lemma runInsert_txn:
  assumes i: "in_txn A sch d" and ok: "dml_ok sch (StInsert n vals)"
  shows "in_txn A sch (snd (runInsert n vals d))"
proof (cases rule: find_table_cases [of n d])
  case (missing err)
  then show ?thesis using i by (simp add: runInsert_def bindS_def)
next
  case (found t)
  have sch: "sch n = Some (tschema t)" using i found(2) by (auto simp: in_txn_def db_schemas_def)
  show ?thesis
  proof (cases "map v_type vals = map ctyp (tschema t)")
    case False
    have "snd (runInsert n vals d) = d"
    proof (cases "length vals = length (tschema t)")
      case True
      then obtain e where "type_check (tschema t) vals = Inl e"
        using False type_check_Inr [of "tschema t" vals] type_check_cases by metis
      then show ?thesis using found True by (simp add: runInsert_def bindS_def)
    qed (use found in \<open>simp add: runInsert_def bindS_def\<close>)
    then show ?thesis using i by simp
  next
    case True
    have len: "length vals = length (tschema t)" by (rule map_eq_imp_length_eq [OF True])
    have tc: "type_check (tschema t) vals = Inr ()" using True len type_check_Inr by metis
    have "row_typed (tschema t) vals" using row_typed_literals [OF True] ok sch by (simp add: list_all_iff)
    then have "stmt_ok sch (SInsert n vals)" using ok sch by (simp add: insertable_def)
    from in_txn_step [OF i this] show ?thesis
      using found(1) len tc by (cases "insertRow n vals d"; cases "fst (insertRow n vals d)") (auto simp: runInsert_def bindS_def)
  qed
qed

lemma execute_txn: "in_txn A sch d \<Longrightarrow> dml_ok sch s \<Longrightarrow> in_txn A sch (snd (execute s d))"
proof (cases s)
  case (StSelect q)
  assume i: "in_txn A sch d"
  have "db_ok d" using i by (simp add: in_txn_def txn_inv_def)
  then obtain r bq where "runSelect q d = (r, d\<lparr>dpool := bq\<rparr>)" "reads (dpool d) bq" by (rule runSelect_reads)
  then show ?thesis using in_txn_reads [OF i] StSelect by simp
qed (auto simp del: dml_ok.simps(1) intro: runInsert_txn runDelete_txn)

lemma session_txn: "in_txn A sch d \<Longrightarrow> \<forall>s \<in> set ss. dml_ok sch s \<Longrightarrow> in_txn A sch (run_session ss d)"
  by (induction ss arbitrary: d) (auto simp: execute_txn)

text \<open>
  C2. Atomicity of ROLLBACK, at the level of SQL: after BEGIN, any sequence of SELECT, INSERT and
  DELETE statements, whether they return or throw, followed by ROLLBACK leaves every table with
  the rows it had, heap and index in agreement and no transaction open. Nothing is asked of the
  queries and WHERE clauses: unknown tables, ambiguous columns and type errors included. An INSERT
  carries literals and has an image under 64 KiB, if its table exists, which has a key column.
\<close>

theorem sql_rollback_restores:
  assumes "db_ok d" "cur_txn d = INVALID_TXN" "0 < next_txn d" "\<forall>s \<in> set ss. dml_ok (db_schemas d) s"
  shows "\<exists>d1 d2. execute StBegin d = (Inr (msg_result ''BEGIN''), d1)
    \<and> execute StRollback (run_session ss d1) = (Inr (msg_result ''ROLLBACK''), d2)
    \<and> db_ok d2 \<and> db_contents d2 = db_contents d \<and> db_schemas d2 = db_schemas d \<and> cur_txn d2 = INVALID_TXN"
proof -
  obtain d1 where d1: "db_begin d = (Inr (), d1)" "txn_inv (db_contents d) d1" "cur_txn d1 \<noteq> INVALID_TXN"
      "db_schemas d1 = db_schemas d"
    by (rule begin_ok [OF assms(1-3)]) (rule that)
  then have "in_txn (db_contents d) (db_schemas d) d1" by (simp add: in_txn_def)
  from session_txn [OF this assms(4)] have i: "txn_inv (db_contents d) (run_session ss d1)"
      "cur_txn (run_session ss d1) \<noteq> INVALID_TXN" "db_schemas (run_session ss d1) = db_schemas d"
    by (simp_all add: in_txn_def)
  obtain d2 where "db_rollback (run_session ss d1) = (Inr (), d2)" "db_ok d2" "db_contents d2 = db_contents d"
      "cur_txn d2 = INVALID_TXN" "db_schemas d2 = db_schemas (run_session ss d1)"
    by (rule rollback_ok [OF i(1,2)]) (rule that)
  then show ?thesis using d1(1) i(3) by (simp add: bindS_def)
qed

theorem sql_rollback_restores_witness:
  "\<exists>d1 d2. execute StBegin sample_db = (Inr (msg_result ''BEGIN''), d1)
    \<and> execute StRollback (run_session [StInsert ''t'' row_a, StInsert ''t'' row_a,
        StDelete ''t'' (Some (ECmp ''nosuch'' OP_EQ (makeInt 1))), StDelete ''t'' None, StInsert ''t'' row_a] d1)
      = (Inr (msg_result ''ROLLBACK''), d2) \<and> db_contents d2 = db_contents sample_db"
proof -
  have "dml_ok (db_schemas sample_db) (StInsert ''t'' row_a)"
    using sample_insertable [of 7 "''a''"] sample_db_ok(4)
    by (simp add: insertable_def literal_ok_def val_ok_def makeInt_def makeText_def in_int64_def)
  then show ?thesis using sql_rollback_restores [OF sample_db_ok(1,2), of "[StInsert ''t'' row_a, StInsert ''t'' row_a,
      StDelete ''t'' (Some (ECmp ''nosuch'' OP_EQ (makeInt 1))), StDelete ''t'' None, StInsert ''t'' row_a]"] sample_db_ok(3)
    by (auto simp del: dml_ok.simps(1))
qed

end
