(* ===== verification/Repl.thy ===== *)
theory Repl
  imports Session
begin

text \<open>
  \<open>main.cpp\<close>: the read-execute-print loop over one database. Input is the list of lines
  \<open>getline\<close> delivers; output is the text written to stdout, in order. The two notices on stderr
  are left out.
\<close>

definition is_blank :: "char \<Rightarrow> bool" where
  "is_blank c \<longleftrightarrow> c \<in> {CHR '' '', CHR 0x09, CHR 0x0D, CHR 0x0A}"

definition upper :: "string \<Rightarrow> string" where
  "upper s = map to_upper s"

definition trim :: "string \<Rightarrow> string" where
  "trim s = rev (dropWhile is_blank (rev (dropWhile is_blank s)))"

section \<open>Printing a result\<close>

text \<open>Column widths. A row longer than the header would index \<open>w\<close> out of range.\<close>

definition widen :: "nat list \<Rightarrow> val list \<Rightarrow> db_error + nat list" where
  "widen w row =
     (if length w < length row then Inl MemFault
      else Inr (map2 max (take (length row) w) (map (\<lambda>v. length (val_toString v)) row) @ drop (length row) w))"

fun widths :: "nat list \<Rightarrow> val list list \<Rightarrow> db_error + nat list" where
  "widths w [] = Inr w"
| "widths w (row # rows) = bindE (widen w row) (\<lambda>w. widths w rows)"

abbreviation newline :: string where "newline \<equiv> [CHR 0x0A]"

definition rule_line :: "nat list \<Rightarrow> string" where
  "rule_line w = ''+'' @ concat (map (\<lambda>n. replicate (n + 2) (CHR ''-'') @ ''+'') w) @ newline"

definition cell :: "string \<Rightarrow> nat \<Rightarrow> string" where
  "cell s n = '' '' @ s @ replicate (n - length s) (CHR '' '') @ '' |''"

definition text_line :: "string list \<Rightarrow> nat list \<Rightarrow> string" where
  "text_line cells w = ''|'' @ concat (map2 cell cells w) @ newline"

definition printResult :: "exec_result \<Rightarrow> db_error + string" where
  "printResult r =
     (if \<not> is_query r then Inr (message r @ newline)
      else bindE (widths (map length (res_columns r)) (res_rows r)) (\<lambda>w.
        Inr (rule_line w @ text_line (res_columns r) w @ rule_line w
          @ concat (map (\<lambda>row. text_line (map val_toString row) w) (res_rows r)) @ rule_line w
          @ ''('' @ dec_of_nat (length (res_rows r)) @ '' row'' @ (if length (res_rows r) = 1 then [] else ''s'')
          @ '')'' @ newline)))"

section \<open>The loop\<close>

text \<open>
  What is written for one statement: the result, or \<open>ERROR: \<close> and the exception's text. A fault
  is no exception: there the model ends, as \<open>None\<close>.
\<close>

datatype echo = Printed string | Error db_error

type_synonym screen = "db \<times> echo list"

definition run_result :: "(db_error + string) \<times> db \<Rightarrow> echo list \<Rightarrow> screen option" where
  "run_result res out = (case res of
     (Inr s, d) \<Rightarrow> Some (d, out @ [Printed s])
   | (Inl MemFault, d) \<Rightarrow> None
   | (Inl e, d) \<Rightarrow> Some (d, out @ [Error e]))"

definition run_statement :: "statement \<Rightarrow> (db, string) stm" where
  "run_statement st = bindS (execute st) (\<lambda>r. liftS (printResult r))"

definition run_text :: "string \<Rightarrow> screen \<Rightarrow> screen option" where
  "run_text stmt = (\<lambda>(d, out). run_result (bindS (liftS (parse_sql stmt)) run_statement d) out)"

text \<open>The text up to the first semicolon, and what follows it.\<close>

abbreviation semi :: char where "semi \<equiv> CHR '';''"

definition split_stmt :: "string \<Rightarrow> (string \<times> string) option" where
  "split_stmt buf = (case dropWhile (\<lambda>c. c \<noteq> semi) buf of
     [] \<Rightarrow> None | c # rest \<Rightarrow> Some (takeWhile (\<lambda>c. c \<noteq> semi) buf @ [c], rest))"

lemma split_stmt_length: "split_stmt buf = Some (s, rest) \<Longrightarrow> length rest < length buf"
  using length_dropWhile_le [of "\<lambda>c. c \<noteq> semi" buf] by (auto simp: split_stmt_def split: list.splits)

function drain_buffer :: "string \<Rightarrow> screen \<Rightarrow> (string \<times> screen) option" where
  "drain_buffer buf s = (case split_stmt buf of
     None \<Rightarrow> Some (buf, s)
   | Some (stmt, rest) \<Rightarrow>
       if trim stmt = [semi] then drain_buffer rest s
       else (case run_text stmt s of None \<Rightarrow> None | Some s \<Rightarrow> drain_buffer rest s))"
  by pat_completeness auto
termination
  by (relation "measure (\<lambda>(buf, s). length buf)") (auto intro: split_stmt_length)

declare drain_buffer.simps [simp del]

text \<open>
  How the program ends: after \<open>db.flush()\<close>, by the simulated crash, or by an exception of the flush.
  The output is what was handed to \<open>std::cout\<close>; \<open>std::_Exit\<close> does not flush that stream, so after a
  crash what reaches the terminal or file is a prefix of it.
\<close>

datatype exit = Flushed | Crashed | Uncaught db_error

definition finish :: "screen \<Rightarrow> exit \<times> screen" where
  "finish = (\<lambda>(d, out). case db_flush d of
     (Inr _, d) \<Rightarrow> (Flushed, d, out) | (Inl e, d) \<Rightarrow> (Uncaught e, d, out))"

fun repl :: "string list \<Rightarrow> string \<Rightarrow> screen \<Rightarrow> (exit \<times> screen) option" where
  "repl [] buf s = Some (finish s)"
| "repl (line # ls) buf s =
     (let cmd = upper (trim line)
      in if cmd \<in> {''EXIT'', ''QUIT'', ''.EXIT''} then Some (finish s)
         else if cmd = ''CRASH'' then Some (Crashed, s)
         else (case drain_buffer (buf @ line @ newline) s of
           None \<Rightarrow> None | Some (buf, s) \<Rightarrow> repl ls buf s))"

section \<open>Statements given as text\<close>

text \<open>The same statements as syntax trees.\<close>

fun run_parsed :: "statement list \<Rightarrow> screen \<Rightarrow> screen option" where
  "run_parsed [] s = Some s"
| "run_parsed (st # sts) (d, out) = Option.bind (run_result (run_statement st d) out) (run_parsed sts)"

lemma tokenize_blanks: "list_all is_space ws \<Longrightarrow> tokenize (ws @ src) = tokenize src"
  by (induction ws) (simp_all add: tokenize.simps(2))

lemma tokenize_toks: "list_all lexable ts \<Longrightarrow>
    tokenize (toks_src ts @ rest) = bindE (tokenize rest) (\<lambda>us. Inr (ts @ us))"
proof (induction ts)
  case Nil
  show ?case by (cases "tokenize rest") (simp_all add: toks_src_def)
next
  case (Cons t ts)
  have "toks_src (t # ts) @ rest = tok_src t @ blank # toks_src ts @ rest" by (simp add: toks_src_def)
  then show ?case using Cons by (cases "tokenize rest") (simp_all add: tokenize_token)
qed

text \<open>A statement's text up to its semicolon, behind white space.\<close>

definition body_text :: "statement \<Rightarrow> string" where
  "body_text s = toks_src (stmt_toks s)"

lemma sql_text_body: "sql_text s = body_text s @ [semi, blank]"
  by (simp add: sql_text_def body_text_def toks_src_def tok_src_def)

lemma parse_body:
  assumes "printable s" "list_all is_space ws"
  shows "parse_sql (ws @ body_text s @ [semi]) = Inr s"
proof -
  have l: "list_all lexable (stmt_toks s)" using assms(1) by (simp add: printable_def)
  have "tokenize [semi] = Inr [semi_tok, end_tok]"
    by (simp add: tokenize.simps(2) is_space_def is_alpha_def is_digit_def punct_def)
  then have "tokenize (ws @ body_text s @ [semi]) = Inr (stmt_toks s @ [semi_tok, end_tok])"
    using tokenize_blanks [OF assms(2)] tokenize_toks [OF l] by (simp add: body_text_def)
  then show ?thesis using parse_print assms(1) by (simp add: parse_sql_def printable_def)
qed

lemma split_stmt_body:
  "semi \<notin> set src \<Longrightarrow> split_stmt (src @ semi # rest) = Some (src @ [semi], rest)"
  by (induction src) (auto simp: split_stmt_def split: list.splits)

lemma split_stmt_none:
  assumes "semi \<notin> set src"
  shows "split_stmt src = None"
proof -
  have "\<forall>c \<in> set src. c \<noteq> semi" using assms by blast
  then have "dropWhile (\<lambda>c. c \<noteq> semi) src = []" by (simp only: dropWhile_eq_Nil_conv)
  then show ?thesis by (simp only: split_stmt_def list.case)
qed

lemma in_dropWhile: "c \<in> set xs \<Longrightarrow> \<not> P c \<Longrightarrow> c \<in> set (dropWhile P xs)"
  by (induction xs) auto

lemma trim_keeps: "c \<in> set s \<Longrightarrow> \<not> is_blank c \<Longrightarrow> c \<in> set (trim s)"
  by (simp add: trim_def in_dropWhile)

lemma body_visible: "\<exists>c \<in> set (body_text s). \<not> is_blank c \<and> c \<noteq> semi"
proof -
  have "\<exists>t ts. stmt_toks s = t # ts \<and> t_type t \<noteq> TK_STR_LIT \<and> (\<exists>c \<in> set (t_text t). \<not> is_blank c \<and> c \<noteq> semi)"
    by (cases s) (simp_all add: is_blank_def)
  then obtain t ts c where "stmt_toks s = t # ts" "t_type t \<noteq> TK_STR_LIT" "c \<in> set (t_text t)" "\<not> is_blank c" "c \<noteq> semi" by blast
  then have "c \<in> set (body_text s)" by (simp add: body_text_def toks_src_def tok_src_def)
  then show ?thesis using \<open>\<not> is_blank c\<close> \<open>c \<noteq> semi\<close> by blast
qed

text \<open>A command word has no semicolon.\<close>

lemma not_command:
  assumes "semi \<in> set line"
  shows "upper (trim line) \<notin> {''EXIT'', ''QUIT'', ''.EXIT'', ''CRASH''}"
proof -
  have "semi \<in> set (trim line)" using trim_keeps [OF assms] by (simp add: is_blank_def)
  then have "to_upper semi \<in> set (upper (trim line))" by (simp add: upper_def)
  moreover have "to_upper semi = semi" by (simp add: to_upper_def)
  ultimately show ?thesis by auto
qed

lemma drain_statement:
  assumes "printable s" "semi \<notin> set (body_text s)" "list_all is_space ws" "semi \<notin> set ws"
  shows "drain_buffer (ws @ body_text s @ semi # tail) (d, out) =
    Option.bind (run_result (run_statement s d) out) (drain_buffer tail)"
proof -
  have sp: "split_stmt (ws @ body_text s @ semi # tail) = Some (ws @ body_text s @ [semi], tail)"
    using split_stmt_body [of "ws @ body_text s" tail] assms by simp
  obtain c where "c \<in> set (body_text s)" "\<not> is_blank c" "c \<noteq> semi" using body_visible by blast
  then have "c \<in> set (trim (ws @ body_text s @ [semi]))" "c \<noteq> semi" by (simp_all add: trim_keeps)
  then have tr: "trim (ws @ body_text s @ [semi]) \<noteq> [semi]" by auto
  have r: "run_text (ws @ body_text s @ [semi]) (d, out) = run_result (run_statement s d) out"
    using parse_body [OF assms(1,3)] by (simp add: run_text_def bindS_def)
  show ?thesis by (subst drain_buffer.simps) (simp add: sp tr r split: option.split)
qed

definition texts :: "statement list \<Rightarrow> string" where
  "texts sts = concat (map sql_text sts)"

lemma drain_texts:
  assumes "\<forall>s \<in> set sts. printable s \<and> semi \<notin> set (body_text s)" "list_all is_space ws" "semi \<notin> set ws"
  obtains tail where "list_all is_space tail" "semi \<notin> set tail"
    "\<And>sc. drain_buffer (ws @ texts sts @ newline) sc = map_option (Pair tail) (run_parsed sts sc)"
  using assms
proof (induction sts arbitrary: ws thesis)
  case Nil
  have "drain_buffer (ws @ newline) sc = Some (ws @ newline, sc)" for sc
    by (subst drain_buffer.simps) (use Nil.prems in \<open>simp add: split_stmt_none\<close>)
  then show ?case using Nil.prems by (intro Nil.prems(1) [of "ws @ newline"]) (simp_all add: texts_def is_space_def)
next
  case (Cons s sts)
  have b: "list_all is_space [blank]" "semi \<notin> set [blank]" by (simp_all add: is_space_def)
  have prem: "\<forall>s \<in> set sts. printable s \<and> semi \<notin> set (body_text s)" using Cons.prems(2) by simp
  obtain tail where tail: "list_all is_space tail" "semi \<notin> set tail"
      "\<And>sc. drain_buffer ([blank] @ texts sts @ newline) sc = map_option (Pair tail) (run_parsed sts sc)"
    by (rule Cons.IH [OF _ prem b]) (rule that)
  have "drain_buffer (ws @ texts (s # sts) @ newline) sc = map_option (Pair tail) (run_parsed (s # sts) sc)" for sc
  proof -
    obtain d out where sc: "sc = (d, out)" by (cases sc)
    have "ws @ texts (s # sts) @ newline = ws @ body_text s @ semi # [blank] @ texts sts @ newline"
      by (simp add: texts_def sql_text_body)
    then show ?thesis
      using drain_statement [of s ws "[blank] @ texts sts @ newline" d out] Cons.prems(2-4) tail(3)
      by (cases "run_result (run_statement s d) out") (simp_all add: sc)
  qed
  then show ?case by (rule Cons.prems(1) [OF tail(1,2)])
qed

lemma texts_not_command: "upper (trim (texts sts)) \<notin> {''EXIT'', ''QUIT'', ''.EXIT'', ''CRASH''}"
proof (cases sts)
  case (Cons s rest)
  then have "semi \<in> set (texts sts)" by (simp add: texts_def sql_text_body)
  then show ?thesis by (rule not_command)
qed (simp add: texts_def trim_def upper_def)

lemma run_parsed_append: "run_parsed (xs @ ys) sc = Option.bind (run_parsed xs sc) (run_parsed ys)"
proof (induction xs arbitrary: sc)
  case (Cons x xs)
  then show ?case by (cases sc; cases "run_result (run_statement x (fst sc)) (snd sc)") auto
qed simp

text \<open>
  C20. The read loop is faithful: printable statements entered as their canonical text, none with a
  semicolon in a string literal, any number to a line, have the effect and the output of executing
  their syntax trees one after the other and flushing at the end of the input.
\<close>

theorem repl_runs_text:
  assumes "\<forall>s \<in> set (concat groups). printable s \<and> semi \<notin> set (body_text s)"
  shows "repl (map texts groups) [] sc = map_option finish (run_parsed (concat groups) sc)"
proof -
  have "repl (map texts groups) ws sc = map_option finish (run_parsed (concat groups) sc)"
    if "list_all is_space ws" "semi \<notin> set ws" for ws
    using assms that
  proof (induction groups arbitrary: ws sc)
    case (Cons g groups)
    obtain tail where tail: "list_all is_space tail" "semi \<notin> set tail"
        "\<And>sc. drain_buffer (ws @ texts g @ newline) sc = map_option (Pair tail) (run_parsed g sc)"
      by (rule drain_texts [of g ws]) (use Cons.prems in auto)
    have "repl (map texts groups) tail sc' = map_option finish (run_parsed (concat groups) sc')" for sc'
      by (rule Cons.IH) (use Cons.prems tail in auto)
    then show ?case using texts_not_command [of g] tail(3) [of sc]
      by (cases "run_parsed g sc") (simp_all add: Let_def run_parsed_append)
  qed simp
  then show ?thesis by simp
qed

theorem repl_runs_text_witness:
  "repl [''BEGIN ; INSERT INTO t VALUES ( 7 , '' @ [quote] @ ''a'' @ [quote] @ '' ) ; '', ''ROLLBACK ; ''] [] (sample_db, [])
    = map_option finish (run_parsed [StBegin, StInsert ''t'' row_a, StRollback] (sample_db, []))"
proof -
  let ?groups = "[[StBegin, StInsert ''t'' row_a], [StRollback]]"
  have t: "map texts ?groups
      = [''BEGIN ; INSERT INTO t VALUES ( 7 , '' @ [quote] @ ''a'' @ [quote] @ '' ) ; '', ''ROLLBACK ; '']"
    by code_simp
  have "\<forall>s \<in> set (concat ?groups). printable s \<and> semi \<notin> set (body_text s)" by code_simp
  from repl_runs_text [OF this, of "(sample_db, [])"] show ?thesis unfolding t by simp
qed

text \<open>
  C39. The buffer is cut at the first semicolon even when it lies inside a string literal: the
  statement then fails with an unterminated literal, and what follows the semicolon is taken for
  the next statement.
\<close>

theorem semicolon_in_literal_splits:
  assumes "list_all lexable ts" "semi \<notin> set (toks_src ts)" "list_all in_string u" "semi \<notin> set u"
  shows "split_stmt (toks_src ts @ quote # u @ semi # rest) = Some (toks_src ts @ quote # u @ [semi], rest)
    \<and> run_text (toks_src ts @ quote # u @ [semi]) (d, out) = Some (d, out @ [Error (RuntimeError ''unterminated string literal'')])"
proof -
  have q: "semi \<notin> set (toks_src ts @ quote # u)" using assms by simp
  have "\<forall>c \<in> set (u @ [semi]). in_string c" using assms(3) by (auto simp: list_all_iff in_string_def)
  then have "dropWhile in_string (u @ [semi]) = []" by (simp only: dropWhile_eq_Nil_conv)
  then have "tokenize (quote # u @ [semi]) = Inl (RuntimeError ''unterminated string literal'')"
    by (simp add: tokenize.simps(2) is_space_def is_alpha_def is_digit_def peek_char_def Let_def del: dropWhile_append)
  then have "tokenize (toks_src ts @ quote # u @ [semi]) = Inl (RuntimeError ''unterminated string literal'')"
    using tokenize_toks [OF assms(1)] by simp
  then have "parse_sql (toks_src ts @ quote # u @ [semi]) = Inl (RuntimeError ''unterminated string literal'')"
    by (simp add: parse_sql_def)
  then show ?thesis using split_stmt_body [OF q, of rest] by (simp add: run_text_def run_result_def bindS_def)
qed

theorem semicolon_in_literal_splits_witness:
  "split_stmt (''INSERT INTO t VALUES ( 1 , '' @ quote # ''a;b'' @ quote # '' ) ;'')
      = Some (''INSERT INTO t VALUES ( 1 , '' @ quote # ''a;'', ''b'' @ quote # '' ) ;'')
    \<and> run_text (''INSERT INTO t VALUES ( 1 , '' @ quote # ''a;'') (sample_db, [])
      = Some (sample_db, [Error (RuntimeError ''unterminated string literal'')])"
proof -
  let ?ts = "[mk_tok TK_INSERT ''INSERT'', mk_tok TK_INTO ''INTO'', mk_tok TK_IDENT ''t'', mk_tok TK_VALUES ''VALUES'',
    mk_tok TK_LPAREN ''('', \<lparr>t_type = TK_INT_LIT, t_text = ''1'', t_ival = 1\<rparr>, mk_tok TK_COMMA '','']"
  have t: "toks_src ?ts = ''INSERT INTO t VALUES ( 1 , ''" by code_simp
  have "list_all lexable ?ts" "semi \<notin> set (toks_src ?ts)" "list_all in_string ''a''" "semi \<notin> set ''a''" by code_simp+
  from semicolon_in_literal_splits [OF this, of "''b'' @ quote # '' ) ;''" sample_db "[]"] show ?thesis by (simp add: t)
qed

end
