(* ===== verification/Lab3_ClockCache.thy ===== *)
theory Lab3_ClockCache
  imports Common "HOL-Library.Word"
begin

text \<open>
  \<open>LAB-3/sol.cpp\<close>: \<open>ClockSweepCache<T, V>\<close>. A reference count is a \<open>uint32_t\<close>, so the increment in
  \<open>getKey\<close> wraps; an index outside \<open>frames\<close>, undefined in C++, is \<open>None\<close>. The properties: \<open>putKey\<close>
  terminates and replaces exactly one frame, and a key that is put twice leaves its old value in
  front of the new one.
\<close>

section \<open>State and operations\<close>

record ('k, 'v) cframe =
  fr_key :: 'k
  fr_value :: 'v
  usageCount :: "32 word"
  fr_valid :: bool

record ('k, 'v) cache =
  maxCacheSize :: nat
  clockHand :: nat
  frames :: "('k, 'v) cframe list"

text \<open>The frames start with a value-initialised key and value. A capacity of 0 throws.\<close>

definition cache_new :: "'k \<Rightarrow> 'v \<Rightarrow> nat \<Rightarrow> ('k, 'v) cache option" where
  "cache_new k0 v0 capacity =
     (if capacity = 0 then None
      else Some \<lparr>maxCacheSize = capacity, clockHand = 0,
        frames = replicate capacity \<lparr>fr_key = k0, fr_value = v0, usageCount = 0, fr_valid = False\<rparr>\<rparr>)"

definition updateClock :: "('k, 'v) cache \<Rightarrow> ('k, 'v) cache" where
  "updateClock c = c\<lparr>clockHand := (clockHand c + 1) mod maxCacheSize c\<rparr>"

definition set_frame :: "('k, 'v) cframe \<Rightarrow> ('k, 'v) cache \<Rightarrow> ('k, 'v) cache" where
  "set_frame fr c = c\<lparr>frames := (frames c)[clockHand c := fr]\<rparr>"

definition uses :: "('k, 'v) cache \<Rightarrow> nat" where
  "uses c = sum_list (map (\<lambda>fr. unat (usageCount fr)) (frames c))"

lemma sum_list_update_less:
  fixes f :: "'a \<Rightarrow> nat"
  shows "i < length xs \<Longrightarrow> f x < f (xs ! i) \<Longrightarrow> sum_list (map f (xs[i := x])) < sum_list (map f xs)"
  by (induction xs arbitrary: i) (auto split: nat.split)

lemma unat_dec: "w \<noteq> 0 \<Longrightarrow> unat (w - 1) = unat w - 1 \<and> 0 < unat w" for w :: "'a::len word"
  by (simp add: unat_minus_one unat_gt_0)

text \<open>One call is a \<open>while (true)\<close> loop; every round that goes on lowers a reference count.\<close>

function putKey :: "'k \<Rightarrow> 'v \<Rightarrow> ('k, 'v) cache \<Rightarrow> ('k, 'v) cache option" where
  "putKey k v c =
     (if clockHand c < length (frames c)
      then let fr = frames c ! clockHand c;
               new = updateClock (set_frame (fr\<lparr>fr_key := k, fr_value := v, fr_valid := True, usageCount := 1\<rparr>) c)
           in if \<not> fr_valid fr then Some new
              else if usageCount fr > 0
                   then putKey k v (updateClock (set_frame (fr\<lparr>usageCount := usageCount fr - 1\<rparr>) c))
                   else Some new
      else None)"
  by pat_completeness auto
termination
proof (relation "measure (\<lambda>(k, v, c). uses c)", goal_cases)
  case (2 k v c fr new)
  then have "unat (usageCount fr - 1) < unat (usageCount fr)"
    using unat_dec [of "usageCount fr"] by (auto simp: word_gt_0)
  then show ?case using 2 by (simp add: uses_def updateClock_def set_frame_def sum_list_update_less)
qed simp

declare putKey.simps [simp del]

text \<open>The first valid frame with the key is used once more and gives the result.\<close>

fun touch :: "'k \<Rightarrow> ('k, 'v) cframe list \<Rightarrow> 'v option \<times> ('k, 'v) cframe list" where
  "touch k [] = (None, [])"
| "touch k (fr # frs) =
     (if fr_valid fr \<and> fr_key fr = k then (Some (fr_value fr), fr\<lparr>usageCount := usageCount fr + 1\<rparr> # frs)
      else let (r, frs') = touch k frs in (r, fr # frs'))"

definition getKey :: "'k \<Rightarrow> ('k, 'v) cache \<Rightarrow> 'v option \<times> ('k, 'v) cache" where
  "getKey k c = (let (r, frs) = touch k (frames c) in (r, c\<lparr>frames := frs\<rparr>))"

text \<open>\<open>printState\<close>, with \<open>operator<<\<close> of keys and values as arguments.\<close>

definition print_frame :: "('k \<Rightarrow> string) \<Rightarrow> ('v \<Rightarrow> string) \<Rightarrow> nat \<Rightarrow> nat \<Rightarrow> ('k, 'v) cframe \<Rightarrow> string" where
  "print_frame showk showv hand i fr =
     ''['' @ dec_of_nat i @ ''] ''
     @ (if fr_valid fr then ''K='' @ showk (fr_key fr) @ '' V='' @ showv (fr_value fr) @ '' Ref='' @ dec_of_nat (unat (usageCount fr))
        else ''EMPTY SLOT'')
     @ (if i = hand then '' <-- clock'' else []) @ [CHR 0x0A]"

definition printState :: "('k \<Rightarrow> string) \<Rightarrow> ('v \<Rightarrow> string) \<Rightarrow> ('k, 'v) cache \<Rightarrow> string option" where
  "printState showk showv c =
     (if maxCacheSize c \<le> length (frames c)
      then Some ([CHR 0x0A] @ ''--- Current Cache State ---'' @ [CHR 0x0A]
        @ concat (map (\<lambda>i. print_frame showk showv (clockHand c) i (frames c ! i)) [0..<maxCacheSize c]))
      else None)"

section \<open>The sweep\<close>

definition cache_ok :: "('k, 'v) cache \<Rightarrow> bool" where
  "cache_ok c \<longleftrightarrow> 0 < maxCacheSize c \<and> length (frames c) = maxCacheSize c \<and> clockHand c < maxCacheSize c"

lemma cache_new_ok: "cache_new k0 v0 n = Some c \<Longrightarrow> cache_ok c"
  by (auto simp: cache_new_def cache_ok_def split: if_splits)

text \<open>Frame \<open>j\<close> was replaced, and the others kept their entries.\<close>

definition replaced :: "'k \<Rightarrow> 'v \<Rightarrow> nat \<Rightarrow> ('k, 'v) cache \<Rightarrow> ('k, 'v) cache \<Rightarrow> bool" where
  "replaced k v j c c' \<longleftrightarrow> j < maxCacheSize c \<and> maxCacheSize c' = maxCacheSize c
     \<and> length (frames c') = length (frames c) \<and> clockHand c' = (j + 1) mod maxCacheSize c
     \<and> frames c' ! j = \<lparr>fr_key = k, fr_value = v, usageCount = 1, fr_valid = True\<rparr>
     \<and> (\<forall>i < length (frames c). i \<noteq> j \<longrightarrow> fr_key (frames c' ! i) = fr_key (frames c ! i)
         \<and> fr_value (frames c' ! i) = fr_value (frames c ! i) \<and> fr_valid (frames c' ! i) = fr_valid (frames c ! i)
         \<and> usageCount (frames c' ! i) \<le> usageCount (frames c ! i))"

lemma putKey_replaces: "cache_ok c \<Longrightarrow> \<exists>c' j. putKey k v c = Some c' \<and> replaced k v j c c'"
proof (induction k v c rule: putKey.induct)
  case (1 k v c)
  let ?h = "clockHand c" and ?fr = "frames c ! clockHand c"
  let ?new = "updateClock (set_frame (?fr\<lparr>fr_key := k, fr_value := v, fr_valid := True, usageCount := 1\<rparr>) c)"
  have h: "?h < length (frames c)" using "1.prems" by (simp add: cache_ok_def)
  show ?case
  proof (cases "fr_valid ?fr \<and> usageCount ?fr > 0")
    case False
    then have "putKey k v c = Some ?new" using h by (subst putKey.simps) (auto simp: Let_def)
    moreover have "replaced k v ?h c ?new"
      using "1.prems" h by (auto simp: replaced_def cache_ok_def updateClock_def set_frame_def)
    ultimately show ?thesis by blast
  next
    case True
    let ?c = "updateClock (set_frame (?fr\<lparr>usageCount := usageCount ?fr - 1\<rparr>) c)"
    have "cache_ok ?c" using "1.prems" by (simp add: cache_ok_def updateClock_def set_frame_def)
    with "1.IH" [OF h refl refl] True obtain c' j where c': "putKey k v ?c = Some c'" "replaced k v j ?c c'" by auto
    have "usageCount ?fr - 1 \<le> usageCount ?fr" using True by (simp add: word_le_nat_alt unat_dec word_gt_0)
    then have "replaced k v j c c'"
      using c'(2) h by (auto simp: replaced_def updateClock_def set_frame_def nth_list_update split: if_splits)
    moreover have "putKey k v c = Some c'" using h True c'(1) by (subst putKey.simps) (simp add: Let_def)
    ultimately show ?thesis by blast
  qed
qed

lemma touch_find: "fst (touch k frs) = map_option fr_value (find (\<lambda>fr. fr_valid fr \<and> fr_key fr = k) frs)"
  by (induction frs) (auto simp: split_beta Let_def)

lemma find_unique:
  assumes "j < length xs" "P (xs ! j)" "\<And>i. i < length xs \<Longrightarrow> i \<noteq> j \<Longrightarrow> \<not> P (xs ! i)"
  shows "find P xs = Some (xs ! j)"
proof -
  have "\<exists>i < length xs. P (xs ! i) \<and> xs ! j = xs ! i \<and> (\<forall>m < i. \<not> P (xs ! m))"
    using assms by (intro exI [of _ j]) auto
  then show ?thesis by (simp add: find_Some_iff)
qed

section \<open>Properties\<close>

text \<open>
  C36. \<open>putKey\<close> returns on every cache, whatever its reference counts: it puts the pair into exactly
  one frame with count 1, leaves the hand behind it, changes no other entry and raises no
  count; and a key that was not cached is then found with its value.
\<close>

theorem putKey_correct:
  assumes "cache_ok c"
  shows "\<exists>c' j. putKey k v c = Some c' \<and> cache_ok c' \<and> replaced k v j c c'
    \<and> (fst (getKey k c) = None \<longrightarrow> fst (getKey k c') = Some v)"
proof -
  obtain c' j where c': "putKey k v c = Some c'" "replaced k v j c c'" using putKey_replaces [OF assms] by blast
  have "cache_ok c'" using assms c'(2) by (auto simp: replaced_def cache_ok_def)
  moreover have "fst (getKey k c') = Some v" if "fst (getKey k c) = None"
  proof -
    have none: "\<not> (fr_valid fr \<and> fr_key fr = k)" if "fr \<in> set (frames c)" for fr
      using \<open>fst (getKey k c) = None\<close> that by (auto simp: getKey_def split_beta touch_find find_None_iff)
    have j: "j < length (frames c')" "frames c' ! j = \<lparr>fr_key = k, fr_value = v, usageCount = 1, fr_valid = True\<rparr>"
      using c'(2) assms by (auto simp: replaced_def cache_ok_def)
    have "find (\<lambda>fr. fr_valid fr \<and> fr_key fr = k) (frames c') = Some (frames c' ! j)"
    proof (rule find_unique [OF j(1)])
      show "fr_valid (frames c' ! j) \<and> fr_key (frames c' ! j) = k" using j(2) by simp
      show "\<not> (fr_valid (frames c' ! i) \<and> fr_key (frames c' ! i) = k)" if "i < length (frames c')" "i \<noteq> j" for i
        using that c'(2) none [of "frames c ! i"] by (auto simp: replaced_def)
    qed
    then show ?thesis using j(2) by (simp add: getKey_def split_beta touch_find)
  qed
  ultimately show ?thesis using c' by (intro exI [of _ c'] exI [of _ j]) simp
qed

theorem putKey_correct_witness:
  "\<exists>c c' j. cache_new (0::int) (0::int) 2 = Some c \<and> putKey 7 70 c = Some c' \<and> replaced 7 70 j c c' \<and> fst (getKey 7 c') = Some 70"
proof -
  obtain c where c: "cache_new (0::int) (0::int) 2 = Some c" "fst (getKey 7 c) = None"
    by (simp add: cache_new_def getKey_def touch_find split_beta numeral_2_eq_2)
  from putKey_correct [OF cache_new_ok [OF c(1)], of 7 70] c show ?thesis by blast
qed

text \<open>
  \<open>putKey\<close> does not look for the key it is given: a second value for a cached key goes into the
  next frame, and \<open>getKey\<close> keeps returning the first.
\<close>

theorem putKey_twice_stale:
  assumes "cache_new k0 v0 n = Some c" "2 \<le> n"
  shows "\<exists>c1 c2. putKey k v1 c = Some c1 \<and> putKey k v2 c1 = Some c2 \<and> fst (getKey k c2) = Some v1"
proof -
  obtain m where n: "n = Suc (Suc m)" using assms(2) by (metis add_2_eq_Suc le_Suc_ex)
  let ?old = "\<lparr>fr_key = k0, fr_value = v0, usageCount = 0, fr_valid = False\<rparr>"
  let ?new = "\<lambda>v. \<lparr>fr_key = k, fr_value = v, usageCount = 1, fr_valid = True\<rparr>"
  let ?c1 = "\<lparr>maxCacheSize = n, clockHand = 1, frames = ?new v1 # replicate (Suc m) ?old\<rparr>"
  let ?c2 = "\<lparr>maxCacheSize = n, clockHand = 2 mod n, frames = ?new v1 # ?new v2 # replicate m ?old\<rparr>"
  have "putKey k v1 c = Some ?c1" using assms(1) n
    by (subst putKey.simps) (auto simp: cache_new_def updateClock_def set_frame_def Let_def)
  moreover have "putKey k v2 ?c1 = Some ?c2" using n
    by (subst putKey.simps) (simp add: updateClock_def set_frame_def Let_def numeral_2_eq_2)
  moreover have "fst (getKey k ?c2) = Some v1" by (simp add: getKey_def touch_find)
  ultimately show ?thesis by blast
qed

theorem putKey_twice_stale_witness:
  "\<exists>c c1 c2. cache_new (0::int) (0::int) 4 = Some c \<and> putKey 10 1000 c = Some c1 \<and> putKey 10 2000 c1 = Some c2
    \<and> fst (getKey 10 c2) = Some 1000"
proof -
  obtain c where c: "cache_new (0::int) (0::int) 4 = Some c" by (simp add: cache_new_def)
  from putKey_twice_stale [OF c, of 10 1000 2000] c show ?thesis by auto
qed

end
