(* ===== verification/Inserts.thy ===== *)
theory Inserts
  imports "HOL-Library.Multiset"
begin

text \<open>
  The contract of a structure that is filled by insertions: an insertion succeeds on every
  represented state and refines an update of the abstract contents, and a search answers from
  them. The red-black tree and the B-tree of the exercises interpret it.
\<close>

text \<open>Insertions one after the other.\<close>

fun ins_all :: "('k \<Rightarrow> 's \<Rightarrow> 's option) \<Rightarrow> 'k list \<Rightarrow> 's \<Rightarrow> 's option" where
  "ins_all ins [] s = Some s"
| "ins_all ins (k # ks) s = Option.bind (ins k s) (ins_all ins ks)"

locale insertable =
  fixes rep :: "'s \<Rightarrow> 'a \<Rightarrow> bool"
    and ins :: "'k \<Rightarrow> 's \<Rightarrow> 's option"
    and add :: "'k \<Rightarrow> 'a \<Rightarrow> 'a"
  assumes ins_ok: "rep s a \<Longrightarrow> \<exists>s'. ins k s = Some s' \<and> rep s' (add k a)"
begin

lemma ins_all_ok: "rep s a \<Longrightarrow> \<exists>s'. ins_all ins ks s = Some s' \<and> rep s' (fold add ks a)"
proof (induction ks arbitrary: s a)
  case (Cons k ks)
  obtain s1 where "ins k s = Some s1" "rep s1 (add k a)" using ins_ok [OF Cons.prems] by blast
  then show ?case using Cons.IH by fastforce
qed simp

end

locale searchable = insertable rep ins add
  for rep :: "'s \<Rightarrow> 'a \<Rightarrow> bool" and ins :: "'k \<Rightarrow> 's \<Rightarrow> 's option" and add :: "'k \<Rightarrow> 'a \<Rightarrow> 'a" +
  fixes find :: "'q \<Rightarrow> 's \<Rightarrow> 'v option"
    and answers :: "'q \<Rightarrow> 'a \<Rightarrow> 'v \<Rightarrow> bool"
  assumes find_ok: "rep s a \<Longrightarrow> \<exists>v. find q s = Some v \<and> answers q a v"
begin

lemma find_inserted:
  assumes "rep s a" "ins_all ins ks s = Some s'"
  shows "\<exists>v. find q s' = Some v \<and> answers q (fold add ks a) v"
  using ins_all_ok [OF assms(1), of ks] assms(2) find_ok by auto

end

lemma fold_insert_set: "fold insert ks S = S \<union> set ks"
  by (induction ks arbitrary: S) auto

lemma fold_add_mset: "fold add_mset xs M = M + mset xs"
  by (induction xs arbitrary: M) auto

end
