(* ===== verification/Lab5_RedBlack.thy ===== *)
theory Lab5_RedBlack
  imports Common Inserts "HOL-Library.Monad_Syntax"
begin

text \<open>
  \<open>LAB-5/red_black_tree.cpp\<close>: the red-black tree with parent pointers. The nodes live in an explicit
  store, since rotations and recolouring assign to fields of shared nodes: a pointer is an address
  or \<open>None\<close> for \<open>nullptr\<close>, and every member function takes and returns the state. A result \<open>None\<close> is
  an access through a null or dangling pointer or a loop that does not end; the properties show
  that neither happens on the trees the class builds.

  First the operations; then the abstraction, a binary tree annotated with addresses and the path
  from a node to the root as a list of frames; then rotations, fix-up, insertion, validation and
  destruction, each against the abstract tree.
\<close>

section \<open>Nodes and the store\<close>

datatype rb_color = RB_Red | RB_Black

record rbnode =
  rb_key :: int
  rb_color :: rb_color
  rb_parent :: "nat option"
  rb_left :: "nat option"
  rb_right :: "nat option"

text \<open>\<open>rb_next\<close> is the address the next \<open>new\<close> returns.\<close>

record rbtree =
  rb_store :: "nat \<Rightarrow> rbnode option"
  rb_next :: nat
  rb_root :: "nat option"

definition rb_new :: rbtree where
  "rb_new = \<lparr>rb_store = (\<lambda>_. None), rb_next = 0, rb_root = None\<rparr>"

definition deref :: "rbtree \<Rightarrow> nat option \<Rightarrow> rbnode option" where
  "deref t p = Option.bind p (rb_store t)"

text \<open>An assignment to a field of \<open>*p\<close>.\<close>

definition assign :: "nat option \<Rightarrow> (rbnode \<Rightarrow> rbnode) \<Rightarrow> rbtree \<Rightarrow> rbtree option" where
  "assign p f t = do { n \<leftarrow> deref t p; Some (t\<lparr>rb_store := (rb_store t)(the p \<mapsto> f n)\<rparr>) }"

text \<open>\<open>new Node(key)\<close>: a red node without relatives.\<close>

definition new_node :: "int \<Rightarrow> rbtree \<Rightarrow> nat option \<times> rbtree" where
  "new_node key t = (Some (rb_next t), t\<lparr>rb_next := Suc (rb_next t), rb_store := (rb_store t)(rb_next t \<mapsto>
     \<lparr>rb_key = key, rb_color = RB_Red, rb_parent = None, rb_left = None, rb_right = None\<rparr>)\<rparr>)"

definition colorOf :: "rbtree \<Rightarrow> nat option \<Rightarrow> rb_color option" where
  "colorOf t p = (if p = None then Some RB_Black else map_option rb_color (deref t p))"

definition colorLabel :: "rbtree \<Rightarrow> nat option \<Rightarrow> string option" where
  "colorLabel t p = map_option (\<lambda>c. if c = RB_Red then ''(R)'' else ''(B)'') (colorOf t p)"

section \<open>Rotations and fix-up\<close>

text \<open>Two parts of a rotation: the subtree that changes sides gets its new parent, and the parent of
  the rotated node its new child, with the test for the side in two orders.\<close>

definition adopt :: "nat option \<Rightarrow> nat option \<Rightarrow> rbtree \<Rightarrow> rbtree option" where
  "adopt p node t = (if p \<noteq> None then assign p (rb_parent_update (\<lambda>_. node)) t else Some t)"

definition relink_left :: "nat option \<Rightarrow> nat option \<Rightarrow> nat option \<Rightarrow> rbtree \<Rightarrow> rbtree option" where
  "relink_left parent node child t =
     (if parent = None then Some (t\<lparr>rb_root := child\<rparr>)
      else do {
        p \<leftarrow> deref t parent;
        if node = rb_left p then assign parent (rb_left_update (\<lambda>_. child)) t
        else assign parent (rb_right_update (\<lambda>_. child)) t })"

definition relink_right :: "nat option \<Rightarrow> nat option \<Rightarrow> nat option \<Rightarrow> rbtree \<Rightarrow> rbtree option" where
  "relink_right parent node child t =
     (if parent = None then Some (t\<lparr>rb_root := child\<rparr>)
      else do {
        p \<leftarrow> deref t parent;
        if node = rb_right p then assign parent (rb_right_update (\<lambda>_. child)) t
        else assign parent (rb_left_update (\<lambda>_. child)) t })"

definition rotateLeft :: "nat option \<Rightarrow> rbtree \<Rightarrow> rbtree option" where
  "rotateLeft node t = do {
     n \<leftarrow> deref t node;
     let child = rb_right n;
     c \<leftarrow> deref t child;
     t \<leftarrow> assign node (rb_right_update (\<lambda>_. rb_left c)) t;
     t \<leftarrow> adopt (rb_left c) node t;
     n \<leftarrow> deref t node;
     t \<leftarrow> assign child (rb_parent_update (\<lambda>_. rb_parent n)) t;
     t \<leftarrow> relink_left (rb_parent n) node child t;
     t \<leftarrow> assign child (rb_left_update (\<lambda>_. node)) t;
     assign node (rb_parent_update (\<lambda>_. child)) t }"

definition rotateRight :: "nat option \<Rightarrow> rbtree \<Rightarrow> rbtree option" where
  "rotateRight node t = do {
     n \<leftarrow> deref t node;
     let child = rb_left n;
     c \<leftarrow> deref t child;
     t \<leftarrow> assign node (rb_left_update (\<lambda>_. rb_right c)) t;
     t \<leftarrow> adopt (rb_right c) node t;
     n \<leftarrow> deref t node;
     t \<leftarrow> assign child (rb_parent_update (\<lambda>_. rb_parent n)) t;
     t \<leftarrow> relink_right (rb_parent n) node child t;
     t \<leftarrow> assign child (rb_right_update (\<lambda>_. node)) t;
     assign node (rb_parent_update (\<lambda>_. child)) t }"

text \<open>\<open>p->color = c\<close>.\<close>

definition set_color :: "nat option \<Rightarrow> rb_color \<Rightarrow> rbtree \<Rightarrow> rbtree option" where
  "set_color p c = assign p (rb_color_update (\<lambda>_. c))"

text \<open>The body of the loop of \<open>fixAfterInsert\<close>: the next \<open>node\<close> and the state.\<close>

definition fix_body :: "nat option \<Rightarrow> rbtree \<Rightarrow> (nat option \<times> rbtree) option" where
  "fix_body node t = do {
     n \<leftarrow> deref t node;
     let parent = rb_parent n;
     p \<leftarrow> deref t parent;
     let grandparent = rb_parent p;
     g \<leftarrow> deref t grandparent;
     if parent = rb_left g then do {
       let uncle = rb_right g;
       uc \<leftarrow> colorOf t uncle;
       if uc = RB_Red then do {
         t \<leftarrow> set_color parent RB_Black t;
         t \<leftarrow> set_color uncle RB_Black t;
         t \<leftarrow> set_color grandparent RB_Red t;
         Some (grandparent, t) }
       else do {
         (node, parent, grandparent, t) \<leftarrow>
           (if node = rb_right p then do {
              t \<leftarrow> rotateLeft parent t;
              n \<leftarrow> deref t parent;
              p \<leftarrow> deref t (rb_parent n);
              Some (parent, rb_parent n, rb_parent p, t) }
            else Some (node, parent, grandparent, t));
         t \<leftarrow> set_color parent RB_Black t;
         t \<leftarrow> set_color grandparent RB_Red t;
         t \<leftarrow> rotateRight grandparent t;
         Some (node, t) } }
     else do {
       let uncle = rb_left g;
       uc \<leftarrow> colorOf t uncle;
       if uc = RB_Red then do {
         t \<leftarrow> set_color parent RB_Black t;
         t \<leftarrow> set_color uncle RB_Black t;
         t \<leftarrow> set_color grandparent RB_Red t;
         Some (grandparent, t) }
       else do {
         (node, parent, grandparent, t) \<leftarrow>
           (if node = rb_left p then do {
              t \<leftarrow> rotateRight parent t;
              n \<leftarrow> deref t parent;
              p \<leftarrow> deref t (rb_parent n);
              Some (parent, rb_parent n, rb_parent p, t) }
            else Some (node, parent, grandparent, t));
         t \<leftarrow> set_color parent RB_Black t;
         t \<leftarrow> set_color grandparent RB_Red t;
         t \<leftarrow> rotateLeft grandparent t;
         Some (node, t) } } }"

partial_function (option) fix_loop :: "nat option \<Rightarrow> rbtree \<Rightarrow> rbtree option" where
  "fix_loop node t =
     (if node = rb_root t then Some t
      else do {
        n \<leftarrow> deref t node;
        c \<leftarrow> colorOf t (rb_parent n);
        if c = RB_Red then do { (node, t) \<leftarrow> fix_body node t; fix_loop node t } else Some t })"

definition fixAfterInsert :: "nat option \<Rightarrow> rbtree \<Rightarrow> rbtree option" where
  "fixAfterInsert node t = do { t \<leftarrow> fix_loop node t; set_color (rb_root t) RB_Black t }"

section \<open>The member functions\<close>

text \<open>The search of \<open>insert\<close>: \<open>None\<close> when the key is found, the last node otherwise.\<close>

partial_function (option) find_parent :: "int \<Rightarrow> nat option \<Rightarrow> nat option \<Rightarrow> rbtree \<Rightarrow> nat option option option" where
  "find_parent key parent current t =
     (if current = None then Some (Some parent)
      else do {
        n \<leftarrow> deref t current;
        if key = rb_key n then Some None
        else find_parent key current (if key < rb_key n then rb_left n else rb_right n) t })"

text \<open>Hanging the new node below \<open>parent\<close>.\<close>

definition attach :: "int \<Rightarrow> nat option \<Rightarrow> nat option \<Rightarrow> rbtree \<Rightarrow> rbtree option" where
  "attach key parent node t = do {
     t \<leftarrow> assign node (rb_parent_update (\<lambda>_. parent)) t;
     if parent = None then Some (t\<lparr>rb_root := node\<rparr>)
     else do {
       p \<leftarrow> deref t parent;
       if key < rb_key p then assign parent (rb_left_update (\<lambda>_. node)) t
       else assign parent (rb_right_update (\<lambda>_. node)) t } }"

definition rb_insert :: "int \<Rightarrow> rbtree \<Rightarrow> rbtree option" where
  "rb_insert key t = do {
     found \<leftarrow> find_parent key None (rb_root t) t;
     case found of
       None \<Rightarrow> Some t
     | Some parent \<Rightarrow> do {
         let (node, t) = new_node key t;
         t \<leftarrow> attach key parent node t;
         fixAfterInsert node t } }"

partial_function (option) contains_from :: "int \<Rightarrow> nat option \<Rightarrow> rbtree \<Rightarrow> bool option" where
  "contains_from key current t =
     (if current = None then Some False
      else do {
        n \<leftarrow> deref t current;
        if key = rb_key n then Some True
        else contains_from key (if key < rb_key n then rb_left n else rb_right n) t })"

definition rb_contains :: "int \<Rightarrow> rbtree \<Rightarrow> bool option" where
  "rb_contains key t = contains_from key (rb_root t) t"

text \<open>The output of the private and the public \<open>printInOrder\<close>.\<close>

partial_function (option) print_node :: "nat option \<Rightarrow> rbtree \<Rightarrow> string option" where
  "print_node node t =
     (if node = None then Some []
      else do {
        n \<leftarrow> deref t node;
        l \<leftarrow> print_node (rb_left n) t;
        lab \<leftarrow> colorLabel t node;
        r \<leftarrow> print_node (rb_right n) t;
        Some (l @ dec_of_int (rb_key n) @ lab @ '' '' @ r) })"

definition printInOrder :: "rbtree \<Rightarrow> string option" where
  "printInOrder t = map_option (\<lambda>s. ''In-order traversal: '' @ s @ [CHR 0x0A]) (print_node (rb_root t) t)"

text \<open>The queue of \<open>printLevelOrder\<close>.\<close>

partial_function (option) level_loop :: "nat option list \<Rightarrow> rbtree \<Rightarrow> string option" where
  "level_loop nodes t =
     (case nodes of
        [] \<Rightarrow> Some []
      | current # nodes' \<Rightarrow> do {
          n \<leftarrow> deref t current;
          lab \<leftarrow> colorLabel t current;
          r \<leftarrow> level_loop (nodes' @ (if rb_left n \<noteq> None then [rb_left n] else [])
                 @ (if rb_right n \<noteq> None then [rb_right n] else [])) t;
          Some (dec_of_int (rb_key n) @ lab @ '' '' @ r) })"

definition printLevelOrder :: "rbtree \<Rightarrow> string option" where
  "printLevelOrder t =
     (if rb_root t = None then Some (''Tree is empty'' @ [CHR 0x0A])
      else map_option (\<lambda>s. ''Level-order: '' @ s @ [CHR 0x0A]) (level_loop [rb_root t] t))"

text \<open>\<open>validate\<close> also returns \<open>expectedBlackHeight\<close>, which it takes by reference.\<close>

partial_function (option) validate :: "nat option \<Rightarrow> int \<Rightarrow> int \<Rightarrow> int \<Rightarrow> int \<Rightarrow> rbtree \<Rightarrow> (bool \<times> int) option" where
  "validate node low high blackCount expected t =
     (if node = None
      then if expected = -1 then Some (True, blackCount) else Some (blackCount = expected, expected)
      else do {
        n \<leftarrow> deref t node;
        if rb_key n \<le> low \<or> rb_key n \<ge> high then Some (False, expected)
        else do {
          let blackCount = (if rb_color n = RB_Black then blackCount + 1 else blackCount);
          redRed \<leftarrow> (if rb_color n = RB_Red
            then do {
              c \<leftarrow> colorOf t (rb_left n);
              if c = RB_Red then Some True else map_option (\<lambda>c. c = RB_Red) (colorOf t (rb_right n)) }
            else Some False);
          if redRed then Some (False, expected)
          else do {
            (ok, expected) \<leftarrow> validate (rb_left n) low (rb_key n) blackCount expected t;
            if ok then validate (rb_right n) (rb_key n) high blackCount expected t
            else Some (False, expected) } } })"

definition int_min :: int where "int_min = - (2 ^ 31)"
definition int_max :: int where "int_max = 2 ^ 31 - 1"

definition isValid :: "rbtree \<Rightarrow> bool option" where
  "isValid t =
     (if rb_root t = None then Some True
      else do {
        r \<leftarrow> deref t (rb_root t);
        if rb_color r \<noteq> RB_Black then Some False
        else map_option fst (validate (rb_root t) int_min int_max 0 (-1) t) })"

text \<open>\<open>destroy\<close>; a deleted node leaves the store.\<close>

partial_function (option) destroy :: "nat option \<Rightarrow> rbtree \<Rightarrow> rbtree option" where
  "destroy node t =
     (if node = None then Some t
      else do {
        n \<leftarrow> deref t node;
        t \<leftarrow> destroy (rb_left n) t;
        n \<leftarrow> deref t node;
        t \<leftarrow> destroy (rb_right n) t;
        _ \<leftarrow> deref t node;
        Some (t\<lparr>rb_store := (rb_store t)(the node := None)\<rparr>) })"

declare fix_loop.simps [code] find_parent.simps [code] contains_from.simps [code] print_node.simps [code]
  level_loop.simps [code] validate.simps [code] destroy.simps [code]

section \<open>Trees with addresses, and the path to a node\<close>

datatype atree = Lf | Nd atree nat int rb_color atree

fun root_of :: "atree \<Rightarrow> nat option" where
  "root_of Lf = None"
| "root_of (Nd l a k c r) = Some a"

fun addrs :: "atree \<Rightarrow> nat list" where
  "addrs Lf = []"
| "addrs (Nd l a k c r) = addrs l @ a # addrs r"

fun keys :: "atree \<Rightarrow> int list" where
  "keys Lf = []"
| "keys (Nd l a k c r) = keys l @ k # keys r"

text \<open>A frame is a node without its left or right subtree; a path lists them from the inside out.\<close>

datatype frame = InL nat int rb_color atree | InR atree nat int rb_color

fun plug :: "frame list \<Rightarrow> atree \<Rightarrow> atree" where
  "plug [] x = x"
| "plug (InL a k c r # fs) x = plug fs (Nd x a k c r)"
| "plug (InR l a k c # fs) x = plug fs (Nd l a k c x)"

fun f_addr :: "frame \<Rightarrow> nat" where
  "f_addr (InL a k c r) = a"
| "f_addr (InR l a k c) = a"

fun f_color :: "frame \<Rightarrow> rb_color" where
  "f_color (InL a k c r) = c"
| "f_color (InR l a k c) = c"

fun sibling :: "frame \<Rightarrow> atree" where
  "sibling (InL a k c r) = r"
| "sibling (InR l a k c) = l"

fun up :: "frame list \<Rightarrow> nat option" where
  "up [] = None"
| "up (f # fs) = Some (f_addr f)"

definition path_top :: "frame list \<Rightarrow> nat option \<Rightarrow> nat option" where
  "path_top fs p = (if fs = [] then p else Some (f_addr (last fs)))"

fun path_addrs :: "frame list \<Rightarrow> nat list" where
  "path_addrs [] = []"
| "path_addrs (f # fs) = f_addr f # addrs (sibling f) @ path_addrs fs"

text \<open>The store holds a tree below a parent, and a path around the node \<open>p\<close>.\<close>

fun holds :: "(nat \<Rightarrow> rbnode option) \<Rightarrow> nat option \<Rightarrow> atree \<Rightarrow> bool" where
  "holds h par Lf = True"
| "holds h par (Nd l a k c r) =
     (h a = Some \<lparr>rb_key = k, rb_color = c, rb_parent = par, rb_left = root_of l, rb_right = root_of r\<rparr>
      \<and> holds h (Some a) l \<and> holds h (Some a) r)"

fun around :: "(nat \<Rightarrow> rbnode option) \<Rightarrow> frame list \<Rightarrow> nat option \<Rightarrow> bool" where
  "around h [] p = True"
| "around h (InL a k c r # fs) p =
     (h a = Some \<lparr>rb_key = k, rb_color = c, rb_parent = up fs, rb_left = p, rb_right = root_of r\<rparr>
      \<and> holds h (Some a) r \<and> around h fs (Some a))"
| "around h (InR l a k c # fs) p =
     (h a = Some \<lparr>rb_key = k, rb_color = c, rb_parent = up fs, rb_left = root_of l, rb_right = p\<rparr>
      \<and> holds h (Some a) l \<and> around h fs (Some a))"

definition repr :: "rbtree \<Rightarrow> atree \<Rightarrow> bool" where
  "repr t x \<longleftrightarrow> rb_root t = root_of x \<and> holds (rb_store t) None x \<and> distinct (addrs x)
     \<and> dom (rb_store t) = set (addrs x) \<and> (\<forall>a \<in> set (addrs x). a < rb_next t)"

lemma root_of_addrs: "root_of x = Some a \<Longrightarrow> a \<in> set (addrs x)"
  by (cases x) auto

lemma root_of_neq [simp]:
  assumes "a \<notin> set (addrs x)"
  shows "root_of x \<noteq> Some a" "Some a \<noteq> root_of x"
  using root_of_addrs [of x a] assms by auto

lemma holds_upd [simp]: "a \<notin> set (addrs x) \<Longrightarrow> holds (h(a := v)) p x = holds h p x"
  by (induction x arbitrary: p) auto

lemma around_upd [simp]: "a \<notin> set (path_addrs fs) \<Longrightarrow> around (h(a := v)) fs p = around h fs p"
  by (induction h fs p rule: around.induct) auto

lemma holds_plug: "holds h None (plug fs x) \<longleftrightarrow> around h fs (root_of x) \<and> holds h (up fs) x"
  by (induction fs x rule: plug.induct) auto

lemma root_of_plug: "root_of (plug fs x) = path_top fs (root_of x)"
  by (induction fs x rule: plug.induct) (auto simp: path_top_def)

lemma set_addrs_plug: "set (addrs (plug fs x)) = set (path_addrs fs) \<union> set (addrs x)"
  by (induction fs x rule: plug.induct) auto

lemma distinct_plug: "distinct (addrs (plug fs x)) \<longleftrightarrow>
    distinct (path_addrs fs) \<and> distinct (addrs x) \<and> set (path_addrs fs) \<inter> set (addrs x) = {}"
  by (induction fs x rule: plug.induct) auto

lemma repr_plug: "repr t (plug fs x) \<longleftrightarrow> rb_root t = path_top fs (root_of x) \<and> around (rb_store t) fs (root_of x)
    \<and> holds (rb_store t) (up fs) x \<and> distinct (path_addrs fs) \<and> distinct (addrs x) \<and> set (path_addrs fs) \<inter> set (addrs x) = {}
    \<and> dom (rb_store t) = set (path_addrs fs) \<union> set (addrs x) \<and> (\<forall>a \<in> set (path_addrs fs) \<union> set (addrs x). a < rb_next t)"
  unfolding repr_def holds_plug root_of_plug set_addrs_plug distinct_plug by auto

lemma last_path: "fs \<noteq> [] \<Longrightarrow> f_addr (last fs) \<in> set (path_addrs fs)"
  by (induction fs) auto

lemma up_top: "up fs = None \<longleftrightarrow> fs = []"
  by (cases fs) auto

lemma plug_append: "plug (fs @ gs) x = plug gs (plug fs x)"
  by (induction fs x rule: plug.induct) auto

section \<open>One node of the store\<close>

lemma repr_node:
  assumes "repr t (plug fs (Nd l a k c r))"
  shows "deref t (Some a) = Some \<lparr>rb_key = k, rb_color = c, rb_parent = up fs, rb_left = root_of l, rb_right = root_of r\<rparr>"
  using assms by (simp add: repr_plug deref_def)

lemma set_color_repr:
  assumes "repr t (plug fs (Nd l a k c r))"
  shows "\<exists>t'. set_color (Some a) c' t = Some t' \<and> repr t' (plug fs (Nd l a k c' r)) \<and> rb_next t' = rb_next t"
  using assms by (auto simp: set_color_def assign_def deref_def repr_plug)

fun a_color :: "atree \<Rightarrow> rb_color" where
  "a_color Lf = RB_Black"
| "a_color (Nd l a k c r) = c"

lemma colorOf_repr:
  assumes "repr t (plug fs x)"
  shows "colorOf t (root_of x) = Some (a_color x)"
proof (cases x)
  case (Nd l a k c r)
  then show ?thesis using repr_node [of t fs l a k c r] assms by (simp add: colorOf_def)
qed (simp add: colorOf_def)

text \<open>The two updates a rotation makes outside its two nodes: in the subtree that moves and above.\<close>

fun reparent :: "atree \<Rightarrow> nat option \<Rightarrow> (nat \<Rightarrow> rbnode option) \<Rightarrow> nat \<Rightarrow> rbnode option" where
  "reparent Lf q h = h"
| "reparent (Nd l a k c r) q h = h(a := map_option (rb_parent_update (\<lambda>_. q)) (h a))"

fun rechild :: "frame list \<Rightarrow> nat option \<Rightarrow> (nat \<Rightarrow> rbnode option) \<Rightarrow> nat \<Rightarrow> rbnode option" where
  "rechild [] q h = h"
| "rechild (InL a k c r # fs) q h = h(a := map_option (rb_left_update (\<lambda>_. q)) (h a))"
| "rechild (InR l a k c # fs) q h = h(a := map_option (rb_right_update (\<lambda>_. q)) (h a))"

lemma reparent_other [simp]: "a \<notin> set (addrs x) \<Longrightarrow> reparent x q h a = h a"
  by (cases x) auto

lemma rechild_other [simp]: "a \<notin> set (path_addrs fs) \<Longrightarrow> rechild fs q h a = h a"
  by (cases "(fs, q, h)" rule: rechild.cases) auto

lemma holds_reparent_other [simp]: "set (addrs x) \<inter> set (addrs y) = {} \<Longrightarrow> holds (reparent x q h) p y = holds h p y"
  by (cases x) auto

lemma holds_rechild_other [simp]: "set (path_addrs fs) \<inter> set (addrs y) = {} \<Longrightarrow> holds (rechild fs q h) p y = holds h p y"
  by (cases "(fs, q, h)" rule: rechild.cases) auto

lemma around_reparent [simp]: "set (path_addrs fs) \<inter> set (addrs x) = {} \<Longrightarrow> around (reparent x q h) fs p = around h fs p"
  by (cases x) auto

lemma holds_reparent: "holds h p x \<Longrightarrow> distinct (addrs x) \<Longrightarrow> holds (reparent x q h) q x"
  by (cases x) auto

lemma around_rechild: "around h fs p \<Longrightarrow> distinct (path_addrs fs) \<Longrightarrow> around (rechild fs q h) fs q"
  by (cases "(fs, q, h)" rule: rechild.cases) auto

lemma dom_reparent [simp]: "dom (reparent x q h) = dom h"
  by (cases x) (auto simp: dom_def)

lemma dom_rechild [simp]: "dom (rechild fs q h) = dom h"
  by (cases "(fs, q, h)" rule: rechild.cases) (auto simp: dom_def)

lemma adopt_code: "holds (rb_store t) p x \<Longrightarrow> adopt (root_of x) q t = Some (t\<lparr>rb_store := reparent x q (rb_store t)\<rparr>)"
  by (cases x) (auto simp: adopt_def assign_def deref_def)

lemma relink_code:
  assumes "around (rb_store t) fs (Some a)" "a \<notin> set (path_addrs fs)"
  shows "relink_left (up fs) (Some a) q t = Some (t\<lparr>rb_store := rechild fs q (rb_store t), rb_root := (if fs = [] then q else rb_root t)\<rparr>)"
    and "relink_right (up fs) (Some a) q t = Some (t\<lparr>rb_store := rechild fs q (rb_store t), rb_root := (if fs = [] then q else rb_root t)\<rparr>)"
proof (atomize (full), cases fs)
  case (Cons f fs')
  then show "relink_left (up fs) (Some a) q t = Some (t\<lparr>rb_store := rechild fs q (rb_store t), rb_root := (if fs = [] then q else rb_root t)\<rparr>)
      \<and> relink_right (up fs) (Some a) q t = Some (t\<lparr>rb_store := rechild fs q (rb_store t), rb_root := (if fs = [] then q else rb_root t)\<rparr>)"
    using assms by (cases f) (auto simp: relink_left_def relink_right_def assign_def deref_def)
qed (simp add: relink_left_def relink_right_def)

text \<open>Rotations, with the node below the path \<open>fs\<close>.\<close>

lemma rotateLeft_repr:
  assumes "repr t (plug fs (Nd l a k c (Nd m b k' c' r)))"
  shows "\<exists>t'. rotateLeft (Some a) t = Some t' \<and> repr t' (plug fs (Nd (Nd l a k c m) b k' c' r)) \<and> rb_next t' = rb_next t"
proof -
  note R = assms [unfolded repr_plug]
  let ?h = "rb_store t"
  let ?A = "\<lambda>p y. \<lparr>rb_key = k, rb_color = c, rb_parent = p, rb_left = root_of l, rb_right = y\<rparr>"
  let ?B = "\<lambda>p y. \<lparr>rb_key = k', rb_color = c', rb_parent = p, rb_left = y, rb_right = root_of r\<rparr>"
  let ?h1 = "?h(a \<mapsto> ?A (up fs) (root_of m))"
  let ?h2 = "reparent m (Some a) ?h1"
  let ?h3 = "?h2(b \<mapsto> ?B (up fs) (root_of m))"
  let ?h4 = "rechild fs (Some b) ?h3"
  let ?h6 = "?h4(b \<mapsto> ?B (up fs) (Some a), a \<mapsto> ?A (Some b) (root_of m))"
  let ?t3 = "t\<lparr>rb_store := ?h3\<rparr>"
  let ?t6 = "t\<lparr>rb_store := ?h6, rb_root := path_top fs (Some b)\<rparr>"
  have ne: "a \<noteq> b" "a \<notin> set (addrs m)" "b \<notin> set (addrs m)" "a \<notin> set (path_addrs fs)" "b \<notin> set (path_addrs fs)"
    using R by auto
  have n: "?h a = Some (?A (up fs) (Some b))" "?h b = Some (?B (Some a) (root_of m))" using R by simp_all
  have m: "holds (rb_store (t\<lparr>rb_store := ?h1\<rparr>)) (Some b) m" using R by simp
  have dj: "set (path_addrs fs) \<inter> set (addrs m) = {}" "set (path_addrs fs) \<inter> set (addrs l) = {}"
    "set (path_addrs fs) \<inter> set (addrs r) = {}" "set (addrs m) \<inter> set (addrs l) = {}" "set (addrs m) \<inter> set (addrs r) = {}"
    using R by auto
  have ar: "around (rb_store ?t3) fs (Some a)" "a \<notin> set (path_addrs fs)" using R ne dj by simp_all
  have "rotateLeft (Some a) t = Some ?t6"
    unfolding rotateLeft_def
    using ne n adopt_code [OF m, of "Some a"] relink_code(1) [OF ar, of "Some b"] R
    by (simp add: deref_def assign_def Let_def path_top_def)
  moreover have "repr ?t6 (plug fs (Nd (Nd l a k c m) b k' c' r))"
    unfolding repr_plug using R ne dj by (auto simp: holds_reparent around_rechild path_top_def)
  ultimately show ?thesis by simp
qed

lemma rotateRight_repr:
  assumes "repr t (plug fs (Nd (Nd l b k' c' m) a k c r))"
  shows "\<exists>t'. rotateRight (Some a) t = Some t' \<and> repr t' (plug fs (Nd l b k' c' (Nd m a k c r))) \<and> rb_next t' = rb_next t"
proof -
  note R = assms [unfolded repr_plug]
  let ?h = "rb_store t"
  let ?A = "\<lambda>p y. \<lparr>rb_key = k, rb_color = c, rb_parent = p, rb_left = y, rb_right = root_of r\<rparr>"
  let ?B = "\<lambda>p y. \<lparr>rb_key = k', rb_color = c', rb_parent = p, rb_left = root_of l, rb_right = y\<rparr>"
  let ?h1 = "?h(a \<mapsto> ?A (up fs) (root_of m))"
  let ?h2 = "reparent m (Some a) ?h1"
  let ?h3 = "?h2(b \<mapsto> ?B (up fs) (root_of m))"
  let ?h4 = "rechild fs (Some b) ?h3"
  let ?h6 = "?h4(b \<mapsto> ?B (up fs) (Some a), a \<mapsto> ?A (Some b) (root_of m))"
  let ?t3 = "t\<lparr>rb_store := ?h3\<rparr>"
  let ?t6 = "t\<lparr>rb_store := ?h6, rb_root := path_top fs (Some b)\<rparr>"
  have ne: "a \<noteq> b" "a \<notin> set (addrs m)" "b \<notin> set (addrs m)" "a \<notin> set (path_addrs fs)" "b \<notin> set (path_addrs fs)"
    using R by auto
  have n: "?h a = Some (?A (up fs) (Some b))" "?h b = Some (?B (Some a) (root_of m))" using R by simp_all
  have m: "holds (rb_store (t\<lparr>rb_store := ?h1\<rparr>)) (Some b) m" using R by simp
  have dj: "set (path_addrs fs) \<inter> set (addrs m) = {}" "set (path_addrs fs) \<inter> set (addrs l) = {}"
    "set (path_addrs fs) \<inter> set (addrs r) = {}" "set (addrs m) \<inter> set (addrs l) = {}" "set (addrs m) \<inter> set (addrs r) = {}"
    using R by auto
  have ar: "around (rb_store ?t3) fs (Some a)" "a \<notin> set (path_addrs fs)" using R ne dj by simp_all
  have "rotateRight (Some a) t = Some ?t6"
    unfolding rotateRight_def
    using ne n adopt_code [OF m, of "Some a"] relink_code(2) [OF ar, of "Some b"] R
    by (simp add: deref_def assign_def Let_def path_top_def)
  moreover have "repr ?t6 (plug fs (Nd l b k' c' (Nd m a k c r)))"
    unfolding repr_plug using R ne dj by (auto simp: holds_reparent around_rechild path_top_def)
  ultimately show ?thesis by simp
qed

text \<open>The three cases of the loop's body, on each side of the grandparent.\<close>

lemma recolor_left:
  assumes R: "repr t (plug (f # InL q kq cq (Nd ul ua uk RB_Red ur) # gs) (Nd l a k c r))"
    and y: "plug [f] (Nd l a k c r) = Nd yl p kp cp yr"
  shows "\<exists>t'. fix_body (Some a) t = Some (Some q, t') \<and> rb_next t' = rb_next t
    \<and> repr t' (plug gs (Nd (Nd yl p kp RB_Black yr) q kq RB_Red (Nd ul ua uk RB_Black ur)))"
proof -
  let ?u = "Nd ul ua uk RB_Red ur"
  have p: "f_addr f = p" using y by (cases f) auto
  have Y: "repr t (plug (InL q kq cq ?u # gs) (Nd yl p kp cp yr))"
    using R y plug_append [of "[f]" "InL q kq cq ?u # gs"] by simp
  then have Q: "repr t (plug gs (Nd (Nd yl p kp cp yr) q kq cq ?u))" and U: "repr t (plug (InR (Nd yl p kp cp yr) q kq cq # gs) ?u)"
    by simp_all
  note d = repr_node [OF R] repr_node [OF Y] repr_node [OF Q] colorOf_repr [OF U]
  obtain t1 where t1: "set_color (Some p) RB_Black t = Some t1" "rb_next t1 = rb_next t"
      "repr t1 (plug (InR (Nd yl p kp RB_Black yr) q kq cq # gs) ?u)"
    using set_color_repr [OF Y, of RB_Black] by auto
  obtain t2 where t2: "set_color (Some ua) RB_Black t1 = Some t2" "rb_next t2 = rb_next t"
      "repr t2 (plug gs (Nd (Nd yl p kp RB_Black yr) q kq cq (Nd ul ua uk RB_Black ur)))"
    using set_color_repr [OF t1(3), of RB_Black] t1(2) by auto
  obtain t3 where t3: "set_color (Some q) RB_Red t2 = Some t3" "rb_next t3 = rb_next t"
      "repr t3 (plug gs (Nd (Nd yl p kp RB_Black yr) q kq RB_Red (Nd ul ua uk RB_Black ur)))"
    using set_color_repr [OF t2(3), of RB_Red] t2(2) by auto
  show ?thesis using d t1 t2 t3 by (simp add: fix_body_def p)
qed

lemma outer_left:
  assumes R: "repr t (plug (InL p kp cp s # InL q kq cq u # gs) (Nd l a k c r))" and u: "a_color u = RB_Black"
  shows "\<exists>t'. fix_body (Some a) t = Some (Some a, t') \<and> rb_next t' = rb_next t
    \<and> repr t' (plug gs (Nd (Nd l a k c r) p kp RB_Black (Nd s q kq RB_Red u)))"
proof -
  let ?x = "Nd l a k c r"
  have Y: "repr t (plug (InL q kq cq u # gs) (Nd ?x p kp cp s))" using R by simp
  then have Q: "repr t (plug gs (Nd (Nd ?x p kp cp s) q kq cq u))" and U: "repr t (plug (InR (Nd ?x p kp cp s) q kq cq # gs) u)"
    by simp_all
  have a: "Some a \<noteq> root_of s" using R [unfolded repr_plug] by auto
  note d = repr_node [OF R] repr_node [OF Y] repr_node [OF Q] colorOf_repr [OF U]
  obtain t1 where t1: "set_color (Some p) RB_Black t = Some t1" "rb_next t1 = rb_next t"
      "repr t1 (plug gs (Nd (Nd ?x p kp RB_Black s) q kq cq u))"
    using set_color_repr [OF Y, of RB_Black] by auto
  obtain t2 where t2: "set_color (Some q) RB_Red t1 = Some t2" "rb_next t2 = rb_next t"
      "repr t2 (plug gs (Nd (Nd ?x p kp RB_Black s) q kq RB_Red u))"
    using set_color_repr [OF t1(3), of RB_Red] t1(2) by auto
  obtain t3 where t3: "rotateRight (Some q) t2 = Some t3" "rb_next t3 = rb_next t"
      "repr t3 (plug gs (Nd ?x p kp RB_Black (Nd s q kq RB_Red u)))"
    using rotateRight_repr [OF t2(3)] t2(2) by auto
  show ?thesis using d a u t1 t2 t3 by (simp add: fix_body_def)
qed

lemma inner_left:
  assumes R: "repr t (plug (InR s p kp cp # InL q kq cq u # gs) (Nd l a k c r))" and u: "a_color u = RB_Black"
  shows "\<exists>t'. fix_body (Some a) t = Some (Some p, t') \<and> rb_next t' = rb_next t
    \<and> repr t' (plug gs (Nd (Nd s p kp cp l) a k RB_Black (Nd r q kq RB_Red u)))"
proof -
  have Y: "repr t (plug (InL q kq cq u # gs) (Nd s p kp cp (Nd l a k c r)))" using R by simp
  then have Q: "repr t (plug gs (Nd (Nd s p kp cp (Nd l a k c r)) q kq cq u))"
      and U: "repr t (plug (InR (Nd s p kp cp (Nd l a k c r)) q kq cq # gs) u)"
    by simp_all
  note d = repr_node [OF R] repr_node [OF Y] repr_node [OF Q] colorOf_repr [OF U]
  obtain t0 where t0: "rotateLeft (Some p) t = Some t0" "rb_next t0 = rb_next t"
      "repr t0 (plug (InL q kq cq u # gs) (Nd (Nd s p kp cp l) a k c r))"
    using rotateLeft_repr [OF Y] by auto
  then have "repr t0 (plug (InL a k c r # InL q kq cq u # gs) (Nd s p kp cp l))" by simp
  note d0 = repr_node [OF this] repr_node [OF t0(3)]
  obtain t1 where t1: "set_color (Some a) RB_Black t0 = Some t1" "rb_next t1 = rb_next t"
      "repr t1 (plug gs (Nd (Nd (Nd s p kp cp l) a k RB_Black r) q kq cq u))"
    using set_color_repr [OF t0(3), of RB_Black] t0(2) by auto
  obtain t2 where t2: "set_color (Some q) RB_Red t1 = Some t2" "rb_next t2 = rb_next t"
      "repr t2 (plug gs (Nd (Nd (Nd s p kp cp l) a k RB_Black r) q kq RB_Red u))"
    using set_color_repr [OF t1(3), of RB_Red] t1(2) by auto
  obtain t3 where t3: "rotateRight (Some q) t2 = Some t3" "rb_next t3 = rb_next t"
      "repr t3 (plug gs (Nd (Nd s p kp cp l) a k RB_Black (Nd r q kq RB_Red u)))"
    using rotateRight_repr [OF t2(3)] t2(2) by auto
  show ?thesis using d d0 u t0 t1 t2 t3 by (simp add: fix_body_def)
qed

lemma recolor_right:
  assumes R: "repr t (plug (f # InR (Nd ul ua uk RB_Red ur) q kq cq # gs) (Nd l a k c r))"
    and y: "plug [f] (Nd l a k c r) = Nd yl p kp cp yr"
  shows "\<exists>t'. fix_body (Some a) t = Some (Some q, t') \<and> rb_next t' = rb_next t
    \<and> repr t' (plug gs (Nd (Nd ul ua uk RB_Black ur) q kq RB_Red (Nd yl p kp RB_Black yr)))"
proof -
  let ?u = "Nd ul ua uk RB_Red ur"
  have p: "f_addr f = p" using y by (cases f) auto
  have Y: "repr t (plug (InR ?u q kq cq # gs) (Nd yl p kp cp yr))"
    using R y plug_append [of "[f]" "InR ?u q kq cq # gs"] by simp
  then have Q: "repr t (plug gs (Nd ?u q kq cq (Nd yl p kp cp yr)))" and U: "repr t (plug (InL q kq cq (Nd yl p kp cp yr) # gs) ?u)"
    by simp_all
  have side: "p \<noteq> ua" using Q [unfolded repr_plug] by auto
  note d = repr_node [OF R] repr_node [OF Y] repr_node [OF Q] colorOf_repr [OF U]
  obtain t1 where t1: "set_color (Some p) RB_Black t = Some t1" "rb_next t1 = rb_next t"
      "repr t1 (plug (InL q kq cq (Nd yl p kp RB_Black yr) # gs) ?u)"
    using set_color_repr [OF Y, of RB_Black] by auto
  obtain t2 where t2: "set_color (Some ua) RB_Black t1 = Some t2" "rb_next t2 = rb_next t"
      "repr t2 (plug gs (Nd (Nd ul ua uk RB_Black ur) q kq cq (Nd yl p kp RB_Black yr)))"
    using set_color_repr [OF t1(3), of RB_Black] t1(2) by auto
  obtain t3 where t3: "set_color (Some q) RB_Red t2 = Some t3" "rb_next t3 = rb_next t"
      "repr t3 (plug gs (Nd (Nd ul ua uk RB_Black ur) q kq RB_Red (Nd yl p kp RB_Black yr)))"
    using set_color_repr [OF t2(3), of RB_Red] t2(2) by auto
  show ?thesis using d side t1 t2 t3 by (simp add: fix_body_def p)
qed

lemma outer_right:
  assumes R: "repr t (plug (InR s p kp cp # InR u q kq cq # gs) (Nd l a k c r))" and u: "a_color u = RB_Black"
  shows "\<exists>t'. fix_body (Some a) t = Some (Some a, t') \<and> rb_next t' = rb_next t
    \<and> repr t' (plug gs (Nd (Nd u q kq RB_Red s) p kp RB_Black (Nd l a k c r)))"
proof -
  let ?x = "Nd l a k c r"
  have Y: "repr t (plug (InR u q kq cq # gs) (Nd s p kp cp ?x))" using R by simp
  then have Q: "repr t (plug gs (Nd u q kq cq (Nd s p kp cp ?x)))" and U: "repr t (plug (InL q kq cq (Nd s p kp cp ?x) # gs) u)"
    by simp_all
  have a: "Some a \<noteq> root_of s" "Some p \<noteq> root_of u" using R [unfolded repr_plug] by auto
  note d = repr_node [OF R] repr_node [OF Y] repr_node [OF Q] colorOf_repr [OF U]
  obtain t1 where t1: "set_color (Some p) RB_Black t = Some t1" "rb_next t1 = rb_next t"
      "repr t1 (plug gs (Nd u q kq cq (Nd s p kp RB_Black ?x)))"
    using set_color_repr [OF Y, of RB_Black] by auto
  obtain t2 where t2: "set_color (Some q) RB_Red t1 = Some t2" "rb_next t2 = rb_next t"
      "repr t2 (plug gs (Nd u q kq RB_Red (Nd s p kp RB_Black ?x)))"
    using set_color_repr [OF t1(3), of RB_Red] t1(2) by auto
  obtain t3 where t3: "rotateLeft (Some q) t2 = Some t3" "rb_next t3 = rb_next t"
      "repr t3 (plug gs (Nd (Nd u q kq RB_Red s) p kp RB_Black ?x))"
    using rotateLeft_repr [OF t2(3)] t2(2) by auto
  show ?thesis using d a u t1 t2 t3 by (simp add: fix_body_def)
qed

lemma inner_right:
  assumes R: "repr t (plug (InL p kp cp s # InR u q kq cq # gs) (Nd l a k c r))" and u: "a_color u = RB_Black"
  shows "\<exists>t'. fix_body (Some a) t = Some (Some p, t') \<and> rb_next t' = rb_next t
    \<and> repr t' (plug gs (Nd (Nd u q kq RB_Red l) a k RB_Black (Nd r p kp cp s)))"
proof -
  have Y: "repr t (plug (InR u q kq cq # gs) (Nd (Nd l a k c r) p kp cp s))" using R by simp
  then have Q: "repr t (plug gs (Nd u q kq cq (Nd (Nd l a k c r) p kp cp s)))"
      and U: "repr t (plug (InL q kq cq (Nd (Nd l a k c r) p kp cp s) # gs) u)"
    by simp_all
  have a: "Some p \<noteq> root_of u" using R [unfolded repr_plug] by auto
  note d = repr_node [OF R] repr_node [OF Y] repr_node [OF Q] colorOf_repr [OF U]
  obtain t0 where t0: "rotateRight (Some p) t = Some t0" "rb_next t0 = rb_next t"
      "repr t0 (plug (InR u q kq cq # gs) (Nd l a k c (Nd r p kp cp s)))"
    using rotateRight_repr [OF Y] by auto
  then have "repr t0 (plug (InR l a k c # InR u q kq cq # gs) (Nd r p kp cp s))" by simp
  note d0 = repr_node [OF this] repr_node [OF t0(3)]
  obtain t1 where t1: "set_color (Some a) RB_Black t0 = Some t1" "rb_next t1 = rb_next t"
      "repr t1 (plug gs (Nd u q kq cq (Nd l a k RB_Black (Nd r p kp cp s))))"
    using set_color_repr [OF t0(3), of RB_Black] t0(2) by auto
  obtain t2 where t2: "set_color (Some q) RB_Red t1 = Some t2" "rb_next t2 = rb_next t"
      "repr t2 (plug gs (Nd u q kq RB_Red (Nd l a k RB_Black (Nd r p kp cp s))))"
    using set_color_repr [OF t1(3), of RB_Red] t1(2) by auto
  obtain t3 where t3: "rotateLeft (Some q) t2 = Some t3" "rb_next t3 = rb_next t"
      "repr t3 (plug gs (Nd (Nd u q kq RB_Red l) a k RB_Black (Nd r p kp cp s)))"
    using rotateLeft_repr [OF t2(3)] t2(2) by auto
  show ?thesis using d d0 a u t0 t1 t2 t3 by (simp add: fix_body_def)
qed

section \<open>Colours, black heights and order\<close>

fun bheight :: "atree \<Rightarrow> nat" where
  "bheight Lf = 0"
| "bheight (Nd l a k c r) = (if c = RB_Black then Suc (bheight l) else bheight l)"

fun inv_color :: "atree \<Rightarrow> bool" where
  "inv_color Lf = True"
| "inv_color (Nd l a k c r) =
     ((c = RB_Red \<longrightarrow> a_color l = RB_Black \<and> a_color r = RB_Black) \<and> inv_color l \<and> inv_color r)"

fun inv_height :: "atree \<Rightarrow> bool" where
  "inv_height Lf = True"
| "inv_height (Nd l a k c r) = (bheight l = bheight r \<and> inv_height l \<and> inv_height r)"

text \<open>The same for the part of a tree outside a path's end; the outermost node is black.\<close>

fun path_color :: "frame list \<Rightarrow> bool" where
  "path_color [] = True"
| "path_color (f # fs) = (inv_color (sibling f) \<and> path_color fs
     \<and> (f_color f = RB_Red \<longrightarrow> a_color (sibling f) = RB_Black \<and> fs \<noteq> [] \<and> f_color (hd fs) = RB_Black))"

fun path_height :: "frame list \<Rightarrow> nat \<Rightarrow> bool" where
  "path_height [] n = True"
| "path_height (f # fs) n = (inv_height (sibling f) \<and> bheight (sibling f) = n
     \<and> path_height fs (if f_color f = RB_Black then Suc n else n))"

fun before :: "frame list \<Rightarrow> int list" where
  "before [] = []"
| "before (InL a k c r # fs) = before fs"
| "before (InR l a k c # fs) = before fs @ keys l @ [k]"

fun after :: "frame list \<Rightarrow> int list" where
  "after [] = []"
| "after (InL a k c r # fs) = k # keys r @ after fs"
| "after (InR l a k c # fs) = after fs"

lemma keys_plug: "keys (plug fs x) = before fs @ keys x @ after fs"
  by (induction fs x rule: plug.induct) auto

lemma color_plug: "a_color (plug fs x) = (if fs = [] then a_color x else f_color (last fs))"
  by (induction fs x rule: plug.induct) auto

lemma inv_height_plug: "inv_height (plug fs x) \<longleftrightarrow> inv_height x \<and> path_height fs (bheight x)"
  by (induction fs x rule: plug.induct) auto

lemma neq_black [simp]: "c \<noteq> RB_Black \<longleftrightarrow> c = RB_Red" "c \<noteq> RB_Red \<longleftrightarrow> c = RB_Black"
  by (cases c; simp)+

lemma inv_color_plugI:
  "path_color fs \<Longrightarrow> inv_color x \<Longrightarrow> a_color x = RB_Black \<or> fs = [] \<or> f_color (hd fs) = RB_Black \<Longrightarrow> inv_color (plug fs x)"
  by (induction fs x rule: plug.induct) auto

lemma inv_color_plugD: "inv_color (plug fs x) \<Longrightarrow> fs \<noteq> [] \<longrightarrow> f_color (last fs) = RB_Black
    \<Longrightarrow> path_color fs \<and> inv_color x \<and> (a_color x = RB_Red \<longrightarrow> fs = [] \<or> f_color (hd fs) = RB_Black)"
  by (induction fs x rule: plug.induct) (auto split: if_splits)

section \<open>The loop and the insertion\<close>

lemma colorOf_up: "repr t (plug (f # fs) x) \<Longrightarrow> colorOf t (up (f # fs)) = Some (f_color f)"
  using colorOf_repr [of t fs "plug [f] x"] plug_append [of "[f]" fs x] by (cases f) auto

lemma fix_loop_stop:
  assumes "repr t (plug fs (Nd l a k c r))" "fs = [] \<or> f_color (hd fs) = RB_Black"
  shows "fix_loop (Some a) t = Some t"
proof (cases fs)
  case Nil
  then show ?thesis using assms(1) by (subst fix_loop.simps) (simp add: repr_def)
next
  case (Cons f fs')
  have "colorOf t (up fs) = Some RB_Black" using colorOf_up [of t f fs'] assms Cons by simp
  then show ?thesis using repr_node [OF assms(1)] by (subst fix_loop.simps) simp
qed

lemma fix_loop_go:
  assumes "repr t (plug (f # fs) (Nd l a k c r))" "f_color f = RB_Red" "fix_body (Some a) t = Some (node, t')"
  shows "fix_loop (Some a) t = fix_loop node t'"
proof -
  have "a \<notin> set (path_addrs (f # fs))" "rb_root t = Some (f_addr (last (f # fs)))"
    using assms(1) unfolding repr_plug by (auto simp: path_top_def)
  then have "Some a \<noteq> rb_root t" using last_path [of "f # fs"] by auto
  then show ?thesis using repr_node [OF assms(1)] colorOf_up [OF assms(1)] assms(2,3)
    by (subst fix_loop.simps) simp
qed

text \<open>What the fix-up leaves: the keys, and everything but perhaps a black root.\<close>

definition fixed :: "int list \<Rightarrow> nat \<Rightarrow> rbtree option \<Rightarrow> bool" where
  "fixed ks n r \<longleftrightarrow> (\<exists>t y. r = Some t \<and> repr t y \<and> rb_next t = n \<and> keys y = ks \<and> inv_color y \<and> inv_height y \<and> y \<noteq> Lf)"

lemma fixedI:
  assumes "repr t (plug fs (Nd l a k c r))" "path_color fs" "path_height fs (bheight (Nd l a k c r))"
    and "inv_color (Nd l a k c r)" "inv_height (Nd l a k c r)" "c = RB_Black \<or> fs = [] \<or> f_color (hd fs) = RB_Black"
    and "ks = keys (plug fs (Nd l a k c r))" "n = rb_next t"
  shows "fixed ks n (Some t)"
  unfolding fixed_def using assms inv_color_plugI [OF assms(2,4)] inv_height_plug [of fs]
  by (intro exI [of _ t] exI [of _ "plug fs (Nd l a k c r)"]) (auto dest: arg_cong [of _ Lf root_of] simp: root_of_plug path_top_def split: if_splits)

text \<open>A black uncle: the rotations end the loop.\<close>

lemma fix_loop_rotate:
  assumes R: "repr t (plug (f # g # gs) (Nd l a k RB_Red r))" and C: "path_color (f # g # gs)" "f_color f = RB_Red"
    and H: "path_height (f # g # gs) (bheight l)" and X: "inv_color (Nd l a k RB_Red r)" "inv_height (Nd l a k RB_Red r)"
    and u: "a_color (sibling g) = RB_Black"
  shows "fixed (keys (plug (f # g # gs) (Nd l a k RB_Red r))) (rb_next t) (fix_loop (Some a) t)"
proof -
  let ?x = "Nd l a k RB_Red r"
  note go = fix_loop_go [OF R C(2)] and stop = fix_loop_stop and ok = fixedI [where c = RB_Black]
  have g: "f_color g = RB_Black" "path_color gs" "path_height gs (Suc (bheight l))" using C H by (simp_all del: neq_black)
  show ?thesis
  proof (cases f; cases g)
    fix p kp cp s q kq cq v assume fg: "f = InL p kp cp s" "g = InL q kq cq v"
    obtain t' where t': "fix_body (Some a) t = Some (Some a, t')" "rb_next t' = rb_next t"
        "repr t' (plug gs (Nd ?x p kp RB_Black (Nd s q kq RB_Red v)))"
      using outer_left [of t p kp cp s q kq cq v gs l a k RB_Red r] R u fg by auto
    have "fix_loop (Some a) t = Some t'" using go [OF t'(1)] stop [of t' "InL p kp RB_Black (Nd s q kq RB_Red v) # gs"] t'(3) by simp
    moreover have "fixed (keys (plug (f # g # gs) ?x)) (rb_next t) (Some t')"
      by (rule ok [OF t'(3)]) (use C H X u g fg t'(2) in \<open>auto simp: keys_plug\<close>)
    ultimately show ?thesis by simp
  next
    fix p kp cp s v q kq cq assume fg: "f = InL p kp cp s" "g = InR v q kq cq"
    obtain t' where t': "fix_body (Some a) t = Some (Some p, t')" "rb_next t' = rb_next t"
        "repr t' (plug gs (Nd (Nd v q kq RB_Red l) a k RB_Black (Nd r p kp cp s)))"
      using inner_right [of t p kp cp s v q kq cq gs l a k RB_Red r] R u fg by auto
    have "fix_loop (Some a) t = Some t'" using go [OF t'(1)] stop [of t' "InR (Nd v q kq RB_Red l) a k RB_Black # gs"] t'(3) by simp
    moreover have "fixed (keys (plug (f # g # gs) ?x)) (rb_next t) (Some t')"
      by (rule ok [OF t'(3)]) (use C H X u g fg t'(2) in \<open>auto simp: keys_plug\<close>)
    ultimately show ?thesis by simp
  next
    fix s p kp cp q kq cq v assume fg: "f = InR s p kp cp" "g = InL q kq cq v"
    obtain t' where t': "fix_body (Some a) t = Some (Some p, t')" "rb_next t' = rb_next t"
        "repr t' (plug gs (Nd (Nd s p kp cp l) a k RB_Black (Nd r q kq RB_Red v)))"
      using inner_left [of t s p kp cp q kq cq v gs l a k RB_Red r] R u fg by auto
    have "fix_loop (Some a) t = Some t'" using go [OF t'(1)] stop [of t' "InL a k RB_Black (Nd r q kq RB_Red v) # gs"] t'(3) by simp
    moreover have "fixed (keys (plug (f # g # gs) ?x)) (rb_next t) (Some t')"
      by (rule ok [OF t'(3)]) (use C H X u g fg t'(2) in \<open>auto simp: keys_plug\<close>)
    ultimately show ?thesis by simp
  next
    fix s p kp cp v q kq cq assume fg: "f = InR s p kp cp" "g = InR v q kq cq"
    obtain t' where t': "fix_body (Some a) t = Some (Some a, t')" "rb_next t' = rb_next t"
        "repr t' (plug gs (Nd (Nd v q kq RB_Red s) p kp RB_Black ?x))"
      using outer_right [of t s p kp cp v q kq cq gs l a k RB_Red r] R u fg by auto
    have "fix_loop (Some a) t = Some t'" using go [OF t'(1)] stop [of t' "InR (Nd v q kq RB_Red s) p kp RB_Black # gs"] t'(3) by simp
    moreover have "fixed (keys (plug (f # g # gs) ?x)) (rb_next t) (Some t')"
      by (rule ok [OF t'(3)]) (use C H X u g fg t'(2) in \<open>auto simp: keys_plug\<close>)
    ultimately show ?thesis by simp
  qed
qed

text \<open>A red node with a red uncle: the loop goes on at the grandparent.\<close>

lemma fix_loop_ok:
  assumes "repr t (plug fs (Nd l a k RB_Red r))" "path_color fs" "path_height fs (bheight l)"
    and "inv_color (Nd l a k RB_Red r)" "inv_height (Nd l a k RB_Red r)"
  shows "fixed (keys (plug fs (Nd l a k RB_Red r))) (rb_next t) (fix_loop (Some a) t)"
  using assms
proof (induction fs arbitrary: t l a k r rule: length_induct)
  case (1 fs)
  let ?x = "Nd l a k RB_Red r"
  note R = "1.prems"(1) and C = "1.prems"(2) and H = "1.prems"(3) and X = "1.prems"(4,5)
  show ?case
  proof (cases "fs = [] \<or> f_color (hd fs) = RB_Black")
    case True
    then show ?thesis using fix_loop_stop [OF R True] fixedI [OF R C _ X _ refl refl] H by simp
  next
    case False
    then obtain f fs' where f: "fs = f # fs'" "f_color f = RB_Red" by (cases fs) auto
    then obtain g gs where g: "fs' = g # gs" "f_color g = RB_Black" using C by (cases fs') auto
    note go = fix_loop_go [OF R [unfolded f(1)] f(2)]
    obtain yl p kp yr where y: "plug [f] ?x = Nd yl p kp RB_Red yr" using f(2) by (cases f) auto
    have Y: "inv_color (Nd yl p kp RB_Black yr)" "inv_height (Nd yl p kp RB_Black yr)" "bheight yl = bheight (sibling g)"
      using y C H X f g by (cases f; auto)+
    have ks: "keys (plug fs ?x) = keys (plug (g # gs) (Nd yl p kp RB_Red yr))"
      using y plug_append [of "[f]" "g # gs" ?x] f(1) g(1) by simp
    show ?thesis
    proof (cases "a_color (sibling g) = RB_Red")
      case True
      then obtain ul ua uk ur where u: "sibling g = Nd ul ua uk RB_Red ur" by (cases "sibling g") auto
      show ?thesis
      proof (cases g)
        case (InL q kq cq v)
        then have R': "repr t (plug (f # InL q kq cq (Nd ul ua uk RB_Red ur) # gs) ?x)" using R f(1) g(1) u by simp
        obtain t' where t': "fix_body (Some a) t = Some (Some q, t')" "rb_next t' = rb_next t"
            "repr t' (plug gs (Nd (Nd yl p kp RB_Black yr) q kq RB_Red (Nd ul ua uk RB_Black ur)))"
          using recolor_left [OF R' y] by blast
        have "fixed (keys (plug gs (Nd (Nd yl p kp RB_Black yr) q kq RB_Red (Nd ul ua uk RB_Black ur)))) (rb_next t') (fix_loop (Some q) t')"
          using "1.IH" [rule_format, of gs, OF _ t'(3)] C H Y f g u InL by auto
        then show ?thesis using go [OF t'(1)] t'(2) ks InL u f(1) g(1) by (simp add: keys_plug)
      next
        case (InR v q kq cq)
        then have R': "repr t (plug (f # InR (Nd ul ua uk RB_Red ur) q kq cq # gs) ?x)" using R f(1) g(1) u by simp
        obtain t' where t': "fix_body (Some a) t = Some (Some q, t')" "rb_next t' = rb_next t"
            "repr t' (plug gs (Nd (Nd ul ua uk RB_Black ur) q kq RB_Red (Nd yl p kp RB_Black yr)))"
          using recolor_right [OF R' y] by blast
        have "fixed (keys (plug gs (Nd (Nd ul ua uk RB_Black ur) q kq RB_Red (Nd yl p kp RB_Black yr)))) (rb_next t') (fix_loop (Some q) t')"
          using "1.IH" [rule_format, of gs, OF _ t'(3)] C H Y f g u InR by auto
        then show ?thesis using go [OF t'(1)] t'(2) ks InR u f(1) g(1) by (simp add: keys_plug)
      qed
    next
      case False
      then show ?thesis using fix_loop_rotate [of t f g gs l a k r] R C H X f g by simp
    qed
  qed
qed

lemma fixAfterInsert_ok:
  assumes "repr t (plug fs (Nd l a k RB_Red r))" "path_color fs" "path_height fs (bheight l)"
    and "inv_color (Nd l a k RB_Red r)" "inv_height (Nd l a k RB_Red r)"
  shows "\<exists>t' y. fixAfterInsert (Some a) t = Some t' \<and> repr t' y \<and> keys y = keys (plug fs (Nd l a k RB_Red r))
    \<and> inv_color y \<and> inv_height y \<and> a_color y = RB_Black"
proof -
  obtain t1 y where y: "fix_loop (Some a) t = Some t1" "repr t1 y" "keys y = keys (plug fs (Nd l a k RB_Red r))"
      "inv_color y" "inv_height y" "y \<noteq> Lf"
    using fix_loop_ok [OF assms] by (auto simp: fixed_def)
  obtain ll b kb c rr where n: "y = Nd ll b kb c rr" using y(6) by (cases y) auto
  obtain t' where t': "set_color (Some b) RB_Black t1 = Some t'" "repr t' (Nd ll b kb RB_Black rr)"
    using set_color_repr [of t1 "[]" ll b kb c rr RB_Black] y(2) n by auto
  have "rb_root t1 = Some b" using y(2) n by (simp add: repr_def)
  then show ?thesis using y n t' by (intro exI [of _ t'] exI [of _ "Nd ll b kb RB_Black rr"]) (simp add: fixAfterInsert_def)
qed

lemma find_parent_ok:
  assumes "repr t (plug fs x)" "sorted_wrt (<) (keys (plug fs x))"
    and "\<forall>b \<in> set (before fs). b < key" "\<forall>b \<in> set (after fs). key < b"
  shows "if key \<in> set (keys x) then find_parent key (up fs) (root_of x) t = Some None
    else \<exists>gs. find_parent key (up fs) (root_of x) t = Some (Some (up gs)) \<and> plug gs Lf = plug fs x
      \<and> (\<forall>b \<in> set (before gs). b < key) \<and> (\<forall>b \<in> set (after gs). key < b)"
  using assms
proof (induction x arbitrary: fs)
  case Lf
  then have "\<exists>gs. find_parent key (up fs) None t = Some (Some (up gs)) \<and> plug gs Lf = plug fs Lf
      \<and> (\<forall>b \<in> set (before gs). b < key) \<and> (\<forall>b \<in> set (after gs). key < b)"
    by (intro exI [of _ fs]) (simp add: find_parent.simps)
  then show ?case by simp
next
  case (Nd l a k c r)
  note n = repr_node [OF Nd.prems(1)]
  have srt: "sorted_wrt (<) (keys l @ k # keys r)" using Nd.prems(2) by (simp add: keys_plug sorted_wrt_append)
  consider "key = k" | "key < k" | "k < key" by force
  then show ?case
  proof cases
    case 1
    then show ?thesis using n by (simp add: find_parent.simps)
  next
    case 2
    then have "key \<notin> set (keys r)" using srt by (auto simp: sorted_wrt_append)
    moreover have "find_parent key (up fs) (Some a) t = find_parent key (up (InL a k c r # fs)) (root_of l) t"
      using n 2 by (subst find_parent.simps) simp
    ultimately show ?thesis using Nd.IH(1) [of "InL a k c r # fs"] Nd.prems 2 srt by (fastforce simp: sorted_wrt_append)
  next
    case 3
    then have "key \<notin> set (keys l)" using srt by (auto simp: sorted_wrt_append)
    moreover have "find_parent key (up fs) (Some a) t = find_parent key (up (InR l a k c # fs)) (root_of r) t"
      using n 3 by (subst find_parent.simps) simp
    ultimately show ?thesis using Nd.IH(2) [of "InR l a k c # fs"] Nd.prems 3 srt by (fastforce simp: sorted_wrt_append)
  qed
qed

lemma attach_ok:
  assumes R: "repr t (plug gs Lf)" and side: "\<forall>b \<in> set (before gs). b < key" "\<forall>b \<in> set (after gs). key < b"
    and new: "new_node key t = (node, t1)"
  shows "\<exists>t2. attach key (up gs) node t1 = Some t2 \<and> node = Some (rb_next t)
    \<and> repr t2 (plug gs (Nd Lf (rb_next t) key RB_Red Lf))"
proof -
  let ?n = "rb_next t"
  have fresh: "?n \<notin> set (path_addrs gs)" using R [unfolded repr_plug] by auto
  show ?thesis
  proof (cases gs)
    case Nil
    then show ?thesis using R new
      by (auto simp: new_node_def attach_def assign_def deref_def repr_def less_Suc_eq)
  next
    case (Cons g gs')
    then show ?thesis using R [unfolded repr_plug] new fresh side unfolding repr_plug
      by (cases g) (auto simp: new_node_def attach_def assign_def deref_def path_top_def less_Suc_eq)
  qed
qed

text \<open>The states of the class: a red-black tree with the elements \<open>S\<close>.\<close>

definition rb_set :: "rbtree \<Rightarrow> int set \<Rightarrow> bool" where
  "rb_set t S \<longleftrightarrow> (\<exists>y. repr t y \<and> inv_color y \<and> inv_height y \<and> a_color y = RB_Black
     \<and> sorted_wrt (<) (keys y) \<and> set (keys y) = S)"

lemma rb_set_new: "rb_set rb_new {}"
  unfolding rb_set_def by (intro exI [of _ Lf]) (simp add: rb_new_def repr_def)

lemma rb_insert_ok:
  assumes "rb_set t S"
  shows "\<exists>t'. rb_insert key t = Some t' \<and> rb_set t' (insert key S) \<and> (key \<in> S \<longrightarrow> t' = t)"
proof -
  obtain y where y: "repr t (plug [] y)" "inv_color y" "inv_height y" "a_color y = RB_Black"
      "sorted_wrt (<) (keys (plug [] y))" "set (keys y) = S" using assms by (auto simp: rb_set_def)
  have root: "rb_root t = root_of y" using y(1) by (simp add: repr_def)
  note find = find_parent_ok [OF y(1,5), of key, simplified]
  show ?thesis
  proof (cases "key \<in> S")
    case True
    then have "rb_insert key t = Some t" using find y(6) root by (simp add: rb_insert_def)
    then show ?thesis using True assms by (simp add: insert_absorb)
  next
    case False
    then obtain gs where gs: "find_parent key None (root_of y) t = Some (Some (up gs))" "plug gs Lf = y"
        "\<forall>b \<in> set (before gs). b < key" "\<forall>b \<in> set (after gs). key < b" using find y(6) by auto
    obtain node t1 where n: "new_node key t = (node, t1)" by fastforce
    obtain t2 where t2: "attach key (up gs) node t1 = Some t2" "node = Some (rb_next t)"
        "repr t2 (plug gs (Nd Lf (rb_next t) key RB_Red Lf))"
      using attach_ok [of t gs key, OF _ gs(3,4) n] y(1) gs(2) by auto
    have "gs \<noteq> [] \<longrightarrow> f_color (last gs) = RB_Black" using color_plug [of gs Lf] gs(2) y(4) by (auto split: if_splits)
    then have C: "path_color gs" using inv_color_plugD [of gs Lf] y(2) gs(2) by simp
    have H: "path_height gs 0" using inv_height_plug [of gs Lf] y(3) gs(2) by simp
    obtain t' z where z: "fixAfterInsert node t2 = Some t'" "repr t' z" "inv_color z" "inv_height z" "a_color z = RB_Black"
        "keys z = before gs @ key # after gs"
      using fixAfterInsert_ok [OF t2(3) C] H t2(2) by (auto simp: keys_plug)
    have "keys y = before gs @ after gs" using gs(2) keys_plug [of gs Lf] by simp
    then have "sorted_wrt (<) (keys z)" "set (keys z) = insert key S"
      using y(5,6) z(6) gs(3,4) by (auto simp: sorted_wrt_append)
    then have "rb_set t' (insert key S)" using z by (auto simp: rb_set_def)
    moreover have "rb_insert key t = Some t'" using gs(1) n t2(1) z(1) root by (simp add: rb_insert_def)
    ultimately show ?thesis using False by simp
  qed
qed

section \<open>Search, printing, validation, destruction\<close>

lemma contains_from_ok:
  assumes "repr t (plug fs x)" "sorted_wrt (<) (keys x)"
  shows "contains_from key (root_of x) t = Some (key \<in> set (keys x))"
  using assms
proof (induction x arbitrary: fs)
  case (Nd l a k c r)
  have "contains_from key (Some a) t = (if key = k then Some True else contains_from key (if key < k then root_of l else root_of r) t)"
    using repr_node [OF Nd.prems(1)] by (subst contains_from.simps) simp
  then show ?case
    using Nd.IH(1) [of "InL a k c r # fs"] Nd.IH(2) [of "InR l a k c # fs"] Nd.prems
    by (auto simp: sorted_wrt_append)
qed (simp add: contains_from.simps)

fun node_text :: "int \<Rightarrow> rb_color \<Rightarrow> string" where
  "node_text k c = dec_of_int k @ (if c = RB_Red then ''(R)'' else ''(B)'') @ '' ''"

fun in_text :: "atree \<Rightarrow> string" where
  "in_text Lf = []"
| "in_text (Nd l a k c r) = in_text l @ node_text k c @ in_text r"

lemma colorLabel_node:
  "repr t (plug fs (Nd l a k c r)) \<Longrightarrow> colorLabel t (Some a) = Some (if c = RB_Red then ''(R)'' else ''(B)'')"
  using colorOf_repr [of t fs "Nd l a k c r"] by (simp add: colorLabel_def)

lemma print_node_ok: "repr t (plug fs x) \<Longrightarrow> print_node (root_of x) t = Some (in_text x)"
proof (induction x arbitrary: fs)
  case (Nd l a k c r)
  then show ?case
    using repr_node [OF Nd.prems] colorLabel_node [OF Nd.prems] Nd.IH(1) [of "InL a k c r # fs"] Nd.IH(2) [of "InR l a k c # fs"]
    by (subst print_node.simps) simp
qed (simp add: print_node.simps)

text \<open>Breadth first, on a queue of trees.\<close>

function level_text :: "atree list \<Rightarrow> string" where
  "level_text [] = []"
| "level_text (Lf # q) = level_text q"
| "level_text (Nd l a k c r # q) = node_text k c @ level_text (q @ filter (\<lambda>x. x \<noteq> Lf) [l, r])"
  by pat_completeness auto
termination
  by (relation "measures [\<lambda>q. sum_list (map size q), length]") auto

lemma level_loop_ok:
  "\<forall>x \<in> set q. x \<noteq> Lf \<and> (\<exists>fs. repr t (plug fs x)) \<Longrightarrow> level_loop (map root_of q) t = Some (level_text q)"
proof (induction q rule: level_text.induct)
  case (3 l a k c r q)
  obtain fs where R: "repr t (plug fs (Nd l a k c r))" using "3.prems" by auto
  have "\<exists>fs. repr t (plug fs l)" by (rule exI [of _ "InL a k c r # fs"]) (use R in simp)
  moreover have "\<exists>fs. repr t (plug fs r)" by (rule exI [of _ "InR l a k c # fs"]) (use R in simp)
  ultimately have "\<forall>x \<in> set (q @ filter (\<lambda>x. x \<noteq> Lf) [l, r]). x \<noteq> Lf \<and> (\<exists>fs. repr t (plug fs x))"
    using "3.prems" by auto
  note IH = "3.IH" [OF this]
  show ?case using repr_node [OF R] colorLabel_node [OF R] IH
    by (subst level_loop.simps) (cases l; cases r; simp)
qed (auto simp: level_loop.simps)

definition good :: "int \<Rightarrow> int \<Rightarrow> atree \<Rightarrow> bool" where
  "good low high x \<longleftrightarrow> inv_color x \<and> inv_height x \<and> sorted_wrt (<) (keys x) \<and> (\<forall>k \<in> set (keys x). low < k \<and> k < high)"

lemma good_Nd: "good low high (Nd l a k c r) \<longleftrightarrow> low < k \<and> k < high \<and> (c = RB_Red \<longrightarrow> a_color l = RB_Black \<and> a_color r = RB_Black)
    \<and> good low k l \<and> good k high r \<and> bheight l = bheight r"
  by (auto simp: good_def sorted_wrt_append) (meson less_trans)+

lemma validate_ok:
  assumes "repr t (plug fs x)" "0 \<le> n"
  shows "\<exists>b e'. validate (root_of x) low high n e t = Some (b, e')
    \<and> (b \<longleftrightarrow> good low high x \<and> (e = -1 \<or> e = n + int (bheight x))) \<and> (b \<longrightarrow> e' = n + int (bheight x))"
  using assms
proof (induction x arbitrary: fs low high n e)
  case Lf
  then show ?case by (subst validate.simps) (auto simp: good_def)
next
  case (Nd l a k c r)
  let ?n = "if c = RB_Black then n + 1 else n"
  have R: "repr t (plug (InL a k c r # fs) l)" "repr t (plug (InR l a k c # fs) r)" using Nd.prems(1) by simp_all
  note d = repr_node [OF Nd.prems(1)] colorOf_repr [OF R(1)] colorOf_repr [OF R(2)]
  show ?case
  proof (cases "low < k \<and> k < high \<and> (c = RB_Red \<longrightarrow> a_color l = RB_Black \<and> a_color r = RB_Black)")
    case False
    then show ?thesis using d by (subst validate.simps) (auto simp: good_Nd)
  next
    case True
    have n: "0 \<le> ?n" using Nd.prems(2) by simp
    obtain b1 e1 where l: "validate (root_of l) low k ?n e t = Some (b1, e1)"
        "b1 \<longleftrightarrow> good low k l \<and> (e = -1 \<or> e = ?n + int (bheight l))" "b1 \<longrightarrow> e1 = ?n + int (bheight l)"
      using Nd.IH(1) [OF R(1) n] by blast
    obtain b2 e2 where r: "validate (root_of r) k high ?n e1 t = Some (b2, e2)"
        "b2 \<longleftrightarrow> good k high r \<and> (e1 = -1 \<or> e1 = ?n + int (bheight r))" "b2 \<longrightarrow> e2 = ?n + int (bheight r)"
      using Nd.IH(2) [OF R(2) n] by blast
    have "validate (Some a) low high n e t = (if b1 then Some (b2, e2) else Some (False, e1))"
      using d True l(1) r(1) by (subst validate.simps) (auto simp: Let_def)
    moreover have h: "n + int (bheight (Nd l a k c r)) = ?n + int (bheight l)" by simp
    have g: "good low high (Nd l a k c r) \<longleftrightarrow> good low k l \<and> good k high r \<and> bheight l = bheight r"
      unfolding good_Nd using True by blast
    ultimately have v: "validate (root_of (Nd l a k c r)) low high n e t = (if b1 then Some (b2, e2) else Some (False, e1))" by simp
    show ?thesis unfolding v g h
    proof (cases b1)
      case True
      then have "e1 = ?n + int (bheight l)" "e1 \<noteq> -1" using l(3) n by simp_all
      then have "b2 \<longleftrightarrow> good k high r \<and> bheight l = bheight r" using r(2) by auto
      then show "\<exists>b e'. (if b1 then Some (b2, e2) else Some (False, e1)) = Some (b, e')
          \<and> (b \<longleftrightarrow> (good low k l \<and> good k high r \<and> bheight l = bheight r) \<and> (e = -1 \<or> e = ?n + int (bheight l)))
          \<and> (b \<longrightarrow> e' = ?n + int (bheight l))" using True l(2) r(3) by auto
    next
      case False
      then show "\<exists>b e'. (if b1 then Some (b2, e2) else Some (False, e1)) = Some (b, e')
          \<and> (b \<longleftrightarrow> (good low k l \<and> good k high r \<and> bheight l = bheight r) \<and> (e = -1 \<or> e = ?n + int (bheight l)))
          \<and> (b \<longrightarrow> e' = ?n + int (bheight l))" using l(2) by auto
    qed
  qed
qed

lemma isValid_ok:
  assumes "repr t x"
  shows "isValid t = Some (x = Lf \<or> a_color x = RB_Black \<and> good int_min int_max x)"
proof (cases x)
  case Lf
  then show ?thesis using assms by (simp add: isValid_def repr_def)
next
  case (Nd l a k c r)
  have R: "repr t (plug [] x)" using assms by simp
  have root: "rb_root t = Some a" using assms Nd by (simp add: repr_def)
  obtain b e' where "validate (Some a) int_min int_max 0 (-1) t = Some (b, e')" "b \<longleftrightarrow> good int_min int_max x"
    using validate_ok [OF R, of 0 int_min int_max "-1"] Nd by auto
  then show ?thesis using repr_node [of t "[]"] assms Nd root by (auto simp: isValid_def)
qed

lemma holds_restrict: "set (addrs x) \<inter> B = {} \<Longrightarrow> holds (h |` (- B)) p x = holds h p x"
  by (induction x arbitrary: p) (auto simp: restrict_map_def)

lemma destroy_ok:
  assumes "holds (rb_store t) p x" "distinct (addrs x)"
  shows "destroy (root_of x) t = Some (t\<lparr>rb_store := rb_store t |` (- set (addrs x))\<rparr>)"
  using assms
proof (induction x arbitrary: t p)
  case Lf
  then show ?case by (simp add: destroy.simps restrict_map_def)
next
  case (Nd l a k c r)
  let ?n = "\<lparr>rb_key = k, rb_color = c, rb_parent = p, rb_left = root_of l, rb_right = root_of r\<rparr>"
  let ?t1 = "t\<lparr>rb_store := rb_store t |` (- set (addrs l))\<rparr>"
  let ?t2 = "t\<lparr>rb_store := rb_store ?t1 |` (- set (addrs r))\<rparr>"
  have l: "destroy (root_of l) t = Some ?t1" using Nd.IH(1) [of t "Some a"] Nd.prems by simp
  have "set (addrs r) \<inter> set (addrs l) = {}" using Nd.prems(2) by auto
  then have r: "destroy (root_of r) ?t1 = Some ?t2"
    using Nd.IH(2) [of ?t1 "Some a"] Nd.prems holds_restrict [of r "set (addrs l)"] by simp
  have d: "deref t (Some a) = Some ?n" "deref ?t1 (Some a) = Some ?n" "deref ?t2 (Some a) = Some ?n"
    using Nd.prems by (simp_all add: deref_def)
  have "(rb_store ?t2)(a := None) = rb_store t |` (- set (addrs (Nd l a k c r)))"
    by (auto simp: restrict_map_def fun_eq_iff)
  then show ?case using d l r by (subst destroy.simps) simp
qed

text \<open>The longest path and the number of nodes.\<close>

fun height :: "atree \<Rightarrow> nat" where
  "height Lf = 0"
| "height (Nd l a k c r) = Suc (max (height l) (height r))"

lemma bheight_size: "inv_height x \<Longrightarrow> 2 ^ bheight x \<le> length (keys x) + 1"
  by (induction x) auto

lemma height_bheight:
  "inv_color x \<Longrightarrow> inv_height x \<Longrightarrow> height x \<le> (if a_color x = RB_Black then 2 * bheight x else 2 * bheight x + 1)"
  by (induction x) (auto split: if_splits)

lemma height_bound:
  assumes "inv_color x" "inv_height x" "a_color x = RB_Black"
  shows "2 ^ (height x div 2) \<le> length (keys x) + 1"
proof -
  have "height x div 2 \<le> bheight x" using height_bheight [OF assms(1,2)] assms(3) by simp
  then have "(2::nat) ^ (height x div 2) \<le> 2 ^ bheight x" by (intro power_increasing) simp_all
  then show ?thesis using bheight_size [OF assms(2)] by linarith
qed

section \<open>Properties\<close>

lemma rb_set_contains:
  assumes "rb_set t S"
  shows "rb_contains key t = Some (key \<in> S)"
proof -
  obtain y where "repr t (plug [] y)" "sorted_wrt (<) (keys y)" "set (keys y) = S" using assms by (auto simp: rb_set_def)
  then show ?thesis using contains_from_ok [of t "[]" y key] by (simp add: rb_contains_def repr_def)
qed

lemma rb_set_valid:
  assumes "rb_set t S"
  shows "isValid t = Some (\<forall>k \<in> S. int_min < k \<and> k < int_max)"
proof -
  obtain y where y: "repr t y" "inv_color y" "inv_height y" "a_color y = RB_Black" "sorted_wrt (<) (keys y)" "set (keys y) = S"
    using assms by (auto simp: rb_set_def)
  show ?thesis unfolding isValid_ok [OF y(1)] using y by (cases y) (auto simp: good_def)
qed

interpretation rb: searchable rb_set rb_insert insert rb_contains "\<lambda>key S b. b \<longleftrightarrow> key \<in> S"
  by unfold_locales (use rb_insert_ok rb_set_contains in \<open>blast+\<close>)

abbreviation rb_inserts :: "int list \<Rightarrow> rbtree \<Rightarrow> rbtree option" where
  "rb_inserts \<equiv> ins_all rb_insert"

lemma rb_inserts_ok: "\<exists>t. rb_inserts ks rb_new = Some t \<and> rb_set t (set ks)"
  using rb.ins_all_ok [OF rb_set_new, of ks] by (simp add: fold_insert_set)

text \<open>
  C28. Any sequence of insertions into the empty tree ends without a null or dangling access; the
  pointer structure is then a tree with consistent parent pointers, in strict key order, without a
  red node below a red one and with equal black heights, whose keys are those inserted, each once;
  its height is at most twice the logarithm of their number, and \<open>contains\<close> finds exactly them.
  \<open>isValid\<close> confirms the tree exactly if no key is the least or the greatest \<open>int\<close>, the bounds
  \<open>validate\<close> starts with and excludes.
\<close>

theorem rb_inserts_correct:
  "\<exists>t y. rb_inserts ks rb_new = Some t \<and> repr t y \<and> inv_color y \<and> inv_height y \<and> a_color y = RB_Black
    \<and> sorted_wrt (<) (keys y) \<and> set (keys y) = set ks \<and> 2 ^ (height y div 2) \<le> card (set ks) + 1
    \<and> (\<forall>key. rb_contains key t = Some (key \<in> set ks))
    \<and> isValid t = Some (\<forall>k \<in> set ks. int_min < k \<and> k < int_max)"
proof -
  obtain t where t: "rb_inserts ks rb_new = Some t" "rb_set t (set ks)" using rb_inserts_ok by blast
  obtain y where y: "repr t y" "inv_color y" "inv_height y" "a_color y = RB_Black" "sorted_wrt (<) (keys y)" "set (keys y) = set ks"
    using t(2) by (auto simp: rb_set_def)
  have "length (keys y) = card (set ks)" using y(5,6) distinct_card [of "keys y"] by (simp add: strict_sorted_iff)
  then show ?thesis using t(1) y height_bound [OF y(2-4)] rb_set_contains [OF t(2)] rb_set_valid [OF t(2)]
    by (intro exI [of _ t] exI [of _ y]) simp
qed

theorem rb_inserts_correct_witness:
  "\<exists>t. rb_inserts [41, 38, 31, 12, 19, 8] rb_new = Some t \<and> rb_contains 12 t = Some True \<and> rb_contains 13 t = Some False \<and> isValid t = Some True"
proof -
  obtain t where "rb_inserts [41, 38, 31, 12, 19, 8] rb_new = Some t"
      "\<forall>key. rb_contains key t = Some (key \<in> set [41, 38, 31, 12, 19, 8])"
      "isValid t = Some (\<forall>k \<in> set [41, 38, 31, 12, 19, 8]. int_min < k \<and> k < int_max)"
    using rb_inserts_correct [of "[41, 38, 31, 12, 19, 8]"] by blast
  then show ?thesis by (auto simp: int_min_def int_max_def)
qed

lemma rb_prints:
  assumes "repr t y"
  shows "printInOrder t = Some (''In-order traversal: '' @ in_text y @ [CHR 0x0A])"
    and "printLevelOrder t = Some (if y = Lf then ''Tree is empty'' @ [CHR 0x0A] else ''Level-order: '' @ level_text [y] @ [CHR 0x0A])"
proof -
  have R: "repr t (plug [] y)" and root: "rb_root t = root_of y" using assms by (simp_all add: repr_def)
  show "printInOrder t = Some (''In-order traversal: '' @ in_text y @ [CHR 0x0A])"
    using print_node_ok [OF R] root by (simp add: printInOrder_def)
  show "printLevelOrder t = Some (if y = Lf then ''Tree is empty'' @ [CHR 0x0A] else ''Level-order: '' @ level_text [y] @ [CHR 0x0A])"
  proof (cases y)
    case (Nd l a k c r)
    then have "\<forall>x \<in> set [y]. x \<noteq> Lf \<and> (\<exists>fs. repr t (plug fs x))" using exI [of "\<lambda>fs. repr t (plug fs y)", OF R] by simp
    from level_loop_ok [OF this] show ?thesis using Nd root by (simp add: printLevelOrder_def)
  qed (simp add: printLevelOrder_def root)
qed

text \<open>
  C31. \<open>isValid\<close> decides the red-black rules on every tree the store holds, broken ones included:
  it returns, and with true exactly on the empty tree and on trees with a black root, no red
  node below a red one, equal black heights, strict key order, and keys strictly between the
  least and the greatest \<open>int\<close>.
\<close>

theorem isValid_exact:
  assumes "repr t y"
  shows "isValid t = Some (y = Lf \<or> a_color y = RB_Black \<and> inv_color y \<and> inv_height y
    \<and> sorted_wrt (<) (keys y) \<and> (\<forall>k \<in> set (keys y). int_min < k \<and> k < int_max))"
  unfolding isValid_ok [OF assms] good_def by simp

theorem isValid_exact_witness:
  "\<exists>t. repr t (Nd (Nd Lf 1 3 RB_Red Lf) 0 5 RB_Red Lf) \<and> isValid t = Some False"
proof -
  let ?y = "Nd (Nd Lf 1 3 RB_Red Lf) 0 5 RB_Red Lf"
  let ?t = "\<lparr>rb_store = [0 \<mapsto> \<lparr>rb_key = 5, rb_color = RB_Red, rb_parent = None, rb_left = Some 1, rb_right = None\<rparr>,
      1 \<mapsto> \<lparr>rb_key = 3, rb_color = RB_Red, rb_parent = Some 0, rb_left = None, rb_right = None\<rparr>], rb_next = 2, rb_root = Some 0\<rparr>"
  have "repr ?t ?y" by (auto simp: repr_def)
  then show ?thesis using isValid_exact [of ?t ?y] by (intro exI [of _ ?t]) simp
qed

text \<open>
  C33. The destructor frees every node exactly once, without touching a freed one, and leaves none.
\<close>

theorem destroy_frees_all:
  assumes "repr t y"
  shows "\<exists>t'. destroy (rb_root t) t = Some t' \<and> rb_store t' = (\<lambda>_. None)"
proof -
  have "rb_store t |` (- set (addrs y)) = (\<lambda>_. None)" using assms by (auto simp: repr_def restrict_map_def fun_eq_iff dom_def)
  then show ?thesis using destroy_ok [of t None y] assms by (simp add: repr_def)
qed

theorem destroy_frees_all_witness:
  "\<exists>t t'. rb_inserts [41, 38, 31] rb_new = Some t \<and> destroy (rb_root t) t = Some t' \<and> rb_store t' = (\<lambda>_. None)"
proof -
  obtain t where t: "rb_inserts [41, 38, 31] rb_new = Some t" "rb_set t (set [41, 38, 31])"
    using rb_inserts_ok by blast
  then obtain y where "repr t y" by (auto simp: rb_set_def)
  from destroy_frees_all [OF this] show ?thesis using t(1) by blast
qed

end
