(* ===== verification/Lab6_BTree.thy ===== *)
theory Lab6_BTree
  imports Inserts
begin

text \<open>
  \<open>LAB-6/btree_index.cpp\<close>: the B-tree \<open>DB<Key, Row>\<close> of minimum degree \<open>t\<close>, whose insertion splits
  full children on the way down. An index outside a vector, undefined in C++, is \<open>None\<close>; for
  \<open>t \<ge> 2\<close> it is shown not to occur. The properties: after any insertions the tree is balanced and
  filled within its bounds and its scan is the sorted list of what was inserted, and a search
  finds a key iff it was inserted.
\<close>

section \<open>Nodes\<close>

datatype ('k, 'r) node = Node (is_leaf: bool) (entries: "('k \<times> 'r) list") (children: "('k, 'r) node list")

text \<open>\<open>2 * minDegree - 1\<close>; the minimum degree is at least 1 (for 0 the unsigned difference would wrap).\<close>

definition maxEntries :: "nat \<Rightarrow> nat" where
  "maxEntries t = 2 * t - 1"

definition isFull :: "nat \<Rightarrow> ('k, 'r) node \<Rightarrow> bool" where
  "isFull t n \<longleftrightarrow> length (entries n) = maxEntries t"

text \<open>
  \<open>splitChild\<close>: the child keeps its lower \<open>t - 1\<close> entries (and \<open>t\<close> children), the new node takes the
  upper ones, the median moves up.
\<close>

definition splitChild :: "nat \<Rightarrow> ('k, 'r) node \<Rightarrow> nat \<Rightarrow> ('k, 'r) node option" where
  "splitChild t x i =
     (if i < length (children x) \<and> i \<le> length (entries x)
      then let y = children x ! i
           in if maxEntries t \<le> length (entries y) \<and> (is_leaf y \<or> 2 * t \<le> length (children y))
              then let z = Node (is_leaf y) (take (t - 1) (drop t (entries y))) (if is_leaf y then [] else take t (drop t (children y)));
                       median = entries y ! (t - 1);
                       y' = Node (is_leaf y) (take (t - 1) (entries y)) (if is_leaf y then children y else take t (children y))
                   in Some (Node (is_leaf x) (take i (entries x) @ median # drop i (entries x))
                        (take i (children x) @ y' # z # drop (Suc i) (children x)))
              else None
      else None)"

text \<open>One more than the index the loops from the right stop at: behind the last key not above \<open>key\<close>.\<close>

definition slot :: "'k::linorder \<Rightarrow> ('k \<times> 'r) list \<Rightarrow> nat" where
  "slot key es = length (dropWhile (\<lambda>e. key < fst e) (rev es))"

fun depth :: "('k, 'r) node \<Rightarrow> nat" where
  "depth (Node lf es cs) = Suc (foldr (\<lambda>c m. max (depth c) m) cs 0)"

lemma depth_child: "c \<in> set (children x) \<Longrightarrow> depth c < depth x"
proof -
  have "depth c \<le> foldr (\<lambda>c m. max (depth c) m) cs 0" if "c \<in> set cs" for cs
    using that by (induction cs) auto
  then show "c \<in> set (children x) \<Longrightarrow> depth c < depth x" by (cases x) (simp add: less_Suc_eq_le)
qed

lemma depth_mono:
  assumes "\<forall>c \<in> set (children x). depth c < n" "0 < n"
  shows "depth x \<le> n"
proof -
  have "foldr (\<lambda>c m. max (depth c) m) cs 0 < n" if "\<forall>c \<in> set cs. depth c < n" for cs
    using that assms(2) by (induction cs) auto
  then show ?thesis using assms(1) by (cases x) (simp add: Suc_le_eq)
qed

lemma splitChild_depth:
  assumes "splitChild t x i = Some x'" "c \<in> set (children x')"
  shows "depth c < depth x"
proof -
  let ?y = "children x ! i"
  have i: "i < length (children x)" using assms(1) by (auto simp: splitChild_def split: if_splits)
  then have y: "depth ?y < depth x" by (intro depth_child) simp
  have part: "depth (Node lf es cs) \<le> depth ?y" if "set cs \<subseteq> set (children ?y)" for lf es cs
  proof (rule depth_mono)
    show "\<forall>c \<in> set (children (Node lf es cs)). depth c < depth ?y" using that depth_child by auto
    show "0 < depth ?y" by (cases ?y) simp
  qed
  have "c \<in> set (children x) \<or> (\<exists>lf es cs. c = Node lf es cs \<and> set cs \<subseteq> set (children ?y))"
    using assms by (auto simp: splitChild_def Let_def split: if_splits dest!: in_set_takeD in_set_dropD)
      (auto dest: in_set_takeD in_set_dropD)
  then show ?thesis using part y depth_child le_less_trans by blast
qed

text \<open>\<open>insertNonFull\<close>: the child to descend into is chosen again when it was split.\<close>

function insertNonFull :: "nat \<Rightarrow> 'k::linorder \<Rightarrow> 'r \<Rightarrow> ('k, 'r) node \<Rightarrow> ('k, 'r) node option" where
  "insertNonFull t key row x =
     (let c = slot key (entries x)
      in if is_leaf x
         then Some (Node True (take c (entries x) @ (key, row) # drop c (entries x)) (children x))
         else if \<not> c < length (children x) then None
         else if isFull t (children x ! c)
         then (case splitChild t x c of
             None \<Rightarrow> None
           | Some x' \<Rightarrow>
               if \<not> c < length (entries x') then None
               else let c' = (if key > fst (entries x' ! c) then Suc c else c)
               in if c' < length (children x')
                  then map_option (\<lambda>n. Node (is_leaf x') (entries x') ((children x')[c' := n]))
                         (insertNonFull t key row (children x' ! c'))
                  else None)
         else map_option (\<lambda>n. Node (is_leaf x) (entries x) ((children x)[c := n])) (insertNonFull t key row (children x ! c)))"
  by pat_completeness auto
termination
  by (relation "measure (\<lambda>(t, key, row, x). depth x)") (auto intro: splitChild_depth depth_child)

declare insertNonFull.simps [simp del]

function searchNode :: "'k::linorder \<Rightarrow> ('k, 'r) node \<Rightarrow> 'r option option" where
  "searchNode key (Node lf es cs) =
     (let i = length (takeWhile (\<lambda>e. key > fst e) es)
      in if i < length es \<and> key = fst (es ! i) then Some (Some (snd (es ! i)))
         else if lf then Some None
         else if i < length cs then searchNode key (cs ! i) else None)"
  by pat_completeness auto
termination
proof (relation "measure (\<lambda>(key, x). depth x)", goal_cases)
  case (2 key lf es cs i)
  then show ?case using depth_child [of "cs ! i" "Node lf es cs"] by simp
qed simp

declare searchNode.simps [simp del]

text \<open>\<open>inorder\<close>, on the scans of the children.\<close>

fun weave :: "'a list list \<Rightarrow> 'a list \<Rightarrow> 'a list option" where
  "weave [] es = None"
| "weave (c # cs) [] = Some c"
| "weave (c # cs) (e # es) = map_option (\<lambda>r. c @ e # r) (weave cs es)"

function inorder :: "('k, 'r) node \<Rightarrow> ('k \<times> 'r) list option" where
  "inorder (Node lf es cs) =
     (if lf then Some es
      else Option.bind (those (map inorder (take (Suc (length es)) cs))) (\<lambda>ls. weave ls es))"
  by pat_completeness auto
termination
proof (relation "measure depth", goal_cases)
  case (2 lf es cs c)
  then have "c \<in> set cs" by (metis in_set_takeD)
  then show ?case using depth_child [of c "Node lf es cs"] by (simp del: depth.simps)
qed simp

declare inorder.simps [simp del]

section \<open>The index\<close>

record ('k, 'r) btdb =
  bt_root :: "('k, 'r) node"
  bt_degree :: nat

definition btdb_new :: "nat \<Rightarrow> ('k, 'r) btdb" where
  "btdb_new t = \<lparr>bt_root = Node True [] [], bt_degree = t\<rparr>"

definition Insert :: "'k::linorder \<Rightarrow> 'r \<Rightarrow> ('k, 'r) btdb \<Rightarrow> ('k, 'r) btdb option" where
  "Insert key row d =
     (let t = bt_degree d;
          root = (if isFull t (bt_root d) then splitChild t (Node False [] [bt_root d]) 0 else Some (bt_root d))
      in map_option (\<lambda>r. d\<lparr>bt_root := r\<rparr>) (Option.bind root (insertNonFull t key row)))"

definition Search :: "'k::linorder \<Rightarrow> ('k, 'r) btdb \<Rightarrow> 'r option option" where
  "Search key d = searchNode key (bt_root d)"

definition Scan :: "('k, 'r) btdb \<Rightarrow> ('k \<times> 'r) list option" where
  "Scan d = inorder (bt_root d)"

text \<open>\<open>printTree\<close>, with \<open>operator<<\<close> of keys as an argument.\<close>

fun join_keys :: "string list \<Rightarrow> string" where
  "join_keys [] = []"
| "join_keys [k] = k"
| "join_keys (k # ks) = k @ '' '' @ join_keys ks"

fun printTree :: "('k \<Rightarrow> string) \<Rightarrow> nat \<Rightarrow> ('k, 'r) node \<Rightarrow> string" where
  "printTree showk d (Node lf es cs) =
     replicate (d * 2) (CHR '' '') @ ''['' @ join_keys (map (showk \<circ> fst) es) @ '']'' @ [CHR 0x0A]
     @ concat (map (printTree showk (Suc d)) cs)"

section \<open>Shape and contents\<close>

fun shape :: "nat \<Rightarrow> nat \<Rightarrow> ('k, 'r) node \<Rightarrow> bool" where
  "shape t 0 x = (is_leaf x \<and> children x = [])"
| "shape t (Suc d) x = (\<not> is_leaf x \<and> length (children x) = Suc (length (entries x))
     \<and> (\<forall>c \<in> set (children x). shape t d c \<and> t - 1 \<le> length (entries c) \<and> length (entries c) \<le> maxEntries t))"

text \<open>The children of a node with its entries in between, in two halves around child \<open>c\<close>.\<close>

fun weaves :: "'a list list \<Rightarrow> 'a list \<Rightarrow> 'a list" where
  "weaves (c # cs) (e # es) = c @ e # weaves cs es"
| "weaves (c # cs) [] = c"
| "weaves [] es = []"

fun flat :: "nat \<Rightarrow> ('k, 'r) node \<Rightarrow> ('k \<times> 'r) list" where
  "flat 0 x = entries x"
| "flat (Suc d) x = weaves (map (flat d) (children x)) (entries x)"

definition lefts :: "'a list list \<Rightarrow> 'a list \<Rightarrow> nat \<Rightarrow> 'a list" where
  "lefts cs es c = concat (map2 (\<lambda>l e. l @ [e]) (take c cs) (take c es))"

definition rights :: "'a list list \<Rightarrow> 'a list \<Rightarrow> nat \<Rightarrow> 'a list" where
  "rights cs es c = concat (map2 (#) (drop c es) (drop (Suc c) cs))"

lemma weaves_rights: "length cs = Suc (length es) \<Longrightarrow> weaves cs es = hd cs @ concat (map2 (#) es (tl cs))"
proof (induction cs es rule: weaves.induct)
  case (1 c cs e es)
  then show ?case by (cases cs) auto
qed auto

lemma weaves_split:
  assumes "length cs = Suc (length es)" "c < length cs"
  shows "weaves cs es = lefts cs es c @ cs ! c @ rights cs es c"
  using assms
proof (induction c arbitrary: cs es)
  case 0
  then show ?case using weaves_rights [OF 0(1)] by (cases cs) (simp_all add: lefts_def rights_def)
next
  case (Suc c)
  then obtain l ls e es' where "cs = l # ls" "es = e # es'" by (cases cs; cases es) auto
  then show ?case using Suc by (simp add: lefts_def rights_def)
qed

lemma lefts_upd: "lefts (cs[c := l]) es c = lefts cs es c" and rights_upd: "rights (cs[c := l]) es c = rights cs es c"
  by (simp_all add: lefts_def rights_def)

lemma weaves_append:
  "length cs = Suc (length es) \<Longrightarrow> length ds = Suc (length fs) \<Longrightarrow>
    weaves (cs @ ds) (es @ e # fs) = weaves cs es @ e # weaves ds fs"
proof (induction cs es rule: weaves.induct)
  case (2 c cs)
  then show ?case by (cases ds) auto
qed auto

lemma those_Some: "those (map f xs) = Some ys \<longleftrightarrow> map f xs = map Some ys"
proof (induction xs arbitrary: ys)
  case (Cons x xs)
  then show ?case by (cases "f x"; cases ys) auto
qed auto

lemma weave_weaves: "length cs = Suc (length es) \<Longrightarrow> weave cs es = Some (weaves cs es)"
  by (induction cs es rule: weaves.induct) auto

lemma inorder_flat: "shape t d x \<Longrightarrow> inorder x = Some (flat d x)"
proof (induction d arbitrary: x)
  case 0
  then show ?case by (cases x) (simp add: inorder.simps)
next
  case (Suc d)
  obtain lf es cs where x: "x = Node lf es cs" by (cases x)
  have "those (map inorder cs) = Some (map (flat d) cs)"
    unfolding those_Some using Suc x by auto
  then show ?case using Suc.prems x by (simp add: inorder.simps weave_weaves)
qed

section \<open>Splitting a child\<close>

lemma split_entries:
  assumes "0 < t" "length es = 2 * t - 1"
  shows "es = take (t - 1) es @ es ! (t - 1) # drop t es" "length (drop t es) = t - 1"
proof -
  show "es = take (t - 1) es @ es ! (t - 1) # drop t es" using id_take_nth_drop [of "t - 1" es] assms by simp
  show "length (drop t es) = t - 1" using assms by simp
qed

text \<open>What a split does to shape and contents.\<close>

lemma splitChild_ok:
  assumes t: "0 < t" and sh: "shape t (Suc d) x" and i: "i < length (children x)" and full: "length (entries (children x ! i)) = maxEntries t"
  obtains y m z where
    "splitChild t x i = Some (Node False (take i (entries x) @ m # drop i (entries x)) (take i (children x) @ y # z # drop (Suc i) (children x)))"
    "shape t d y" "shape t d z" "length (entries y) = t - 1" "length (entries z) = t - 1"
    "flat d (children x ! i) = flat d y @ m # flat d z"
proof -
  obtain lf es cs where y: "children x ! i = Node lf es cs" by (cases "children x ! i")
  have "shape t d (children x ! i)" using sh i by simp
  then have sy: "shape t d (Node lf es cs)" by (simp only: y)
  have len: "length es = 2 * t - 1" using full y by (simp add: maxEntries_def)
  note e = split_entries [OF t len]
  have z1: "take (t - 1) (drop t es) = drop t es" using e(2) by simp
  have ile: "i \<le> length (entries x)" using sh i by simp
  let ?y = "Node lf (take (t - 1) es) (if lf then cs else take t cs)"
  let ?z = "Node lf (drop t es) (if lf then [] else take t (drop t cs))"
  have leafness: "lf \<longleftrightarrow> d = 0" using sy by (cases d) auto
  have kids: "lf \<or> length cs = 2 * t" using sy len t by (cases d) auto
  have sp: "splitChild t x i = Some (Node False (take i (entries x) @ es ! (t - 1) # drop i (entries x))
      (take i (children x) @ ?y # ?z # drop (Suc i) (children x)))"
    using sh i ile y len z1 kids by (auto simp: splitChild_def Let_def maxEntries_def)
  have c2: "take t (drop t cs) = drop t cs" if "\<not> lf" using kids that by simp
  have "shape t d ?y \<and> shape t d ?z \<and> flat d (Node lf es cs) = flat d ?y @ es ! (t - 1) # flat d ?z"
  proof (cases d)
    case 0
    then have "lf" "cs = []" using sy by auto
    then show ?thesis using 0 e(1) by simp
  next
    case (Suc k)
    have nl: "\<not> lf" and cs: "length cs = 2 * t" using Suc leafness kids by auto
    have shs: "shape t d ?y" "shape t d ?z"
      using sy Suc nl cs len t c2 [OF nl] by (auto dest: in_set_takeD in_set_dropD)
    have "weaves (map (flat k) (take t cs) @ map (flat k) (drop t cs)) (take (t - 1) es @ es ! (t - 1) # drop t es)
        = weaves (map (flat k) (take t cs)) (take (t - 1) es) @ es ! (t - 1) # weaves (map (flat k) (drop t cs)) (drop t es)"
      by (rule weaves_append) (use cs len t in auto)
    then have "flat d (Node lf es cs) = flat d ?y @ es ! (t - 1) # flat d ?z"
      using Suc nl c2 [OF nl] e(1) by (simp flip: map_append)
    then show ?thesis using shs by blast
  qed
  then show thesis using that [OF sp] y e(2) len t by simp
qed

lemma weaves_insert:
  assumes "length cs = Suc (length es)" "i < length cs"
  shows "weaves (take i cs @ a # b # drop (Suc i) cs) (take i es @ m # drop i es)
    = lefts cs es i @ (a @ m # b) @ rights cs es i"
  using assms
proof (induction i arbitrary: cs es)
  case 0
  then show ?case using weaves_rights [of "b # tl cs" es] by (cases cs) (simp_all add: lefts_def rights_def)
next
  case (Suc i)
  then obtain l ls e es' where "cs = l # ls" "es = e # es'" by (cases cs; cases es) auto
  then show ?case using Suc by (simp add: lefts_def rights_def)
qed

section \<open>Insertion\<close>

text \<open>The pair was put between the smaller and the larger keys.\<close>

definition put_in :: "'k::linorder \<Rightarrow> 'r \<Rightarrow> ('k \<times> 'r) list \<Rightarrow> ('k \<times> 'r) list \<Rightarrow> bool" where
  "put_in key row xs ys \<longleftrightarrow> (\<exists>A B. xs = A @ B \<and> ys = A @ (key, row) # B
     \<and> (\<forall>a \<in> set A. fst a \<le> key) \<and> (\<forall>b \<in> set B. key \<le> fst b))"

lemma put_in_context:
  assumes "put_in key row xs ys" "\<forall>a \<in> set L. fst a \<le> key" "\<forall>b \<in> set R. key \<le> fst b"
  shows "put_in key row (L @ xs @ R) (L @ ys @ R)"
proof -
  obtain A B where "xs = A @ B" "ys = A @ (key, row) # B" "\<forall>a \<in> set A. fst a \<le> key" "\<forall>b \<in> set B. key \<le> fst b"
    using assms(1) by (auto simp: put_in_def)
  then show ?thesis unfolding put_in_def using assms(2,3)
    by (intro exI [of _ "L @ A"] exI [of _ "B @ R"]) auto
qed

lemma put_in_sorted: "put_in key row xs ys \<Longrightarrow> sorted (map fst xs) \<Longrightarrow> sorted (map fst ys)"
  by (auto simp: put_in_def sorted_append)

lemma put_in_mset: "put_in key row xs ys \<Longrightarrow> mset ys = add_mset (key, row) (mset xs)"
  by (auto simp: put_in_def)

lemma slot_le: "slot key es \<le> length es"
  using length_dropWhile_le [of "\<lambda>e. key < fst e" "rev es"] by (simp add: slot_def)

lemma slot_split:
  assumes "sorted (map fst es)"
  shows "\<forall>e \<in> set (take (slot key es) es). fst e \<le> key" "\<forall>e \<in> set (drop (slot key es) es). key < fst e"
proof -
  let ?P = "\<lambda>e. key < fst e"
  define D where "D = rev (dropWhile ?P (rev es))"
  define T where "T = rev (takeWhile ?P (rev es))"
  have "rev es = rev T @ rev D" by (simp add: D_def T_def)
  then have es: "es = D @ T" by (metis rev_append rev_rev_ident)
  have "slot key es = length D" by (simp add: slot_def D_def)
  then have t: "take (slot key es) es = rev (dropWhile ?P (rev es))" and d: "drop (slot key es) es = rev (takeWhile ?P (rev es))"
    by (simp_all add: es flip: D_def T_def) (simp_all add: D_def T_def flip: es)
  show "\<forall>e \<in> set (drop (slot key es) es). key < fst e" unfolding d using set_takeWhileD by fastforce
  show "\<forall>e \<in> set (take (slot key es) es). fst e \<le> key"
  proof (cases "dropWhile ?P (rev es)")
    case (Cons a as)
    then have "\<not> key < fst a" by (metis hd_dropWhile list.distinct(1) list.sel(1))
    moreover have "fst e \<le> fst a" if "e \<in> set as" for e
    proof -
      have "D = rev as @ [a]" using Cons by (simp add: D_def)
      then have "sorted (map fst (rev as @ [a] @ T))" using assms es by simp
      then show ?thesis using that by (auto simp: sorted_append)
    qed
    ultimately show ?thesis unfolding t Cons by fastforce
  next
    case Nil
    then show ?thesis by (simp only: t rev.simps list.set ball_empty)
  qed
qed

text \<open>Around the child in slot \<open>c\<close> the keys are on the sides of the entries next to it.\<close>

lemma sorted_around:
  assumes sorted: "sorted (map fst (weaves cs es))" and len: "length cs = Suc (length es)" and c: "c < length cs"
    and lo: "\<forall>e \<in> set (take c es). P (fst e)" and hi: "\<forall>e \<in> set (drop c es). Q (fst e)"
    and down: "\<And>a b. a \<le> b \<Longrightarrow> P b \<Longrightarrow> P a" and up: "\<And>a b. a \<le> b \<Longrightarrow> Q a \<Longrightarrow> Q b"
  shows "\<forall>a \<in> set (lefts cs es c). P (fst a)" "\<forall>b \<in> set (rights cs es c). Q (fst b)" "sorted (map fst (cs ! c))"
proof -
  have s: "sorted (map fst (lefts cs es c @ cs ! c @ rights cs es c))" using sorted weaves_split [OF len c] by simp
  then show "sorted (map fst (cs ! c))" by (auto simp: sorted_append)
  show "\<forall>a \<in> set (lefts cs es c). P (fst a)"
  proof (cases c)
    case (Suc k)
    have "take c cs = take k cs @ [cs ! k]" "take c es = take k es @ [es ! k]"
      using c len Suc by (simp_all add: take_Suc_conv_app_nth)
    then obtain M where l: "lefts cs es c = M @ [es ! k]"
      using c len Suc by (simp add: lefts_def)
    have "P (fst (es ! k))" using lo c len Suc by (simp add: take_Suc_conv_app_nth)
    then show ?thesis using s down unfolding l by (auto simp: sorted_append)
  qed (simp add: lefts_def)
  show "\<forall>b \<in> set (rights cs es c). Q (fst b)"
  proof (cases "c < length es")
    case True
    then obtain M where r: "rights cs es c = es ! c # M"
      using len by (simp add: rights_def Cons_nth_drop_Suc [symmetric])
    have "es ! c \<in> set (drop c es)" using True by (metis Cons_nth_drop_Suc list.set_intros(1))
    then have "Q (fst (es ! c))" using hi by blast
    then show ?thesis using s up unfolding r by (auto simp: sorted_append)
  qed (simp add: rights_def)
qed

lemma weaves_entries_sorted:
  assumes "length cs = Suc (length es)" "sorted (map fst (weaves cs es))"
  shows "sorted (map fst es)"
proof -
  have sub: "length cs = Suc (length es) \<Longrightarrow> set es \<subseteq> set (weaves cs es)" for cs :: "('a \<times> 'b) list list" and es
    by (induction cs es rule: weaves.induct) auto
  show ?thesis using assms
  proof (induction cs es rule: weaves.induct)
    case (1 c cs e es)
    then show ?case using sub [of cs es] by (auto simp: sorted_append)
  qed auto
qed

text \<open>Going down into a child that has room.\<close>

lemma descend:
  assumes sh: "shape t (Suc d) x" and srt: "sorted (map fst (flat (Suc d) x))" and c: "c < length (children x)"
    and lo: "\<forall>e \<in> set (take c (entries x)). fst e \<le> key" and hi: "\<forall>e \<in> set (drop c (entries x)). key \<le> fst e"
    and n: "shape t d n" "t - 1 \<le> length (entries n)" "length (entries n) \<le> maxEntries t"
      "put_in key row (flat d (children x ! c)) (flat d n)"
  shows "shape t (Suc d) (Node (is_leaf x) (entries x) ((children x)[c := n]))"
    "put_in key row (flat (Suc d) x) (flat (Suc d) (Node (is_leaf x) (entries x) ((children x)[c := n])))"
proof -
  have len: "length (map (flat d) (children x)) = Suc (length (entries x))" using sh by simp
  have c': "c < length (map (flat d) (children x))" using c by simp
  note around = sorted_around [OF _ len c' lo hi order_trans order_trans [of key]]
  show "shape t (Suc d) (Node (is_leaf x) (entries x) ((children x)[c := n]))"
    using sh n(1-3) set_update_subset_insert [of "children x" c n] by auto
  have "flat (Suc d) (Node (is_leaf x) (entries x) ((children x)[c := n]))
      = lefts (map (flat d) (children x)) (entries x) c @ flat d n @ rights (map (flat d) (children x)) (entries x) c"
    using weaves_split [of "map (flat d) ((children x)[c := n])" "entries x" c] len c
    by (simp add: map_update lefts_upd rights_upd)
  moreover have "flat (Suc d) x
      = lefts (map (flat d) (children x)) (entries x) c @ flat d (children x ! c) @ rights (map (flat d) (children x)) (entries x) c"
    using weaves_split [OF len c'] c by simp
  ultimately show "put_in key row (flat (Suc d) x) (flat (Suc d) (Node (is_leaf x) (entries x) ((children x)[c := n])))"
    using put_in_context [OF n(4)] around(1,2) srt by simp
qed

text \<open>What an insertion into a node that is not full promises.\<close>

definition inserted :: "nat \<Rightarrow> nat \<Rightarrow> 'k::linorder \<Rightarrow> 'r \<Rightarrow> ('k, 'r) node \<Rightarrow> bool" where
  "inserted t d key row x \<longleftrightarrow> (\<exists>x'. insertNonFull t key row x = Some x' \<and> shape t d x'
     \<and> length (entries x) \<le> length (entries x') \<and> length (entries x') \<le> Suc (length (entries x))
     \<and> put_in key row (flat d x) (flat d x'))"

text \<open>The descent into child \<open>c\<close>, which is not full.\<close>

lemma insert_below:
  assumes IH: "\<forall>y. shape t d y \<and> length (entries y) < maxEntries t \<and> sorted (map fst (flat d y)) \<longrightarrow> inserted t d key row y"
    and w: "shape t (Suc d) w" "sorted (map fst (flat (Suc d) w))" "c < length (children w)"
      "length (entries (children w ! c)) < maxEntries t"
      "\<forall>e \<in> set (take c (entries w)). fst e \<le> key" "\<forall>e \<in> set (drop c (entries w)). key \<le> fst e"
  shows "\<exists>n. insertNonFull t key row (children w ! c) = Some n
      \<and> shape t (Suc d) (Node (is_leaf w) (entries w) ((children w)[c := n]))
      \<and> put_in key row (flat (Suc d) w) (flat (Suc d) (Node (is_leaf w) (entries w) ((children w)[c := n])))"
proof -
  have s: "shape t d (children w ! c)" "t - 1 \<le> length (entries (children w ! c))" using w(1,3) by simp_all
  have lw: "length (map (flat d) (children w)) = Suc (length (entries w))" using w(1) by simp
  have "sorted (map fst (flat d (children w ! c)))"
    using sorted_around(3) [OF _ lw _ w(5,6) order_trans order_trans [of key]] w(2,3) by simp
  then have "inserted t d key row (children w ! c)" using IH s(1) w(4) by blast
  then obtain n where n: "insertNonFull t key row (children w ! c) = Some n" "shape t d n"
      "length (entries (children w ! c)) \<le> length (entries n)" "length (entries n) \<le> Suc (length (entries (children w ! c)))"
      "put_in key row (flat d (children w ! c)) (flat d n)" unfolding inserted_def by blast
  then show ?thesis using descend [OF w(1,2,3,5,6) n(2) _ _ n(5)] s(2) w(4) by auto
qed

text \<open>A split keeps the shape and the entries.\<close>

lemma splitChild_keeps:
  assumes t: "0 < t" and x: "shape t (Suc d) x" "c < length (children x)" "length (entries (children x ! c)) = maxEntries t"
    and cle: "c \<le> length (entries x)"
  obtains y m z where "splitChild t x c = Some (Node False (take c (entries x) @ m # drop c (entries x))
      (take c (children x) @ y # z # drop (Suc c) (children x)))"
    and "shape t (Suc d) (Node False (take c (entries x) @ m # drop c (entries x)) (take c (children x) @ y # z # drop (Suc c) (children x)))"
    and "flat (Suc d) (Node False (take c (entries x) @ m # drop c (entries x)) (take c (children x) @ y # z # drop (Suc c) (children x)))
      = flat (Suc d) x"
    and "length (entries y) = t - 1" "length (entries z) = t - 1"
proof -
  let ?es = "entries x" and ?cs = "children x"
  obtain y m z where sp: "splitChild t x c = Some (Node False (take c ?es @ m # drop c ?es) (take c ?cs @ y # z # drop (Suc c) ?cs))"
      and yz: "shape t d y" "shape t d z" "length (entries y) = t - 1" "length (entries z) = t - 1"
      "flat d (?cs ! c) = flat d y @ m # flat d z"
    by (rule splitChild_ok [OF t x]) (rule that)
  let ?w = "Node False (take c ?es @ m # drop c ?es) (take c ?cs @ y # z # drop (Suc c) ?cs)"
  have l: "length (map (flat d) ?cs) = Suc (length ?es)" "c < length (map (flat d) ?cs)" using x(1,2) by simp_all
  have "t - 1 < maxEntries t" using t by (simp add: maxEntries_def)
  then have "shape t (Suc d) ?w" using x(1) yz cle l by (auto dest: in_set_takeD in_set_dropD)
  moreover have "flat (Suc d) ?w = lefts (map (flat d) ?cs) ?es c @ (flat d y @ m # flat d z) @ rights (map (flat d) ?cs) ?es c"
    using weaves_insert [OF l, of "flat d y" "flat d z" m] by (simp add: take_map drop_map)
  then have "flat (Suc d) ?w = flat (Suc d) x" using weaves_split [OF l] x(2) yz(5) by simp
  ultimately show thesis using that sp yz(3,4) by blast
qed

lemma insert_leaf:
  assumes x: "shape t 0 x" "sorted (map fst (flat 0 x))"
  shows "inserted t 0 key row x"
proof -
  let ?c = "slot key (entries x)"
  have s: "sorted (map fst (entries x))" using x by simp
  have "put_in key row (entries x) (take ?c (entries x) @ (key, row) # drop ?c (entries x))"
    unfolding put_in_def
    by (rule exI [of _ "take ?c (entries x)"], rule exI [of _ "drop ?c (entries x)"])
      (use slot_split [OF s, of key] in \<open>auto intro: less_imp_le\<close>)
  then show ?thesis using x slot_le [of key "entries x"]
    by (auto simp: inserted_def insertNonFull.simps [of t key row x] Let_def)
qed

text \<open>The descent when the child is full: it is split, and the new entry goes to one of the halves.\<close>

lemma insert_below_full:
  assumes t: "0 < t"
    and IH: "\<forall>y. shape t d y \<and> length (entries y) < maxEntries t \<and> sorted (map fst (flat d y)) \<longrightarrow> inserted t d key row y"
    and x: "shape t (Suc d) x" "sorted (map fst (flat (Suc d) x))"
    and fl: "isFull t (children x ! slot key (entries x))"
  shows "inserted t (Suc d) key row x"
proof -
  let ?c = "slot key (entries x)" and ?cs = "children x" and ?es = "entries x"
  have len: "length ?cs = Suc (length ?es)" and nl: "\<not> is_leaf x" using x(1) by auto
  have cle: "?c \<le> length ?es" by (rule slot_le)
  then have c: "?c < length ?cs" using len by simp
  have "sorted (map fst ?es)" using weaves_entries_sorted [of "map (flat d) ?cs" ?es] x(2) len by simp
  note sl = slot_split [OF this, of key] and below = insert_below [OF IH]
  have full: "length (entries (?cs ! ?c)) = maxEntries t" using fl by (simp add: isFull_def)
  obtain y m z where sp: "splitChild t x ?c = Some (Node False (take ?c ?es @ m # drop ?c ?es) (take ?c ?cs @ y # z # drop (Suc ?c) ?cs))"
      and shw: "shape t (Suc d) (Node False (take ?c ?es @ m # drop ?c ?es) (take ?c ?cs @ y # z # drop (Suc ?c) ?cs))"
      and fw: "flat (Suc d) (Node False (take ?c ?es @ m # drop ?c ?es) (take ?c ?cs @ y # z # drop (Suc ?c) ?cs)) = flat (Suc d) x"
      and yz: "length (entries y) = t - 1" "length (entries z) = t - 1"
    by (rule splitChild_keeps [OF t x(1) c full cle]) (rule that)
  let ?w = "Node False (take ?c ?es @ m # drop ?c ?es) (take ?c ?cs @ y # z # drop (Suc ?c) ?cs)"
  define c' where "c' = (if key > fst m then Suc ?c else ?c)"
  have mc: "entries ?w ! ?c = m" using cle by (simp add: nth_append)
  have cw: "c' < length (children ?w)" using cle len by (simp add: c'_def)
  have "children ?w ! c' = (if key > fst m then z else y)" using cle len by (simp add: c'_def nth_append)
  then have room: "length (entries (children ?w ! c')) < maxEntries t" using yz t by (simp add: maxEntries_def)
  have lo: "\<forall>e \<in> set (take c' (entries ?w)). fst e \<le> key" using sl(1) cle by (auto simp: c'_def)
  have hi: "\<forall>e \<in> set (drop c' (entries ?w)). key \<le> fst e" using sl(2) cle by (auto simp: c'_def intro: less_imp_le)
  obtain n where n: "insertNonFull t key row (children ?w ! c') = Some n"
      "shape t (Suc d) (Node False (entries ?w) ((children ?w)[c' := n]))"
      "put_in key row (flat (Suc d) x) (flat (Suc d) (Node False (entries ?w) ((children ?w)[c' := n])))"
    using below [OF shw _ cw room lo hi] unfolding fw using x(2) by auto
  have "insertNonFull t key row x = Some (Node False (entries ?w) ((children ?w)[c' := n]))"
    using nl c fl sp mc cw n(1) cle
    by (subst insertNonFull.simps) (simp add: Let_def c'_def [symmetric] del: nth_append_length)
  then show ?thesis unfolding inserted_def using n(2,3) cle by auto
qed

lemma insertNonFull_ok:
  assumes "0 < t" "shape t d x" "length (entries x) < maxEntries t" "sorted (map fst (flat d x))"
  shows "inserted t d key row x"
  using assms(2-4)
proof (induction d arbitrary: x)
  case 0
  then show ?case by (intro insert_leaf)
next
  case (Suc d)
  let ?c = "slot key (entries x)" and ?cs = "children x" and ?es = "entries x"
  have len: "length ?cs = Suc (length ?es)" and nl: "\<not> is_leaf x" using Suc.prems(1) by auto
  have cle: "?c \<le> length ?es" by (rule slot_le)
  then have c: "?c < length ?cs" using len by simp
  have "sorted (map fst ?es)" using weaves_entries_sorted [of "map (flat d) ?cs" ?es] Suc.prems(3) len by simp
  note sl = slot_split [OF this, of key]
  have IH: "\<forall>y. shape t d y \<and> length (entries y) < maxEntries t \<and> sorted (map fst (flat d y)) \<longrightarrow> inserted t d key row y"
    using Suc.IH by blast
  note below = insert_below [OF IH]
  show ?case
  proof (cases "isFull t (?cs ! ?c)")
    case False
    moreover have "length (entries (?cs ! ?c)) \<le> maxEntries t" using Suc.prems(1) c by simp
    ultimately have "length (entries (?cs ! ?c)) < maxEntries t" by (simp add: isFull_def)
    moreover have "\<forall>e \<in> set (drop ?c ?es). key \<le> fst e" using sl(2) by (auto intro: less_imp_le)
    ultimately obtain n where n: "insertNonFull t key row (?cs ! ?c) = Some n"
        "shape t (Suc d) (Node (is_leaf x) ?es (?cs[?c := n]))"
        "put_in key row (flat (Suc d) x) (flat (Suc d) (Node (is_leaf x) ?es (?cs[?c := n])))"
      using below [OF Suc.prems(1,3) c _ sl(1)] by blast
    then show ?thesis unfolding inserted_def using nl c False
      by (intro exI [of _ "Node (is_leaf x) ?es (?cs[?c := n])"]) (simp add: insertNonFull.simps [of t key row x] Let_def)
  next
    case True
    then show ?thesis by (intro insert_below_full [OF assms(1) IH Suc.prems(1,3)])
  qed
qed

section \<open>Search\<close>

lemma set_weaves_split:
  assumes "length cs = Suc (length es)" "c < length cs"
  shows "set (weaves cs es) = set (lefts cs es c) \<union> set (cs ! c) \<union> set (rights cs es c)"
  using weaves_split [OF assms] by auto

text \<open>Where the search from the left stops in a sorted list.\<close>

lemma stop_split:
  fixes key :: "'k::linorder"
  assumes srt: "sorted (map fst es)"
  defines "i \<equiv> length (takeWhile (\<lambda>e. key > fst e) es)"
  shows "i \<le> length es" "\<forall>e \<in> set (take i es). fst e < key"
    "\<not> (i < length es \<and> key = fst (es ! i)) \<Longrightarrow> \<forall>e \<in> set (drop i es). key < fst e"
proof -
  let ?P = "\<lambda>e. key > fst e"
  have t: "take i es = takeWhile ?P es" "drop i es = dropWhile ?P es"
    by (simp_all add: i_def takeWhile_eq_take [symmetric] dropWhile_eq_drop [symmetric])
  show "i \<le> length es" by (simp add: i_def length_takeWhile_le)
  show "\<forall>e \<in> set (take i es). fst e < key" unfolding t using set_takeWhileD by fastforce
  assume no: "\<not> (i < length es \<and> key = fst (es ! i))"
  show "\<forall>e \<in> set (drop i es). key < fst e"
  proof (cases "drop i es")
    case (Cons a as)
    then have a: "i < length es" "es ! i = a" by (metis drop_all leI list.distinct(1)) (metis Cons nth_via_drop)
    have "\<not> key > fst a" using Cons unfolding t by (metis hd_dropWhile list.distinct(1) list.sel(1))
    then have "key < fst a" using no a by auto
    moreover have "sorted (map fst (drop i es))" using sorted_wrt_drop [OF srt, of i] by (simp add: drop_map)
    ultimately show ?thesis unfolding Cons by auto
  qed simp
qed

lemma found_entry: "i < length es \<Longrightarrow> key = fst (es ! i) \<Longrightarrow> (key, snd (es ! i)) \<in> set es"
  by simp

definition finds :: "'k::linorder \<Rightarrow> ('k, 'r) node \<Rightarrow> ('k \<times> 'r) set \<Rightarrow> bool" where
  "finds key x S \<longleftrightarrow> (\<exists>r. searchNode key x = Some r \<and> (case r of None \<Rightarrow> key \<notin> fst ` S | Some v \<Rightarrow> (key, v) \<in> S))"

lemma search_hit:
  assumes "length (takeWhile (\<lambda>e. key > fst e) es) < length es \<and> key = fst (es ! length (takeWhile (\<lambda>e. key > fst e) es))"
    and "set es \<subseteq> S"
  shows "finds key (Node lf es cs) S"
proof -
  let ?v = "snd (es ! length (takeWhile (\<lambda>e. key > fst e) es))"
  have "(key, ?v) \<in> set es" using assms(1) by (intro found_entry) simp_all
  moreover have "searchNode key (Node lf es cs) = Some (Some ?v)"
    unfolding searchNode.simps Let_def by (rule if_P [OF assms(1)])
  ultimately obtain v where "(key, v) \<in> set es" "searchNode key (Node lf es cs) = Some (Some v)" by blast
  then show ?thesis using assms(2) by (auto simp: finds_def)
qed

lemma search_leaf:
  assumes "sorted (map fst es)"
  shows "finds key (Node True es cs) (set es)"
proof (cases "length (takeWhile (\<lambda>e. key > fst e) es) < length es \<and> key = fst (es ! length (takeWhile (\<lambda>e. key > fst e) es))")
  case False
  let ?i = "length (takeWhile (\<lambda>e. key > fst e) es)"
  note stop = stop_split [OF assms, of key]
  have un: "set es = set (take ?i es) \<union> set (drop ?i es)" by (metis append_take_drop_id set_append)
  have "fst e \<noteq> key" if "e \<in> set es" for e
  proof -
    have "e \<in> set (take ?i es) \<or> e \<in> set (drop ?i es)" using that un by blast
    then show ?thesis using stop(2) stop(3) [OF False] by (metis less_irrefl)
  qed
  then have "key \<notin> fst ` set es" by blast
  moreover have "searchNode key (Node True es cs) = Some None"
    unfolding searchNode.simps Let_def if_not_P [OF False] using TrueI by (rule if_P)
  ultimately show ?thesis by (simp add: finds_def)
qed (rule search_hit, simp_all)

lemma set_weaves_entries: "length cs = Suc (length es) \<Longrightarrow> set es \<subseteq> set (weaves cs es)"
  by (induction cs es rule: weaves.induct) auto

lemma search_inner:
  assumes len: "length cs = Suc (length es)" and srt: "sorted (map fst (weaves (map (flat d) cs) es))"
    and IH: "\<forall>c \<in> set cs. sorted (map fst (flat d c)) \<longrightarrow> finds key c (set (flat d c))"
  shows "finds key (Node False es cs) (set (weaves (map (flat d) cs) es))"
proof (cases "length (takeWhile (\<lambda>e. key > fst e) es) < length es \<and> key = fst (es ! length (takeWhile (\<lambda>e. key > fst e) es))")
  case True
  then show ?thesis using set_weaves_entries [of "map (flat d) cs" es] len by (intro search_hit) simp_all
next
  case False
  let ?i = "length (takeWhile (\<lambda>e. key > fst e) es)" and ?fs = "map (flat d) cs"
  have l: "length ?fs = Suc (length es)" using len by simp
  note stop = stop_split [OF weaves_entries_sorted [OF l srt], of key]
  have i: "?i < length ?fs" and i': "?i < length cs" using stop(1) len by simp_all
  note around = sorted_around [OF srt l i stop(2) stop(3) [OF False]]
  have below: "\<forall>a \<in> set (lefts ?fs es ?i). fst a < key" by (rule around(1)) simp_all
  have above: "\<forall>b \<in> set (rights ?fs es ?i). key < fst b" by (rule around(2)) simp_all
  have inside: "sorted (map fst (?fs ! ?i))" by (rule around(3)) simp_all
  have step: "searchNode key (Node False es cs) = searchNode key (cs ! ?i)"
    unfolding searchNode.simps [of key False es cs] Let_def if_not_P [OF False] if_False by (rule if_P [OF i'])
  have "finds key (cs ! ?i) (set (flat d (cs ! ?i)))" using IH inside i' by simp
  then obtain r where r: "searchNode key (cs ! ?i) = Some r"
      "case r of None \<Rightarrow> key \<notin> fst ` set (flat d (cs ! ?i)) | Some v \<Rightarrow> (key, v) \<in> set (flat d (cs ! ?i))"
    unfolding finds_def by blast
  have parts: "set (weaves ?fs es) = set (lefts ?fs es ?i) \<union> set (flat d (cs ! ?i)) \<union> set (rights ?fs es ?i)"
    unfolding set_weaves_split [OF l i] nth_map [OF i'] by (rule refl)
  have "key \<notin> fst ` set (lefts ?fs es ?i)" "key \<notin> fst ` set (rights ?fs es ?i)" using below above by blast+
  then have "case r of None \<Rightarrow> key \<notin> fst ` set (weaves ?fs es) | Some v \<Rightarrow> (key, v) \<in> set (weaves ?fs es)"
    using r(2) unfolding parts image_Un by (cases r) simp_all
  then show ?thesis unfolding finds_def using trans [OF step r(1)] by (intro exI [of _ r]) (rule conjI)
qed

lemma searchNode_ok: "shape t d x \<Longrightarrow> sorted (map fst (flat d x)) \<Longrightarrow> finds key x (set (flat d x))"
proof (induction d arbitrary: x)
  case 0
  then show ?case using search_leaf [of "entries x" key "children x"] by (cases x) auto
next
  case (Suc d)
  then show ?case using search_inner [of "children x" "entries x" d key] by (cases x) auto
qed

section \<open>Properties\<close>

text \<open>The tree below the root is balanced, filled within its bounds, and in key order.\<close>

definition btdb_ok :: "('k::linorder, 'r) btdb \<Rightarrow> bool" where
  "btdb_ok db \<longleftrightarrow> 2 \<le> bt_degree db \<and> (\<exists>d. shape (bt_degree db) d (bt_root db)
     \<and> length (entries (bt_root db)) \<le> maxEntries (bt_degree db) \<and> sorted (map fst (flat d (bt_root db))))"

lemma Insert_ok:
  assumes "btdb_ok db"
  shows "\<exists>db' xs ys. Insert key row db = Some db' \<and> btdb_ok db' \<and> bt_degree db' = bt_degree db
    \<and> Scan db = Some xs \<and> Scan db' = Some ys \<and> mset ys = add_mset (key, row) (mset xs)"
proof -
  let ?t = "bt_degree db" and ?x = "bt_root db"
  obtain d where t: "2 \<le> ?t" and sh: "shape ?t d ?x" and len: "length (entries ?x) \<le> maxEntries ?t"
      and srt: "sorted (map fst (flat d ?x))" using assms by (auto simp: btdb_ok_def)
  have t0: "0 < ?t" using t by simp
  have "\<exists>e r. (if isFull ?t ?x then splitChild ?t (Node False [] [?x]) 0 else Some ?x) = Some r
      \<and> shape ?t e r \<and> length (entries r) < maxEntries ?t \<and> flat e r = flat d ?x"
  proof (cases "isFull ?t ?x")
    case False
    then show ?thesis using sh len by (intro exI [of _ d] exI [of _ ?x]) (auto simp: isFull_def)
  next
    case True
    let ?s = "Node False [] [?x]"
    have s: "shape ?t (Suc d) ?s" "0 < length (children ?s)" "length (entries (children ?s ! 0)) = maxEntries ?t"
      using sh True t by (auto simp: isFull_def maxEntries_def)
    obtain y m z where sp: "splitChild ?t ?s 0 = Some (Node False (take 0 (entries ?s) @ m # drop 0 (entries ?s))
          (take 0 (children ?s) @ y # z # drop (Suc 0) (children ?s)))"
        and yz: "shape ?t d y" "shape ?t d z" "length (entries y) = ?t - 1" "length (entries z) = ?t - 1"
        "flat d (children ?s ! 0) = flat d y @ m # flat d z"
      by (rule splitChild_ok [OF t0 s]) (rule that)
    show ?thesis using True sp yz t
      by (intro exI [of _ "Suc d"] exI [of _ "Node False [m] [y, z]"]) (auto simp: maxEntries_def)
  qed
  then obtain e r where r: "(if isFull ?t ?x then splitChild ?t (Node False [] [?x]) 0 else Some ?x) = Some r"
      "shape ?t e r" "length (entries r) < maxEntries ?t" "flat e r = flat d ?x" by blast
  obtain x' where x': "insertNonFull ?t key row r = Some x'" "shape ?t e x'" "length (entries x') \<le> Suc (length (entries r))"
      "put_in key row (flat e r) (flat e x')"
    using insertNonFull_ok [OF t0 r(2,3), of key row] srt r(4) by (auto simp: inserted_def)
  have "Insert key row db = Some (db\<lparr>bt_root := x'\<rparr>)" using r(1) x'(1) by (simp add: Insert_def Let_def)
  moreover have "btdb_ok (db\<lparr>bt_root := x'\<rparr>)"
    using t x'(2,3) r(3,4) put_in_sorted [OF x'(4)] srt by (auto simp: btdb_ok_def)
  ultimately show ?thesis
    using inorder_flat [OF sh] inorder_flat [OF x'(2)] put_in_mset [OF x'(4)] r(4) by (auto simp: Scan_def)
qed

lemma btdb_scan:
  assumes "btdb_ok db"
  obtains xs where "Scan db = Some xs" "sorted (map fst xs)"
    "\<And>key. \<exists>r. Search key db = Some r \<and> (case r of None \<Rightarrow> key \<notin> fst ` set xs | Some v \<Rightarrow> (key, v) \<in> set xs)"
proof -
  obtain d where d: "shape (bt_degree db) d (bt_root db)" "sorted (map fst (flat d (bt_root db)))"
    using assms by (auto simp: btdb_ok_def)
  show thesis
    by (rule that [of "flat d (bt_root db)"]) (use inorder_flat [OF d(1)] d searchNode_ok [OF d] in \<open>auto simp: Scan_def Search_def finds_def\<close>)
qed

text \<open>A tree and the multiset of its entries.\<close>

definition btdb_rep :: "('k::linorder, 'r) btdb \<Rightarrow> ('k \<times> 'r) multiset \<Rightarrow> bool" where
  "btdb_rep db M \<longleftrightarrow> btdb_ok db \<and> (\<exists>xs. Scan db = Some xs \<and> sorted (map fst xs) \<and> mset xs = M)"

abbreviation insert_row :: "'k::linorder \<times> 'r \<Rightarrow> ('k, 'r) btdb \<Rightarrow> ('k, 'r) btdb option" where
  "insert_row p \<equiv> Insert (fst p) (snd p)"

lemma insert_row_ok: "btdb_rep db M \<Longrightarrow> \<exists>db'. insert_row p db = Some db' \<and> btdb_rep db' (add_mset p M)"
  using Insert_ok [of db "fst p" "snd p"] btdb_scan unfolding btdb_rep_def by (metis option.inject prod.collapse)

lemma Search_ok:
  assumes "btdb_rep db M"
  shows "\<exists>r. Search key db = Some r \<and> (case r of None \<Rightarrow> key \<notin> fst ` set_mset M | Some v \<Rightarrow> (key, v) \<in># M)"
proof -
  obtain xs where xs: "Scan db = Some xs"
      "\<exists>r. Search key db = Some r \<and> (case r of None \<Rightarrow> key \<notin> fst ` set xs | Some v \<Rightarrow> (key, v) \<in> set xs)"
    using btdb_scan assms unfolding btdb_rep_def by blast
  then have "set_mset M = set xs" using assms by (auto simp: btdb_rep_def)
  then show ?thesis using xs(2) by (auto split: option.splits)
qed

interpretation btree: searchable btdb_rep insert_row add_mset Search
    "\<lambda>key M r. case r of None \<Rightarrow> key \<notin> fst ` set_mset M | Some v \<Rightarrow> (key, v) \<in># M"
  by unfold_locales (use insert_row_ok Search_ok in blast)+

abbreviation Insert_all :: "('k::linorder \<times> 'r) list \<Rightarrow> ('k, 'r) btdb \<Rightarrow> ('k, 'r) btdb option" where
  "Insert_all \<equiv> ins_all insert_row"

lemma btdb_new_rep: "2 \<le> t \<Longrightarrow> btdb_rep (btdb_new t) {#}"
  by (auto simp: btdb_rep_def btdb_ok_def btdb_new_def Scan_def inorder.simps intro!: exI [of _ 0])

lemma Insert_all_ok: "2 \<le> t \<Longrightarrow> \<exists>db. Insert_all ps (btdb_new t) = Some db \<and> btdb_rep db (mset ps)"
  using btree.ins_all_ok [OF btdb_new_rep, of t ps] by (simp add: fold_add_mset)

text \<open>
  C34. For a minimum degree of at least 2, any sequence of insertions into the empty index succeeds
  without an access outside a vector and leaves a balanced tree whose nodes hold between
  \<open>t - 1\<close> and \<open>2t - 1\<close> entries (the root fewer), and \<open>Scan\<close> is what was inserted, sorted by key.
\<close>

theorem inserts_balanced_sorted:
  assumes "2 \<le> t"
  shows "\<exists>db xs. Insert_all ps (btdb_new t) = Some db \<and> btdb_ok db \<and> Scan db = Some xs
    \<and> sorted (map fst xs) \<and> mset xs = mset ps"
  using Insert_all_ok [OF assms, of ps] unfolding btdb_rep_def by blast

theorem inserts_balanced_sorted_witness:
  "\<exists>db xs. Insert_all [(10::int, ''a''), (20, ''b''), (5, ''c''), (6, ''d''), (12, ''e'')] (btdb_new 2) = Some db
    \<and> Scan db = Some xs \<and> sorted (map fst xs) \<and> length xs = 5"
proof -
  obtain db xs where "Insert_all [(10::int, ''a''), (20, ''b''), (5, ''c''), (6, ''d''), (12, ''e'')] (btdb_new 2) = Some db"
      "Scan db = Some xs" "sorted (map fst xs)" "mset xs = mset [(10::int, ''a''), (20, ''b''), (5, ''c''), (6, ''d''), (12, ''e'')]"
    using inserts_balanced_sorted [of 2 "[(10::int, ''a''), (20, ''b''), (5, ''c''), (6, ''d''), (12, ''e'')]"] by auto
  moreover from this(4) have "size (mset xs) = 5" by simp
  then have "length xs = 5" by simp
  ultimately show ?thesis by blast
qed

text \<open>
  C35. A search in an index built by insertions answers with a row that was inserted under the key,
  and with nothing exactly when the key was never inserted.
\<close>

theorem search_finds_inserted:
  assumes "2 \<le> t" "Insert_all ps (btdb_new t) = Some db"
  shows "\<exists>r. Search key db = Some r
    \<and> (case r of None \<Rightarrow> key \<notin> fst ` set ps | Some v \<Rightarrow> (key, v) \<in> set ps)"
  using btree.find_inserted [OF btdb_new_rep [OF assms(1)] assms(2), of key] unfolding fold_add_mset add_0 set_mset_mset .

theorem search_finds_inserted_witness:
  "\<exists>db. Insert_all [(10::int, ''a''), (20, ''b''), (5, ''c''), (6, ''d''), (12, ''e'')] (btdb_new 2) = Some db
    \<and> Search 12 db = Some (Some ''e'')"
proof -
  let ?ps = "[(10::int, ''a''), (20, ''b''), (5, ''c''), (6, ''d''), (12, ''e'')]"
  obtain db where db: "Insert_all ?ps (btdb_new 2) = Some db"
    using Insert_all_ok [of 2 ?ps] by auto
  obtain r where "Search 12 db = Some r" "case r of None \<Rightarrow> 12 \<notin> fst ` set ?ps | Some v \<Rightarrow> (12, v) \<in> set ?ps"
    using search_finds_inserted [OF _ db, of 12] by auto
  then have "Search 12 db = Some (Some ''e'')" by (cases r) auto
  then show ?thesis using db by blast
qed

end
