(* ===== verification/Lab8_TxnManager.thy ===== *)
theory Lab8_TxnManager
  imports "HOL-Library.AList"
begin

text \<open>
  \<open>LAB-8/txn_manager.cpp\<close>: version chains with \<open>xmin\<close>/\<open>xmax\<close> visibility, a lock manager with one
  request queue per key, and cycle detection on the waits-for graph. A call that acquires a lock
  ends as \<open>Done\<close>, \<open>Raise\<close>, or \<open>Blocked\<close> when it waits on the queue's condition variable; a blocked
  call is resumed by running its loop again. Transaction ids are the counter's values, as natural
  numbers.

  The properties: an aborted transaction leaves no trace in what others read; no cycle ever stands
  in the waits-for graph, and exactly the requests that would close one are rejected; and two
  writers can hold the exclusive lock of one key. Further theorems: a shared lock beside an
  exclusive one, an update that is lost, a snapshot that sees a later commit.
\<close>

type_synonym xid = nat

section \<open>State\<close>

datatype tx_status = TX_ACTIVE | TX_COMMITTED | TX_ABORTED

record transaction =
  tx_id :: xid
  snapshot_xid :: xid
  tx_status :: tx_status
  in_shrinking :: bool

record row_version =
  rv_value :: string
  xmin :: xid
  xmax :: xid

datatype lock_kind = LK_SHARED | LK_EXCLUSIVE

record lock_request =
  rq_xid :: xid
  rq_mode :: lock_kind
  rq_granted :: bool

record lab8 =
  g_next_xid :: xid
  g_transactions :: "xid \<Rightarrow> transaction option"
  g_heap :: "string \<Rightarrow> row_version list"
  g_lock_table :: "string \<Rightarrow> lock_request list"
  g_waits_for :: "(xid \<times> xid list) list"

text \<open>A key without an entry in \<open>g_heap\<close> or \<open>g_lock_table\<close> has the empty list.\<close>

definition lab8_new :: lab8 where
  "lab8_new = \<lparr>g_next_xid = 1, g_transactions = (\<lambda>_. None), g_heap = (\<lambda>_. []), g_lock_table = (\<lambda>_. []), g_waits_for = []\<rparr>"

datatype lab8_error = Deadlock xid | PhaseViolation | NoTransaction

datatype 'a call = Done 'a | Blocked | Raise lab8_error

section \<open>Transactions and versions\<close>

definition begin_transaction :: "lab8 \<Rightarrow> xid \<times> lab8" where
  "begin_transaction s =
     (let x = g_next_xid s
      in (x, s\<lparr>g_next_xid := x + 1, g_transactions := (g_transactions s)(x \<mapsto>
            \<lparr>tx_id = x, snapshot_xid = x, tx_status = TX_ACTIVE, in_shrinking = False\<rparr>)\<rparr>))"

definition is_committed :: "lab8 \<Rightarrow> xid \<Rightarrow> bool" where
  "is_committed s x = (case g_transactions s x of None \<Rightarrow> False | Some t \<Rightarrow> tx_status t = TX_COMMITTED)"

definition is_visible :: "lab8 \<Rightarrow> row_version \<Rightarrow> xid \<Rightarrow> xid \<Rightarrow> bool" where
  "is_visible s v snap reader =
     (let xmin_ok = xmin v = reader \<or> is_committed s (xmin v) \<and> xmin v < snap
      in if \<not> xmin_ok then False
         else if xmax v = 0 then True
         else \<not> (xmax v = reader \<or> is_committed s (xmax v) \<and> xmax v < snap))"

text \<open>\<open>g_transactions.at(xid).snapshot_xid\<close>.\<close>

definition snapshot_of :: "lab8 \<Rightarrow> xid \<Rightarrow> lab8_error + xid" where
  "snapshot_of s x = (case g_transactions s x of None \<Rightarrow> Inl NoTransaction | Some t \<Rightarrow> Inr (snapshot_xid t))"

definition mvcc_read_key :: "string \<Rightarrow> xid \<Rightarrow> lab8 \<Rightarrow> string option call \<times> lab8" where
  "mvcc_read_key key x s = (case snapshot_of s x of
     Inl e \<Rightarrow> (Raise e, s)
   | Inr snap \<Rightarrow> (Done (map_option rv_value (find (\<lambda>v. is_visible s v snap x) (g_heap s key))), s))"

text \<open>\<open>g_heap[key].push_front\<close>.\<close>

definition push_version :: "string \<Rightarrow> string \<Rightarrow> xid \<Rightarrow> lab8 \<Rightarrow> lab8" where
  "push_version key val x s = s\<lparr>g_heap := (g_heap s)(key := \<lparr>rv_value = val, xmin = x, xmax = 0\<rparr> # g_heap s key)\<rparr>"

definition mvcc_insert :: "string \<Rightarrow> string \<Rightarrow> xid \<Rightarrow> lab8 \<Rightarrow> unit call \<times> lab8" where
  "mvcc_insert key val x s = (Done (), push_version key val x s)"

text \<open>The loop that marks the first visible live version.\<close>

fun mark_first :: "(row_version \<Rightarrow> bool) \<Rightarrow> xid \<Rightarrow> row_version list \<Rightarrow> row_version list" where
  "mark_first P x [] = []"
| "mark_first P x (v # vs) = (if P v \<and> xmax v = 0 then v\<lparr>xmax := x\<rparr> # vs else v # mark_first P x vs)"

definition mark_version :: "string \<Rightarrow> xid \<Rightarrow> xid \<Rightarrow> lab8 \<Rightarrow> lab8" where
  "mark_version key snap x s = s\<lparr>g_heap := (g_heap s)(key := mark_first (\<lambda>v. is_visible s v snap x) x (g_heap s key))\<rparr>"

definition mvcc_update :: "string \<Rightarrow> string \<Rightarrow> xid \<Rightarrow> lab8 \<Rightarrow> unit call \<times> lab8" where
  "mvcc_update key val x s = (case snapshot_of s x of
     Inl e \<Rightarrow> (Raise e, s)
   | Inr snap \<Rightarrow> (Done (), push_version key val x (mark_version key snap x s)))"

definition mvcc_delete :: "string \<Rightarrow> xid \<Rightarrow> lab8 \<Rightarrow> unit call \<times> lab8" where
  "mvcc_delete key x s = (case snapshot_of s x of
     Inl e \<Rightarrow> (Raise e, s) | Inr snap \<Rightarrow> (Done (), mark_version key snap x s))"

section \<open>The waits-for graph\<close>

definition waits_on :: "(xid \<times> xid list) list \<Rightarrow> xid \<Rightarrow> xid list" where
  "waits_on g x = (case map_of g x of None \<Rightarrow> [] | Some ns \<Rightarrow> ns)"

text \<open>
  The lambda \<open>dfs\<close> on the neighbours still to be examined: whether it returned true, and the
  nodes visited so far. \<open>stack\<close> holds the nodes on the path; erasing a node when its call returns
  is going back to the caller's argument.
\<close>

function visit :: "(xid \<times> xid list) list \<Rightarrow> xid set \<Rightarrow> xid set \<Rightarrow> xid list \<Rightarrow> bool \<times> xid set" where
  "visit g stack seen [] = (False, seen)"
| "visit g stack seen (n # ns) =
     (if n \<in> stack then (True, seen)
      else if n \<in> seen then visit g stack seen ns
      else case visit g (insert n stack) (insert n seen) (waits_on g n) of
             (True, seen') \<Rightarrow> (True, seen')
           | (False, seen') \<Rightarrow> visit g stack seen' ns)"
  by pat_completeness auto

lemma visit_mono: "visit_dom (g, stack, seen, ns) \<Longrightarrow> seen \<subseteq> snd (visit g stack seen ns)"
proof (induction g stack seen ns rule: visit.pinduct)
  case (2 g stack seen n ns)
  obtain r s1 where v: "visit g (insert n stack) (insert n seen) (waits_on g n) = (r, s1)" by fastforce
  consider "n \<in> stack" | "n \<notin> stack" "n \<in> seen" | "n \<notin> stack" "n \<notin> seen" r | "n \<notin> stack" "n \<notin> seen" "\<not> r" by blast
  then show ?case
  proof cases
    case 4
    then have "visit g (insert n stack) (insert n seen) (waits_on g n) = (False, s1)" using v by simp
    then show ?thesis using "2.IH"(2) [OF 4(1,2)] "2.IH"(3) [OF 4(1,2) _ refl, of s1] "2.hyps" 4 by (auto simp: visit.psimps)
  qed (use "2.IH"(1,2) "2.hyps" v in \<open>auto simp: visit.psimps\<close>)
qed (simp add: visit.psimps)

lemma waits_on_none: "n \<notin> fst ` set g \<Longrightarrow> waits_on g n = []"
  by (simp add: waits_on_def map_of_eq_None_iff [symmetric])

termination visit
proof (relation "measures [\<lambda>(g, stack, seen, ns). card (fst ` set g - seen), \<lambda>(g, stack, seen, ns). length ns]", goal_cases)
  case (3 g stack seen n ns)
  show ?case
  proof (cases "n \<in> fst ` set g")
    case True
    then have "fst ` set g - insert n seen \<subset> fst ` set g - seen" using 3 by auto
    then show ?thesis by (simp add: psubset_card_mono)
  next
    case False
    then have "fst ` set g - insert n seen = fst ` set g - seen" by auto
    then show ?thesis using waits_on_none [OF False] by simp
  qed
next
  case (4 g stack seen n ns p y)
  then have "snd (visit g (insert n stack) (insert n seen) (waits_on g n)) = y" by (metis snd_conv)
  then have "insert n seen \<subseteq> y" using visit_mono [of g "insert n stack" "insert n seen" "waits_on g n"] 4 by simp
  then have "card (fst ` set g - y) \<le> card (fst ` set g - seen)" by (intro card_mono) auto
  then show ?case by auto
qed auto

declare visit.simps [simp del]

definition has_cycle :: "xid \<Rightarrow> (xid \<times> xid list) list \<Rightarrow> bool" where
  "has_cycle start g = fst (visit g {start} {start} (waits_on g start))"

definition edges :: "(xid \<times> xid list) list \<Rightarrow> (xid \<times> xid) set" where
  "edges g = {(a, b). b \<in> set (waits_on g a)}"

lemma visit_sound:
  assumes "fst (visit g stack seen ns)" "set ns \<subseteq> edges g `` {c}" "\<forall>s \<in> stack. (s, c) \<in> (edges g)\<^sup>*"
  shows "\<exists>z. (c, z) \<in> (edges g)\<^sup>* \<and> (z, z) \<in> (edges g)\<^sup>+"
  using assms
proof (induction g stack seen ns arbitrary: c rule: visit.induct)
  case (2 g stack seen n ns)
  have e: "(c, n) \<in> edges g" using "2.prems"(2) by auto
  show ?case
  proof (cases "n \<in> stack")
    case True
    then have "(n, c) \<in> (edges g)\<^sup>*" using "2.prems"(3) by simp
    then have "(n, n) \<in> (edges g)\<^sup>+" using e by simp
    then show ?thesis using e by blast
  next
    case ns: False
    show ?thesis
    proof (cases "n \<in> seen")
      case True
      then show ?thesis using "2.IH"(1) [OF ns True] "2.prems" ns by (simp add: visit.simps(2))
    next
      case new: False
      obtain r seen' where v: "visit g (insert n stack) (insert n seen) (waits_on g n) = (r, seen')" by fastforce
      show ?thesis
      proof (cases r)
        case True
        have "set (waits_on g n) \<subseteq> edges g `` {n}" by (auto simp: edges_def)
        moreover have "\<forall>s \<in> insert n stack. (s, n) \<in> (edges g)\<^sup>*" using "2.prems"(3) e by (auto intro: rtrancl_into_rtrancl)
        moreover have "fst (visit g (insert n stack) (insert n seen) (waits_on g n))" using v True by simp
        ultimately obtain z where "(n, z) \<in> (edges g)\<^sup>*" "(z, z) \<in> (edges g)\<^sup>+"
          using "2.IH"(2) [OF ns new] by blast
        then show ?thesis using e by (meson converse_rtrancl_into_rtrancl)
      next
        case False
        then show ?thesis using "2.IH"(3) [OF ns new v [symmetric]] "2.prems" v ns new by (simp add: visit.simps(2))
      qed
    qed
  qed
qed (simp add: visit.simps(1))

text \<open>Finished nodes: closed under successors and on no cycle.\<close>

definition finished :: "(xid \<times> xid list) list \<Rightarrow> xid set \<Rightarrow> bool" where
  "finished g B \<longleftrightarrow> edges g `` B \<subseteq> B \<and> (\<forall>b \<in> B. (b, b) \<notin> (edges g)\<^sup>+)"

lemma finished_reach:
  assumes "finished g B" "(a, b) \<in> (edges g)\<^sup>*" "a \<in> B"
  shows "b \<in> B"
  using assms(2) by (induction rule: rtrancl_induct) (use assms(1,3) in \<open>auto simp: finished_def\<close>)

lemma finished_insert:
  assumes "finished g B" "set (waits_on g n) \<subseteq> B" "n \<notin> B"
  shows "finished g (insert n B)"
proof -
  have "b \<in> B" if r: "(n, b) \<in> (edges g)\<^sup>+" for b
  proof -
    obtain m where "(n, m) \<in> edges g" "(m, b) \<in> (edges g)\<^sup>*" using tranclD [OF r] by blast
    then show ?thesis using assms(2) finished_reach [OF assms(1)] by (auto simp: edges_def)
  qed
  then have "(n, n) \<notin> (edges g)\<^sup>+" using assms(3) by blast
  then show ?thesis using assms(1,2) by (auto simp: finished_def edges_def)
qed

lemma visit_complete:
  assumes "visit g stack seen ns = (False, seen')" "stack \<subseteq> seen" "finished g (seen - stack)"
  shows "seen \<subseteq> seen' \<and> set ns \<subseteq> seen' - stack \<and> finished g (seen' - stack)"
  using assms
proof (induction g stack seen ns arbitrary: seen' rule: visit.induct)
  case (2 g stack seen n ns)
  have ns: "n \<notin> stack" using "2.prems"(1) by (auto simp: visit.simps(2))
  show ?case
  proof (cases "n \<in> seen")
    case True
    then show ?thesis using "2.IH"(1) [OF ns True, of seen'] "2.prems" ns by (auto simp: visit.simps(2))
  next
    case new: False
    obtain r seen1 where v: "visit g (insert n stack) (insert n seen) (waits_on g n) = (r, seen1)" by fastforce
    then have "\<not> r" using "2.prems"(1) ns new by (auto simp: visit.simps(2) split: bool.splits)
    then have v1: "visit g (insert n stack) (insert n seen) (waits_on g n) = (False, seen1)"
        and v2: "visit g stack seen1 ns = (False, seen')"
      using v "2.prems"(1) ns new by (auto simp: visit.simps(2))
    have "insert n seen - insert n stack = seen - stack" using new by auto
    then have i1: "insert n seen \<subseteq> seen1" "set (waits_on g n) \<subseteq> seen1 - insert n stack" "finished g (seen1 - insert n stack)"
      using "2.IH"(2) [OF ns new v1] "2.prems"(2,3) by auto
    have "seen1 - stack = insert n (seen1 - insert n stack)" using i1(1) ns by auto
    then have f: "finished g (seen1 - stack)" using finished_insert [OF i1(3,2)] by simp
    have "stack \<subseteq> seen1" using i1(1) "2.prems"(2) by auto
    then have "seen1 \<subseteq> seen' \<and> set ns \<subseteq> seen' - stack \<and> finished g (seen' - stack)"
      using "2.IH"(3) [OF ns new v1 [symmetric] refl v2 _ f] by simp
    then show ?thesis using i1(1) ns by auto
  qed
qed (simp add: visit.simps(1))

lemma has_cycle_iff: "has_cycle start g \<longleftrightarrow> (\<exists>z. (start, z) \<in> (edges g)\<^sup>* \<and> (z, z) \<in> (edges g)\<^sup>+)"
proof
  assume "has_cycle start g"
  then show "\<exists>z. (start, z) \<in> (edges g)\<^sup>* \<and> (z, z) \<in> (edges g)\<^sup>+"
    unfolding has_cycle_def by (rule visit_sound) (auto simp: edges_def)
next
  assume c: "\<exists>z. (start, z) \<in> (edges g)\<^sup>* \<and> (z, z) \<in> (edges g)\<^sup>+"
  show "has_cycle start g"
  proof (rule ccontr)
    assume "\<not> has_cycle start g"
    then obtain seen where v: "visit g {start} {start} (waits_on g start) = (False, seen)"
      by (cases "visit g {start} {start} (waits_on g start)") (simp add: has_cycle_def)
    have "finished g ({start} - {start})" by (simp add: finished_def)
    from visit_complete [OF v _ this] have "set (waits_on g start) \<subseteq> seen - {start}" "finished g (seen - {start})" by auto
    then have f: "finished g (insert start (seen - {start}))" using finished_insert by blast
    obtain z where z: "(start, z) \<in> (edges g)\<^sup>*" "(z, z) \<in> (edges g)\<^sup>+" using c by blast
    then show False using finished_reach [OF f z(1)] f by (auto simp: finished_def)
  qed
qed

section \<open>Locks\<close>

text \<open>
  \<open>my_req\<close> is the request of \<open>x\<close> that is not granted yet: a transaction waits for one lock at a
  time. The loop looks at the granted requests in front of it.
\<close>

definition ahead :: "xid \<Rightarrow> lock_request list \<Rightarrow> lock_request list" where
  "ahead x rs = takeWhile (\<lambda>r. \<not> (rq_xid r = x \<and> \<not> rq_granted r)) rs"

definition blocking :: "xid \<Rightarrow> lock_kind \<Rightarrow> lock_request list \<Rightarrow> xid list" where
  "blocking x md rs = remdups (map rq_xid (filter (\<lambda>r. rq_granted r
     \<and> (md = LK_EXCLUSIVE \<or> rq_mode r = LK_EXCLUSIVE) \<and> rq_xid r \<noteq> x) (ahead x rs)))"

fun grant_mine :: "xid \<Rightarrow> lock_request list \<Rightarrow> lock_request list" where
  "grant_mine x [] = []"
| "grant_mine x (r # rs) = (if rq_xid r = x \<and> \<not> rq_granted r then r\<lparr>rq_granted := True\<rparr> # rs else r # grant_mine x rs)"

text \<open>One round of the \<open>while (true)\<close> loop.\<close>

definition lock_round :: "string \<Rightarrow> xid \<Rightarrow> lock_kind \<Rightarrow> lab8 \<Rightarrow> unit call \<times> lab8" where
  "lock_round key x md s =
     (let b = blocking x md (g_lock_table s key)
      in if b = []
         then (Done (), s\<lparr>g_lock_table := (g_lock_table s)(key := grant_mine x (g_lock_table s key)),
                          g_waits_for := AList.delete x (g_waits_for s)\<rparr>)
         else let g = AList.update x b (g_waits_for s)
         in if has_cycle x g
            then (Raise (Deadlock x), s\<lparr>g_waits_for := AList.delete x g,
                    g_lock_table := (g_lock_table s)(key := filter (\<lambda>r. \<not> (rq_xid r = x \<and> \<not> rq_granted r)) (g_lock_table s key))\<rparr>)
            else (Blocked, s\<lparr>g_waits_for := g\<rparr>))"

definition holds_lock :: "xid \<Rightarrow> lock_kind \<Rightarrow> lock_request list \<Rightarrow> bool" where
  "holds_lock x md rs \<longleftrightarrow> list_ex (\<lambda>r. rq_xid r = x \<and> rq_granted r \<and> (md = LK_SHARED \<or> rq_mode r = LK_EXCLUSIVE)) rs"

definition acquire_lock :: "string \<Rightarrow> xid \<Rightarrow> lock_kind \<Rightarrow> lab8 \<Rightarrow> unit call \<times> lab8" where
  "acquire_lock key x md s = (case g_transactions s x of
     None \<Rightarrow> (Raise NoTransaction, s)
   | Some t \<Rightarrow>
       if in_shrinking t then (Raise PhaseViolation, s)
       else if holds_lock x md (g_lock_table s key) then (Done (), s)
       else lock_round key x md (s\<lparr>g_lock_table := (g_lock_table s)(key :=
              g_lock_table s key @ [\<lparr>rq_xid = x, rq_mode = md, rq_granted = False\<rparr>])\<rparr>))"

definition release_locks :: "xid \<Rightarrow> lab8 \<Rightarrow> lab8" where
  "release_locks x s = s\<lparr>
     g_transactions := (g_transactions s)(x := map_option (\<lambda>t. t\<lparr>in_shrinking := True\<rparr>) (g_transactions s x)),
     g_lock_table := (\<lambda>k. filter (\<lambda>r. rq_xid r \<noteq> x) (g_lock_table s k)),
     g_waits_for := AList.delete x (g_waits_for s)\<rparr>"

section \<open>The transaction manager\<close>

fun after_lock :: "unit call \<times> lab8 \<Rightarrow> (lab8 \<Rightarrow> 'a call \<times> lab8) \<Rightarrow> 'a call \<times> lab8" where
  "after_lock (Done _, s) f = f s"
| "after_lock (Blocked, s) f = (Blocked, s)"
| "after_lock (Raise e, s) f = (Raise e, s)"

text \<open>Each operation, and its continuation when the blocked thread is woken.\<close>

datatype tx_call =
    CRead string
  | CInsert string string
  | CUpdate string string
  | CRemove string

fun call_key :: "tx_call \<Rightarrow> string" where
  "call_key (CRead k) = k" | "call_key (CInsert k v) = k" | "call_key (CUpdate k v) = k" | "call_key (CRemove k) = k"

fun call_mode :: "tx_call \<Rightarrow> lock_kind" where
  "call_mode (CRead k) = LK_SHARED" | "call_mode _ = LK_EXCLUSIVE"

text \<open>The value is that of a read; the other operations return nothing.\<close>

fun no_value :: "unit call \<times> lab8 \<Rightarrow> string option call \<times> lab8" where
  "no_value (Done _, s) = (Done None, s)"
| "no_value (Blocked, s) = (Blocked, s)"
| "no_value (Raise e, s) = (Raise e, s)"

fun call_body :: "xid \<Rightarrow> tx_call \<Rightarrow> lab8 \<Rightarrow> string option call \<times> lab8" where
  "call_body x (CRead k) s = mvcc_read_key k x s"
| "call_body x (CInsert k v) s = no_value (mvcc_insert k v x s)"
| "call_body x (CUpdate k v) s = no_value (mvcc_update k v x s)"
| "call_body x (CRemove k) s = no_value (mvcc_delete k x s)"

definition tx_start :: "xid \<Rightarrow> tx_call \<Rightarrow> lab8 \<Rightarrow> string option call \<times> lab8" where
  "tx_start x c s = after_lock (acquire_lock (call_key c) x (call_mode c) s) (call_body x c)"

definition tx_resume :: "xid \<Rightarrow> tx_call \<Rightarrow> lab8 \<Rightarrow> string option call \<times> lab8" where
  "tx_resume x c s = after_lock (lock_round (call_key c) x (call_mode c) s) (call_body x c)"

definition set_status :: "xid \<Rightarrow> tx_status \<Rightarrow> lab8 \<Rightarrow> lab8" where
  "set_status x st s = s\<lparr>g_transactions := (g_transactions s)(x := map_option (\<lambda>t. t\<lparr>tx_status := st\<rparr>) (g_transactions s x))\<rparr>"

definition tx_commit :: "xid \<Rightarrow> lab8 \<Rightarrow> unit call \<times> lab8" where
  "tx_commit x s = (if g_transactions s x = None then (Raise NoTransaction, s)
     else (Done (), release_locks x (set_status x TX_COMMITTED s)))"

definition undo_version :: "xid \<Rightarrow> row_version \<Rightarrow> row_version" where
  "undo_version x v =
     (let v1 = (if xmin v = x then v\<lparr>xmax := x\<rparr> else v)
      in if xmax v1 = x then v1\<lparr>xmax := 0\<rparr> else v1)"

definition tx_abort :: "xid \<Rightarrow> lab8 \<Rightarrow> unit call \<times> lab8" where
  "tx_abort x s =
     (let s1 = s\<lparr>g_heap := (\<lambda>k. map (undo_version x) (g_heap s k))\<rparr>
      in if g_transactions s x = None then (Raise NoTransaction, s1)
         else (Done (), release_locks x (set_status x TX_ABORTED s1)))"

section \<open>What others see\<close>

text \<open>The heap without the traces of \<open>x\<close>.\<close>

definition without :: "xid \<Rightarrow> row_version list \<Rightarrow> row_version list" where
  "without x vs = map (\<lambda>v. if xmax v = x then v\<lparr>xmax := 0\<rparr> else v) (filter (\<lambda>v. xmin v \<noteq> x) vs)"

lemma visible_erased:
  assumes "\<not> is_committed s x" "y \<noteq> x"
  shows "is_visible s v snap y \<longleftrightarrow> xmin v \<noteq> x \<and> is_visible s (if xmax v = x then v\<lparr>xmax := 0\<rparr> else v) snap y"
proof (cases "xmin v = x")
  case True
  then show ?thesis using assms by (simp add: is_visible_def)
next
  case False
  then show ?thesis using assms by (cases "xmax v = x") (simp_all add: is_visible_def Let_def)
qed

lemma find_erased:
  assumes "\<not> is_committed s x" "y \<noteq> x"
  shows "map_option rv_value (find (\<lambda>v. is_visible s v snap y) vs)
    = map_option rv_value (find (\<lambda>v. is_visible s v snap y) (without x vs))"
proof (induction vs)
  case (Cons v vs)
  let ?w = "if xmax v = x then v\<lparr>xmax := 0\<rparr> else v"
  have val: "rv_value ?w = rv_value v" by simp
  have tl: "without x (v # vs) = (if xmin v \<noteq> x then ?w # without x vs else without x vs)" by (simp add: without_def)
  show ?case
  proof (cases "is_visible s v snap y")
    case True
    then have "xmin v \<noteq> x" "is_visible s ?w snap y" using visible_erased [OF assms, of v snap] by blast+
    then show ?thesis using True by (simp add: tl val del: if_split)
  next
    case False
    then have "xmin v \<noteq> x \<Longrightarrow> \<not> is_visible s ?w snap y" using visible_erased [OF assms, of v snap] by blast
    then show ?thesis using False Cons by (simp add: tl)
  qed
qed (simp add: without_def)

text \<open>What a call of \<open>x\<close> leaves alone.\<close>

definition others_view :: "xid \<Rightarrow> lab8 \<Rightarrow> lab8 \<Rightarrow> bool" where
  "others_view x s s' \<longleftrightarrow> g_transactions s' = g_transactions s \<and> (\<forall>k. without x (g_heap s' k) = without x (g_heap s k))"

lemma others_view_trans: "others_view x a b \<Longrightarrow> others_view x b c \<Longrightarrow> others_view x a c"
  by (simp add: others_view_def)

lemma lock_round_view: "others_view x s (snd (lock_round key x md s))"
  by (simp add: lock_round_def others_view_def Let_def)

lemma acquire_view: "others_view x s (snd (acquire_lock key x md s))"
proof -
  have "others_view x s (s\<lparr>g_lock_table := f\<rparr>)" for f by (simp add: others_view_def)
  then show ?thesis using others_view_trans [OF _ lock_round_view]
    by (auto simp: acquire_lock_def others_view_def split: option.split)
qed

lemma mark_first_without: "x \<noteq> 0 \<Longrightarrow> without x (mark_first P x vs) = without x vs"
  by (induction vs) (auto simp: without_def)

lemma call_body_view: "x \<noteq> 0 \<Longrightarrow> others_view x s (snd (call_body x c s))"
  by (cases c) (auto simp: mvcc_read_key_def mvcc_insert_def mvcc_update_def mvcc_delete_def push_version_def
      mark_version_def others_view_def without_def mark_first_without [unfolded without_def] split: sum.split)

lemma after_lock_view:
  assumes "others_view x s (snd r)" "\<And>s'. others_view x s' (snd (f s'))"
  shows "others_view x s (snd (after_lock r f))"
proof (cases "fst r")
  case (Done u)
  then show ?thesis using assms others_view_trans by (cases r) auto
qed (use assms in \<open>cases r; auto\<close>)+

lemma tx_start_view: "x \<noteq> 0 \<Longrightarrow> others_view x s (snd (tx_start x c s))"
  unfolding tx_start_def by (intro after_lock_view acquire_view call_body_view)

lemma tx_resume_view: "x \<noteq> 0 \<Longrightarrow> others_view x s (snd (tx_resume x c s))"
  unfolding tx_resume_def by (intro after_lock_view lock_round_view call_body_view)

text \<open>Calls of one transaction in order, each new or resumed (\<open>True\<close>).\<close>

definition own_step :: "xid \<Rightarrow> bool \<times> tx_call \<Rightarrow> lab8 \<Rightarrow> lab8" where
  "own_step x = (\<lambda>(resumed, c) s. snd (if resumed then tx_resume x c s else tx_start x c s))"

lemma own_steps_view: "x \<noteq> 0 \<Longrightarrow> others_view x s (fold (own_step x) cs s)"
proof (induction cs arbitrary: s)
  case Nil
  show ?case by (simp add: others_view_def)
next
  case (Cons c cs)
  have "others_view x s (own_step x c s)"
    using tx_start_view [OF Cons.prems] tx_resume_view [OF Cons.prems] by (cases c) (simp add: own_step_def)
  then show ?case using others_view_trans Cons by auto
qed

lemma without_fresh: "\<forall>v \<in> set vs. xmin v \<noteq> x \<and> xmax v \<noteq> x \<Longrightarrow> without x vs = vs"
  by (induction vs) (auto simp: without_def)

lemma undo_filter: "filter (\<lambda>v. xmin v \<noteq> x) (map (undo_version x) vs) = without x vs"
  by (induction vs) (auto simp: without_def undo_version_def Let_def)

lemma without_twice: "x \<noteq> 0 \<Longrightarrow> without x (without x vs) = without x vs"
  by (induction vs) (auto simp: without_def)

lemma without_filter: "without x (map (undo_version x) vs) = without x (without x vs)"
  by (induction vs) (auto simp: without_def undo_version_def Let_def)

lemma read_same:
  assumes t: "g_transactions s' y = g_transactions s y" "is_committed s' = is_committed s"
    and nc: "\<not> is_committed s x" "y \<noteq> x" and h: "without x (g_heap s' k) = without x (g_heap s k)"
  shows "fst (mvcc_read_key k y s') = fst (mvcc_read_key k y s)"
proof -
  have v: "is_visible s' = is_visible s" using t(2) by (simp add: is_visible_def fun_eq_iff)
  have "map_option rv_value (find (\<lambda>v. is_visible s v snap y) (g_heap s' k))
      = map_option rv_value (find (\<lambda>v. is_visible s v snap y) (g_heap s k))" for snap
    using find_erased [OF nc, of snap "g_heap s' k"] find_erased [OF nc, of snap "g_heap s k"] h by simp
  then show ?thesis using t(1) v by (simp add: mvcc_read_key_def snapshot_of_def split: option.split)
qed

section \<open>All transactions together\<close>

text \<open>
  The steps of any number of threads. A woken call runs its round again; that it is woken at any
  time, also spuriously, only adds steps.
\<close>

inductive lab8_step :: "lab8 \<Rightarrow> lab8 \<Rightarrow> bool" where
  l8_begin: "lab8_step s (snd (begin_transaction s))"
| l8_call: "lab8_step s (snd (tx_start x c s))"
| l8_wake: "lab8_step s (snd (tx_resume x c s))"
| l8_lock: "lab8_step s (snd (acquire_lock k x md s))"
| l8_commit: "lab8_step s (snd (tx_commit x s))"
| l8_abort: "lab8_step s (snd (tx_abort x s))"

definition waits_acyclic :: "lab8 \<Rightarrow> bool" where
  "waits_acyclic s \<longleftrightarrow> acyclic (edges (g_waits_for s))"

lemma waits_on_delete: "waits_on (AList.delete x g) a = (if a = x then [] else waits_on g a)"
  by (simp add: waits_on_def delete_conv')

lemma waits_on_update: "waits_on (AList.update x b g) a = (if a = x then b else waits_on g a)"
  by (simp add: waits_on_def update_conv')

lemma edges_delete: "edges (AList.delete x g) = {(a, b) \<in> edges g. a \<noteq> x}"
  by (auto simp: edges_def waits_on_delete split: if_splits)

lemma edges_update: "edges (AList.update x b g) = {(a, c) \<in> edges g. a \<noteq> x} \<union> {x} \<times> set b"
  by (auto simp: edges_def waits_on_update split: if_splits)

lemma acyclic_delete: "acyclic (edges g) \<Longrightarrow> acyclic (edges (AList.delete x g))"
  by (rule acyclic_subset) (auto simp: edges_delete)

text \<open>New edges out of one node: a path avoids them or passes through the node.\<close>

lemma trancl_through:
  assumes "(a, b) \<in> (r \<union> {x} \<times> B)\<^sup>+"
  shows "(a, b) \<in> r\<^sup>+ \<or> (a, x) \<in> (r \<union> {x} \<times> B)\<^sup>* \<and> (x, b) \<in> (r \<union> {x} \<times> B)\<^sup>+"
  using assms
proof (induction rule: trancl_induct)
  case (base y)
  then show ?case by auto
next
  case (step y z)
  then show ?case by (auto intro: trancl_into_trancl trancl_into_rtrancl)
qed

lemma cycle_through_new_edges:
  assumes "acyclic (edges g)"
  shows "has_cycle x (AList.update x b g) \<longleftrightarrow> \<not> acyclic (edges (AList.update x b g))"
proof
  assume "has_cycle x (AList.update x b g)"
  then show "\<not> acyclic (edges (AList.update x b g))" unfolding has_cycle_iff acyclic_def by blast
next
  let ?r = "{(a, c) \<in> edges g. a \<noteq> x}"
  assume "\<not> acyclic (edges (AList.update x b g))"
  then obtain z where z: "(z, z) \<in> (edges (AList.update x b g))\<^sup>+" by (auto simp: acyclic_def)
  have "acyclic ?r" using assms by (rule acyclic_subset) auto
  then have "(z, x) \<in> (edges (AList.update x b g))\<^sup>*" "(x, z) \<in> (edges (AList.update x b g))\<^sup>+"
    using trancl_through [of z z ?r x "set b"] z by (auto simp: edges_update acyclic_def)
  then have "(x, x) \<in> (edges (AList.update x b g))\<^sup>+" by (rule trancl_rtrancl_trancl [rotated])
  then show "has_cycle x (AList.update x b g)" unfolding has_cycle_iff by blast
qed

text \<open>Every operation keeps the graph without a cycle.\<close>

lemma lock_round_acyclic: "waits_acyclic s \<Longrightarrow> waits_acyclic (snd (lock_round k x md s))"
proof -
  assume s: "waits_acyclic s"
  let ?b = "blocking x md (g_lock_table s k)"
  have "acyclic (edges (AList.delete x (AList.update x ?b (g_waits_for s))))"
    by (rule acyclic_subset [of "edges (g_waits_for s)"]) (use s in \<open>auto simp: waits_acyclic_def edges_delete edges_update\<close>)
  then show ?thesis using s cycle_through_new_edges [of "g_waits_for s" x ?b] acyclic_delete [of "g_waits_for s" x]
    by (auto simp: lock_round_def waits_acyclic_def Let_def)
qed

lemma acquire_acyclic: "waits_acyclic s \<Longrightarrow> waits_acyclic (snd (acquire_lock k x md s))"
  using lock_round_acyclic [of "s\<lparr>g_lock_table := f\<rparr>" for f]
  by (auto simp: acquire_lock_def waits_acyclic_def split: option.split)

lemma call_body_waits: "g_waits_for (snd (call_body x c s)) = g_waits_for s"
  by (cases c) (auto simp: mvcc_read_key_def mvcc_insert_def mvcc_update_def mvcc_delete_def push_version_def
      mark_version_def split: sum.split)

lemma after_lock_acyclic: "waits_acyclic (snd r) \<Longrightarrow> waits_acyclic (snd (after_lock r (call_body x c)))"
  by (cases "(r, call_body x c)" rule: after_lock.cases) (simp_all add: waits_acyclic_def call_body_waits)

lemma release_acyclic: "waits_acyclic s \<Longrightarrow> waits_acyclic (release_locks x s)"
  by (simp add: waits_acyclic_def release_locks_def acyclic_delete)

lemma lab8_step_acyclic: "lab8_step s s' \<Longrightarrow> waits_acyclic s \<Longrightarrow> waits_acyclic s'"
proof (induction rule: lab8_step.induct)
  case (l8_begin s)
  then show ?case by (simp add: begin_transaction_def waits_acyclic_def Let_def)
next
  case (l8_call s x c)
  then show ?case unfolding tx_start_def by (intro after_lock_acyclic acquire_acyclic)
next
  case (l8_wake s x c)
  then show ?case unfolding tx_resume_def by (intro after_lock_acyclic lock_round_acyclic)
next
  case (l8_lock s k x md)
  then show ?case by (rule acquire_acyclic)
next
  case (l8_commit s x)
  have "waits_acyclic (set_status x TX_COMMITTED s)" using l8_commit by (simp add: waits_acyclic_def set_status_def)
  then show ?case using l8_commit by (simp add: tx_commit_def release_acyclic)
next
  case (l8_abort s x)
  have "waits_acyclic (set_status x TX_ABORTED (s\<lparr>g_heap := h\<rparr>))" "waits_acyclic (s\<lparr>g_heap := h\<rparr>)" for h
    using l8_abort by (simp_all add: waits_acyclic_def set_status_def)
  then show ?case by (simp add: tx_abort_def Let_def release_acyclic)
qed

lemma reachable_acyclic: "lab8_step\<^sup>*\<^sup>* lab8_new s \<Longrightarrow> waits_acyclic s"
proof (induction rule: rtranclp_induct)
  case base
  have "edges [] = {}" by (simp add: edges_def waits_on_def)
  then show ?case by (simp add: waits_acyclic_def lab8_new_def wf_acyclic)
qed (rule lab8_step_acyclic)

section \<open>Properties\<close>

text \<open>
  C26. Isolation and rollback of the version chains, at any point of any interleaving where
  transaction \<open>x\<close> is active. Every other transaction reads as if the chains held nothing of \<open>x\<close>;
  calls of \<open>x\<close>, new or resumed, one or many with no other call between, do not change that, and
  neither does its abort afterwards. The abort leaves the chains as they would be without \<open>x\<close>, but
  for versions \<open>x\<close> created, which nobody sees, and releases its locks. (A commit of \<open>x\<close> does change
  what others read: \<open>late_commit_visible\<close>.)
\<close>

theorem aborted_leaves_no_trace:
  assumes "x \<noteq> 0" "g_transactions s x = Some t" "tx_status t = TX_ACTIVE"
  shows "let s1 = fold (own_step x) cs s; s2 = snd (tx_abort x s1) in
    (\<forall>k y. y \<noteq> x \<longrightarrow> fst (mvcc_read_key k y s) = fst (mvcc_read_key k y (s\<lparr>g_heap := \<lambda>k. without x (g_heap s k)\<rparr>))
      \<and> fst (mvcc_read_key k y s1) = fst (mvcc_read_key k y s) \<and> fst (mvcc_read_key k y s2) = fst (mvcc_read_key k y s))
    \<and> (\<forall>k. filter (\<lambda>v. xmin v \<noteq> x) (g_heap s2 k) = without x (g_heap s k))
    \<and> (\<forall>k. (\<forall>v \<in> set (g_heap s k). xmin v \<noteq> x \<and> xmax v \<noteq> x) \<longrightarrow> without x (g_heap s k) = g_heap s k)
    \<and> (\<forall>k. \<forall>r \<in> set (g_lock_table s2 k). rq_xid r \<noteq> x)"
proof -
  define s1 where "s1 = fold (own_step x) cs s"
  define s2 where "s2 = snd (tx_abort x s1)"
  let ?s0 = "s\<lparr>g_heap := \<lambda>k. without x (g_heap s k)\<rparr>"
  have v1: "g_transactions s1 = g_transactions s" "\<And>k. without x (g_heap s1 k) = without x (g_heap s k)"
    using own_steps_view [OF assms(1), of s cs] by (simp_all add: s1_def others_view_def)
  have nc: "\<not> is_committed s x" using assms(2,3) by (simp add: is_committed_def)
  have c1: "is_committed s1 = is_committed s" and c0: "is_committed s = is_committed ?s0" using v1(1) by (simp_all add: is_committed_def fun_eq_iff)
  have h2: "g_heap s2 = (\<lambda>k. map (undo_version x) (g_heap s1 k))"
    and t2: "\<And>y. y \<noteq> x \<Longrightarrow> g_transactions s2 y = g_transactions s y"
    and x2: "\<not> is_committed s2 x" and l2: "g_lock_table s2 = (\<lambda>k. filter (\<lambda>r. rq_xid r \<noteq> x) (g_lock_table s1 k))"
    using assms(2) v1(1) by (simp_all add: s2_def tx_abort_def release_locks_def set_status_def Let_def is_committed_def)
  have c2: "is_committed s2 = is_committed s"
  proof (rule ext)
    fix z show "is_committed s2 z = is_committed s z"
      using t2 [of z] x2 nc by (cases "z = x") (simp_all add: is_committed_def)
  qed
  have w2: "without x (g_heap s2 k) = without x (g_heap s k)" for k
    using without_filter [of x "g_heap s1 k"] without_twice [OF assms(1)] v1(2) [of k] by (simp add: h2)
  have "fst (mvcc_read_key k y s) = fst (mvcc_read_key k y ?s0)" if "y \<noteq> x" for k y
    by (rule read_same [OF _ c0 _ that]) (use c0 nc without_twice [OF assms(1)] in simp_all)
  moreover have "fst (mvcc_read_key k y s1) = fst (mvcc_read_key k y s)" if "y \<noteq> x" for k y
    by (rule read_same [OF _ c1 nc that v1(2)]) (simp add: v1(1))
  moreover have "fst (mvcc_read_key k y s2) = fst (mvcc_read_key k y s)" if "y \<noteq> x" for k y
    by (rule read_same [OF t2 [OF that] c2 nc that w2])
  moreover have "filter (\<lambda>v. xmin v \<noteq> x) (g_heap s2 k) = without x (g_heap s k)" for k
    by (simp add: h2 undo_filter v1(2))
  moreover have "\<forall>r \<in> set (g_lock_table s2 k). rq_xid r \<noteq> x" for k by (simp add: l2)
  ultimately show ?thesis unfolding s1_def [symmetric] Let_def s2_def [symmetric] using without_fresh by blast
qed

text \<open>Transaction 2 has inserted \<open>j\<close> and 1 \<open>k\<close>; now 1 updates \<open>k\<close> and aborts.\<close>

theorem aborted_leaves_no_trace_witness:
  "\<exists>s s1. s1 = own_step 1 (False, CUpdate ''k'' ''w'') s
    \<and> length (g_heap s ''k'') = 1 \<and> length (g_heap s1 ''k'') = 2 \<and> fst (mvcc_read_key ''k'' 2 s1) = fst (mvcc_read_key ''k'' 2 s)
    \<and> filter (\<lambda>v. xmin v \<noteq> 1) (g_heap (snd (tx_abort 1 s1)) ''k'') = []"
proof -
  let ?s0 = "snd (begin_transaction (snd (begin_transaction lab8_new)))"
  let ?s = "own_step 1 (False, CInsert ''k'' ''v'') (own_step 2 (False, CInsert ''j'' ''u'') ?s0)"
  let ?cs = "[(False, CUpdate ''k'' ''w'')]"
  have "g_transactions ?s 1 = Some \<lparr>tx_id = 1, snapshot_xid = 1, tx_status = TX_ACTIVE, in_shrinking = False\<rparr>"
    by code_simp
  from aborted_leaves_no_trace [OF _ this, of ?cs]
  have "fst (mvcc_read_key ''k'' 2 (own_step 1 (False, CUpdate ''k'' ''w'') ?s)) = fst (mvcc_read_key ''k'' 2 ?s)"
    "filter (\<lambda>v. xmin v \<noteq> 1) (g_heap (snd (tx_abort 1 (own_step 1 (False, CUpdate ''k'' ''w'') ?s))) ''k'') = without 1 (g_heap ?s ''k'')"
    by (simp_all add: Let_def)
  moreover have "length (g_heap ?s ''k'') = 1 \<and> length (g_heap (own_step 1 (False, CUpdate ''k'' ''w'') ?s) ''k'') = 2
      \<and> without 1 (g_heap ?s ''k'') = []" by code_simp
  ultimately show ?thesis by metis
qed

text \<open>
  Deadlock detection is exact: the search, which terminates on every graph, returns true iff a
  cycle of the waits-for graph can be reached from the requester.
\<close>

theorem has_cycle_exact: "has_cycle start g \<longleftrightarrow> (\<exists>z. (start, z) \<in> (edges g)\<^sup>* \<and> (z, z) \<in> (edges g)\<^sup>+)"
  by (rule has_cycle_iff)

text \<open>
  Mutual exclusion fails: a shared request may overtake a waiting exclusive one, and when the
  latter is woken it looks only at the requests in front of it. Here 1 reads \<open>k\<close>, 2 waits to
  update it, 3 reads it, 1 commits, and the exclusive lock of 2 is granted while 3 still holds
  its shared lock.
\<close>

theorem exclusive_beside_shared:
  "let s0 = snd (begin_transaction (snd (begin_transaction (snd (begin_transaction lab8_new)))));
       (r1, s1) = tx_start 1 (CRead k) s0;
       (r2, s2) = tx_start 2 (CUpdate k v) s1;
       (r3, s3) = tx_start 3 (CRead k) s2;
       (r4, s4) = tx_commit 1 s3;
       (r5, s5) = tx_resume 2 (CUpdate k v) s4
   in r1 = Done None \<and> r2 = Blocked \<and> r3 = Done None \<and> r5 = Done None
     \<and> g_lock_table s5 k = [\<lparr>rq_xid = 2, rq_mode = LK_EXCLUSIVE, rq_granted = True\<rparr>,
          \<lparr>rq_xid = 3, rq_mode = LK_SHARED, rq_granted = True\<rparr>]"
  by (simp add: tx_start_def tx_resume_def tx_commit_def acquire_lock_def lock_round_def release_locks_def set_status_def
      begin_transaction_def lab8_new_def holds_lock_def blocking_def ahead_def has_cycle_def visit.simps waits_on_def
      mvcc_read_key_def mvcc_update_def snapshot_of_def push_version_def mark_version_def Let_def)

text \<open>
  Updates are lost: a transaction whose snapshot is older than a committed update overwrites
  it. It sees the old version, finds it already superseded and leaves it, and adds a second live
  version in front of the chain; a later reader gets its value, and the other update is gone
  although both committed.
\<close>

theorem concurrent_update_lost:
  "let s0 = snd (tx_commit 1 (snd (tx_start 1 (CInsert k a) (snd (begin_transaction lab8_new)))));
       s1 = snd (begin_transaction (snd (begin_transaction s0)));
       (r3, s2) = tx_start 3 (CUpdate k b) s1;
       s3 = snd (tx_commit 3 s2);
       (r2, s4) = tx_start 2 (CUpdate k c) s3;
       s5 = snd (begin_transaction (snd (tx_commit 2 s4)))
   in r3 = Done None \<and> r2 = Done None \<and> fst (tx_start 4 (CRead k) s5) = Done (Some c)
     \<and> g_heap s5 k = [\<lparr>rv_value = c, xmin = 2, xmax = 0\<rparr>, \<lparr>rv_value = b, xmin = 3, xmax = 0\<rparr>,
          \<lparr>rv_value = a, xmin = 1, xmax = 3\<rparr>]"
  by (simp add: tx_start_def tx_commit_def acquire_lock_def lock_round_def release_locks_def set_status_def
      begin_transaction_def lab8_new_def holds_lock_def blocking_def ahead_def mvcc_insert_def is_visible_def is_committed_def
      mvcc_read_key_def mvcc_update_def snapshot_of_def push_version_def mark_version_def Let_def)

text \<open>A waiting request with others in front of it.\<close>

abbreviation waiting :: "xid \<Rightarrow> lock_request" where
  "waiting x \<equiv> \<lparr>rq_xid = x, rq_mode = LK_EXCLUSIVE, rq_granted = False\<rparr>"

abbreviation granted :: "xid \<Rightarrow> lock_request" where
  "granted x \<equiv> \<lparr>rq_xid = x, rq_mode = LK_EXCLUSIVE, rq_granted = True\<rparr>"

lemma ahead_waiting: "\<forall>r \<in> set as. rq_xid r = x \<longrightarrow> rq_granted r \<Longrightarrow> ahead x (as @ waiting x # bs) = as"
  by (induction as) (auto simp: ahead_def)

lemma grant_waiting: "\<forall>r \<in> set as. rq_xid r = x \<longrightarrow> rq_granted r \<Longrightarrow> grant_mine x (as @ waiting x # bs) = as @ granted x # bs"
  by (induction as) auto

lemma update_resumed:
  assumes q: "g_lock_table s k = as @ waiting x # bs" "\<forall>r \<in> set as. \<not> rq_granted r \<and> rq_xid r \<noteq> x"
    and t: "g_transactions s x = Some t"
  obtains s' where "tx_resume x (CUpdate k v) s = (Done None, s')" "g_transactions s' = g_transactions s"
    "g_lock_table s' k = as @ granted x # bs"
    "g_heap s' k = \<lparr>rv_value = v, xmin = x, xmax = 0\<rparr> # mark_first (\<lambda>u. is_visible s u (snapshot_xid t) x) x (g_heap s k)"
proof -
  have "ahead x (g_lock_table s k) = as" using q by (simp add: ahead_waiting)
  then have "blocking x LK_EXCLUSIVE (g_lock_table s k) = []" using q(2) by (auto simp: blocking_def filter_empty_conv)
  moreover have "grant_mine x (g_lock_table s k) = as @ granted x # bs" using q by (simp add: grant_waiting)
  moreover have "is_visible (s\<lparr>g_lock_table := l, g_waits_for := g\<rparr>) = is_visible s" for l g
    by (simp add: is_visible_def is_committed_def fun_eq_iff)
  ultimately show thesis using that t
    by (simp add: tx_resume_def lock_round_def mvcc_update_def snapshot_of_def push_version_def mark_version_def)
qed

text \<open>
  C37. Two writers hold the exclusive lock of one key at the same time. Let \<open>x\<close> and \<open>y\<close> be active
  and both wait to update \<open>k\<close>, \<open>x\<close> in front of \<open>y\<close>, in a queue where nothing in front of \<open>y\<close> is granted (the
  holder has just released its lock). If \<open>x\<close> gets the queue's mutex first, \<open>y\<close> is not granted. But if
  \<open>y\<close> gets it first it is granted, since it finds no granted request in front of it, and then \<open>x\<close>,
  which looks only at the requests in front of its own, is granted too. Both updates run and
  leave a live version each.
\<close>

theorem exclusive_beside_exclusive:
  assumes q: "g_lock_table s k = as @ waiting x # bs @ waiting y # cs" "x \<noteq> y"
      "\<forall>r \<in> set (as @ bs). \<not> rq_granted r \<and> rq_xid r \<noteq> x \<and> rq_xid r \<noteq> y"
    and t: "g_transactions s x = Some t" "g_transactions s y = Some u" "tx_status t = TX_ACTIVE" "tx_status u = TX_ACTIVE"
  shows "fst (tx_resume y (CUpdate k w) (snd (tx_resume x (CUpdate k v) s))) \<noteq> Done None
    \<and> (let (r1, s1) = tx_resume y (CUpdate k w) s; (r2, s2) = tx_resume x (CUpdate k v) s1
       in r1 = Done None \<and> r2 = Done None
         \<and> g_lock_table s2 k = as @ granted x # bs @ granted y # cs
         \<and> {\<lparr>rv_value = v, xmin = x, xmax = 0\<rparr>, \<lparr>rv_value = w, xmin = y, xmax = 0\<rparr>} \<subseteq> set (g_heap s2 k))"
proof
  obtain s1 where s1: "tx_resume x (CUpdate k v) s = (Done None, s1)" "g_lock_table s1 k = as @ granted x # bs @ waiting y # cs"
    using update_resumed [OF q(1) _ t(1)] q(3) by (metis UnCI set_append)
  have "ahead y (g_lock_table s1 k) = as @ granted x # bs"
    using ahead_waiting [of "as @ granted x # bs" y cs] q(3) s1(2) by simp
  then have "blocking y LK_EXCLUSIVE (g_lock_table s1 k) \<noteq> []" using q(2) by (auto simp: blocking_def filter_empty_conv)
  then have "fst (tx_resume y (CUpdate k w) s1) \<noteq> Done None" by (simp add: tx_resume_def lock_round_def Let_def)
  then show "fst (tx_resume y (CUpdate k w) (snd (tx_resume x (CUpdate k v) s))) \<noteq> Done None" using s1(1) by simp
next
  have q': "g_lock_table s k = (as @ waiting x # bs) @ waiting y # cs" "\<forall>r \<in> set (as @ waiting x # bs). \<not> rq_granted r \<and> rq_xid r \<noteq> y"
    using q by auto
  obtain s1 where s1: "tx_resume y (CUpdate k w) s = (Done None, s1)" "g_transactions s1 = g_transactions s"
    "g_lock_table s1 k = (as @ waiting x # bs) @ granted y # cs"
    "\<exists>vs. g_heap s1 k = \<lparr>rv_value = w, xmin = y, xmax = 0\<rparr> # vs"
    using update_resumed [OF q' t(2)] by metis
  then obtain vs where vs: "g_heap s1 k = \<lparr>rv_value = w, xmin = y, xmax = 0\<rparr> # vs" by blast
  have qx: "g_lock_table s1 k = as @ waiting x # (bs @ granted y # cs)" "\<forall>r \<in> set as. \<not> rq_granted r \<and> rq_xid r \<noteq> x"
    using s1(3) q(3) by simp_all
  have tx: "g_transactions s1 x = Some t" using s1(2) t(1) by simp
  obtain s2 where s2: "tx_resume x (CUpdate k v) s1 = (Done None, s2)" "g_lock_table s2 k = as @ granted x # bs @ granted y # cs"
    "g_heap s2 k = \<lparr>rv_value = v, xmin = x, xmax = 0\<rparr> # mark_first (\<lambda>u. is_visible s1 u (snapshot_xid t) x) x (g_heap s1 k)"
    using update_resumed [OF qx tx] by metis
  have "\<not> is_visible s1 \<lparr>rv_value = w, xmin = y, xmax = 0\<rparr> (snapshot_xid t) x"
    using q(2) t(2,4) s1(2) by (simp add: is_visible_def is_committed_def)
  then have "{\<lparr>rv_value = v, xmin = x, xmax = 0\<rparr>, \<lparr>rv_value = w, xmin = y, xmax = 0\<rparr>} \<subseteq> set (g_heap s2 k)"
    by (simp add: s2(3) vs)
  then show "let (r1, s1) = tx_resume y (CUpdate k w) s; (r2, s2) = tx_resume x (CUpdate k v) s1
       in r1 = Done None \<and> r2 = Done None
         \<and> g_lock_table s2 k = as @ granted x # bs @ granted y # cs
         \<and> {\<lparr>rv_value = v, xmin = x, xmax = 0\<rparr>, \<lparr>rv_value = w, xmin = y, xmax = 0\<rparr>} \<subseteq> set (g_heap s2 k)"
    using s1(1) s2(1,2) by simp
qed

text \<open>Such a state: 1 reads \<open>k\<close>, 2 and 3 wait to update it in this order, and 1 commits.\<close>

definition woken_writers :: lab8 where
  "woken_writers =
     (let s0 = snd (begin_transaction (snd (begin_transaction (snd (begin_transaction lab8_new)))));
          s1 = snd (tx_start 1 (CRead ''k'') s0);
          s2 = snd (tx_start 2 (CUpdate ''k'' ''v'') s1)
      in snd (tx_commit 1 (snd (tx_start 3 (CUpdate ''k'' ''w'') s2))))"

lemma woken_writers_state:
  "g_lock_table woken_writers ''k'' = [waiting 2, waiting 3]"
  "g_transactions woken_writers 2 = Some \<lparr>tx_id = 2, snapshot_xid = 2, tx_status = TX_ACTIVE, in_shrinking = False\<rparr>"
  "g_transactions woken_writers 3 = Some \<lparr>tx_id = 3, snapshot_xid = 3, tx_status = TX_ACTIVE, in_shrinking = False\<rparr>"
  by (simp_all add: woken_writers_def tx_start_def tx_commit_def acquire_lock_def lock_round_def release_locks_def set_status_def
      begin_transaction_def lab8_new_def holds_lock_def blocking_def ahead_def has_cycle_def visit.simps waits_on_def
      mvcc_read_key_def mvcc_update_def snapshot_of_def push_version_def mark_version_def Let_def)

lemma woken_writers_reachable: "lab8_step\<^sup>*\<^sup>* lab8_new woken_writers"
proof -
  have go: "lab8_step\<^sup>*\<^sup>* lab8_new b \<Longrightarrow> lab8_step b c \<Longrightarrow> lab8_step\<^sup>*\<^sup>* lab8_new c" for b c
    by (rule rtranclp.rtrancl_into_rtrancl)
  let ?a = "snd (begin_transaction lab8_new)"
  let ?c = "snd (begin_transaction (snd (begin_transaction ?a)))"
  let ?d = "snd (tx_start 1 (CRead ''k'') ?c)"
  let ?e = "snd (tx_start 2 (CUpdate ''k'' ''v'') ?d)"
  let ?f = "snd (tx_start 3 (CUpdate ''k'' ''w'') ?e)"
  have "lab8_step\<^sup>*\<^sup>* lab8_new ?a" by (rule r_into_rtranclp) (rule l8_begin)
  then have "lab8_step\<^sup>*\<^sup>* lab8_new (snd (begin_transaction ?a))" by (rule go) (rule l8_begin)
  then have "lab8_step\<^sup>*\<^sup>* lab8_new ?c" by (rule go) (rule l8_begin)
  then have "lab8_step\<^sup>*\<^sup>* lab8_new ?d" by (rule go) (rule l8_call)
  then have "lab8_step\<^sup>*\<^sup>* lab8_new ?e" by (rule go) (rule l8_call)
  then have "lab8_step\<^sup>*\<^sup>* lab8_new ?f" by (rule go) (rule l8_call)
  then have "lab8_step\<^sup>*\<^sup>* lab8_new (snd (tx_commit 1 ?f))" by (rule go) (rule l8_commit)
  then show ?thesis unfolding woken_writers_def Let_def .
qed

theorem exclusive_beside_exclusive_witness:
  "lab8_step\<^sup>*\<^sup>* lab8_new woken_writers
    \<and> (\<exists>s1 s2. tx_resume 3 (CUpdate ''k'' ''w'') woken_writers = (Done None, s1)
    \<and> tx_resume 2 (CUpdate ''k'' ''v'') s1 = (Done None, s2) \<and> g_lock_table s2 ''k'' = [granted 2, granted 3])"
proof (rule conjI [OF woken_writers_reachable])
  have "g_lock_table woken_writers ''k'' = [] @ waiting 2 # [] @ waiting 3 # []" by (simp add: woken_writers_state)
  from exclusive_beside_exclusive [OF this _ _ woken_writers_state(2,3), of "''w''" "''v''"]
  have "let (r1, s1) = tx_resume 3 (CUpdate ''k'' ''w'') woken_writers; (r2, s2) = tx_resume 2 (CUpdate ''k'' ''v'') s1
      in r1 = Done None \<and> r2 = Done None \<and> g_lock_table s2 ''k'' = [granted 2, granted 3]"
    by (simp add: Let_def split_beta del: tx_call.simps)
  then show "\<exists>s1 s2. tx_resume 3 (CUpdate ''k'' ''w'') woken_writers = (Done None, s1)
    \<and> tx_resume 2 (CUpdate ''k'' ''v'') s1 = (Done None, s2) \<and> g_lock_table s2 ''k'' = [granted 2, granted 3]"
    by (auto simp: Let_def split_beta prod_eq_iff)
qed

text \<open>
  A snapshot is not fixed when a transaction begins: a transaction with a smaller number that is
  still running then, and commits later, becomes visible. The snapshot is only the transaction's own
  number, and \<open>is_visible\<close> asks whether the writer is committed now.
\<close>

theorem late_commit_visible:
  assumes r: "g_transactions s r = Some tr" "snapshot_xid tr = r" "tx_status tr = TX_ACTIVE"
    and w: "g_transactions s w = Some tw" "tx_status tw = TX_ACTIVE" "w < r"
    and h: "g_heap s k = v # vs" "xmin v = w" "xmax v = 0"
  shows "fst (mvcc_read_key k r s) = Done (map_option rv_value (find (\<lambda>u. is_visible s u r r) vs))"
    and "fst (mvcc_read_key k r (snd (tx_commit w s))) = Done (Some (rv_value v))"
  using assms by (simp_all add: mvcc_read_key_def snapshot_of_def is_visible_def is_committed_def tx_commit_def
      release_locks_def set_status_def)

text \<open>
  C27. Deadlock detection works: however the calls of all threads interleave, no cycle of
  transactions that wait for each other ever stands in the waits-for graph, and a lock request is
  rejected with the deadlock exception exactly when it is blocked and its edges would close one.
\<close>

theorem deadlocks_detected:
  assumes "lab8_step\<^sup>*\<^sup>* lab8_new s"
  shows "acyclic (edges (g_waits_for s))
    \<and> (fst (lock_round k x md s) = Raise (Deadlock x) \<longleftrightarrow> blocking x md (g_lock_table s k) \<noteq> []
      \<and> \<not> acyclic (edges (AList.update x (blocking x md (g_lock_table s k)) (g_waits_for s))))"
proof -
  have a: "acyclic (edges (g_waits_for s))" using reachable_acyclic [OF assms] by (simp add: waits_acyclic_def)
  then show ?thesis using cycle_through_new_edges [OF a, of x "blocking x md (g_lock_table s k)"]
    by (simp add: lock_round_def Let_def)
qed

theorem deadlocks_detected_witness:
  "\<exists>s. g_waits_for s = [(1, [2])] \<and> acyclic (edges (g_waits_for s)) \<and> fst (tx_start 2 (CRead ''a'') s) = Raise (Deadlock 2)"
proof -
  let ?s2 = "snd (begin_transaction (snd (begin_transaction lab8_new)))"
  let ?s3 = "snd (tx_start 1 (CInsert ''a'' ''v'') ?s2)"
  let ?s4 = "snd (tx_start 2 (CInsert ''b'' ''w'') ?s3)"
  let ?s = "snd (tx_start 1 (CRead ''b'') ?s4)"
  have go: "lab8_step\<^sup>*\<^sup>* lab8_new b \<Longrightarrow> lab8_step b c \<Longrightarrow> lab8_step\<^sup>*\<^sup>* lab8_new c" for b c
    by (rule rtranclp.rtrancl_into_rtrancl)
  have "lab8_step\<^sup>*\<^sup>* lab8_new ?s2" by (rule go [OF go l8_begin], rule rtranclp.rtrancl_refl, rule l8_begin)
  then have "lab8_step\<^sup>*\<^sup>* lab8_new ?s3" by (rule go) (rule l8_call)
  then have "lab8_step\<^sup>*\<^sup>* lab8_new ?s4" by (rule go) (rule l8_call)
  then have "lab8_step\<^sup>*\<^sup>* lab8_new ?s" by (rule go) (rule l8_call)
  from deadlocks_detected [OF this, of "''a''" 2 LK_SHARED] have "acyclic (edges (g_waits_for ?s))" by blast
  moreover have "g_waits_for ?s = [(1, [2])] \<and> fst (tx_start 2 (CRead ''a'') ?s) = Raise (Deadlock 2)"
    by (simp add: tx_start_def acquire_lock_def lock_round_def begin_transaction_def lab8_new_def holds_lock_def blocking_def
      ahead_def has_cycle_def visit.simps waits_on_def mvcc_insert_def push_version_def Let_def)
  ultimately show ?thesis by blast
qed

end
