(* ===== verification/LabPrograms.thy ===== *)
theory LabPrograms
  imports Lab3_ClockCache Lab5_RedBlack Lab6_BTree Lab8_TxnManager
begin

text \<open>
  The \<open>main\<close> programs of LAB-3, LAB-5, LAB-6 and LAB-8 and the text they write to \<open>std::cout\<close>,
  evaluated: end-to-end runs of the modelled classes. The threads of LAB-8 take their steps in the
  order that its sleeps arrange, and each writes its lines before the other goes on. \<open>None\<close> is an uncaught exception or an undefined access.
\<close>

definition nl :: string where "nl = [CHR 0x0A]"

section \<open>LAB-3\<close>

definition lab3_main :: "string option" where
  "lab3_main = do {
     cache \<leftarrow> cache_new (0::int) (0::int) 4;
     cache \<leftarrow> putKey 10 1000 cache;
     cache \<leftarrow> putKey 20 2000 cache;
     cache \<leftarrow> putKey 30 3000 cache;
     out1 \<leftarrow> printState dec_of_int dec_of_int cache;
     let (valResult, cache) = getKey 20 cache;
     let out2 = (case valResult of None \<Rightarrow> [] | Some v \<Rightarrow> nl @ ''[Success] Retrieved value: '' @ dec_of_int v @ nl);
     cache \<leftarrow> putKey 40 4000 cache;
     out3 \<leftarrow> printState dec_of_int dec_of_int cache;
     Some (out1 @ out2 @ out3) }"

section \<open>LAB-5\<close>

definition yes_no :: "bool \<Rightarrow> string \<Rightarrow> string \<Rightarrow> string" where
  "yes_no b y n = (if b then y else n)"

fun insert_demo :: "int list \<Rightarrow> rbtree \<Rightarrow> (string \<times> rbtree) option" where
  "insert_demo [] t = Some ([], t)"
| "insert_demo (v # vs) t = do {
     t \<leftarrow> rb_insert v t;
     ok \<leftarrow> isValid t;
     (out, t) \<leftarrow> insert_demo vs t;
     Some (''Inserted '' @ dec_of_int v @ '' -> valid: '' @ yes_no ok ''yes'' ''no'' @ nl @ out, t) }"

definition printLookup :: "int \<Rightarrow> rbtree \<Rightarrow> string option" where
  "printLookup key t = map_option (\<lambda>b. ''Search key '' @ dec_of_int key @ '': '' @ yes_no b ''found'' ''not found'' @ nl)
     (rb_contains key t)"

definition lab5_main :: "string option" where
  "lab5_main = do {
     (out1, t) \<leftarrow> insert_demo [41, 38, 31, 12, 19, 8, 25, 50, 60, 55, 5, 1, 70] rb_new;
     out2 \<leftarrow> printInOrder t;
     out3 \<leftarrow> printLevelOrder t;
     out4 \<leftarrow> printLookup 25 t;
     out5 \<leftarrow> printLookup 99 t;
     ok \<leftarrow> isValid t;
     _ \<leftarrow> destroy (rb_root t) t;
     Some (out1 @ nl @ out2 @ out3 @ out4 @ out5 @ ''Final validation: '' @ yes_no ok ''passed'' ''failed'' @ nl) }"

section \<open>LAB-6\<close>

definition lab6_rows :: "(int \<times> string) list" where
  "lab6_rows = [(10, ''ROW_OF_10''), (20, ''ROW_OF_20''), (5, ''ROW_OF_5''), (6, ''ROW_OF_6''), (12, ''ROW_OF_12''),
     (30, ''ROW_OF_30''), (7, ''ROW_OF_7''), (17, ''ROW_OF_17''), (40, ''ROW_OF_40''), (3, ''ROW_OF_3''), (25, ''ROW_OF_25'')]"

fun lookup_lines :: "(int, string) btdb \<Rightarrow> int list \<Rightarrow> string option" where
  "lookup_lines d [] = Some []"
| "lookup_lines d (key # ks) = do {
     r \<leftarrow> Search key d;
     out \<leftarrow> lookup_lines d ks;
     Some (''  Search('' @ dec_of_int key @ '') = '' @ (case r of Some v \<Rightarrow> v | None \<Rightarrow> ''<not found>'') @ nl @ out) }"

definition lab6_main :: "string option" where
  "lab6_main = do {
     index \<leftarrow> Insert_all lab6_rows (btdb_new 2);
     lookups \<leftarrow> lookup_lines index [6, 17, 40, 99];
     es \<leftarrow> Scan index;
     Some (''=== B-Tree structure (one line per node) ==='' @ nl @ printTree dec_of_int 0 (bt_root index)
       @ nl @ ''=== Point lookups ==='' @ nl @ lookups
       @ nl @ ''=== Ordered scan (inorder traversal) ==='' @ nl @ ''  ''
       @ concat (map (\<lambda>e. dec_of_int (fst e) @ '' '') es) @ nl) }"

section \<open>LAB-8\<close>

text \<open>A call that returns, one that waits, and the deadlock exception with its message.\<close>

fun returned :: "'a call \<times> lab8 \<Rightarrow> ('a \<times> lab8) option" where
  "returned (Done a, s) = Some (a, s)"
| "returned _ = None"

fun waits :: "'a call \<times> lab8 \<Rightarrow> lab8 option" where
  "waits (Blocked, s) = Some s"
| "waits _ = None"

fun deadlocked :: "'a call \<times> lab8 \<Rightarrow> (string \<times> lab8) option" where
  "deadlocked (Raise (Deadlock x), s) = Some (''Deadlock detected, aborting tx '' @ dec_of_nat x, s)"
| "deadlocked _ = None"

definition status_line :: "string \<Rightarrow> xid \<Rightarrow> string" where
  "status_line st x = ''[TX '' @ dec_of_nat x @ ''] '' @ st @ nl"

definition print_val :: "string option \<Rightarrow> xid \<Rightarrow> string \<Rightarrow> string" where
  "print_val v x key = ''  [TX '' @ dec_of_nat x @ ''] READ '' @ key @ '' = ''
     @ (case v of Some w \<Rightarrow> w | None \<Rightarrow> ''<not visible>'') @ nl"

definition scenario1 :: "lab8 \<Rightarrow> (string \<times> lab8) option" where
  "scenario1 s = do {
     let (t1, s) = begin_transaction s;
     (_, s) \<leftarrow> returned (tx_start t1 (CInsert ''balance'' ''1000'') s);
     (_, s) \<leftarrow> returned (tx_commit t1 s);
     let (t2, s) = begin_transaction s;
     let (t3, s) = begin_transaction s;
     (_, s) \<leftarrow> returned (tx_start t3 (CUpdate ''balance'' ''2000'') s);
     (_, s) \<leftarrow> returned (tx_commit t3 s);
     (v, s) \<leftarrow> returned (tx_start t2 (CRead ''balance'') s);
     (_, s) \<leftarrow> returned (tx_commit t2 s);
     Some (''=== Scenario 1: MVCC Snapshot Isolation ==='' @ nl @ status_line ''COMMITTED'' t1 @ status_line ''COMMITTED'' t3
       @ print_val v t2 ''balance'' @ status_line ''COMMITTED'' t2, s) }"

definition scenario2 :: "lab8 \<Rightarrow> (string \<times> lab8) option" where
  "scenario2 s = do {
     let (t4, s) = begin_transaction s;
     let (t5, s) = begin_transaction s;
     (v4, s) \<leftarrow> returned (tx_start t4 (CRead ''balance'') s);
     (v5, s) \<leftarrow> returned (tx_start t5 (CRead ''balance'') s);
     (_, s) \<leftarrow> returned (tx_commit t4 s);
     (_, s) \<leftarrow> returned (tx_commit t5 s);
     Some (nl @ ''=== Scenario 2: Concurrent Shared Locks ==='' @ nl @ print_val v4 t4 ''balance'' @ print_val v5 t5 ''balance''
       @ status_line ''COMMITTED'' t4 @ status_line ''COMMITTED'' t5, s) }"

text \<open>The reader waits while the main thread sleeps, and is woken by the commit.\<close>

definition scenario3 :: "lab8 \<Rightarrow> (string \<times> lab8) option" where
  "scenario3 s = do {
     let (t6, s) = begin_transaction s;
     (_, s) \<leftarrow> returned (tx_start t6 (CUpdate ''balance'' ''3000'') s);
     let (t7, s) = begin_transaction s;
     s \<leftarrow> waits (tx_start t7 (CRead ''balance'') s);
     (_, s) \<leftarrow> returned (tx_commit t6 s);
     (v, s) \<leftarrow> returned (tx_resume t7 (CRead ''balance'') s);
     (_, s) \<leftarrow> returned (tx_commit t7 s);
     Some (nl @ ''=== Scenario 3: Exclusive Lock + Waiting ==='' @ nl
       @ ''  [TX '' @ dec_of_nat t7 @ ''] waiting for shared lock on balance...'' @ nl
       @ status_line ''COMMITTED'' t6 @ print_val v t7 ''balance'' @ status_line ''COMMITTED'' t7, s) }"

text \<open>\<open>t8\<close> waits for B while the main thread sleeps; then \<open>t9\<close> asks for A and is the victim.\<close>

definition scenario4 :: "lab8 \<Rightarrow> (string \<times> lab8) option" where
  "scenario4 s = do {
     let (ta, s) = begin_transaction s;
     let (tb, s) = begin_transaction s;
     (_, s) \<leftarrow> returned (tx_start ta (CInsert ''A'' ''val_a'') s);
     (_, s) \<leftarrow> returned (tx_start tb (CInsert ''B'' ''val_b'') s);
     (_, s) \<leftarrow> returned (tx_commit ta s);
     (_, s) \<leftarrow> returned (tx_commit tb s);
     let (t8, s) = begin_transaction s;
     let (t9, s) = begin_transaction s;
     (_, s) \<leftarrow> returned (acquire_lock ''A'' t8 LK_EXCLUSIVE s);
     (_, s) \<leftarrow> returned (acquire_lock ''B'' t9 LK_EXCLUSIVE s);
     s \<leftarrow> waits (acquire_lock ''B'' t8 LK_EXCLUSIVE s);
     (what, s) \<leftarrow> deadlocked (acquire_lock ''A'' t9 LK_EXCLUSIVE s);
     (_, s) \<leftarrow> returned (tx_abort t9 s);
     (_, s) \<leftarrow> returned (lock_round ''B'' t8 LK_EXCLUSIVE s);
     (_, s) \<leftarrow> returned (tx_commit t8 s);
     Some (nl @ ''=== Scenario 4: Deadlock Detection ==='' @ nl @ status_line ''COMMITTED'' ta @ status_line ''COMMITTED'' tb
       @ ''  '' @ what @ nl @ status_line ''ABORTED'' t9 @ status_line ''COMMITTED'' t8, s) }"

definition lab8_main :: "string option" where
  "lab8_main = do {
     (out1, s) \<leftarrow> scenario1 lab8_new;
     (out2, s) \<leftarrow> scenario2 s;
     (out3, s) \<leftarrow> scenario3 s;
     (out4, s) \<leftarrow> scenario4 s;
     Some (out1 @ out2 @ out3 @ out4 @ nl @ ''All scenarios complete.'' @ nl) }"

section \<open>What they print\<close>

definition text_lines :: "string list \<Rightarrow> string" where
  "text_lines ls = concat (map (\<lambda>l. l @ nl) ls)"

text \<open>A cache of capacity 4 whose first frames hold \<open>ps\<close>, each with its reference count.\<close>

definition cache4 :: "nat \<Rightarrow> (int \<times> int \<times> 32 word) list \<Rightarrow> (int, int) cache" where
  "cache4 hand ps = \<lparr>maxCacheSize = 4, clockHand = hand,
     frames = map (\<lambda>(k, v, u). \<lparr>fr_key = k, fr_value = v, usageCount = u, fr_valid = True\<rparr>) ps
       @ replicate (4 - length ps) \<lparr>fr_key = 0, fr_value = 0, usageCount = 0, fr_valid = False\<rparr>\<rparr>"

lemma cache4_put:
  "length ps = n \<Longrightarrow> n < 4 \<Longrightarrow> putKey k v (cache4 n ps) = Some (cache4 ((n + 1) mod 4) (ps @ [(k, v, 1)]))"
  by (subst putKey.simps)
    (auto simp: cache4_def nth_append updateClock_def set_frame_def Let_def list_update_append Suc_diff_Suc [symmetric])

lemma digit_chars:
  "char_of (48::nat) = CHR ''0''" "char_of (49::nat) = CHR ''1''" "char_of (50::nat) = CHR ''2''"
  "char_of (51::nat) = CHR ''3''" "char_of (52::nat) = CHR ''4''"
  by code_simp+

lemma dec_frames: "dec_of_nat 0 = ''0''" "dec_of_nat 1 = ''1''" "dec_of_nat 2 = ''2''" "dec_of_nat 3 = ''3''"
  by (simp_all add: dec_of_nat.simps digit_chars)

lemma dec_cells:
  "dec_of_int 10 = ''10''" "dec_of_int 20 = ''20''" "dec_of_int 30 = ''30''" "dec_of_int 40 = ''40''"
  "dec_of_int 1000 = ''1000''" "dec_of_int 2000 = ''2000''" "dec_of_int 3000 = ''3000''" "dec_of_int 4000 = ''4000''"
  by (simp_all add: dec_of_int_def dec_of_nat.simps digit_chars)

lemmas decs = dec_cells dec_frames dec_frames [unfolded One_nat_def numeral_2_eq_2 numeral_3_eq_3]

lemma cache4_print:
  "printState dec_of_int dec_of_int (cache4 3 [(10, 1000, 1), (20, 2000, 1), (30, 3000, 1)]) = Some (text_lines
     ['''', ''--- Current Cache State ---'', ''[0] K=10 V=1000 Ref=1'', ''[1] K=20 V=2000 Ref=1'',
      ''[2] K=30 V=3000 Ref=1'', ''[3] EMPTY SLOT <-- clock''])"
  "printState dec_of_int dec_of_int (cache4 0 [(10, 1000, 1), (20, 2000, 2), (30, 3000, 1), (40, 4000, 1)]) = Some (text_lines
     ['''', ''--- Current Cache State ---'', ''[0] K=10 V=1000 Ref=1 <-- clock'', ''[1] K=20 V=2000 Ref=2'',
      ''[2] K=30 V=3000 Ref=1'', ''[3] K=40 V=4000 Ref=1''])"
  by (simp_all add: printState_def print_frame_def cache4_def upt_rec text_lines_def nl_def decs)

text \<open>The third key goes into the frame behind the hand; the read raises a reference count.\<close>

theorem lab3_prints:
  "lab3_main = Some (text_lines
     ['''',
      ''--- Current Cache State ---'',
      ''[0] K=10 V=1000 Ref=1'',
      ''[1] K=20 V=2000 Ref=1'',
      ''[2] K=30 V=3000 Ref=1'',
      ''[3] EMPTY SLOT <-- clock'',
      '''',
      ''[Success] Retrieved value: 2000'',
      '''',
      ''--- Current Cache State ---'',
      ''[0] K=10 V=1000 Ref=1 <-- clock'',
      ''[1] K=20 V=2000 Ref=2'',
      ''[2] K=30 V=3000 Ref=1'',
      ''[3] K=40 V=4000 Ref=1''])"
proof -
  let ?c = "cache4 3 [(10, 1000, 1), (20, 2000, 1), (30, 3000, 1)]"
  have n: "cache_new (0::int) (0::int) 4 = Some (cache4 0 [])" by (simp add: cache_new_def cache4_def)
  have p1: "putKey 10 1000 (cache4 0 []) = Some (cache4 1 [(10, 1000, 1)])"
    using cache4_put [of "[]" 0 10 1000] by simp
  have p2: "putKey 20 2000 (cache4 1 [(10, 1000, 1)]) = Some (cache4 2 [(10, 1000, 1), (20, 2000, 1)])"
    using cache4_put [of "[(10, 1000, 1)]" 1 20 2000] by (simp add: numeral_2_eq_2)
  have p3: "putKey 30 3000 (cache4 2 [(10, 1000, 1), (20, 2000, 1)]) = Some ?c"
    using cache4_put [of "[(10, 1000, 1), (20, 2000, 1)]" 2 30 3000] by simp
  have p4: "putKey 40 4000 (cache4 3 [(10, 1000, 1), (20, 2000, 2), (30, 3000, 1)])
      = Some (cache4 0 [(10, 1000, 1), (20, 2000, 2), (30, 3000, 1), (40, 4000, 1)])"
    using cache4_put [of "[(10, 1000, 1), (20, 2000, 2), (30, 3000, 1)]" 3 40 4000] by simp
  have g: "getKey 20 ?c = (Some 2000, cache4 3 [(10, 1000, 1), (20, 2000, 2), (30, 3000, 1)])" by (simp add: getKey_def cache4_def)
  show ?thesis unfolding lab3_main_def n p1 p2 p3 p4 g bind.bind_lunit Let_def prod.case option.case cache4_print decs
    by (simp add: text_lines_def nl_def)
qed

text \<open>Every tree on the way is valid, and the final one lists the keys in order.\<close>

definition demo_keys :: "int list" where
  "demo_keys = [41, 38, 31, 12, 19, 8, 25, 50, 60, 55, 5, 1, 70]"

lemma insert_demo_ok:
  assumes "rb_set t S" "\<forall>k \<in> S \<union> set vs. int_min < k \<and> k < int_max"
  shows "\<exists>t'. insert_demo vs t = Some (concat (map (\<lambda>v. ''Inserted '' @ dec_of_int v @ '' -> valid: yes'' @ nl) vs), t')
    \<and> rb_set t' (S \<union> set vs)"
  using assms
proof (induction vs arbitrary: t S)
  case (Cons v vs)
  obtain t1 where t1: "rb_insert v t = Some t1" "rb_set t1 (insert v S)" using rb_insert_ok [OF Cons.prems(1)] by blast
  then have "isValid t1 = Some True" using rb_set_valid Cons.prems(2) by simp
  then show ?case using Cons.IH [OF t1(2)] Cons.prems(2) t1(1) by (auto simp: yes_no_def)
qed simp

theorem lab5_prints:
  "\<exists>y. lab5_main = Some (concat (map (\<lambda>v. ''Inserted '' @ dec_of_int v @ '' -> valid: yes'' @ nl) demo_keys)
      @ nl @ ''In-order traversal: '' @ in_text y @ nl @ ''Level-order: '' @ level_text [y] @ nl
      @ text_lines [''Search key 25: found'', ''Search key 99: not found'', ''Final validation: passed''])
    \<and> keys y = [1, 5, 8, 12, 19, 25, 31, 38, 41, 50, 55, 60, 70]"
proof -
  have b: "\<forall>k \<in> set demo_keys. int_min < k \<and> k < int_max" by (simp add: demo_keys_def int_min_def int_max_def)
  then obtain t where t: "insert_demo demo_keys rb_new
      = Some (concat (map (\<lambda>v. ''Inserted '' @ dec_of_int v @ '' -> valid: yes'' @ nl) demo_keys), t)" "rb_set t (set demo_keys)"
    using insert_demo_ok [OF rb_set_new, of demo_keys] by auto
  then obtain y where y: "repr t y" "sorted_wrt (<) (keys y)" "set (keys y) = set demo_keys" by (auto simp: rb_set_def)
  obtain t' where d: "destroy (rb_root t) t = Some t'" using destroy_ok [of t None y] y(1) by (auto simp: repr_def)
  have k: "keys y = [1, 5, 8, 12, 19, 25, 31, 38, 41, 50, 55, 60, 70]"
    by (rule strict_sorted_equal [OF _ y(2)]) (auto simp: y(3) demo_keys_def)
  have v: "isValid t = Some True" using rb_set_valid [OF t(2)] b by simp
  have l: "rb_contains 25 t = Some True" "rb_contains 99 t = Some False"
    using rb_set_contains [OF t(2)] by (simp_all add: demo_keys_def)
  have dec: "dec_of_int 25 = ''25''" "dec_of_int 99 = ''99''" by code_simp+
  have "y \<noteq> Lf" using k by auto
  then show ?thesis using t(1) rb_prints [OF y(1)] v l d k
    by (intro exI [of _ y]) (simp add: lab5_main_def demo_keys_def printLookup_def dec yes_no_def text_lines_def nl_def)
qed

text \<open>Three levels with all leaves on the last.\<close>

theorem lab6_prints:
  "lab6_main = Some (text_lines
     [''=== B-Tree structure (one line per node) ==='',
      ''[10]'',
      ''  [6]'',
      ''    [3 5]'',
      ''    [7]'',
      ''  [20]'',
      ''    [12 17]'',
      ''    [25 30 40]'',
      '''',
      ''=== Point lookups ==='',
      ''  Search(6) = ROW_OF_6'',
      ''  Search(17) = ROW_OF_17'',
      ''  Search(40) = ROW_OF_40'',
      ''  Search(99) = <not found>'',
      '''',
      ''=== Ordered scan (inorder traversal) ==='',
      ''  3 5 6 7 10 12 17 20 25 30 40 ''])"
  by code_simp

lemmas lab8_defs = tx_start_def tx_resume_def tx_commit_def tx_abort_def acquire_lock_def lock_round_def release_locks_def
  set_status_def begin_transaction_def holds_lock_def blocking_def ahead_def has_cycle_def visit.simps waits_on_def
  is_visible_def is_committed_def mvcc_insert_def mvcc_read_key_def mvcc_update_def snapshot_of_def push_version_def
  mark_version_def undo_version_def Let_def

text \<open>Between the scenarios no lock is held and nobody waits; the versions of the three keys.\<close>

definition quiet :: "nat \<Rightarrow> xid set \<Rightarrow> row_version list \<Rightarrow> lab8 \<Rightarrow> bool" where
  "quiet n cs bal s \<longleftrightarrow> g_next_xid s = n \<and> (\<forall>k. g_lock_table s k = []) \<and> g_waits_for s = []
     \<and> g_heap s ''balance'' = bal \<and> (\<forall>k. k \<noteq> ''balance'' \<longrightarrow> g_heap s k = [])
     \<and> (\<forall>x \<in> cs. x < n \<and> (\<exists>t. g_transactions s x = Some t \<and> tx_status t = TX_COMMITTED))"

definition out1 :: string where
  "out1 = ''=== Scenario 1: MVCC Snapshot Isolation ==='' @ nl @ status_line ''COMMITTED'' 1
     @ status_line ''COMMITTED'' 3 @ print_val (Some ''1000'') 2 ''balance'' @ status_line ''COMMITTED'' 2"

definition out2 :: string where
  "out2 = nl @ ''=== Scenario 2: Concurrent Shared Locks ==='' @ nl
     @ print_val (Some ''2000'') 4 ''balance'' @ print_val (Some ''2000'') 5 ''balance''
     @ status_line ''COMMITTED'' 4 @ status_line ''COMMITTED'' 5"

definition out3 :: string where
  "out3 = nl @ ''=== Scenario 3: Exclusive Lock + Waiting ==='' @ nl
     @ ''  [TX 7] waiting for shared lock on balance...'' @ nl
     @ status_line ''COMMITTED'' 6 @ print_val (Some ''3000'') 7 ''balance'' @ status_line ''COMMITTED'' 7"

definition out4 :: string where
  "out4 = nl @ ''=== Scenario 4: Deadlock Detection ==='' @ nl
     @ status_line ''COMMITTED'' 8 @ status_line ''COMMITTED'' 9
     @ ''  Deadlock detected, aborting tx 11'' @ nl @ status_line ''ABORTED'' 11 @ status_line ''COMMITTED'' 10"

definition versions :: "row_version list" where
  "versions = [\<lparr>rv_value = ''2000'', xmin = 3, xmax = 0\<rparr>, \<lparr>rv_value = ''1000'', xmin = 1, xmax = 3\<rparr>]"

lemma scenario1_run: "\<exists>s. scenario1 lab8_new = Some (out1, s) \<and> quiet 4 {1, 3} versions s"
  by (simp add: scenario1_def quiet_def lab8_defs lab8_new_def out1_def versions_def numeral_2_eq_2 numeral_3_eq_3)

lemma scenario2_run:
  assumes "quiet 4 {1, 3} versions s"
  shows "\<exists>s'. scenario2 s = Some (out2, s') \<and> quiet 6 {1, 3} versions s'"
  using assms by (auto simp: scenario2_def quiet_def lab8_defs out2_def versions_def)

lemma scenario3_run:
  assumes "quiet 6 {1, 3} versions s"
  shows "\<exists>s' bal. scenario3 s = Some (out3, s') \<and> quiet 8 {} bal s'"
proof -
  have "dec_of_nat 7 = ''7''" by code_simp
  then show ?thesis using assms by (auto simp: scenario3_def quiet_def lab8_defs out3_def versions_def)
qed

lemma scenario4_run:
  assumes "quiet 8 {} bal s"
  shows "\<exists>s'. scenario4 s = Some (out4, s')"
proof -
  have "dec_of_nat 11 = ''11''" by code_simp
  then show ?thesis using assms by (auto simp: scenario4_def quiet_def lab8_defs out4_def)
qed

text \<open>
  The old snapshot reads 1000, shared locks are granted together, the waiting reader sees 3000, and
  of two transactions that want each other's key the one that closes the cycle is aborted.
\<close>

theorem lab8_prints:
  "lab8_main = Some (text_lines
     [''=== Scenario 1: MVCC Snapshot Isolation ==='',
      ''[TX 1] COMMITTED'',
      ''[TX 3] COMMITTED'',
      ''  [TX 2] READ balance = 1000'',
      ''[TX 2] COMMITTED'',
      '''',
      ''=== Scenario 2: Concurrent Shared Locks ==='',
      ''  [TX 4] READ balance = 2000'',
      ''  [TX 5] READ balance = 2000'',
      ''[TX 4] COMMITTED'',
      ''[TX 5] COMMITTED'',
      '''',
      ''=== Scenario 3: Exclusive Lock + Waiting ==='',
      ''  [TX 7] waiting for shared lock on balance...'',
      ''[TX 6] COMMITTED'',
      ''  [TX 7] READ balance = 3000'',
      ''[TX 7] COMMITTED'',
      '''',
      ''=== Scenario 4: Deadlock Detection ==='',
      ''[TX 8] COMMITTED'',
      ''[TX 9] COMMITTED'',
      ''  Deadlock detected, aborting tx 11'',
      ''[TX 11] ABORTED'',
      ''[TX 10] COMMITTED'',
      '''',
      ''All scenarios complete.''])"
proof -
  obtain s1 where s1: "scenario1 lab8_new = Some (out1, s1)" "quiet 4 {1, 3} versions s1" using scenario1_run by blast
  obtain s2 where s2: "scenario2 s1 = Some (out2, s2)" "quiet 6 {1, 3} versions s2" using scenario2_run [OF s1(2)] by blast
  obtain s3 bal where s3: "scenario3 s2 = Some (out3, s3)" "quiet 8 {} bal s3" using scenario3_run [OF s2(2)] by blast
  obtain s4 where s4: "scenario4 s3 = Some (out4, s4)" using scenario4_run [OF s3(2)] by blast
  have "lab8_main = Some (out1 @ out2 @ out3 @ out4 @ nl @ ''All scenarios complete.'' @ nl)"
    by (simp add: lab8_main_def s1(1) s2(1) s3(1) s4)
  also have "out1 @ out2 @ out3 @ out4 @ nl @ ''All scenarios complete.'' @ nl = text_lines
     [''=== Scenario 1: MVCC Snapshot Isolation ==='',
      ''[TX 1] COMMITTED'',
      ''[TX 3] COMMITTED'',
      ''  [TX 2] READ balance = 1000'',
      ''[TX 2] COMMITTED'',
      '''',
      ''=== Scenario 2: Concurrent Shared Locks ==='',
      ''  [TX 4] READ balance = 2000'',
      ''  [TX 5] READ balance = 2000'',
      ''[TX 4] COMMITTED'',
      ''[TX 5] COMMITTED'',
      '''',
      ''=== Scenario 3: Exclusive Lock + Waiting ==='',
      ''  [TX 7] waiting for shared lock on balance...'',
      ''[TX 6] COMMITTED'',
      ''  [TX 7] READ balance = 3000'',
      ''[TX 7] COMMITTED'',
      '''',
      ''=== Scenario 4: Deadlock Detection ==='',
      ''[TX 8] COMMITTED'',
      ''[TX 9] COMMITTED'',
      ''  Deadlock detected, aborting tx 11'',
      ''[TX 11] ABORTED'',
      ''[TX 10] COMMITTED'',
      '''',
      ''All scenarios complete.'']"
    by code_simp
  finally show ?thesis .
qed

end
