(* ===== verification/Lab7_Expr.thy ===== *)
theory Lab7_Expr
  imports Catalog "HOL-Library.Multiset"
begin

text \<open>
  \<open>LAB-7/sql_query_processor.cpp\<close>, part 1: the shunting-yard conversion of a WHERE expression to
  postfix and its evaluation on a stack. The arithmetic of \<open>double\<close> and the value \<open>std::stod\<close> gives to
  the text it accepts are arguments of the model (\<open>double_ops\<close>); which text \<open>std::stod\<close> accepts is
  written out. \<open>stack::top\<close> of an empty stack, undefined in C++, is \<open>MemFault\<close>.

  The specification is a grammar with precedences and associativity (\<open>denotes\<close>); the properties:
  an expression's text has the value of its tree, the parenthesis check is exact, evaluation
  leaves the stack empty exactly for the postfix lists that are not well-formed, and some names
  can never be variables.
\<close>

section \<open>Numbers\<close>

text \<open>
  The operations of \<open>double\<close> the program uses. \<open>d_of\<close> is the value of a text of a number, \<open>None\<close>
  when it is out of range; \<open>d_true\<close> is the conversion to \<open>bool\<close>.
\<close>

record 'd double_ops =
  d_zero :: 'd
  d_one :: 'd
  d_add :: "'d \<Rightarrow> 'd \<Rightarrow> 'd"
  d_sub :: "'d \<Rightarrow> 'd \<Rightarrow> 'd"
  d_mul :: "'d \<Rightarrow> 'd \<Rightarrow> 'd"
  d_div :: "'d \<Rightarrow> 'd \<Rightarrow> 'd"
  d_pow :: "'d \<Rightarrow> 'd \<Rightarrow> 'd"
  d_less :: "'d \<Rightarrow> 'd \<Rightarrow> bool"
  d_le :: "'d \<Rightarrow> 'd \<Rightarrow> bool"
  d_eq :: "'d \<Rightarrow> 'd \<Rightarrow> bool"
  d_true :: "'d \<Rightarrow> bool"
  d_of :: "string \<Rightarrow> 'd option"

text \<open>
  The subject sequence of \<open>strtod\<close>: the longest prefix that is a number, after white space. A
  number is \<open>inf\<close>, \<open>infinity\<close>, \<open>nan\<close>, \<open>nan(...)\<close>, a hexadecimal or a decimal number, with a sign.
\<close>

definition lower :: "char \<Rightarrow> char" where
  "lower c = (if 65 \<le> (of_char c :: nat) \<and> (of_char c :: nat) \<le> 90 then char_of ((of_char c :: nat) + 32) else c)"

definition is_hex :: "char \<Rightarrow> bool" where
  "is_hex c \<longleftrightarrow> is_digit c \<or> lower c \<in> set ''abcdef''"

definition is_word :: "char \<Rightarrow> bool" where
  "is_word c \<longleftrightarrow> is_alpha c \<or> is_digit c \<or> c = CHR ''_''"

text \<open>Digits with at most one point among or around them.\<close>

definition mantissa :: "(char \<Rightarrow> bool) \<Rightarrow> string \<Rightarrow> string option" where
  "mantissa dig s =
     (let a = takeWhile dig s; r = dropWhile dig s
      in case r of
           [] \<Rightarrow> if a = [] then None else Some a
         | c # r' \<Rightarrow> if c = CHR ''.'' \<and> (a \<noteq> [] \<or> takeWhile dig r' \<noteq> []) then Some (a @ c # takeWhile dig r')
             else if a = [] then None else Some a)"

definition exponent :: "char \<Rightarrow> string \<Rightarrow> string" where
  "exponent mark s = (case s of
     [] \<Rightarrow> []
   | c # r \<Rightarrow>
       if lower c = mark
       then let sign = (case r of [] \<Rightarrow> [] | d # _ \<Rightarrow> if d \<in> set ''+-'' then [d] else []);
                ds = takeWhile is_digit (drop (length sign) r)
            in if ds = [] then [] else c # sign @ ds
       else [])"

definition number_prefix :: "string \<Rightarrow> string option" where
  "number_prefix s =
     (if map lower (take 8 s) = ''infinity'' then Some (take 8 s)
      else if map lower (take 3 s) = ''inf'' then Some (take 3 s)
      else if map lower (take 3 s) = ''nan'' then
        (let r = drop 3 s; w = takeWhile is_word (tl r)
         in if r \<noteq> [] \<and> hd r = CHR ''('' \<and> drop (length w) (tl r) \<noteq> [] \<and> hd (drop (length w) (tl r)) = CHR '')''
            then Some (take 3 s @ ''('' @ w @ '')'') else Some (take 3 s))
      else if map lower (take 2 s) = ''0x'' \<and> mantissa is_hex (drop 2 s) \<noteq> None then
        (let m = take 2 s @ the (mantissa is_hex (drop 2 s)) in Some (m @ exponent (CHR ''p'') (drop (length m) s)))
      else map_option (\<lambda>m. m @ exponent (CHR ''e'') (drop (length m) s)) (mantissa is_digit s))"

definition subject_sequence :: "string \<Rightarrow> string option" where
  "subject_sequence s =
     (case dropWhile is_space s of
        [] \<Rightarrow> None
      | c # r \<Rightarrow> if c \<in> set ''+-'' then map_option (\<lambda>n. c # n) (number_prefix r) else number_prefix (c # r))"

text \<open>\<open>std::stod\<close>: \<open>None\<close> when it throws. It ignores what follows the number.\<close>

definition stod :: "'d double_ops \<Rightarrow> string \<Rightarrow> 'd option" where
  "stod D s = Option.bind (subject_sequence s) (d_of D)"

section \<open>Shunting-yard\<close>

text \<open>\<open>OPS\<close>: precedence and right associativity.\<close>

definition OPS :: "string \<Rightarrow> (nat \<times> bool) option" where
  "OPS = map_of [
     (''||'', (1, False)), (''&&'', (2, False)), (''='', (3, False)), (''!='', (3, False)),
     (''<'', (4, False)), (''>'', (4, False)), (''<='', (4, False)), (''>='', (4, False)),
     (''+'', (5, False)), (''-'', (5, False)), (''*'', (6, False)), (''/'', (6, False)), (''^'', (7, True))]"

definition in_number :: "char \<Rightarrow> bool" where
  "in_number c \<longleftrightarrow> is_digit c \<or> c = CHR ''.''"

text \<open>\<open>tokenize\<close>; the index \<open>i\<close> is the rest of the text that is still unread.\<close>

function tokenize :: "string \<Rightarrow> string list" where
  "tokenize [] = []"
| "tokenize (c # cs) =
     (if is_space c then tokenize cs
      else if is_digit c \<or> c = CHR ''.'' \<and> cs \<noteq> [] \<and> is_digit (hd cs)
      then (c # takeWhile in_number cs) # tokenize (dropWhile in_number cs)
      else if is_alpha c \<or> c = CHR ''_''
      then (c # takeWhile is_word cs) # tokenize (dropWhile is_word cs)
      else if c = CHR ''('' \<or> c = CHR '')'' then [c] # tokenize cs
      else if cs \<noteq> [] \<and> OPS [c, hd cs] \<noteq> None then [c, hd cs] # tokenize (tl cs)
      else [c] # tokenize cs)"
  by pat_completeness auto
termination
  by (relation "measure length") (auto simp: less_Suc_eq_le length_dropWhile_le)

declare tokenize.simps(2) [simp del]

text \<open>The loops of \<open>to_rpn\<close> that move operators to the output: up to a parenthesis, and while they
  bind at least as tightly as \<open>o1\<close>. Each returns what it moved and the rest of the stack.\<close>

fun until_paren :: "string list \<Rightarrow> string list \<times> string list" where
  "until_paren [] = ([], [])"
| "until_paren (s # ops) = (if s \<noteq> ''('' then let (out, rest) = until_paren ops in (s # out, rest) else ([], s # ops))"

fun pop_higher :: "nat \<times> bool \<Rightarrow> string list \<Rightarrow> string list \<times> string list" where
  "pop_higher o1 [] = ([], [])"
| "pop_higher o1 (s # ops) = (case OPS s of
     None \<Rightarrow> ([], s # ops)
   | Some o2 \<Rightarrow>
       if fst o2 > fst o1 \<or> fst o2 = fst o1 \<and> \<not> snd o1
       then let (out, rest) = pop_higher o1 ops in (s # out, rest) else ([], s # ops))"

definition mismatched :: db_error where
  "mismatched = RuntimeError ''Mismatched parentheses''"

text \<open>One token: output and operator stack.\<close>

definition rpn_step :: "string \<Rightarrow> string list \<times> string list \<Rightarrow> db_error + string list \<times> string list" where
  "rpn_step tok = (\<lambda>(output, ops).
     if tok = ''('' then Inr (output, tok # ops)
     else if tok = '')'' then
       (let (out, rest) = until_paren ops in if rest = [] then Inl mismatched else Inr (output @ out, tl rest))
     else case OPS tok of
       Some o1 \<Rightarrow> let (out, rest) = pop_higher o1 ops in Inr (output @ out, tok # rest)
     | None \<Rightarrow> Inr (output @ [tok], ops))"

fun rpn_loop :: "string list \<Rightarrow> string list \<times> string list \<Rightarrow> db_error + string list \<times> string list" where
  "rpn_loop [] st = Inr st"
| "rpn_loop (tok # ts) st = bindE (rpn_step tok st) (rpn_loop ts)"

text \<open>The final loop.\<close>

fun flush_ops :: "string list \<Rightarrow> string list \<Rightarrow> db_error + string list" where
  "flush_ops output [] = Inr output"
| "flush_ops output (s # ops) = (if s = ''('' then Inl mismatched else flush_ops (output @ [s]) ops)"

definition to_rpn :: "string list \<Rightarrow> db_error + string list" where
  "to_rpn ts = bindE (rpn_loop ts ([], [])) (\<lambda>(output, ops). flush_ops output ops)"

section \<open>Evaluation\<close>

definition of_bool :: "'d double_ops \<Rightarrow> bool \<Rightarrow> 'd" where
  "of_bool D b = (if b then d_one D else d_zero D)"

text \<open>The chain of \<open>if\<close>s over the operators.\<close>

definition apply_op :: "'d double_ops \<Rightarrow> string \<Rightarrow> 'd \<Rightarrow> 'd \<Rightarrow> 'd" where
  "apply_op D tok a b =
     (if tok = ''+'' then d_add D a b
      else if tok = ''-'' then d_sub D a b
      else if tok = ''*'' then d_mul D a b
      else if tok = ''/'' then d_div D a b
      else if tok = ''^'' then d_pow D a b
      else if tok = ''<'' then of_bool D (d_less D a b)
      else if tok = ''>'' then of_bool D (d_less D b a)
      else if tok = ''<='' then of_bool D (d_le D a b)
      else if tok = ''>='' then of_bool D (d_le D b a)
      else if tok = ''='' then of_bool D (d_eq D a b)
      else if tok = ''!='' then of_bool D (\<not> d_eq D a b)
      else if tok = ''&&'' then of_bool D (d_true D a \<and> d_true D b)
      else of_bool D (d_true D a \<or> d_true D b))"

definition operand :: "'d double_ops \<Rightarrow> (string \<Rightarrow> 'd option) \<Rightarrow> string \<Rightarrow> db_error + 'd" where
  "operand D vars tok = (case stod D tok of
     Some d \<Rightarrow> Inr d
   | None \<Rightarrow> (case vars tok of
       None \<Rightarrow> Inl (RuntimeError (''Unknown variable: '' @ tok))
     | Some d \<Rightarrow> Inr d))"

fun eval_loop :: "'d double_ops \<Rightarrow> (string \<Rightarrow> 'd option) \<Rightarrow> string list \<Rightarrow> 'd list \<Rightarrow> db_error + 'd list" where
  "eval_loop D vars [] stk = Inr stk"
| "eval_loop D vars (tok # rpn) stk =
     (if OPS tok \<noteq> None
      then (case stk of
          b # a # stk' \<Rightarrow> eval_loop D vars rpn (apply_op D tok a b # stk')
        | _ \<Rightarrow> Inl MemFault)
      else bindE (operand D vars tok) (\<lambda>d. eval_loop D vars rpn (d # stk)))"

definition eval_rpn :: "'d double_ops \<Rightarrow> (string \<Rightarrow> 'd option) \<Rightarrow> string list \<Rightarrow> db_error + 'd" where
  "eval_rpn D vars rpn = bindE (eval_loop D vars rpn []) (\<lambda>stk. case stk of [] \<Rightarrow> Inl MemFault | d # _ \<Rightarrow> Inr d)"

section \<open>The shunting-yard algorithm against a grammar\<close>

datatype expr = Opnd string | Bin string expr expr

fun postfix :: "expr \<Rightarrow> string list" where
  "postfix (Opnd t) = [t]"
| "postfix (Bin op a b) = postfix a @ postfix b @ [op]"

fun expr_value :: "'d double_ops \<Rightarrow> (string \<Rightarrow> 'd option) \<Rightarrow> expr \<Rightarrow> db_error + 'd" where
  "expr_value D vars (Opnd t) = operand D vars t"
| "expr_value D vars (Bin op a b) =
     bindE (expr_value D vars a) (\<lambda>x. bindE (expr_value D vars b) (\<lambda>y. Inr (apply_op D op x y)))"

text \<open>
  The tokens \<open>ts\<close> denote the expression \<open>e\<close> at level \<open>p\<close>: outside parentheses its operators have
  precedence \<open>p\<close> or more. An operator's operands are one level up, but for the side it associates to.
\<close>

inductive denotes :: "nat \<Rightarrow> string list \<Rightarrow> expr \<Rightarrow> bool" where
  opnd: "OPS t = None \<Longrightarrow> t \<noteq> ''('' \<Longrightarrow> t \<noteq> '')'' \<Longrightarrow> denotes p [t] (Opnd t)"
| paren: "denotes 0 ts e \<Longrightarrow> denotes p (''('' # ts @ ['')'']) e"
| bin: "OPS op = Some (q, ra) \<Longrightarrow> p \<le> q \<Longrightarrow> denotes (if ra then Suc q else q) ts a \<Longrightarrow> denotes (if ra then q else Suc q) us b
    \<Longrightarrow> denotes p (ts @ op # us) (Bin op a b)"

lemma OPS_cases:
  assumes "OPS op = Some (q, ra)"
  shows "op \<noteq> ''(''" "op \<noteq> '')''" "ra \<longleftrightarrow> q = 7" "0 < q"
  using assms by (auto simp: OPS_def split: if_splits)

lemma OPS_paren [simp]: "OPS ''('' = None" "OPS '')'' = None"
  by (simp_all add: OPS_def)

text \<open>The operators of a stack above level \<open>p\<close>, and a stack an expression of level \<open>p\<close> leaves alone.\<close>

definition at_least :: "nat \<Rightarrow> string list \<Rightarrow> bool" where
  "at_least p ops \<longleftrightarrow> (\<forall>s \<in> set ops. \<exists>q ra. OPS s = Some (q, ra) \<and> p \<le> q)"

definition below :: "nat \<Rightarrow> string list \<Rightarrow> bool" where
  "below p ops \<longleftrightarrow> (case ops of [] \<Rightarrow> True | s # _ \<Rightarrow> (case OPS s of None \<Rightarrow> True | Some (q, ra) \<Rightarrow> q < p \<or> q = p \<and> ra))"

lemma until_paren_ops: "at_least p s \<Longrightarrow> until_paren (s @ ''('' # ops) = (s, ''('' # ops)"
  by (induction s) (auto simp: at_least_def)

lemma pop_higher_below:
  assumes "below p ops" "p \<le> q" "ra \<longleftrightarrow> q = 7"
  shows "pop_higher (q, ra) ops = ([], ops)"
  using assms OPS_cases by (cases ops) (fastforce simp: below_def split: option.splits prod.splits)+

lemma pop_higher_all:
  assumes "at_least (if ra then Suc q else q) s" "pop_higher (q, ra) ops = ([], ops)"
  shows "pop_higher (q, ra) (s @ ops) = (s, ops)"
  using assms(1)
proof (induction s)
  case (Cons op s)
  then obtain q' ra' where "OPS op = Some (q', ra')" "(if ra then Suc q else q) \<le> q'" by (auto simp: at_least_def)
  then show ?case using Cons by (auto simp: at_least_def split: if_splits)
qed (use assms(2) in simp)

lemma rpn_loop_append: "rpn_loop (ts @ us) st = bindE (rpn_loop ts st) (rpn_loop us)"
proof (induction ts arbitrary: st)
  case (Cons t ts)
  then show ?case by (cases "rpn_step t st") auto
qed simp

lemma rpn_loop_denotes:
  assumes "denotes p ts e" "below p ops"
  shows "\<exists>o' s. rpn_loop ts (out, ops) = Inr (out @ o', s @ ops) \<and> postfix e = o' @ s \<and> at_least p s"
  using assms
proof (induction p ts e arbitrary: out ops rule: denotes.induct)
  case (opnd t p)
  then show ?case by (intro exI [of _ "[t]"] exI [of _ "[]"]) (simp add: rpn_step_def at_least_def)
next
  case (paren ts e p)
  have "below 0 (''('' # ops)" by (simp add: below_def)
  from paren.IH [OF this, of out] obtain o' s where
      o': "rpn_loop ts (out, ''('' # ops) = Inr (out @ o', s @ ''('' # ops)" "postfix e = o' @ s" "at_least 0 s" by auto
  have "rpn_loop (''('' # ts @ ['')'']) (out, ops) = Inr (out @ postfix e, ops)"
    using o' until_paren_ops [OF o'(3)] by (simp add: rpn_step_def rpn_loop_append)
  then show ?case by (intro exI [of _ "postfix e"] exI [of _ "[]"]) (simp add: at_least_def)
next
  case (bin op q ra p ts a us b)
  note op = OPS_cases [OF bin.hyps(1)]
  have pop: "pop_higher (q, ra) ops = ([], ops)" using pop_higher_below bin.prems bin.hyps(2) op(3) by blast
  then have "below (if ra then Suc q else q) ops"
    using bin.prems bin.hyps(2) op(3) by (auto simp: below_def split: list.splits option.splits)
  from bin.IH(1) [OF this, of out] obtain o1 s1 where
      l: "rpn_loop ts (out, ops) = Inr (out @ o1, s1 @ ops)" "postfix a = o1 @ s1" "at_least (if ra then Suc q else q) s1" by blast
  have "below (if ra then q else Suc q) (op # ops)" using bin.hyps(1) by (simp add: below_def)
  from bin.IH(2) [OF this, of "out @ o1 @ s1"] obtain o2 s2 where
      r: "rpn_loop us (out @ o1 @ s1, op # ops) = Inr ((out @ o1 @ s1) @ o2, s2 @ op # ops)" "postfix b = o2 @ s2"
        "at_least (if ra then q else Suc q) s2" by blast
  have "rpn_loop (ts @ op # us) (out, ops) = Inr (out @ o1 @ s1 @ o2, (s2 @ [op]) @ ops)"
    using l(1) r(1) op pop_higher_all [OF l(3) pop] bin.hyps(1) by (simp add: rpn_loop_append rpn_step_def)
  moreover have "at_least p (s2 @ [op])"
    using r(3) bin.hyps(1,2) by (fastforce simp: at_least_def split: if_splits)
  ultimately show ?case using l(2) r(2) by (intro exI [of _ "o1 @ s1 @ o2"] exI [of _ "s2 @ [op]"]) simp
qed

lemma flush_ops_ok: "at_least p s \<Longrightarrow> flush_ops out s = Inr (out @ s)"
  by (induction s arbitrary: out) (auto simp: at_least_def)

lemma to_rpn_denotes:
  assumes "denotes 0 ts e"
  shows "to_rpn ts = Inr (postfix e)"
proof -
  obtain o' s where "rpn_loop ts ([], []) = Inr (o', s)" "postfix e = o' @ s" "at_least 0 s"
    using rpn_loop_denotes [OF assms, of "[]" "[]"] by (auto simp: below_def)
  then show ?thesis by (simp add: to_rpn_def flush_ops_ok)
qed

text \<open>Expressions whose operators are those of \<open>OPS\<close> and whose operands are not.\<close>

fun wf_expr :: "expr \<Rightarrow> bool" where
  "wf_expr (Opnd t) \<longleftrightarrow> OPS t = None"
| "wf_expr (Bin op a b) \<longleftrightarrow> OPS op \<noteq> None \<and> wf_expr a \<and> wf_expr b"

lemma denotes_wf: "denotes p ts e \<Longrightarrow> wf_expr e"
  by (induction rule: denotes.induct) auto

lemma eval_loop_postfix:
  "wf_expr e \<Longrightarrow> eval_loop D vars (postfix e @ rpn) stk = bindE (expr_value D vars e) (\<lambda>d. eval_loop D vars rpn (d # stk))"
proof (induction e arbitrary: rpn stk)
  case (Bin op a b)
  then show ?case by (cases "expr_value D vars a"; cases "expr_value D vars b") auto
qed auto

lemma eval_rpn_postfix: "wf_expr e \<Longrightarrow> eval_rpn D vars (postfix e) = expr_value D vars e"
  using eval_loop_postfix [of e D vars "[]" "[]"] by (cases "expr_value D vars e") (auto simp: eval_rpn_def)

text \<open>Every expression has a text: parentheses where the level asks for them.\<close>

fun show_expr :: "nat \<Rightarrow> expr \<Rightarrow> string list" where
  "show_expr p (Opnd t) = [t]"
| "show_expr p (Bin op a b) =
     (let (q, ra) = (case OPS op of None \<Rightarrow> (0, False) | Some o1 \<Rightarrow> o1);
          ts = show_expr (if ra then Suc q else q) a @ op # show_expr (if ra then q else Suc q) b
      in if p \<le> q then ts else ''('' # ts @ ['')''])"

fun operands :: "expr \<Rightarrow> string list" where
  "operands (Opnd t) = [t]"
| "operands (Bin op a b) = operands a @ operands b"

lemma denotes_show:
  "wf_expr e \<Longrightarrow> ''('' \<notin> set (operands e) \<Longrightarrow> '')'' \<notin> set (operands e) \<Longrightarrow> denotes p (show_expr p e) e"
proof (induction e arbitrary: p)
  case (Opnd t)
  then show ?case by (auto intro: denotes.opnd)
next
  case (Bin op a b)
  obtain q ra where op: "OPS op = Some (q, ra)" using Bin.prems(1) by auto
  have "denotes r (show_expr (if ra then Suc q else q) a @ op # show_expr (if ra then q else Suc q) b) (Bin op a b)" if "r \<le> q" for r
    using Bin op that by (intro denotes.bin [OF op]) simp_all
  from this [of p] denotes.paren [OF this [of 0], of p] show ?case using op by (cases ra) (simp_all add: Let_def)
qed

section \<open>Tokens from text\<close>

text \<open>Tokens that white space separates.\<close>

definition lexable :: "string \<Rightarrow> bool" where
  "lexable t \<longleftrightarrow> (case t of
     [] \<Rightarrow> False
   | c # cs \<Rightarrow>
       (is_digit c \<or> c = CHR ''.'' \<and> cs \<noteq> [] \<and> is_digit (hd cs)) \<and> list_all in_number cs
       \<or> (is_alpha c \<or> c = CHR ''_'') \<and> list_all is_word cs
       \<or> t = ''('' \<or> t = '')'' \<or> OPS t \<noteq> None)"

definition spaced :: "string list \<Rightarrow> string" where
  "spaced ts = concat (map (\<lambda>t. t @ '' '') ts)"

lemma space_class: "is_space CHR '' ''" "\<not> in_number CHR '' ''" "\<not> is_word CHR '' ''"
  by code_simp+

lemma takeWhile_space:
  assumes "list_all P cs" "\<not> P CHR '' ''"
  shows "takeWhile P (cs @ '' '' @ s) = cs" "dropWhile P (cs @ '' '' @ s) = '' '' @ s"
  using assms by (induction cs) auto

lemma digit_code: "is_digit c \<Longrightarrow> \<not> is_space c \<and> \<not> is_alpha c \<and> c \<noteq> CHR ''_'' \<and> c \<noteq> CHR ''.''"
  by (auto simp: is_digit_def is_space_def is_alpha_def)

lemma alpha_code: "is_alpha c \<Longrightarrow> \<not> is_space c \<and> \<not> is_digit c \<and> c \<noteq> CHR ''.''"
  by (auto simp: is_digit_def is_space_def is_alpha_def)

lemma OPS_code:
  assumes "OPS t = Some v"
  shows "tokenize (t @ '' '' @ s) = t # tokenize s"
proof -
  have "t \<in> set [''||'', ''&&'', ''='', ''!='', ''<'', ''>'', ''<='', ''>='', ''+'', ''-'', ''*'', ''/'', ''^'']"
    using assms by (auto simp: OPS_def split: if_splits)
  moreover have "tokenize ('' '' @ s) = tokenize s" by (simp add: tokenize.simps(2) space_class)
  ultimately show ?thesis
    by (auto simp: tokenize.simps(2) is_digit_def is_space_def is_alpha_def OPS_def)
qed

lemma tokenize_lexable:
  assumes "lexable t"
  shows "tokenize (t @ '' '' @ s) = t # tokenize s"
proof -
  obtain c cs where t: "t = c # cs" using assms by (cases t) (auto simp: lexable_def)
  have sp: "tokenize ('' '' @ s) = tokenize s" by (simp add: tokenize.simps(2) space_class)
  from assms consider (num) "is_digit c \<or> c = CHR ''.'' \<and> cs \<noteq> [] \<and> is_digit (hd cs)" "list_all in_number cs"
    | (name) "is_alpha c \<or> c = CHR ''_''" "list_all is_word cs" | (par) "t = ''('' \<or> t = '')''" | (op) "OPS t \<noteq> None"
    by (auto simp: lexable_def t)
  then show ?thesis
  proof cases
    case num
    note tw = takeWhile_space [OF num(2) space_class(2), of s]
    have "is_digit c \<or> c = CHR ''.'' \<and> cs @ '' '' @ s \<noteq> [] \<and> is_digit (hd (cs @ '' '' @ s))" using num(1) by (auto simp: hd_append)
    moreover have "\<not> is_space c" using num(1) digit_code by (auto simp: is_space_def)
    ultimately show ?thesis using tw sp unfolding t by (simp add: tokenize.simps(2) [of c])
  next
    case name
    note tw = takeWhile_space [OF name(2) space_class(3), of s]
    have "\<not> is_space c" "\<not> is_digit c" "c \<noteq> CHR ''.''" using name(1) alpha_code by (auto simp: is_space_def is_digit_def)
    then show ?thesis using name(1) tw sp unfolding t by (simp add: tokenize.simps(2) [of c])
  next
    case par
    then show ?thesis using sp by (auto simp: tokenize.simps(2) is_space_def is_digit_def is_alpha_def)
  next
    case op
    then show ?thesis using OPS_code by auto
  qed
qed

lemma tokenize_spaced: "list_all lexable ts \<Longrightarrow> tokenize (spaced ts) = ts"
  by (induction ts) (use tokenize_lexable in \<open>auto simp: spaced_def\<close>)

section \<open>Parentheses\<close>

fun balanced :: "nat \<Rightarrow> string list \<Rightarrow> bool" where
  "balanced n [] \<longleftrightarrow> n = 0"
| "balanced n (t # ts) \<longleftrightarrow>
     (if t = ''('' then balanced (Suc n) ts
      else if t = '')'' then 0 < n \<and> balanced (n - 1) ts
      else balanced n ts)"

definition no_paren :: "string \<Rightarrow> bool" where
  "no_paren t \<longleftrightarrow> t \<noteq> ''('' \<and> t \<noteq> '')''"

lemma until_paren_count:
  assumes "until_paren ops = (out, rest)"
  shows "ops = out @ rest \<and> ''('' \<notin> set out \<and> (rest = [] \<or> hd rest = ''('')"
  using assms by (induction ops arbitrary: out) (auto split: prod.splits if_splits)

lemma pop_higher_count:
  assumes "pop_higher o1 ops = (out, rest)"
  shows "ops = out @ rest \<and> ''('' \<notin> set out"
  using assms by (induction ops arbitrary: out) (auto split: prod.splits if_splits option.splits)

text \<open>Output and stack hold the tokens read so far; the open parentheses are those of the stack.\<close>

lemma rpn_step_count:
  assumes "'')'' \<notin> set ops"
  shows "case rpn_step tok (out, ops) of
      Inl e \<Rightarrow> e = mismatched \<and> tok = '')'' \<and> ''('' \<notin> set ops
    | Inr (out', ops') \<Rightarrow> (tok = '')'' \<longrightarrow> ''('' \<in> set ops) \<and> '')'' \<notin> set ops'
        \<and> mset out' + mset (filter no_paren ops') = mset out + mset (filter no_paren (tok # ops))
        \<and> count_list ops' ''('' = (if tok = ''('' then Suc (count_list ops ''('') else if tok = '')'' then count_list ops ''('' - 1
            else count_list ops ''('')"
proof -
  have np: "mset (filter no_paren xs) = mset xs" if "''('' \<notin> set xs" "'')'' \<notin> set xs" for xs
    using that by (induction xs) (auto simp: no_paren_def)
  consider "tok = ''(''" | "tok = '')''" | "tok \<noteq> ''(''" "tok \<noteq> '')''" "OPS tok = None" | o1 where "tok \<noteq> ''(''" "tok \<noteq> '')''" "OPS tok = Some o1"
    by blast
  then show ?thesis
  proof cases
    case 2
    obtain o2 rest where u: "until_paren ops = (o2, rest)" by fastforce
    note c = until_paren_count [OF u]
    show ?thesis
    proof (cases rest)
      case Nil
      then show ?thesis using 2 u c by (auto simp: rpn_step_def)
    next
      case (Cons p rest')
      then show ?thesis using 2 u c assms np [of o2] by (auto simp: rpn_step_def no_paren_def)
    qed
  next
    case 4
    obtain o2 rest where u: "pop_higher o1 ops = (o2, rest)" by fastforce
    note c = pop_higher_count [OF u]
    show ?thesis using 4 u c assms np [of o2] by (auto simp: rpn_step_def no_paren_def)
  qed (use assms in \<open>auto simp: rpn_step_def no_paren_def\<close>)
qed

lemma rpn_loop_count:
  assumes "'')'' \<notin> set ops"
  shows "case rpn_loop ts (out, ops) of
      Inl e \<Rightarrow> e = mismatched \<and> \<not> balanced (count_list ops ''('') ts
    | Inr (out', ops') \<Rightarrow> (balanced (count_list ops ''('') ts \<longleftrightarrow> ''('' \<notin> set ops') \<and> '')'' \<notin> set ops'
        \<and> mset out' + mset (filter no_paren ops') = mset out + mset (filter no_paren (ts @ ops))"
  using assms
proof (induction ts arbitrary: out ops)
  case Nil
  then show ?case by (simp add: count_list_0_iff)
next
  case (Cons t ts)
  note st = rpn_step_count [OF Cons.prems, of t out]
  show ?case
  proof (cases "rpn_step t (out, ops)")
    case (Inl e)
    then show ?thesis using st by (auto simp: count_list_0_iff)
  next
    case (Inr st')
    obtain out1 ops1 where s1: "st' = (out1, ops1)" by (cases st')
    have ops1: "'')'' \<notin> set ops1" using st Inr s1 by simp
    have b: "balanced (count_list ops ''('') (t # ts) \<longleftrightarrow> balanced (count_list ops1 ''('') ts"
      using st Inr s1 count_list_0_iff [of ops "''(''"] by auto
    have m: "mset out + mset (filter no_paren ((t # ts) @ ops)) = mset out1 + mset (filter no_paren (ts @ ops1))"
      using st Inr s1 by auto
    show ?thesis unfolding b m using Cons.IH [OF ops1, of out1] Inr s1 by simp
  qed
qed

lemma flush_ops_count:
  "flush_ops out ops = (if ''('' \<in> set ops then Inl mismatched else Inr (out @ ops))"
  by (induction ops arbitrary: out) auto

lemma to_rpn_balanced:
  "if balanced 0 ts then \<exists>out. to_rpn ts = Inr out \<and> mset out = mset (filter no_paren ts) else to_rpn ts = Inl mismatched"
proof (cases "rpn_loop ts ([], [])")
  case (Inl e)
  then show ?thesis using rpn_loop_count [of "[]" ts "[]"] by (simp add: to_rpn_def)
next
  case (Inr st)
  obtain out ops where "st = (out, ops)" by (cases st)
  moreover have "filter_mset no_paren (mset ops) = mset ops" if "''('' \<notin> set ops" "'')'' \<notin> set ops"
    using that by (induction ops) (auto simp: no_paren_def)
  ultimately show ?thesis using Inr rpn_loop_count [of "[]" ts "[]"] by (auto simp: to_rpn_def flush_ops_count)
qed

section \<open>The evaluation stack\<close>

fun stack_ok :: "nat \<Rightarrow> string list \<Rightarrow> bool" where
  "stack_ok n [] \<longleftrightarrow> 0 < n"
| "stack_ok n (t # ts) \<longleftrightarrow> (if OPS t \<noteq> None then 2 \<le> n \<and> stack_ok (n - 1) ts else stack_ok (Suc n) ts)"

lemma eval_loop_stack:
  assumes "\<forall>t \<in> set rpn. OPS t = None \<longrightarrow> (\<exists>d. operand D vars t = Inr d)"
  shows "if stack_ok (length stk) rpn then \<exists>d stk'. eval_loop D vars rpn stk = Inr (d # stk')
    else eval_loop D vars rpn stk = Inl MemFault \<or> eval_loop D vars rpn stk = Inr []"
  using assms
proof (induction rpn arbitrary: stk)
  case Nil
  then show ?case by (cases stk) auto
next
  case (Cons t rpn)
  show ?case
  proof (cases "OPS t = None")
    case True
    then obtain d where "operand D vars t = Inr d" using Cons.prems by auto
    then show ?thesis using True Cons.IH [of "d # stk"] Cons.prems by auto
  next
    case False
    then obtain o1 where o1: "OPS t = Some o1" by auto
    show ?thesis
    proof (cases "\<exists>b a stk'. stk = b # a # stk'")
      case True
      then obtain b a stk' where "stk = b # a # stk'" by blast
      then show ?thesis using o1 Cons.IH [of "apply_op D t a b # stk'"] Cons.prems by auto
    next
      case False
      then have "stk = [] \<or> (\<exists>b. stk = [b])" by (metis neq_Nil_conv)
      then show ?thesis using o1 by auto
    qed
  qed
qed

lemma number_prefix_named:
  assumes "map lower (take 3 s) \<in> {''inf'', ''nan''}"
  shows "\<exists>p. number_prefix s = Some p \<and> map lower (take 3 p) = map lower (take 3 s)"
proof -
  have "length (map lower (take 3 s)) = 3" using assms by (elim insertE) (simp_all only: list.size, simp_all)
  then have "length s \<ge> 3" by simp
  then have t: "take 3 (take 3 s @ u) = take 3 s" "take 3 (take 8 s) = take 3 s" for u by (simp_all add: min_def)
  have "number_prefix s = Some (take 8 s) \<or> number_prefix s = Some (take 3 s) \<or> (\<exists>u. number_prefix s = Some (take 3 s @ u))"
    using assms by (auto simp: number_prefix_def Let_def)
  then show ?thesis using t by auto
qed

section \<open>Properties\<close>

text \<open>The WHERE pipeline of the program: text, tokens, postfix, value.\<close>

definition eval_text :: "'d double_ops \<Rightarrow> (string \<Rightarrow> 'd option) \<Rightarrow> string \<Rightarrow> db_error + 'd" where
  "eval_text D vars s = bindE (to_rpn (tokenize s)) (eval_rpn D vars)"

text \<open>
  C29. Tokens that denote an expression under the precedences of \<open>OPS\<close>, with \<open>^\<close> to the right and
  the other operators to the left, with any further parentheses, have from text to result the
  value of the expression's tree, or its first unknown variable; the stack never runs empty.
\<close>

theorem where_text_value:
  assumes "denotes 0 ts e" "list_all lexable ts"
  shows "to_rpn (tokenize (spaced ts)) = Inr (postfix e) \<and> eval_text D vars (spaced ts) = expr_value D vars e"
  using assms denotes_wf [OF assms(1)] by (simp add: eval_text_def tokenize_spaced to_rpn_denotes eval_rpn_postfix)

definition int_ops :: "int double_ops" where
  "int_ops = \<lparr>d_zero = 0, d_one = 1, d_add = (+), d_sub = (-), d_mul = (*), d_div = (div), d_pow = (\<lambda>a b. a ^ nat b),
     d_less = (<), d_le = (\<le>), d_eq = (=), d_true = (\<lambda>a. a \<noteq> 0), d_of = (\<lambda>s. if list_all is_digit s then Some (int (nat_of_dec s)) else None)\<rparr>"

lemma int_ops_simps [simp]:
  "d_zero int_ops = 0" "d_one int_ops = 1" "d_less int_ops = (<)" "d_true int_ops a \<longleftrightarrow> a \<noteq> 0"
  by (simp_all add: int_ops_def)

theorem where_text_value_witness:
  "eval_text int_ops [''age'' \<mapsto> 30, ''salary'' \<mapsto> 50000] ''age * 2 + salary / 1000 > 100 '' = Inr 1"
proof -
  let ?e = "Bin ''>'' (Bin ''+'' (Bin ''*'' (Opnd ''age'') (Opnd ''2'')) (Bin ''/'' (Opnd ''salary'') (Opnd ''1000''))) (Opnd ''100'')"
  let ?ts = "show_expr 0 ?e"
  have "wf_expr ?e" "''('' \<notin> set (operands ?e)" "'')'' \<notin> set (operands ?e)" by code_simp+
  then have d: "denotes 0 ?ts ?e" by (rule denotes_show)
  have l: "list_all lexable ?ts" by code_simp
  have s: "spaced ?ts = ''age * 2 + salary / 1000 > 100 ''" by code_simp
  have "expr_value int_ops [''age'' \<mapsto> 30, ''salary'' \<mapsto> 50000] ?e = Inr 1" by code_simp
  then show ?thesis using where_text_value [OF d l, of int_ops "[''age'' \<mapsto> 30, ''salary'' \<mapsto> 50000]"] s by simp
qed

text \<open>
  The conversion fails exactly on tokens with unbalanced parentheses, with the error for
  mismatched parentheses, and otherwise returns the tokens that are no parentheses in another
  order.
\<close>

theorem to_rpn_errors_exact:
  "if balanced 0 ts then \<exists>out. to_rpn ts = Inr out \<and> mset out = mset (filter no_paren ts)
   else to_rpn ts = Inl (RuntimeError ''Mismatched parentheses'')"
  using to_rpn_balanced [of ts] unfolding mismatched_def .

text \<open>
  Whether the postfix list fits the stack is not checked: when all its operands have values,
  evaluation returns a value if every operator finds two values and one value is left, and reads
  the top of an empty stack otherwise, as for an operator without a second operand.
\<close>

theorem eval_rpn_underflow:
  assumes "\<forall>t \<in> set rpn. OPS t = None \<longrightarrow> (\<exists>d. operand D vars t = Inr d)"
  shows "if stack_ok 0 rpn then \<exists>d. eval_rpn D vars rpn = Inr d else eval_rpn D vars rpn = Inl MemFault"
  using eval_loop_stack [OF assms, of "[]"] by (auto simp: eval_rpn_def)

theorem eval_rpn_underflow_witness:
  "to_rpn (tokenize ''7 > '') = Inr [''7'', ''>''] \<and> eval_rpn int_ops (\<lambda>_. None) [''7'', ''>''] = Inl MemFault"
proof -
  have "operand int_ops (\<lambda>_. None) ''7'' = Inr 7" "OPS ''>'' = Some (4, False)" "OPS ''7'' = None" by code_simp+
  then have "\<forall>t \<in> set [''7'', ''>'']. OPS t = None \<longrightarrow> (\<exists>d. operand int_ops (\<lambda>_. None) t = Inr d)" by simp
  moreover have "\<not> stack_ok 0 [''7'', ''>'']" by code_simp
  ultimately have "eval_rpn int_ops (\<lambda>_. None) [''7'', ''>''] = Inl MemFault" using eval_rpn_underflow by (metis (full_types))
  moreover have "to_rpn (tokenize ''7 > '') = Inr [''7'', ''>'']" by code_simp
  ultimately show ?thesis by simp
qed

text \<open>
  A name that begins with \<open>inf\<close> or \<open>nan\<close>, in any case, such as \<open>info\<close>, is never looked up:
  \<open>std::stod\<close> accepts the prefix as a number, so its value does not depend on the row.
\<close>

theorem numeric_names_not_variables:
  assumes "map lower (take 3 name) \<in> {''inf'', ''nan''}" "\<forall>s. map lower (take 3 s) \<in> {''inf'', ''nan''} \<longrightarrow> d_of D s \<noteq> None"
  shows "\<exists>d. \<forall>vars. operand D vars name = Inr d"
proof -
  have c: "lower c \<in> {CHR ''i'', CHR ''n''} \<Longrightarrow> \<not> is_space c \<and> c \<notin> set ''+-''" for c
    by (auto simp: lower_def is_space_def split: if_splits)
  obtain x y z r where n: "name = x # y # z # r"
    using assms(1) by (cases name; cases "tl name"; cases "tl (tl name)") auto
  have x: "lower x \<in> {CHR ''i'', CHR ''n''}" using assms(1) n by auto
  have "subject_sequence name = number_prefix name" using c [OF x] n by (simp add: subject_sequence_def)
  moreover obtain p where p: "number_prefix name = Some p" "map lower (take 3 p) = map lower (take 3 name)"
    using number_prefix_named [OF assms(1)] by blast
  ultimately have "stod D name = d_of D p" by (simp add: stod_def)
  moreover have "d_of D p \<noteq> None" using assms(2) [rule_format, of p] assms(1) p(2) by simp
  ultimately have "stod D name \<noteq> None" by simp
  then obtain d where "stod D name = Some d" by auto
  then show ?thesis by (simp add: operand_def)
qed

theorem numeric_names_not_variables_witness:
  "\<exists>d. \<forall>vars. operand (int_ops\<lparr>d_of := \<lambda>s. Some (int (length s))\<rparr>) vars ''Info'' = Inr d"
  by (rule numeric_names_not_variables) (code_simp, simp)

section \<open>The demonstration\<close>

text \<open>A literal has the value \<open>d_of\<close> gives to its text.\<close>

definition literal :: "'d double_ops \<Rightarrow> string \<Rightarrow> 'd" where
  "literal D s = (case d_of D s of Some d \<Rightarrow> d | None \<Rightarrow> d_zero D)"

definition shunting_demo :: "'d double_ops \<Rightarrow> db_error + string" where
  "shunting_demo D =
     (let expr = ''age * 2 + salary / 1000 > 100''
      in bindE (to_rpn (tokenize expr)) (\<lambda>rpn.
         bindE (eval_rpn D [''age'' \<mapsto> literal D ''30'', ''salary'' \<mapsto> literal D ''50000''] rpn) (\<lambda>result.
         Inr (''Expression : '' @ expr @ newline # ''RPN        : '' @ concat (map (\<lambda>t. t @ '' '') rpn) @ newline #
           ''Result     : '' @ (if d_true D result then ''true'' else ''false'') @ [newline, newline]))))"

text \<open>On integers: \<open>30 * 2 + 50000 / 1000\<close> is above 100.\<close>

theorem shunting_demo_prints:
  "shunting_demo int_ops = Inr (concat (map (\<lambda>l. l @ [newline])
     [''Expression : age * 2 + salary / 1000 > 100'', ''RPN        : age 2 * salary 1000 / + 100 > '', ''Result     : true'', '''']))"
proof -
  have r: "to_rpn (tokenize ''age * 2 + salary / 1000 > 100'') = Inr [''age'', ''2'', ''*'', ''salary'', ''1000'', ''/'', ''+'', ''100'', ''>'']"
    by code_simp
  have l: "literal int_ops ''30'' = 30" "literal int_ops ''50000'' = 50000"
    by (simp_all add: literal_def int_ops_def nat_of_dec_def is_digit_def)
  have e: "eval_rpn int_ops [''age'' \<mapsto> 30, ''salary'' \<mapsto> 50000] [''age'', ''2'', ''*'', ''salary'', ''1000'', ''/'', ''+'', ''100'', ''>''] = Inr 1"
    by code_simp
  show ?thesis by (simp add: shunting_demo_def r l e)
qed

end
