(* ===== verification/Lab7_Select.thy ===== *)
theory Lab7_Select
  imports Lab7_Expr
begin

text \<open>
  \<open>LAB-7/sql_query_processor.cpp\<close>, part 2: \<open>parse_select\<close> over the words of an \<open>istringstream\<close>, and
  \<open>execute\<close> over rows in memory. \<open>std::sort\<close>, which leaves the order of equal rows open, is an
  argument of \<open>execute\<close>, and so are the order in which an \<open>unordered_map\<close> is listed and the
  printing of a \<open>double\<close> in \<open>print_rows\<close>.

  The properties: parsing the text of a query gives the query back; without a direction, ORDER BY
  swallows the keyword after it; execution filters, projects, sorts and limits; and rows are
  sorted after the projection, so a column that is not selected does not sort them. At the end,
  \<open>main\<close> and what it prints with any \<open>double\<close> that reads and compares its numbers (\<open>reads_tenths\<close>) and
  any sort.
\<close>

section \<open>Rows and queries\<close>

datatype 'd cell = CNum 'd | CStr string

type_synonym 'd row = "string \<Rightarrow> 'd cell option"

definition row_val :: "'d double_ops \<Rightarrow> 'd row \<Rightarrow> string \<Rightarrow> 'd" where
  "row_val D row col = (case row col of
     None \<Rightarrow> d_zero D
   | Some (CNum d) \<Rightarrow> d
   | Some (CStr s) \<Rightarrow> (case stod D s of Some d \<Rightarrow> d | None \<Rightarrow> d_zero D))"

record select_query =
  columns :: "string list"
  sq_from :: string
  where_raw :: string
  order_by :: string
  order_asc :: bool
  limit :: int

definition empty_query :: select_query where
  "empty_query = \<lparr>columns = [], sq_from = [], where_raw = [], order_by = [], order_asc = True, limit = -1\<rparr>"

section \<open>Parsing\<close>

definition upper_char :: "char \<Rightarrow> char" where
  "upper_char c = (if 97 \<le> (of_char c :: nat) \<and> (of_char c :: nat) \<le> 122 then char_of ((of_char c :: nat) - 32) else c)"

definition to_upper :: "string \<Rightarrow> string" where
  "to_upper s = map upper_char s"

text \<open>The loop over the column list, up to FROM; the words behind it.\<close>

fun column_list :: "string list \<Rightarrow> string list \<Rightarrow> string list \<times> string list" where
  "column_list cs [] = (cs, [])"
| "column_list cs (w # ws) =
     (if to_upper w = ''FROM'' then (cs, ws)
      else let w = (if w \<noteq> [] \<and> last w = CHR '','' then butlast w else w)
           in if w = ''*'' then column_list [] ws else column_list (cs @ [w]) ws)"

text \<open>The words of a WHERE clause; the keyword that ends it and the words behind.\<close>

fun where_clause :: "string \<Rightarrow> string list \<Rightarrow> string \<times> (string \<times> string list) option" where
  "where_clause clause [] = (clause, None)"
| "where_clause clause (w2 # ws) =
     (if to_upper w2 = ''ORDER'' \<or> to_upper w2 = ''LIMIT'' then (clause, Some (w2, ws))
      else where_clause (clause @ (if clause = [] then [] else '' '') @ w2) ws)"

definition int_bounds :: "int \<times> int" where
  "int_bounds = (- (2 ^ 31), 2 ^ 31 - 1)"

text \<open>\<open>ss >> q.limit\<close>: the value, and the words that can still be read; after a failure none can.\<close>

definition read_int :: "int \<Rightarrow> string list \<Rightarrow> int \<times> string list" where
  "read_int old ws = (case ws of
     [] \<Rightarrow> (old, [])
   | w # ws' \<Rightarrow>
       let neg = (w \<noteq> [] \<and> hd w = CHR ''-'');
           r = (if w \<noteq> [] \<and> hd w \<in> set ''+-'' then tl w else w);
           ds = takeWhile is_digit r; rest = dropWhile is_digit r;
           v = (if neg then - int (nat_of_dec ds) else int (nat_of_dec ds))
       in if ds = [] then (0, [])
          else if v > snd int_bounds then (snd int_bounds, [])
          else if v < fst int_bounds then (fst int_bounds, [])
          else (v, if rest = [] then ws' else rest # ws'))"

text \<open>The keywords ORDER and LIMIT, on the words behind \<open>kw\<close>.\<close>

definition order_limit :: "string \<Rightarrow> string list \<Rightarrow> select_query \<Rightarrow> select_query \<times> string list" where
  "order_limit kw ws q =
     (if kw = ''ORDER'' then
        let q1 = (if 2 \<le> length ws then q\<lparr>order_by := ws ! 1\<rparr> else q);
            q2 = (if 3 \<le> length ws \<and> to_upper (ws ! 2) = ''DESC'' then q1\<lparr>order_asc := False\<rparr> else q1)
        in (q2, drop 3 ws)
      else if kw = ''LIMIT'' then let (n, ws') = read_int (limit q) ws in (q\<lparr>limit := n\<rparr>, ws')
      else (q, ws))"

lemma order_limit_length: "length (snd (order_limit kw ws q)) \<le> length ws"
  by (auto simp: order_limit_def read_int_def Let_def split: list.split)

lemma where_clause_length: "where_clause clause ws = (c, Some (w2, ws')) \<Longrightarrow> length ws' < length ws"
  by (induction clause ws rule: where_clause.induct) (auto split: if_splits)

function clauses :: "string list \<Rightarrow> select_query \<Rightarrow> select_query" where
  "clauses [] q = q"
| "clauses (w # ws) q =
     (if to_upper w = ''WHERE'' then
        (case where_clause [] ws of
           (clause, None) \<Rightarrow> q\<lparr>where_raw := clause\<rparr>
         | (clause, Some (w2, ws')) \<Rightarrow>
             let r = order_limit (to_upper w2) ws' (q\<lparr>where_raw := clause\<rparr>) in clauses (snd r) (fst r))
      else let r = order_limit (to_upper w) ws q in clauses (snd r) (fst r))"
  by pat_completeness auto
termination
proof (relation "measure (\<lambda>(ws, q). length ws)", goal_cases)
  case (2 w ws q clause found behind w2 ws' r)
  then have "where_clause [] ws = (clause, Some (w2, ws'))" by simp
  then have "length ws' < length ws" by (rule where_clause_length)
  moreover have "length (snd r) \<le> length ws'" unfolding 2(5) by (rule order_limit_length)
  ultimately show ?case by simp
next
  case (3 w ws q r)
  then show ?case using order_limit_length [of "to_upper w" ws q] by simp
qed simp

declare clauses.simps(2) [simp del]

definition parse_words :: "string list \<Rightarrow> select_query" where
  "parse_words ws =
     (let (cs, ws1) = column_list [] (drop 1 ws)
      in case ws1 of
           [] \<Rightarrow> empty_query\<lparr>columns := cs\<rparr>
         | f # ws2 \<Rightarrow> clauses ws2 (empty_query\<lparr>columns := cs, sq_from := f\<rparr>))"

definition parse_select :: "string \<Rightarrow> select_query" where
  "parse_select sql = parse_words (tokens sql)"

section \<open>Execution\<close>

definition row_vars :: "'d double_ops \<Rightarrow> 'd row \<Rightarrow> string \<Rightarrow> 'd option" where
  "row_vars D row = (\<lambda>k. map_option (\<lambda>_. row_val D row k) (row k))"

text \<open>Whether the loop goes on with a row.\<close>

definition keep_row :: "'d double_ops \<Rightarrow> string list \<Rightarrow> 'd row \<Rightarrow> db_error + bool" where
  "keep_row D rpn row = (if rpn = [] then Inr True else bindE (eval_rpn D (row_vars D row) rpn) (\<lambda>v. Inr (d_true D v)))"

definition project :: "string list \<Rightarrow> 'd row \<Rightarrow> 'd row" where
  "project cs row =
     (if cs = [] then row
      else fold (\<lambda>col projected. if row col \<noteq> None then projected(col := row col) else projected) cs (\<lambda>_. None))"

fun collect_rows :: "'d double_ops \<Rightarrow> string list \<Rightarrow> string list \<Rightarrow> 'd row list \<Rightarrow> db_error + 'd row list" where
  "collect_rows D rpn cs [] = Inr []"
| "collect_rows D rpn cs (row # data) =
     bindE (keep_row D rpn row) (\<lambda>k. bindE (collect_rows D rpn cs data) (\<lambda>rows. Inr (if k then project cs row # rows else rows)))"

text \<open>
  The comparison of \<open>std::sort\<close>. It is called on the projected rows: a column that is not selected is
  missing there and counts as 0.
\<close>

definition row_order :: "'d double_ops \<Rightarrow> select_query \<Rightarrow> 'd row \<Rightarrow> 'd row \<Rightarrow> bool" where
  "row_order D q a b =
     (let va = row_val D a (order_by q); vb = row_val D b (order_by q)
      in if order_asc q then d_less D va vb else d_less D vb va)"

definition apply_limit :: "select_query \<Rightarrow> 'a list \<Rightarrow> 'a list" where
  "apply_limit q result = (if 0 \<le> limit q \<and> int (length result) > limit q then take (nat (limit q)) result else result)"

definition execute :: "'d double_ops \<Rightarrow> (('d row \<Rightarrow> 'd row \<Rightarrow> bool) \<Rightarrow> 'd row list \<Rightarrow> 'd row list)
    \<Rightarrow> select_query \<Rightarrow> 'd row list \<Rightarrow> db_error + 'd row list" where
  "execute D std_sort q data =
     bindE (if where_raw q \<noteq> [] then to_rpn (tokenize (where_raw q)) else Inr []) (\<lambda>rpn.
     bindE (collect_rows D rpn (columns q) data) (\<lambda>result.
     Inr (apply_limit q (if order_by q \<noteq> [] then std_sort (row_order D q) result else result))))"

text \<open>\<open>print_rows\<close>, with the order of a row's columns and the printing of a \<open>double\<close>.\<close>

definition cell_text :: "('d \<Rightarrow> string) \<Rightarrow> 'd row \<Rightarrow> string \<Rightarrow> string" where
  "cell_text showd row k = (case row k of
     None \<Rightarrow> []
   | Some (CNum d) \<Rightarrow> k @ ''='' @ showd d @ ''  ''
   | Some (CStr s) \<Rightarrow> k @ ''='' @ s @ ''  '')"

definition print_rows :: "('d row \<Rightarrow> string list) \<Rightarrow> ('d \<Rightarrow> string) \<Rightarrow> 'd row list \<Rightarrow> string" where
  "print_rows iter showd rows =
     (if rows = [] then ''  (no rows)'' @ [newline]
      else concat (map (\<lambda>row. ''  '' @ concat (map (cell_text showd row) (iter row)) @ [newline]) rows))"

section \<open>The text of a query\<close>

fun unwords :: "string list \<Rightarrow> string" where
  "unwords [] = []"
| "unwords [w] = w"
| "unwords (w # v # ws) = w @ '' '' @ unwords (v # ws)"

lemma tokens_unwords: "list_all word ws \<Longrightarrow> tokens (unwords ws) = ws"
proof (induction ws rule: unwords.induct)
  case (2 w)
  then show ?case using tokens_word [of w "[]"] by simp
next
  case (3 w v ws)
  then show ?case using tokens_word [of w "'' '' @ unwords (v # ws)"] by (simp add: tokens_space is_space_def)
qed simp

definition no_keyword :: "string \<Rightarrow> bool" where
  "no_keyword w \<longleftrightarrow> to_upper w \<noteq> ''ORDER'' \<and> to_upper w \<noteq> ''LIMIT''"

lemma where_clause_run:
  assumes "list_all no_keyword ws" "list_all (\<lambda>w. w \<noteq> []) ws" "clause \<noteq> []"
  shows "where_clause clause (ws @ rest) = where_clause (unwords (clause # ws)) rest"
  using assms
proof (induction ws arbitrary: clause)
  case (Cons w ws)
  have "unwords ((clause @ '' '' @ w) # ws) = unwords (clause # w # ws)" by (cases ws) simp_all
  then show ?case using Cons by (simp add: no_keyword_def)
qed simp

lemma where_clause_words:
  assumes "list_all no_keyword ws" "list_all (\<lambda>w. w \<noteq> []) ws" "ws \<noteq> []"
  shows "where_clause [] (ws @ rest) = where_clause (unwords ws) rest"
proof -
  obtain w ws' where ws: "ws = w # ws'" using assms(3) by (cases ws) auto
  then show ?thesis using where_clause_run [of ws' w rest] assms by (simp add: no_keyword_def)
qed

text \<open>A query as words: the columns with commas, the clauses that are there, the direction written out.\<close>

definition column_words :: "string list \<Rightarrow> string list" where
  "column_words cs = (if cs = [] then [''*''] else map (\<lambda>c. c @ '','') (butlast cs) @ [last cs])"

definition order_words :: "select_query \<Rightarrow> string list" where
  "order_words q = (if order_by q = [] then [] else [''ORDER'', ''BY'', order_by q, if order_asc q then ''ASC'' else ''DESC''])"

definition limit_words :: "select_query \<Rightarrow> string list" where
  "limit_words q = (if limit q < 0 then [] else [''LIMIT'', dec_of_int (limit q)])"

definition query_words :: "string list \<Rightarrow> select_query \<Rightarrow> string list" where
  "query_words wh q = ''SELECT'' # column_words (columns q) @ [''FROM'', sq_from q]
     @ (if wh = [] then [] else ''WHERE'' # wh) @ order_words q @ limit_words q"

definition column_name :: "string \<Rightarrow> bool" where
  "column_name c \<longleftrightarrow> word c \<and> last c \<noteq> CHR '','' \<and> c \<noteq> ''*'' \<and> to_upper c \<noteq> ''FROM''"

text \<open>The queries a text can denote: \<open>wh\<close> are the words of the WHERE clause.\<close>

definition printable_query :: "string list \<Rightarrow> select_query \<Rightarrow> bool" where
  "printable_query wh q \<longleftrightarrow> list_all column_name (columns q) \<and> word (sq_from q)
     \<and> list_all word wh \<and> list_all no_keyword wh \<and> where_raw q = unwords wh
     \<and> (order_by q = [] \<longrightarrow> order_asc q) \<and> (order_by q \<noteq> [] \<longrightarrow> word (order_by q))
     \<and> - 1 \<le> limit q \<and> limit q \<le> snd int_bounds"

lemma column_list_names:
  assumes "list_all column_name cs"
  shows "column_list acc (map (\<lambda>c. c @ '','') cs @ ws) = column_list (acc @ cs) ws"
  using assms
proof (induction cs arbitrary: acc)
  case (Cons c cs)
  have "to_upper (c @ '','') \<noteq> ''FROM''"
  proof
    assume "to_upper (c @ '','') = ''FROM''"
    then have "last (to_upper (c @ '','')) = CHR ''M''" by simp
    then show False by (simp add: to_upper_def upper_char_def)
  qed
  then show ?case using Cons by (simp add: column_name_def)
qed simp

lemma column_list_words:
  assumes "list_all column_name cs"
  shows "column_list [] (column_words cs @ ''FROM'' # ws) = (cs, ws)"
proof -
  have kw: "to_upper ''FROM'' = ''FROM''" "to_upper ''*'' \<noteq> ''FROM''" by code_simp+
  show ?thesis
  proof (cases cs rule: rev_cases)
    case Nil
    then show ?thesis using kw by (simp add: column_words_def)
  next
    case (snoc ds c)
    then show ?thesis using assms column_list_names [of ds "[]" "[c] @ ''FROM'' # ws"] kw
      by (simp add: column_words_def column_name_def)
  qed
qed

lemma read_int_dec:
  assumes "0 \<le> n" "n \<le> snd int_bounds"
  shows "read_int old (dec_of_int n # ws) = (n, ws)"
proof -
  let ?d = "dec_of_nat (nat n)"
  have d: "list_all is_digit ?d" "?d \<noteq> []" using dec_of_nat_digits by auto
  have h: "hd ?d \<noteq> CHR ''+''" "hd ?d \<noteq> CHR ''-''" using d by (cases ?d; auto simp: is_digit_def)+
  have t: "takeWhile is_digit ?d = ?d" "dropWhile is_digit ?d = []"
    using d(1) by (auto simp: list_all_iff takeWhile_eq_all_conv dropWhile_eq_Nil_conv)
  show ?thesis using assms by (simp add: read_int_def dec_of_int_def nat_of_dec_of_nat Let_def int_bounds_def h t d(2))
qed

lemma clauses_skip: "order_limit (to_upper w) ws q = (q', ws') \<Longrightarrow> to_upper w \<noteq> ''WHERE'' \<Longrightarrow> clauses (w # ws) q = clauses ws' q'"
  by (simp add: clauses.simps(2))

lemma keywords_upper:
  "to_upper ''WHERE'' = ''WHERE''" "to_upper ''ORDER'' = ''ORDER''" "to_upper ''LIMIT'' = ''LIMIT''"
  "to_upper ''ASC'' = ''ASC''" "to_upper ''DESC'' = ''DESC''"
  by code_simp+

text \<open>The clauses behind WHERE, read into a query that agrees on the rest.\<close>

lemma clauses_limit:
  assumes "- 1 \<le> limit q" "limit q \<le> snd int_bounds"
  shows "clauses (limit_words q) (q\<lparr>limit := -1\<rparr>) = q"
proof (cases "limit q < 0")
  case True
  then have "limit q = -1" using assms(1) by simp
  then show ?thesis by (simp add: limit_words_def)
next
  case False
  then show ?thesis using assms read_int_dec [of "limit q" "-1" "[]"]
    by (simp add: limit_words_def clauses.simps(2) keywords_upper order_limit_def)
qed

lemma order_limit_words:
  assumes "printable_query wh q" "q0 = q\<lparr>order_by := [], order_asc := True, limit := -1\<rparr>"
  shows "clauses (order_words q @ limit_words q) q0 = q"
proof -
  have l: "clauses (limit_words q) (q\<lparr>limit := -1\<rparr>) = q" using assms(1) clauses_limit by (simp add: printable_query_def)
  show ?thesis
  proof (cases "order_by q = []")
    case True
    then have "q0 = q\<lparr>limit := -1\<rparr>" using assms by (simp add: printable_query_def)
    then show ?thesis using True l by (simp add: order_words_def)
  next
    case False
    have "fst (order_limit ''ORDER'' (tl (order_words q) @ limit_words q) q0) = q\<lparr>limit := -1\<rparr>"
      using False assms(2) by (cases q) (auto simp: order_limit_def order_words_def keywords_upper)
    moreover have "snd (order_limit ''ORDER'' (tl (order_words q) @ limit_words q) q0) = limit_words q"
      using False by (simp add: order_limit_def order_words_def Let_def)
    ultimately show ?thesis using False l by (simp add: order_words_def clauses.simps(2) keywords_upper)
  qed
qed

lemma limit_stops: "where_clause clause (limit_words q) = (if limit q < 0 then (clause, None)
    else (clause, Some (''LIMIT'', [dec_of_int (limit q)])))"
  by (simp add: limit_words_def keywords_upper)

lemma parse_query_words:
  assumes "printable_query wh q"
  shows "parse_words (query_words wh q) = q"
proof -
  let ?q0 = "\<lparr>columns = columns q, sq_from = sq_from q, where_raw = [], order_by = [], order_asc = True, limit = -1\<rparr>"
  let ?q1 = "?q0\<lparr>where_raw := unwords wh\<rparr>"
  let ?rest = "order_words q @ limit_words q"
  have q1: "?q1 = q\<lparr>order_by := [], order_asc := True, limit := -1\<rparr>" using assms by (cases q) (simp add: printable_query_def)
  note rest = order_limit_words [OF assms q1]
  have "clauses ((if wh = [] then [] else ''WHERE'' # wh) @ ?rest) ?q0 = q"
  proof (cases "wh = []")
    case True
    then show ?thesis using rest by simp
  next
    case False
    have "where_clause [] (wh @ ?rest) = where_clause (unwords wh) ?rest"
      using assms False by (intro where_clause_words) (auto simp: printable_query_def word_def list_all_iff)
    then have w: "clauses (''WHERE'' # wh @ ?rest) ?q0 = clauses ?rest ?q1"
      by (auto simp: clauses.simps(2) keywords_upper limit_stops order_words_def limit_words_def)
    then show ?thesis using False rest by simp
  qed
  moreover have "column_list [] (column_words (columns q) @ ''FROM'' # sq_from q # (if wh = [] then [] else ''WHERE'' # wh) @ ?rest)
      = (columns q, sq_from q # (if wh = [] then [] else ''WHERE'' # wh) @ ?rest)"
    using assms by (intro column_list_words) (simp add: printable_query_def)
  ultimately show ?thesis by (simp add: parse_words_def query_words_def empty_query_def)
qed

section \<open>Execution and its specification\<close>

lemma project_lookup: "cs \<noteq> [] \<Longrightarrow> project cs row = (\<lambda>k. if k \<in> set cs then row k else None)"
proof -
  have "fold (\<lambda>col p. if row col \<noteq> None then p(col := row col) else p) cs p = (\<lambda>k. if k \<in> set cs \<and> row k \<noteq> None then row k else p k)" for p
    by (induction cs arbitrary: p) (auto simp: fun_eq_iff)
  then show "cs \<noteq> [] \<Longrightarrow> project cs row = (\<lambda>k. if k \<in> set cs then row k else None)"
    by (auto simp: project_def)
qed

lemma collect_rows_ok:
  assumes "\<forall>row \<in> set data. keep_row D rpn row = Inr (keep row)"
  shows "collect_rows D rpn cs data = Inr (map (project cs) (filter keep data))"
  using assms by (induction data) auto

text \<open>What \<open>std::sort\<close> requires of a comparator on the rows, and what it then promises.\<close>

definition strict_weak :: "('a \<Rightarrow> 'a \<Rightarrow> bool) \<Rightarrow> 'a set \<Rightarrow> bool" where
  "strict_weak lt A \<longleftrightarrow> (\<forall>a \<in> A. \<not> lt a a) \<and> (\<forall>a \<in> A. \<forall>b \<in> A. \<forall>c \<in> A. lt a b \<longrightarrow> lt b c \<longrightarrow> lt a c)
     \<and> (\<forall>a \<in> A. \<forall>b \<in> A. \<forall>c \<in> A. \<not> lt a b \<and> \<not> lt b a \<longrightarrow> \<not> lt b c \<and> \<not> lt c b \<longrightarrow> \<not> lt a c \<and> \<not> lt c a)"

definition sort_contract :: "(('a \<Rightarrow> 'a \<Rightarrow> bool) \<Rightarrow> 'a list \<Rightarrow> 'a list) \<Rightarrow> bool" where
  "sort_contract std_sort \<longleftrightarrow> (\<forall>lt xs. strict_weak lt (set xs) \<longrightarrow>
     mset (std_sort lt xs) = mset xs \<and> sorted_wrt (\<lambda>a b. \<not> lt b a) (std_sort lt xs))"

lemma strict_weak_subset: "strict_weak lt B \<Longrightarrow> A \<subseteq> B \<Longrightarrow> strict_weak lt A"
  unfolding strict_weak_def by (intro conjI ballI) (meson subsetD)+

lemma strict_weak_key:
  assumes "strict_weak lt (f ` A)"
  shows "strict_weak (\<lambda>a b. lt (f a) (f b)) A" "strict_weak (\<lambda>a b. lt (f b) (f a)) A"
  using assms unfolding strict_weak_def by blast+

section \<open>Properties\<close>

text \<open>
  C32. Parsing the canonical text of a printable query returns the query: columns, table, WHERE
  clause of words that are no keywords, with single spaces, ORDER BY with its direction written
  out, and LIMIT within \<open>int\<close>, each clause present or not. Without the direction it fails
  (\<open>order_by_swallows_limit\<close>).
\<close>

theorem select_roundtrip:
  assumes "printable_query wh q" "list_all word (query_words wh q)"
  shows "parse_select (unwords (query_words wh q)) = q"
  using assms by (simp add: parse_select_def tokens_unwords parse_query_words)

theorem select_roundtrip_witness:
  "parse_select ''SELECT id, name, gpa FROM students WHERE gpa > 3.0 ORDER BY gpa DESC LIMIT 3''
    = \<lparr>columns = [''id'', ''name'', ''gpa''], sq_from = ''students'', where_raw = ''gpa > 3.0'', order_by = ''gpa'',
       order_asc = False, limit = 3\<rparr>"
proof -
  let ?q = "\<lparr>columns = [''id'', ''name'', ''gpa''], sq_from = ''students'', where_raw = ''gpa > 3.0'', order_by = ''gpa'',
       order_asc = False, limit = 3\<rparr>"
  let ?wh = "[''gpa'', ''>'', ''3.0'']"
  have "printable_query ?wh ?q" by code_simp
  moreover have "list_all word (query_words ?wh ?q)" by code_simp
  moreover have "unwords (query_words ?wh ?q) = ''SELECT id, name, gpa FROM students WHERE gpa > 3.0 ORDER BY gpa DESC LIMIT 3''" by code_simp
  ultimately show ?thesis using select_roundtrip [of ?wh ?q] by simp
qed

text \<open>
  ORDER BY without a direction swallows the next keyword: the word read as the direction is
  LIMIT, so its number becomes a clause of its own that is ignored, and the query has no limit.
\<close>

theorem order_by_swallows_limit:
  assumes "word t" "word c" "0 \<le> n"
  shows "limit (parse_select (unwords [''SELECT'', ''*'', ''FROM'', t, ''ORDER'', ''BY'', c, ''LIMIT'', dec_of_int n])) = -1"
proof -
  have w: "word ''SELECT''" "word ''*''" "word ''FROM''" "word ''ORDER''" "word ''BY''" "word ''LIMIT''" by code_simp+
  have d: "word (dec_of_int n)" using assms(3) word_dec by (simp add: dec_of_int_def)
  have "hd (dec_of_nat (nat n)) \<noteq> CHR ''W'' \<and> hd (dec_of_nat (nat n)) \<noteq> CHR ''O'' \<and> hd (dec_of_nat (nat n)) \<noteq> CHR ''L''"
    using dec_of_nat_digits [of "nat n"] by (cases "dec_of_nat (nat n)") (auto simp: is_digit_def)
  then have k: "dec_of_int n \<notin> {''WHERE'', ''ORDER'', ''LIMIT''}" using assms(3) by (auto simp: dec_of_int_def)
  have "upper_char c = c" if "is_digit c" for c using that by (simp add: upper_char_def is_digit_def)
  then have up: "to_upper (dec_of_int n) = dec_of_int n"
    using dec_of_nat_digits [of "nat n"] assms(3) by (auto simp: to_upper_def dec_of_int_def list_all_iff intro: map_idI)
  have kw: "to_upper ''FROM'' = ''FROM''" "to_upper ''*'' \<noteq> ''FROM''" by code_simp+
  have "tokens (unwords [''SELECT'', ''*'', ''FROM'', t, ''ORDER'', ''BY'', c, ''LIMIT'', dec_of_int n])
      = [''SELECT'', ''*'', ''FROM'', t, ''ORDER'', ''BY'', c, ''LIMIT'', dec_of_int n]"
    using assms(1,2) w d by (intro tokens_unwords) simp
  then show ?thesis using k up kw
    by (simp add: parse_select_def parse_words_def clauses.simps(2) keywords_upper order_limit_def Let_def empty_query_def)
qed

theorem order_by_swallows_limit_witness:
  "limit (parse_select ''SELECT * FROM students ORDER BY gpa LIMIT 3'') = -1"
proof -
  have "word ''students''" "word ''gpa''" by code_simp+
  moreover have "unwords [''SELECT'', ''*'', ''FROM'', ''students'', ''ORDER'', ''BY'', ''gpa'', ''LIMIT'', dec_of_int 3]
      = ''SELECT * FROM students ORDER BY gpa LIMIT 3''" by code_simp
  ultimately show ?thesis using order_by_swallows_limit [of "''students''" "''gpa''" 3] by simp
qed

text \<open>A permutation of an image is the image of a permutation.\<close>

lemma mset_map_perm: "mset zs = mset (map f xs) \<Longrightarrow> \<exists>ys. mset ys = mset xs \<and> map f ys = zs"
proof (induction zs arbitrary: xs)
  case (Cons z zs)
  have "z \<in> set (map f xs)" using Cons.prems mset_eq_setD [OF Cons.prems] by auto
  then obtain x where x: "x \<in> set xs" "f x = z" by auto
  have "mset zs = mset (map f (remove1 x xs))" using Cons.prems x
    by (simp add: image_mset_Diff) (metis add_mset_remove_trivial)
  from Cons.IH [OF this] obtain ys where "mset ys = mset (remove1 x xs)" "map f ys = zs" by blast
  then show ?case using x by (intro exI [of _ "x # ys"]) simp
qed simp

lemma row_val_project:
  "columns q = [] \<or> order_by q \<in> set (columns q) \<Longrightarrow> row_order D q (project (columns q) a) (project (columns q) b) = row_order D q a b"
  by (cases "columns q = []") (simp_all add: project_lookup row_order_def row_val_def, simp add: project_def)

text \<open>
  C30. A query whose WHERE clause denotes an expression that evaluates on every row of the table
  returns. There is an arrangement \<open>rows\<close> of the rows for which the expression is true, such that
  the result is the first \<open>limit\<close> of them, projected to the selected columns. Without ORDER BY the
  arrangement is the rows' own order. With ORDER BY on a column that is selected it is sorted by
  that column, up or down; an order column that is not selected is 0 in all projected rows, which
  are what the code compares, and then nothing is said of the order. The order keys of the
  projected rows are weakly ordered by \<open>operator<\<close> (no NaN), and \<open>std::sort\<close> does as documented.
\<close>

theorem execute_correct:
  assumes wh: "if where_raw q = [] then keep = (\<lambda>_. True)
      else denotes 0 (tokenize (where_raw q)) e \<and> (\<forall>row \<in> set data. \<exists>v. expr_value D (row_vars D row) e = Inr v
        \<and> keep row = d_true D v)"
    and srt: "sort_contract std_sort"
    and ord: "order_by q \<noteq> [] \<Longrightarrow> strict_weak (d_less D) ((\<lambda>row. row_val D (project (columns q) row) (order_by q)) ` set data)"
  shows "\<exists>rows. execute D std_sort q data = Inr (apply_limit q (map (project (columns q)) rows))
    \<and> mset rows = mset (filter keep data)
    \<and> (order_by q = [] \<longrightarrow> rows = filter keep data)
    \<and> (order_by q \<noteq> [] \<longrightarrow> columns q = [] \<or> order_by q \<in> set (columns q) \<longrightarrow> sorted_wrt (\<lambda>a b. \<not> row_order D q b a) rows)"
proof -
  let ?rows = "map (project (columns q)) (filter keep data)"
  obtain rpn where rpn: "(if where_raw q \<noteq> [] then to_rpn (tokenize (where_raw q)) else Inr []) = Inr rpn"
      "\<forall>row \<in> set data. keep_row D rpn row = Inr (keep row)"
  proof (cases "where_raw q = []")
    case True
    then show ?thesis using wh that [of "[]"] by (simp add: keep_row_def)
  next
    case False
    then have e: "denotes 0 (tokenize (where_raw q)) e" using wh by simp
    have "postfix e \<noteq> []" by (cases e) simp_all
    moreover have "eval_rpn D vars (postfix e) = expr_value D vars e" for vars by (rule eval_rpn_postfix [OF denotes_wf [OF e]])
    ultimately have "\<forall>row \<in> set data. keep_row D (postfix e) row = Inr (keep row)" using wh False by (fastforce simp: keep_row_def)
    then show ?thesis using that [of "postfix e"] to_rpn_denotes [OF e] False by simp
  qed
  have ex: "execute D std_sort q data = Inr (apply_limit q (if order_by q \<noteq> [] then std_sort (row_order D q) ?rows else ?rows))"
    using rpn(1) collect_rows_ok [OF rpn(2)] by (simp add: execute_def)
  show ?thesis
  proof (cases "order_by q = []")
    case True
    then show ?thesis using ex by (intro exI [of _ "filter keep data"]) simp
  next
    case False
    have "(\<lambda>row. row_val D row (order_by q)) ` set ?rows
        \<subseteq> (\<lambda>row. row_val D (project (columns q) row) (order_by q)) ` set data" by auto
    then have "strict_weak (d_less D) ((\<lambda>row. row_val D row (order_by q)) ` set ?rows)"
      by (rule strict_weak_subset [OF ord [OF False]])
    note sw = strict_weak_key [OF this]
    have "row_order D q = (if order_asc q then (\<lambda>a b. d_less D (row_val D a (order_by q)) (row_val D b (order_by q)))
        else (\<lambda>a b. d_less D (row_val D b (order_by q)) (row_val D a (order_by q))))"
      by (simp add: row_order_def fun_eq_iff)
    then have "strict_weak (row_order D q) (set ?rows)" using sw by (cases "order_asc q") (simp_all only: if_True if_False simp_thms)
    then have sd: "mset (std_sort (row_order D q) ?rows) = mset ?rows" "sorted_wrt (\<lambda>a b. \<not> row_order D q b a) (std_sort (row_order D q) ?rows)"
      using srt by (simp_all add: sort_contract_def)
    obtain rows where rows: "mset rows = mset (filter keep data)" "map (project (columns q)) rows = std_sort (row_order D q) ?rows"
      using mset_map_perm [OF sd(1)] by blast
    have "sorted_wrt (\<lambda>a b. \<not> row_order D q (project (columns q) b) (project (columns q) a)) rows"
      using sd(2) unfolding rows(2) [symmetric] by (simp add: sorted_wrt_map)
    then have "columns q = [] \<or> order_by q \<in> set (columns q) \<Longrightarrow> sorted_wrt (\<lambda>a b. \<not> row_order D q b a) rows"
      by (simp only: row_val_project)
    then show ?thesis using rows ex False by (intro exI [of _ rows]) simp
  qed
qed

text \<open>Insertion sort as one instance of the contract.\<close>

fun put_row :: "('a \<Rightarrow> 'a \<Rightarrow> bool) \<Rightarrow> 'a \<Rightarrow> 'a list \<Rightarrow> 'a list" where
  "put_row lt x [] = [x]"
| "put_row lt x (y # ys) = (if lt y x then y # put_row lt x ys else x # y # ys)"

lemma mset_put_row: "mset (put_row lt x xs) = add_mset x (mset xs)"
  by (induction xs) auto

lemma set_put_row: "set (put_row lt x xs) = insert x (set xs)"
  by (induction xs) auto

lemma sorted_put_row:
  assumes "strict_weak lt (insert x (set xs))" "sorted_wrt (\<lambda>a b. \<not> lt b a) xs"
  shows "sorted_wrt (\<lambda>a b. \<not> lt b a) (put_row lt x xs)"
  using assms
proof (induction xs)
  case (Cons y ys)
  have sub: "strict_weak lt (insert x (set ys))" using Cons.prems(1) by (rule strict_weak_subset) auto
  show ?case
  proof (cases "lt y x")
    case True
    then have "\<not> lt x y" using Cons.prems(1) unfolding strict_weak_def by (meson insertI1 insertI2 list.set_intros(1))
    then show ?thesis using True Cons.IH [OF sub] Cons.prems(2) by (simp add: set_put_row)
  next
    case False
    have "\<not> lt z x" if "z \<in> set ys" for z
    proof
      assume z: "lt z x"
      have m: "x \<in> insert x (set (y # ys))" "y \<in> insert x (set (y # ys))" "z \<in> insert x (set (y # ys))" using that by auto
      have "\<not> lt z y" using Cons.prems(2) that by simp
      then show False using Cons.prems(1) m z False unfolding strict_weak_def by metis
    qed
    then show ?thesis using False Cons.prems(2) by simp
  qed
qed simp

lemma put_row_contract: "sort_contract (\<lambda>lt xs. foldr (put_row lt) xs [])"
proof -
  have "mset (foldr (put_row lt) xs []) = mset xs \<and> set (foldr (put_row lt) xs []) = set xs
      \<and> (strict_weak lt (set xs) \<longrightarrow> sorted_wrt (\<lambda>a b. \<not> lt b a) (foldr (put_row lt) xs []))" for lt and xs :: "'a list"
  proof (induction xs)
    case (Cons x xs)
    have "strict_weak lt (set (x # xs)) \<Longrightarrow> strict_weak lt (set xs)" by (rule strict_weak_subset) auto
    then show ?case using Cons sorted_put_row [of lt x "foldr (put_row lt) xs []"] by (auto simp: mset_put_row set_put_row)
  qed simp
  then show ?thesis by (auto simp: sort_contract_def)
qed

theorem execute_correct_witness:
  "\<exists>rows. execute int_ops (\<lambda>lt xs. foldr (put_row lt) xs []) (parse_select ''SELECT * FROM t WHERE age > 21 ORDER BY age ASC LIMIT 1'')
      [[''age'' \<mapsto> CNum 30], [''age'' \<mapsto> CNum 20], [''age'' \<mapsto> CNum 25]] = Inr (take 1 rows)
    \<and> mset rows = {#[''age'' \<mapsto> CNum 30], [''age'' \<mapsto> CNum 25]#}
    \<and> sorted_wrt (\<lambda>a b. \<not> row_val int_ops b ''age'' < row_val int_ops a ''age'') rows"
proof -
  let ?q = "parse_select ''SELECT * FROM t WHERE age > 21 ORDER BY age ASC LIMIT 1''"
  let ?data = "[[''age'' \<mapsto> CNum 30], [''age'' \<mapsto> CNum 20], [''age'' \<mapsto> CNum (25::int)]]"
  let ?e = "Bin ''>'' (Opnd ''age'') (Opnd ''21'')"
  let ?keep = "\<lambda>row. 21 < row_val int_ops row ''age''"
  have q: "?q = \<lparr>columns = [], sq_from = ''t'', where_raw = ''age > 21'', order_by = ''age'', order_asc = True, limit = 1\<rparr>" by code_simp
  have "denotes 0 (show_expr 0 ?e) ?e" by (rule denotes_show) code_simp+
  moreover have "tokenize ''age > 21'' = show_expr 0 ?e" by code_simp
  ultimately have d: "denotes 0 (tokenize (where_raw ?q)) ?e" using q by simp
  have op: "stod int_ops ''21'' = Some 21" "stod int_ops ''age'' = None" by code_simp+
  have v: "\<forall>row \<in> set ?data. \<exists>v. expr_value int_ops (row_vars int_ops row) ?e = Inr v \<and> ?keep row = d_true int_ops v"
    by (auto simp: operand_def op row_vars_def row_val_def apply_op_def of_bool_def)
  have w: "strict_weak (d_less int_ops) A" for A by (auto simp: strict_weak_def)
  have "if where_raw ?q = [] then ?keep = (\<lambda>_. True) else denotes 0 (tokenize (where_raw ?q)) ?e
      \<and> (\<forall>row \<in> set ?data. \<exists>v. expr_value int_ops (row_vars int_ops row) ?e = Inr v \<and> ?keep row = d_true int_ops v)"
    using d v q by simp
  from execute_correct [OF this put_row_contract w] obtain rows where rows:
      "execute int_ops (\<lambda>lt xs. foldr (put_row lt) xs []) ?q ?data = Inr (apply_limit ?q (map (project (columns ?q)) rows))"
      "mset rows = mset (filter ?keep ?data)" "sorted_wrt (\<lambda>a b. \<not> row_order int_ops ?q b a) rows" using q by auto
  have p: "map (project (columns ?q)) rows = rows" by (rule map_idI) (simp add: q project_def)
  have k: "filter ?keep ?data = [[''age'' \<mapsto> CNum 30], [''age'' \<mapsto> CNum 25]]" by (simp add: row_val_def)
  have m: "mset rows = {#[''age'' \<mapsto> CNum 30], [''age'' \<mapsto> CNum 25]#}" unfolding rows(2) k by simp
  then have "size (mset rows) = 2" by simp
  then have "apply_limit ?q rows = take 1 rows" by (simp add: apply_limit_def q)
  moreover have "sorted_wrt (\<lambda>a b. \<not> row_val int_ops b ''age'' < row_val int_ops a ''age'') rows"
    using rows(3) by (simp add: row_order_def q)
  ultimately show ?thesis using rows(1) m unfolding p by (intro exI [of _ rows]) (simp only: simp_thms)
qed

text \<open>
  The rows are sorted after the projection: when the order column is not selected, its value is 0
  in every result row, and the comparator puts no row before another.
\<close>

theorem order_by_unselected:
  assumes "columns q \<noteq> []" "order_by q \<notin> set (columns q)" "\<not> d_less D (d_zero D) (d_zero D)"
  shows "\<not> row_order D q (project (columns q) r1) (project (columns q) r2)"
  using assms by (simp add: row_order_def row_val_def project_lookup)

theorem order_by_unselected_witness:
  "\<not> row_order int_ops (parse_select ''SELECT name FROM t ORDER BY age ASC'')
     (project [''name''] [''age'' \<mapsto> CNum 1]) (project [''name''] [''age'' \<mapsto> CNum 2])"
proof -
  have "columns (parse_select ''SELECT name FROM t ORDER BY age ASC'') = [''name'']"
    "order_by (parse_select ''SELECT name FROM t ORDER BY age ASC'') = ''age''" by code_simp+
  then show ?thesis using order_by_unselected [of "parse_select ''SELECT name FROM t ORDER BY age ASC''" int_ops
      "[''age'' \<mapsto> CNum 1]" "[''age'' \<mapsto> CNum 2]"] by simp
qed

section \<open>The program\<close>

definition student :: "'d double_ops \<Rightarrow> string \<Rightarrow> string \<Rightarrow> string \<Rightarrow> string \<Rightarrow> 'd row" where
  "student D i n a g = [''id'' \<mapsto> CNum (literal D i), ''name'' \<mapsto> CStr n, ''age'' \<mapsto> CNum (literal D a), ''gpa'' \<mapsto> CNum (literal D g)]"

definition students :: "'d double_ops \<Rightarrow> 'd row list" where
  "students D =
     [student D ''1.0'' ''Alice'' ''22.0'' ''3.8'', student D ''2.0'' ''Bob'' ''25.0'' ''2.9'',
      student D ''3.0'' ''Carol'' ''21.0'' ''3.5'', student D ''4.0'' ''Dave'' ''30.0'' ''3.1'']"

definition queries :: "string list" where
  "queries =
     [''SELECT id, name, gpa FROM students WHERE gpa > 3.0 ORDER BY gpa DESC LIMIT 3'',
      ''SELECT * FROM students WHERE age >= 22 && age <= 26'']"

definition run_query :: "'d double_ops \<Rightarrow> (('d row \<Rightarrow> 'd row \<Rightarrow> bool) \<Rightarrow> 'd row list \<Rightarrow> 'd row list)
    \<Rightarrow> ('d row \<Rightarrow> string list) \<Rightarrow> ('d \<Rightarrow> string) \<Rightarrow> string \<Rightarrow> db_error + string" where
  "run_query D std_sort iter showd sql =
     bindE (execute D std_sort (parse_select sql) (students D)) (\<lambda>res.
     Inr (''SQL: '' @ sql @ newline # print_rows iter showd res @ [newline]))"

definition lab7_main :: "'d double_ops \<Rightarrow> (('d row \<Rightarrow> 'd row \<Rightarrow> bool) \<Rightarrow> 'd row list \<Rightarrow> 'd row list)
    \<Rightarrow> ('d row \<Rightarrow> string list) \<Rightarrow> ('d \<Rightarrow> string) \<Rightarrow> db_error + string" where
  "lab7_main D std_sort iter showd =
     bindE (shunting_demo D) (\<lambda>demo.
     bindE (mapE (run_query D std_sort iter showd) queries) (\<lambda>outs. Inr (demo @ concat outs)))"

text \<open>
  What the program's output rests on: \<open>num n\<close> is the \<open>double\<close> nearest to \<open>n\<close> tenths, and these
  numbers are read and compared as they should be.
\<close>

definition reads_tenths :: "'d double_ops \<Rightarrow> (int \<Rightarrow> 'd) \<Rightarrow> bool" where
  "reads_tenths D num \<longleftrightarrow>
     (\<forall>(s, n) \<in> set [(''1.0'', 10), (''2.0'', 20), (''3.0'', 30), (''4.0'', 40), (''22.0'', 220), (''25.0'', 250), (''21.0'', 210),
        (''30.0'', 300), (''3.8'', 38), (''2.9'', 29), (''3.5'', 35), (''3.1'', 31), (''22'', 220), (''26'', 260)]. d_of D s = Some (num n))
     \<and> (\<forall>m n. d_less D (num m) (num n) \<longleftrightarrow> m < n) \<and> (\<forall>m n. d_le D (num m) (num n) \<longleftrightarrow> m \<le> n)
     \<and> d_true D (d_one D) \<and> \<not> d_true D (d_zero D)"

lemma reads_tenthsD:
  assumes "reads_tenths D num"
  shows "literal D ''1.0'' = num 10" "literal D ''2.0'' = num 20" "literal D ''3.0'' = num 30" "literal D ''4.0'' = num 40"
    "literal D ''22.0'' = num 220" "literal D ''25.0'' = num 250" "literal D ''21.0'' = num 210" "literal D ''30.0'' = num 300"
    "literal D ''3.8'' = num 38" "literal D ''2.9'' = num 29" "literal D ''3.5'' = num 35" "literal D ''3.1'' = num 31"
    "stod D ''3.0'' = Some (num 30)" "stod D ''22'' = Some (num 220)" "stod D ''26'' = Some (num 260)"
    "d_less D (num m) (num n) \<longleftrightarrow> m < n" "d_le D (num m) (num n) \<longleftrightarrow> m \<le> n" "d_true D (of_bool D b) \<longleftrightarrow> b"
proof -
  have sub: "subject_sequence ''3.0'' = Some ''3.0''" "subject_sequence ''22'' = Some ''22''" "subject_sequence ''26'' = Some ''26''"
    by code_simp+
  show "literal D ''1.0'' = num 10" "literal D ''2.0'' = num 20" "literal D ''3.0'' = num 30" "literal D ''4.0'' = num 40"
    "literal D ''22.0'' = num 220" "literal D ''25.0'' = num 250" "literal D ''21.0'' = num 210" "literal D ''30.0'' = num 300"
    "literal D ''3.8'' = num 38" "literal D ''2.9'' = num 29" "literal D ''3.5'' = num 35" "literal D ''3.1'' = num 31"
    "stod D ''3.0'' = Some (num 30)" "stod D ''22'' = Some (num 220)" "stod D ''26'' = Some (num 260)"
    "d_less D (num m) (num n) \<longleftrightarrow> m < n" "d_le D (num m) (num n) \<longleftrightarrow> m \<le> n" "d_true D (of_bool D b) \<longleftrightarrow> b"
    using assms by (simp_all add: reads_tenths_def literal_def stod_def sub of_bool_def)
qed

lemma not_numbers: "stod D ''gpa'' = None" "stod D ''age'' = None"
proof -
  have "subject_sequence ''gpa'' = None" "subject_sequence ''age'' = None" by code_simp+
  then show "stod D ''gpa'' = None" "stod D ''age'' = None" by (simp_all add: stod_def)
qed

lemma queries_parsed:
  "parse_select (queries ! 0) = \<lparr>columns = [''id'', ''name'', ''gpa''], sq_from = ''students'', where_raw = ''gpa > 3.0'',
     order_by = ''gpa'', order_asc = False, limit = 3\<rparr>"
  "parse_select (queries ! 1) = \<lparr>columns = [], sq_from = ''students'', where_raw = ''age >= 22 && age <= 26'',
     order_by = [], order_asc = True, limit = -1\<rparr>"
  by code_simp+

lemma queries_rpn:
  "to_rpn (tokenize ''gpa > 3.0'') = Inr [''gpa'', ''3.0'', ''>'']"
  "to_rpn (tokenize ''age >= 22 && age <= 26'') = Inr [''age'', ''22'', ''>='', ''age'', ''26'', ''<='', ''&&'']"
  by code_simp+

text \<open>The WHERE clauses of the two queries on a student.\<close>

lemma queries_keep:
  assumes D: "reads_tenths D num" and g: "literal D g = num m" and a: "literal D a = num n"
  shows "keep_row D [''gpa'', ''3.0'', ''>''] (student D i name a g) = Inr (30 < m)"
    "keep_row D [''age'', ''22'', ''>='', ''age'', ''26'', ''<='', ''&&''] (student D i name a g) = Inr (220 \<le> n \<and> n \<le> 260)"
proof -
  let ?v = "row_vars D (student D i name a g)"
  have v: "?v ''gpa'' = Some (num m)" "?v ''age'' = Some (num n)"
    by (simp_all add: row_vars_def student_def row_val_def g a)
  have ops: "OPS ''gpa'' = None" "OPS ''3.0'' = None" "OPS ''>'' \<noteq> None" "OPS ''age'' = None" "OPS ''22'' = None" "OPS ''26'' = None"
    "OPS ''>='' \<noteq> None" "OPS ''<='' \<noteq> None" "OPS ''&&'' \<noteq> None" by code_simp+
  note r = reads_tenthsD [OF D]
  show "keep_row D [''gpa'', ''3.0'', ''>''] (student D i name a g) = Inr (30 < m)"
    by (simp add: keep_row_def eval_rpn_def ops operand_def not_numbers v r apply_op_def)
  show "keep_row D [''age'', ''22'', ''>='', ''age'', ''26'', ''<='', ''&&''] (student D i name a g) = Inr (220 \<le> n \<and> n \<le> 260)"
    by (simp add: keep_row_def eval_rpn_def ops operand_def not_numbers v r apply_op_def)
qed

lemma student_project:
  "project [''id'', ''name'', ''gpa''] (student D i n a g) = [''id'' \<mapsto> CNum (literal D i), ''name'' \<mapsto> CStr n, ''gpa'' \<mapsto> CNum (literal D g)]"
  by (simp add: project_def student_def)

lemma sorted_unique:
  fixes f :: "'a \<Rightarrow> int"
  assumes "mset xs = mset ys" "sorted (map f xs)" "sorted (map f ys)" "inj_on f (set ys)"
  shows "xs = ys"
proof -
  have "map f xs = map f ys" using assms(1-3) by (metis mset_map properties_for_sort sorted_sort_id)
  moreover have "inj_on f (set xs \<union> set ys)" using assms(1,4) by (metis mset_eq_setD sup.idem)
  ultimately show ?thesis by (rule map_inj_on)
qed

lemma falling_inj:
  fixes f :: "'a \<Rightarrow> int"
  assumes "sorted_wrt (\<lambda>a b. f b < f a) xs"
  shows "inj_on f (set xs)"
proof -
  have "distinct (map f xs)" using assms by (induction xs) force+
  then show ?thesis by (simp add: distinct_map)
qed

text \<open>With rows whose order column holds distinct numbers, any sort that keeps its contract gives the one order.\<close>

lemma sort_by_tenths:
  assumes D: "reads_tenths D num" and srt: "sort_contract std_sort" and q: "order_asc q = False"
    and k: "\<And>row. row \<in> set rows \<Longrightarrow> row_val D row (order_by q) = num (f row)"
    and s: "sorted_wrt (\<lambda>a b. f b < f a) rows"
  shows "std_sort (row_order D q) rows = rows"
proof -
  have lt: "row_order D q a b \<longleftrightarrow> f b < f a" if "a \<in> set rows" "b \<in> set rows" for a b
    using k that q reads_tenthsD(16) [OF D] by (simp add: row_order_def)
  have "strict_weak (row_order D q) (set rows)" unfolding strict_weak_def by (auto simp: lt)
  then have m: "mset (std_sort (row_order D q) rows) = mset rows" and
      o: "sorted_wrt (\<lambda>a b. \<not> row_order D q b a) (std_sort (row_order D q) rows)" using srt by (simp_all add: sort_contract_def)
  have sub: "set (std_sort (row_order D q) rows) = set rows" using m by (rule mset_eq_setD)
  show ?thesis
  proof (rule sorted_unique [where f = "\<lambda>row. - f row", OF m])
    have "sorted_wrt (\<lambda>a b. - f a \<le> - f b) (std_sort (row_order D q) rows)"
      by (rule sorted_wrt_mono_rel [OF _ o]) (auto simp: sub lt)
    then show "sorted (map (\<lambda>row. - f row) (std_sort (row_order D q) rows))" by (simp add: sorted_map)
    have "sorted_wrt (\<lambda>a b. - f a \<le> - f b) rows" by (rule sorted_wrt_mono_rel [OF _ s]) simp
    then show "sorted (map (\<lambda>row. - f row) rows)" by (simp add: sorted_map)
    show "inj_on (\<lambda>row. - f row) (set rows)" using falling_inj [OF s] by (simp add: inj_on_def)
  qed
qed

text \<open>The best three, and those from 22 to 26: Alice, Carol and Dave; Alice and Bob.\<close>

lemma first_query:
  assumes D: "reads_tenths D num" and srt: "sort_contract std_sort"
  shows "execute D std_sort (parse_select (queries ! 0)) (students D)
    = Inr (map (project [''id'', ''name'', ''gpa'']) [students D ! 0, students D ! 2, students D ! 3])"
proof -
  let ?q = "parse_select (queries ! 0)" and ?cs = "[''id'', ''name'', ''gpa'']"
  let ?rows = "map (project ?cs) [students D ! 0, students D ! 2, students D ! 3]"
  let ?f = "\<lambda>row. if row ''name'' = Some (CStr ''Alice'') then 38 else if row ''name'' = Some (CStr ''Carol'') then 35 else (31::int)"
  note r = reads_tenthsD [OF D] and q = queries_parsed(1)
  have "collect_rows D [''gpa'', ''3.0'', ''>''] ?cs (students D) = Inr ?rows"
    by (simp add: students_def queries_keep [OF D] r)
  then have e: "execute D std_sort ?q (students D) = Inr (apply_limit ?q (std_sort (row_order D ?q) ?rows))"
    by (simp add: execute_def q queries_rpn)
  have "std_sort (row_order D ?q) ?rows = ?rows"
  proof (rule sort_by_tenths [OF D srt])
    show "order_asc ?q = False" by (simp add: q)
    show "row_val D row (order_by ?q) = num (?f row)" if "row \<in> set ?rows" for row
      using that by (auto simp: q students_def student_project row_val_def r)
    show "sorted_wrt (\<lambda>a b. ?f b < ?f a) ?rows" by (simp add: students_def student_project)
  qed
  then show ?thesis unfolding e by (simp add: apply_limit_def q)
qed

lemma second_query:
  assumes D: "reads_tenths D num"
  shows "execute D std_sort (parse_select (queries ! 1)) (students D) = Inr [students D ! 0, students D ! 1]"
proof -
  have "collect_rows D [''age'', ''22'', ''>='', ''age'', ''26'', ''<='', ''&&''] [] (students D) = Inr [students D ! 0, students D ! 1]"
    by (simp add: students_def queries_keep [OF D] reads_tenthsD [OF D] project_def)
  then show ?thesis unfolding execute_def queries_parsed(2) by (simp add: queries_rpn apply_limit_def)
qed

theorem lab7_prints:
  assumes "reads_tenths D num" "sort_contract std_sort" "shunting_demo D = Inr demo"
  shows "lab7_main D std_sort iter showd = Inr (demo
    @ ''SQL: '' @ queries ! 0 @ newline # print_rows iter showd
        (map (project [''id'', ''name'', ''gpa'']) [students D ! 0, students D ! 2, students D ! 3]) @ newline
    # ''SQL: '' @ queries ! 1 @ newline # print_rows iter showd [students D ! 0, students D ! 1] @ [newline])"
proof -
  have "queries = [queries ! 0, queries ! 1]" by (simp add: queries_def)
  moreover have "mapE (run_query D std_sort iter showd) [queries ! 0, queries ! 1] = Inr
    [''SQL: '' @ queries ! 0 @ newline # print_rows iter showd
        (map (project [''id'', ''name'', ''gpa'']) [students D ! 0, students D ! 2, students D ! 3]) @ [newline],
     ''SQL: '' @ queries ! 1 @ newline # print_rows iter showd [students D ! 0, students D ! 1] @ [newline]]"
    by (simp add: run_query_def first_query [OF assms(1,2)] second_query [OF assms(1), unfolded One_nat_def])
  ultimately show ?thesis unfolding lab7_main_def assms(3) by simp
qed

text \<open>Exact arithmetic on tenths is such an arithmetic; with the names alone printed, the program writes:\<close>

definition tenth_ops :: "int double_ops" where
  "tenth_ops = \<lparr>d_zero = 0, d_one = 10, d_add = (+), d_sub = (-), d_mul = (\<lambda>a b. a * b div 10), d_div = (\<lambda>a b. a * 10 div b),
     d_pow = (\<lambda>a b. a ^ nat (b div 10)), d_less = (<), d_le = (\<le>), d_eq = (=), d_true = (\<lambda>a. a \<noteq> 0),
     d_of = (\<lambda>s. Some (int (nat_of_dec (filter is_digit s)) * (if CHR ''.'' \<in> set s then 1 else 10)))\<rparr>"

theorem lab7_prints_witness:
  "lab7_main tenth_ops (\<lambda>lt xs. foldr (put_row lt) xs []) (\<lambda>_. [''name'']) (\<lambda>_. []) = Inr (concat (map (\<lambda>l. l @ [newline])
     [''Expression : age * 2 + salary / 1000 > 100'', ''RPN        : age 2 * salary 1000 / + 100 > '', ''Result     : true'', '''',
      ''SQL: '' @ queries ! 0, ''  name=Alice  '', ''  name=Carol  '', ''  name=Dave  '', '''',
      ''SQL: '' @ queries ! 1, ''  name=Alice  '', ''  name=Bob  '', '''']))"
proof -
  have t: "reads_tenths tenth_ops (\<lambda>n. n)"
    by (simp add: reads_tenths_def tenth_ops_def nat_of_dec_def is_digit_def)
  have r: "to_rpn (tokenize ''age * 2 + salary / 1000 > 100'') = Inr [''age'', ''2'', ''*'', ''salary'', ''1000'', ''/'', ''+'', ''100'', ''>'']"
    by code_simp
  have l: "literal tenth_ops ''30'' = 300" "literal tenth_ops ''50000'' = 500000"
    by (simp_all add: literal_def tenth_ops_def nat_of_dec_def is_digit_def)
  have e: "eval_rpn tenth_ops [''age'' \<mapsto> 300, ''salary'' \<mapsto> 500000] [''age'', ''2'', ''*'', ''salary'', ''1000'', ''/'', ''+'', ''100'', ''>''] = Inr 10"
    by code_simp
  have dt: "d_true tenth_ops 10" by (simp add: tenth_ops_def)
  have d: "shunting_demo tenth_ops = Inr (concat (map (\<lambda>l. l @ [newline])
     [''Expression : age * 2 + salary / 1000 > 100'', ''RPN        : age 2 * salary 1000 / + 100 > '', ''Result     : true'', '''']))"
    by (simp add: shunting_demo_def r l e dt)
  show ?thesis unfolding lab7_prints [OF t put_row_contract d]
    by (simp add: print_rows_def cell_text_def students_def student_def project_def)
qed

end
