(* ===== verification/Spec2Isabelle.thy ===== *)
theory Spec2Isabelle
  imports Recovery Benchmark Repl LabPrograms Lab7_Select
begin

text \<open>
  MiniDB (\<open>Capstone-MiniDB/src\<close>) is a single-connection SQL engine: a page file behind a buffer pool,
  slotted heap pages, an in-memory B+ tree on the primary key, a catalog file, a write-ahead log
  with REDO/UNDO recovery, a lexer, parser, cost-based optimizer and pull-based executor, and a
  read-execute-print loop. Beside the engine stands a multi-threaded transaction manager with an
  MVCC and a strict 2PL mode. The repository's \<open>LAB-*\<close> directories are stand-alone programs on the
  same subjects: a clock-sweep cache, a red-black tree, a B-tree, a query processor and a
  transaction manager with row locks and version chains.

  \<^bold>\<open>How the code is modelled.\<close> A C++ object is a record, an enum a datatype, a mutable object behind a
  reference a state that is passed explicitly: an operation on a state \<open>'s\<close> has type
  \<open>('s, 'a) stm = 's \<Rightarrow> (db_error + 'a) \<times> 's\<close> (Prelude), so an exception keeps the state reached when it
  was thrown. \<open>RuntimeError\<close> carries the message, \<open>OutOfRange\<close> is \<open>std::out_of_range\<close>, and \<open>MemFault\<close>
  is an access outside an object, which C++ leaves undefined. Bytes and strings are char lists,
  sizes \<open>nat\<close>, \<open>int64_t\<close> values \<open>int\<close> in range (\<open>in_int64\<close>), 16-bit page fields are written with
  their wrap-around (\<open>u16\<close>).

  \<^bold>\<open>The theories\<close>, bottom up, with the files they model:
  \<^item> Prelude: the two monads (\<open>bindE\<close>, \<open>bindS\<close>) with their simplification and congruence rules.
  \<^item> Common (\<open>common/types.hpp\<close>, \<open>common/value.hpp\<close>): row ids, values and their comparison, decimal
    text. SlottedPage (\<open>storage/page.hpp\<close>): a page as its 4096 bytes, refined to the list of its
    slots.
  \<^item> DiskManager, BufferPool, HeapFile (\<open>storage/*.cpp\<close>): the data file as bytes; frames, clock
    sweep and pins, with the contents of all pages (\<open>page_view\<close>) as the abstraction; rows as a
    finite map from row ids. Locale \<open>page_cache\<close> is what a heap asks of a cache, \<open>row_store\<close> what a
    table asks of a heap; both are interpreted on the code's operations.
  \<^item> BPlusTree (\<open>index/bplus_tree.cpp\<close>): nodes with addresses, since the range scan follows the
    leaf chain; the invariant \<open>bp_inv\<close> (order, fill, depth, chain) and the refinement of a finite
    map, stated once as the locale \<open>ordered_index\<close>.
  \<^item> Schema, Catalog (\<open>catalog/*.cpp\<close>), Wal (\<open>recovery/wal.cpp\<close>): row and record encodings, the
    catalog file's text, the log's bytes.
  \<^item> Database (\<open>catalog/database.cpp\<close>): sessions, undo lists, the physical operations and the
    recovery passes, each with its counterpart on an abstract database (\<open>adb\<close>, \<open>db_contents\<close>).
    Recovery: what replaying any log yields, record by record and for the whole log.
  \<^item> TransactionManager (\<open>txn/*\<close>): each member function under the mutex is one step; waiting on the
    condition variable ends a step. \<open>sys_step\<close> is the step relation of any number of
    transactions, \<open>reachable\<close> its closure, and the invariants are proved by rule induction.
    Benchmark (\<open>benchmarks/bench_mvcc_vs_2pl.cpp\<close>): the reader and writer threads as a step relation
    of their own, which \<open>bench_simulated\<close> shows to be a refinement of \<open>sys_step\<close>; \<open>notify_all\<close> records
    whom a commit or an abort has woken, and \<open>notified_step\<close> lets no other sleeper run.
  \<^item> Lexer, Parser (\<open>query/lexer.cpp\<close>, \<open>query/parser.cpp\<close>): tokens and the recursive descent, with
    a printer for statements as their specification.
  \<^item> Optimizer, Executor (\<open>query/optimizer.cpp\<close>, \<open>query/executor.cpp\<close>): the plan choice over real
    numbers; a pull operator is the sequence of rows it delivers up to an exception (\<open>pulls\<close>).
    Query, Statements, Session state what SELECT, DELETE, INSERT and whole transactions do to the
    abstract database.
  \<^item> Repl (\<open>main.cpp\<close>): line commands, cutting the buffer into statements, printing results.
  \<^item> Lab3_ClockCache (\<open>LAB-3/sol.cpp\<close>): the cache template, with reference counts of 32 bits.
  \<^item> Inserts: the locales \<open>insertable\<close> and \<open>searchable\<close>, what the two search trees have in common:
    an insertion adds one element to what a state represents, a search answers by it.
    Lab5_RedBlack (\<open>LAB-5/red_black_tree.cpp\<close>): nodes with parent pointers in an explicit store,
    refined to trees through the path from a node to the root. Lab6_BTree
    (\<open>LAB-6/btree_index.cpp\<close>): insertion with splits on the way down, refined to a multiset of rows.
  \<^item> Lab7_Expr, Lab7_Select (\<open>LAB-7/sql_query_processor.cpp\<close>): tokens, shunting-yard and evaluation
    against a grammar with precedences; SELECT parsing and execution. Floating point, the order
    \<open>std::sort\<close> leaves open and the order of an \<open>unordered_map\<close> are arguments, with their documented
    laws as hypotheses.
  \<^item> Lab8_TxnManager (\<open>LAB-8/txn_manager.cpp\<close>): version chains, lock queues, the waits-for graph. As
    in TransactionManager, a call is one step up to its return or to its wait, and \<open>lab8_step\<close> is the
    step relation of all threads.
    LabPrograms: the \<open>main\<close> programs of LAB-3, 5, 6 and 8 and the text they print; that of LAB-7 ends
    Lab7_Select (\<open>lab7_prints\<close>).

  \<^bold>\<open>What the lemmas show.\<close> Storage: each operation refines an update of a finite map and leaves
  other pages and tables alone (\<open>same_outside\<close>). Index: search, insert, erase and range scan are
  lookup, update, deletion and an interval of the map. Encodings: round trips, the exact error
  cases, torn logs. Database: \<open>db_ok\<close> (heap and index agree, pages are disjoint, no page is
  pinned) is kept by every statement; ROLLBACK restores all contents, recovery and reopening those
  of the keys whose log records are committed ones followed by losers (\<open>key_history\<close>).
  Transactions: lock safety, absence of deadlock, stable snapshots, first committer wins;
  carried over to the benchmark, whose threads fail only as their mode allows and, once stopped,
  all end in every schedule, without a spurious wake-up (\<open>bench_returns\<close>).
  Queries: every plan computes the relational meaning of its statement, with WHERE read over the
  linear order of values (\<open>where_holds\<close>, \<open>sqlval\<close>); the REPL on a text does
  what the executor does on its syntax trees. Search trees: any insertions end without a bad
  access and leave a balanced tree of exactly what was inserted. Expressions: a text has the
  value of the tree it denotes.

  \<^bold>\<open>Bounds and fuel.\<close> No definition has fuel. The clock sweep stops after two rounds, as the code
  does; the B+ tree's range scan follows \<open>next\<close> pointers by a \<open>partial_function (option)\<close>, where
  \<open>None\<close> is a scan that never returns, and \<open>bp_rangeScan_exact\<close> shows that it returns; the
  depth-first searches of \<open>hasCycle\<close> and \<open>has_cycle\<close> are total by the number of unvisited nodes.
  The loops of LAB-5 follow pointers, so they are \<open>partial_function (option)\<close> too, and the theorems
  on insertion, validation and destruction show that they return. \<open>putKey\<close> of LAB-3 terminates by the sum
  of the reference counts. Loops of the parsers and the lexers consume input. The nesting limit of 500 and the page, frame and order constants are the code's.

  \<^bold>\<open>Findings.\<close> The properties on errors state what the code does where it departs from its
  intention: a clean restart can lose a committed row (\<open>restart_loses_reinserted_row\<close>); a fetch of a bad
  page id leaks a frame; a semicolon inside a literal cuts the statement. As theorems of their
  theories: an INSERT that throws leaves its implicit transaction open
  (\<open>insertRow_too_large_leaves_txn_open\<close>), a DELETE outside a transaction is not atomic
  (\<open>delete_logs_each_row\<close>), the 16-bit directory end wraps on a corrupt header
  (\<open>insertTuple_corrupt_header_faults\<close>), records appended behind a torn one are unreadable
  (\<open>readAll_append_after_torn\<close>), an image of 64 KiB is stored cut off (\<open>physInsert_truncates\<close>). The benchmark's
  column \<open>rd-blocks\<close> shows aborted readers, which MVCC never has (\<open>bench_modes\<close>).

  In the exercises: a second \<open>putKey\<close> of a key is not seen (\<open>putKey_twice_stale\<close>); \<open>isValid\<close> rejects
  correct trees with the least or greatest \<open>int\<close> (\<open>isValid_exact\<close>); a WHERE clause without an operand
  reads an empty stack (\<open>eval_rpn_underflow\<close>), names such as \<open>info\<close> are read as numbers
  (\<open>numeric_names_not_variables\<close>), ORDER BY without a direction swallows LIMIT
  (\<open>order_by_swallows_limit\<close>) and does not sort by a column that is not selected
  (\<open>order_by_unselected\<close>); two writers can hold one exclusive lock (\<open>exclusive_beside_exclusive\<close>), and a
  shared lock can stand beside an exclusive one (\<open>exclusive_beside_shared\<close>), committed updates are lost
  (\<open>concurrent_update_lost\<close>), and a snapshot sees later commits of older transactions
  (\<open>late_commit_visible\<close>).

  \<^bold>\<open>Not modelled.\<close> Failing streams (the code does not test for them), the optimizer's and the
  REPL's notices on stderr, rounding of \<open>double\<close> in the cost model (costs are real numbers),
  \<open>std::hash\<close>, and destructors that only free memory or close a file, other than that of LAB-5. The
  destructor of a database is \<open>db_destroy\<close>; behind the flush at the end of \<open>main\<close> it changes nothing
  (\<open>destroy_flushes\<close>), so Repl stops at the flush. The benchmark's clock is a step that can happen at
  any time, its random numbers are arbitrary, and its \<open>main\<close>, which prints the counters, is left
  out. In LAB-8, threads are modelled by the order of their steps; a call is not interrupted between
  the mutexes it takes one after the other.
\<close>

end
